(* ===== verification/Prelude.thy ===== *)
theory Prelude
  imports Main "HOL-Library.Multiset" "HOL-Library.Word"
begin

text \<open>
  Shared vocabulary of the development.  Rust's \<open>Result<T, E>\<close> is the sum \<open>'e + 'a\<close> with
  \<open>Err\<close> on the left and \<open>Ok\<close> on the right; the question-mark operator is \<open>and_then\<close>, a
  \<open>for\<close> loop with early returns is \<open>try_fold\<close>, and \<open>collect::<Result<Vec<_>>>\<close> is
  \<open>traverse\<close>.  \<open>usize\<close> is \<open>nat\<close> and \<open>isize\<close> is \<open>int\<close>, with the 64-bit range written out in
  the checked and saturating operations.  The rest are list facts used by several components.
\<close>

named_theorems checked_defs "definitions of the 64-bit checked operations"

section \<open>Results\<close>

abbreviation Ok :: "'a \<Rightarrow> 'e + 'a" where "Ok \<equiv> Inr"
abbreviation Err :: "'e \<Rightarrow> 'e + 'a" where "Err \<equiv> Inl"

definition and_then :: "'e + 'a \<Rightarrow> ('a \<Rightarrow> 'e + 'b) \<Rightarrow> 'e + 'b" where
  "and_then r f = (case r of Inl e \<Rightarrow> Inl e | Inr a \<Rightarrow> f a)"

definition ok_or :: "'a option \<Rightarrow> 'e \<Rightarrow> 'e + 'a" where
  "ok_or x e = (case x of None \<Rightarrow> Inl e | Some a \<Rightarrow> Inr a)"

definition is_ok :: "'e + 'a \<Rightarrow> bool" where
  "is_ok r = (case r of Inl _ \<Rightarrow> False | Inr _ \<Rightarrow> True)"

primrec try_fold :: "('s \<Rightarrow> 'a \<Rightarrow> 'e + 's) \<Rightarrow> 's \<Rightarrow> 'a list \<Rightarrow> 'e + 's" where
  "try_fold f s [] = Inr s"
| "try_fold f s (x # xs) = and_then (f s x) (\<lambda>s'. try_fold f s' xs)"

primrec traverse :: "('a \<Rightarrow> 'e + 'b) \<Rightarrow> 'a list \<Rightarrow> 'e + 'b list" where
  "traverse f [] = Inr []"
| "traverse f (x # xs) = and_then (f x) (\<lambda>y. and_then (traverse f xs) (\<lambda>ys. Inr (y # ys)))"

lemma and_then_Inr [simp]: "and_then (Inr a) f = f a"
  by (simp add: and_then_def)

lemma and_then_Inl [simp]: "and_then (Inl e) f = Inl e"
  by (simp add: and_then_def)

lemma and_then_eq_Inr [simp]: "and_then r f = Inr b \<longleftrightarrow> (\<exists>a. r = Inr a \<and> f a = Inr b)"
  by (simp add: and_then_def split: sum.splits)

lemma and_then_eq_Inl [simp]:
  "and_then r f = Inl e \<longleftrightarrow> r = Inl e \<or> (\<exists>a. r = Inr a \<and> f a = Inl e)"
  by (simp add: and_then_def split: sum.splits)

lemma and_then_assoc: "and_then (and_then r f) g = and_then r (\<lambda>x. and_then (f x) g)"
  by (simp add: and_then_def split: sum.splits)

lemma ok_or_Some [simp]: "ok_or (Some a) e = Inr a"
  by (simp add: ok_or_def)

lemma ok_or_None [simp]: "ok_or None e = Inl e"
  by (simp add: ok_or_def)

lemma ok_or_eq_Inr [simp]: "ok_or x e = Inr a \<longleftrightarrow> x = Some a"
  by (simp add: ok_or_def split: option.splits)

lemma ok_or_eq_Inl [simp]: "ok_or x e = Inl e' \<longleftrightarrow> x = None \<and> e' = e"
  by (auto simp: ok_or_def split: option.splits)

lemma is_ok_simps [simp]: "is_ok (Inr a)" "\<not> is_ok (Inl e)"
  by (simp_all add: is_ok_def)

lemma is_ok_iff: "is_ok r \<longleftrightarrow> (\<exists>a. r = Inr a)"
  by (cases r) simp_all

lemma not_Inr_iff: "(\<forall>a. r \<noteq> Inr a) \<longleftrightarrow> (\<exists>e. r = Inl e)"
  by (cases r) simp_all

lemma try_fold_append:
  "try_fold f s (xs @ ys) = and_then (try_fold f s xs) (\<lambda>s'. try_fold f s' ys)"
  by (induction xs arbitrary: s) (simp_all add: and_then_assoc)

text \<open>An invariant of the loop body is an invariant of the loop.\<close>

lemma try_fold_inv:
  assumes "try_fold f s xs = Inr t" and "P s"
    and "\<And>s x s'. x \<in> set xs \<Longrightarrow> P s \<Longrightarrow> f s x = Inr s' \<Longrightarrow> P s'"
  shows "P t"
  using assms
proof (induction xs arbitrary: s)
  case Nil
  then show ?case by simp
next
  case (Cons x xs)
  from Cons.prems(1) obtain s1 where s1: "f s x = Inr s1" "try_fold f s1 xs = Inr t"
    by auto
  have "P s1" using Cons.prems(2,3) s1(1) by (metis list.set_intros(1))
  then show ?case
    using Cons.IH [OF s1(2)] Cons.prems(3) by (metis list.set_intros(2))
qed

text \<open>The loop returns when every step from a state satisfying the invariant does.\<close>

lemma try_fold_total:
  assumes "P s"
    and "\<And>s x. x \<in> set xs \<Longrightarrow> P s \<Longrightarrow> \<exists>s'. f s x = Inr s' \<and> P s'"
  shows "\<exists>t. try_fold f s xs = Inr t \<and> P t"
  using assms
proof (induction xs arbitrary: s)
  case Nil
  then show ?case by simp
next
  case (Cons x xs)
  from Cons.prems(2) [of x s] Cons.prems(1) obtain s1 where "f s x = Inr s1" "P s1" by auto
  then show ?case using Cons.IH [of s1] Cons.prems(2) by auto
qed

lemma traverse_eq_Inr:
  "traverse f xs = Inr ys \<longleftrightarrow> length ys = length xs \<and> (\<forall>i < length xs. f (xs ! i) = Inr (ys ! i))"
proof (induction xs arbitrary: ys)
  case Nil
  then show ?case by auto
next
  case (Cons x xs)
  show ?case
  proof
    assume "traverse f (x # xs) = Inr ys"
    then obtain z zs where "f x = Inr z" "traverse f xs = Inr zs" "ys = z # zs" by auto
    moreover from this Cons.IH [of zs]
    have "length zs = length xs \<and> (\<forall>i < length xs. f (xs ! i) = Inr (zs ! i))" by simp
    ultimately show "length ys = length (x # xs) \<and> (\<forall>i < length (x # xs). f ((x # xs) ! i) = Inr (ys ! i))"
      by (auto simp: nth_Cons split: nat.splits)
  next
    assume a: "length ys = length (x # xs) \<and> (\<forall>i < length (x # xs). f ((x # xs) ! i) = Inr (ys ! i))"
    then obtain z zs where ys: "ys = z # zs" by (cases ys) auto
    from a have "\<forall>i < Suc (length xs). f ((x # xs) ! i) = Inr ((z # zs) ! i)" by (simp add: ys)
    then have "f x = Inr z" and "\<forall>i < length xs. f (xs ! i) = Inr (zs ! i)" by fastforce+
    moreover have "length zs = length xs" using a by (simp add: ys)
    ultimately show "traverse f (x # xs) = Inr ys" using Cons.IH ys by simp
  qed
qed

lemma traverse_length: "traverse f xs = Inr ys \<Longrightarrow> length ys = length xs"
  by (simp add: traverse_eq_Inr)

lemma traverse_map_Inr: "(\<And>x. x \<in> set xs \<Longrightarrow> f x = Inr (g x)) \<Longrightarrow> traverse f xs = Inr (map g xs)"
  by (induction xs) auto

lemma traverse_append:
  "traverse f (xs @ ys) =
    and_then (traverse f xs) (\<lambda>as. and_then (traverse f ys) (\<lambda>bs. Inr (as @ bs)))"
proof (induction xs)
  case Nil
  show ?case by (cases "traverse f ys") simp_all
next
  case (Cons x xs)
  then show ?case by (simp add: and_then_def split: sum.splits)
qed

lemma traverse_inverse:
  assumes "\<And>x y. f x = Inr y \<longleftrightarrow> x = g y \<and> P y"
  shows "traverse f xs = Inr ys \<longleftrightarrow> xs = map g ys \<and> list_all P ys"
proof (induction xs arbitrary: ys)
  case Nil
  show ?case by auto
next
  case (Cons x xs)
  show ?case by (cases ys) (auto simp: assms Cons.IH)
qed

section \<open>Machine integers of a 64-bit target\<close>

definition usize_max :: nat where "usize_max = 18446744073709551615"
definition isize_max :: int where "isize_max = 9223372036854775807"
definition isize_min :: int where "isize_min = - 9223372036854775808"

definition usize_ok :: "nat \<Rightarrow> bool" where "usize_ok n \<longleftrightarrow> n \<le> usize_max"
definition isize_ok :: "int \<Rightarrow> bool" where "isize_ok i \<longleftrightarrow> isize_min \<le> i \<and> i \<le> isize_max"

definition checked_add :: "nat \<Rightarrow> nat \<Rightarrow> nat option" where
  "checked_add a b = (if a + b \<le> usize_max then Some (a + b) else None)"
definition checked_sub :: "nat \<Rightarrow> nat \<Rightarrow> nat option" where
  "checked_sub a b = (if b \<le> a then Some (a - b) else None)"
definition checked_mul :: "nat \<Rightarrow> nat \<Rightarrow> nat option" where
  "checked_mul a b = (if a * b \<le> usize_max then Some (a * b) else None)"
definition checked_div :: "nat \<Rightarrow> nat \<Rightarrow> nat option" where
  "checked_div a b = (if b = 0 then None else Some (a div b))"

definition saturating_add :: "nat \<Rightarrow> nat \<Rightarrow> nat" where
  "saturating_add a b = min (a + b) usize_max"
definition saturating_sub :: "nat \<Rightarrow> nat \<Rightarrow> nat" where
  "saturating_sub a b = (if b \<le> a then a - b else 0)"
definition saturating_mul :: "nat \<Rightarrow> nat \<Rightarrow> nat" where
  "saturating_mul a b = min (a * b) usize_max"

definition ichecked_add :: "int \<Rightarrow> int \<Rightarrow> int option" where
  "ichecked_add a b = (if isize_ok (a + b) then Some (a + b) else None)"
definition ichecked_mul :: "int \<Rightarrow> int \<Rightarrow> int option" where
  "ichecked_mul a b = (if isize_ok (a * b) then Some (a * b) else None)"
definition ichecked_neg :: "int \<Rightarrow> int option" where
  "ichecked_neg a = (if isize_ok (- a) then Some (- a) else None)"

definition isize_try_from :: "nat \<Rightarrow> int option" where
  "isize_try_from n = (if int n \<le> isize_max then Some (int n) else None)"
definition usize_try_from :: "int \<Rightarrow> nat option" where
  "usize_try_from i = (if 0 \<le> i \<and> nat i \<le> usize_max then Some (nat i) else None)"

lemmas [checked_defs] =
  checked_add_def checked_sub_def checked_mul_def checked_div_def
  saturating_add_def saturating_sub_def saturating_mul_def
  ichecked_add_def ichecked_mul_def ichecked_neg_def isize_try_from_def usize_try_from_def

lemmas int_range_defs = usize_ok_def isize_ok_def usize_max_def isize_max_def isize_min_def

lemma checked_add_eq [simp]: "checked_add a b = Some c \<longleftrightarrow> c = a + b \<and> a + b \<le> usize_max"
  by (auto simp: checked_add_def)

lemma checked_sub_eq [simp]: "checked_sub a b = Some c \<longleftrightarrow> b \<le> a \<and> c = a - b"
  by (auto simp: checked_sub_def)

lemma checked_mul_eq [simp]: "checked_mul a b = Some c \<longleftrightarrow> c = a * b \<and> a * b \<le> usize_max"
  by (auto simp: checked_mul_def)

lemma checked_div_eq [simp]: "checked_div a b = Some c \<longleftrightarrow> b \<noteq> 0 \<and> c = a div b"
  by (auto simp: checked_div_def)

lemma ichecked_add_eq [simp]: "ichecked_add a b = Some c \<longleftrightarrow> c = a + b \<and> isize_ok (a + b)"
  by (auto simp: ichecked_add_def)

lemma ichecked_mul_eq [simp]: "ichecked_mul a b = Some c \<longleftrightarrow> c = a * b \<and> isize_ok (a * b)"
  by (auto simp: ichecked_mul_def)

lemma ichecked_neg_eq [simp]: "ichecked_neg a = Some c \<longleftrightarrow> c = - a \<and> isize_ok (- a)"
  by (auto simp: ichecked_neg_def)

lemma isize_try_from_eq [simp]: "isize_try_from n = Some i \<longleftrightarrow> i = int n \<and> int n \<le> isize_max"
  by (auto simp: isize_try_from_def)

lemma usize_try_from_eq [simp]:
  "usize_try_from i = Some n \<longleftrightarrow> 0 \<le> i \<and> n = nat i \<and> nat i \<le> usize_max"
  by (auto simp: usize_try_from_def)

lemma usize_try_from_nat [simp]: "0 \<le> i \<Longrightarrow> nat i \<le> usize_max \<Longrightarrow> usize_try_from i = Some (nat i)"
  by simp

lemma checked_None [simp]:
  "checked_add a b = None \<longleftrightarrow> usize_max < a + b"
  "checked_sub a b = None \<longleftrightarrow> a < b"
  "checked_mul a b = None \<longleftrightarrow> usize_max < a * b"
  "checked_div a b = None \<longleftrightarrow> b = 0"
  "ichecked_add c d = None \<longleftrightarrow> \<not> isize_ok (c + d)"
  "ichecked_mul c d = None \<longleftrightarrow> \<not> isize_ok (c * d)"
  "ichecked_neg c = None \<longleftrightarrow> \<not> isize_ok (- c)"
  "isize_try_from n = None \<longleftrightarrow> isize_max < int n"
  by (auto simp: checked_defs)

lemma isize_ok_0 [simp]: "isize_ok 0"
  by (simp add: int_range_defs)

lemma isize_ok_1 [simp]: "isize_ok 1"
  by (simp add: int_range_defs)

lemma isize_ok_nonneg_usize: "isize_ok i \<Longrightarrow> nat i \<le> usize_max"
  unfolding int_range_defs by linarith

section \<open>Lists\<close>

text \<open>\<open>Vec::remove\<close> and \<open>Vec::insert\<close>, at positions in range.\<close>

definition remove_at :: "nat \<Rightarrow> 'a list \<Rightarrow> 'a list" where
  "remove_at i xs = take i xs @ drop (Suc i) xs"

lemma length_remove_at: "i < length xs \<Longrightarrow> length (remove_at i xs) = length xs - 1"
  by (simp add: remove_at_def)

definition insert_at :: "nat \<Rightarrow> 'a \<Rightarrow> 'a list \<Rightarrow> 'a list" where
  "insert_at i x xs = take i xs @ x # drop i xs"

lemma length_insert_at: "i \<le> length xs \<Longrightarrow> length (insert_at i x xs) = Suc (length xs)"
  by (simp add: insert_at_def)

text \<open>\<open>Vec::get\<close>: reading out of range is \<open>None\<close>.\<close>

definition get :: "'a list \<Rightarrow> nat \<Rightarrow> 'a option" where
  "get xs i = (if i < length xs then Some (xs ! i) else None)"

lemma get_Some [simp]: "get xs i = Some x \<longleftrightarrow> i < length xs \<and> xs ! i = x"
  by (auto simp: get_def)

lemma get_None [simp]: "get xs i = None \<longleftrightarrow> length xs \<le> i"
  by (auto simp: get_def)

text \<open>\<open>iter().enumerate()\<close>.\<close>

lemma in_set_zip_upt:
  "e \<in> set (zip [0..<length xs] xs) \<longleftrightarrow> fst e < length xs \<and> snd e = xs ! fst e"
  by (cases e) (auto simp: set_zip intro: exI [of _ "fst e"])

definition enum_from :: "nat \<Rightarrow> 'a list \<Rightarrow> (nat \<times> 'a) list" where
  "enum_from k xs = zip [k..<k + length xs] xs"

lemma enum_from_Nil [simp]: "enum_from k [] = []"
  by (simp add: enum_from_def)

lemma enum_from_Cons [simp]: "enum_from k (x # xs) = (k, x) # enum_from (Suc k) xs"
  using upt_conv_Cons [of k "k + length (x # xs)"] by (simp add: enum_from_def)

lemma zip_upt_enum: "zip [0..<length xs] xs = enum_from 0 xs"
  by (simp add: enum_from_def)

text \<open>\<open>slice::sort_by\<close>: the stable sort by a comparison, here stable insertion.\<close>

fun insert_by :: "('a \<Rightarrow> 'a \<Rightarrow> bool) \<Rightarrow> 'a \<Rightarrow> 'a list \<Rightarrow> 'a list" where
  "insert_by le x [] = [x]"
| "insert_by le x (y # ys) = (if le x y then x # y # ys else y # insert_by le x ys)"

definition sort_by :: "('a \<Rightarrow> 'a \<Rightarrow> bool) \<Rightarrow> 'a list \<Rightarrow> 'a list" where
  "sort_by le xs = foldr (insert_by le) xs []"

lemma mset_insert_by [simp]: "mset (insert_by le x ys) = add_mset x (mset ys)"
  by (induction ys) auto

lemma mset_sort_by [simp]: "mset (sort_by le xs) = mset xs"
  unfolding sort_by_def by (induction xs) auto

lemma set_sort_by [simp]: "set (sort_by le xs) = set xs"
  by (metis mset_sort_by set_mset_mset)

lemma length_sort_by [simp]: "length (sort_by le xs) = length xs"
  by (metis mset_sort_by size_mset)

lemma sum_list_sort_by: "sum_list (map f (sort_by le xs)) = sum_list (map f xs :: 'b::comm_monoid_add list)"
  by (simp flip: sum_mset_sum_list)

lemma set_insert_by [simp]: "set (insert_by le x ys) = insert x (set ys)"
  by (metis mset_insert_by set_mset_add_mset_insert set_mset_mset)

lemma sorted_insert_by:
  assumes "\<And>a b. le a b \<or> le b a" and "\<And>a b c. le a b \<Longrightarrow> le b c \<Longrightarrow> le a c"
  shows "sorted_wrt le ys \<Longrightarrow> sorted_wrt le (insert_by le x ys)"
proof (induction ys)
  case Nil
  then show ?case by simp
next
  case (Cons y ys)
  show ?case
  proof (cases "le x y")
    case True
    with Cons.prems assms(2) show ?thesis by auto
  next
    case False
    with assms(1) have "le y x" by blast
    with False Cons show ?thesis by auto
  qed
qed

lemma sorted_sort_by:
  assumes "\<And>a b. le a b \<or> le b a" and "\<And>a b c. le a b \<Longrightarrow> le b c \<Longrightarrow> le a c"
  shows "sorted_wrt le (sort_by le xs)"
  unfolding sort_by_def by (induction xs) (auto intro: sorted_insert_by [OF assms])

lemma insert_by_map:
  "insert_by le (f x) (map f xs) = map f (insert_by (\<lambda>a b. le (f a) (f b)) x xs)"
  by (induction xs) auto

lemma sort_by_map: "sort_by le (map f xs) = map f (sort_by (\<lambda>a b. le (f a) (f b)) xs)"
  unfolding sort_by_def by (induction xs) (auto simp: insert_by_map)

lemma prod_list_pos_iff: "0 < prod_list (xs :: nat list) \<longleftrightarrow> 0 \<notin> set xs"
  by (induction xs) auto

lemma prod_list_zero_iff: "prod_list (xs :: nat list) = 0 \<longleftrightarrow> 0 \<in> set xs"
  by (induction xs) auto

lemma prod_list_take_le:
  "0 \<notin> set (xs :: nat list) \<Longrightarrow> prod_list (take k xs) \<le> prod_list xs"
proof -
  assume z: "0 \<notin> set xs"
  then have "0 \<notin> set (drop k xs)" by (meson in_set_dropD)
  then have "0 < prod_list (drop k xs)" by (simp add: prod_list_pos_iff)
  moreover have "prod_list xs = prod_list (take k xs) * prod_list (drop k xs)"
    by (metis append_take_drop_id prod_list.append)
  ultimately show ?thesis by simp
qed

end
