(* ===== verification/Tensor_Core.thy ===== *)
theory Tensor_Core
  imports Prelude
begin

text \<open>
  The vocabulary of \<open>crates/tenferro-tensor-core\<close>: the validation errors (\<open>error.rs\<close>), the
  closed scalar set with its promotion rule (\<open>scalar_set.rs\<close>, \<open>lib.rs\<close>), ranks (\<open>rank.rs\<close>) and
  the shape arithmetic of \<open>lib.rs\<close>: checked products, column-major strides and permutation
  checks.  The second half holds the index arithmetic the layouts and views rest on: index
  vectors in range, their column-major position \<open>lin\<close> and the odometer step.
\<close>

section \<open>Errors\<close>

type_synonym shape = "nat list"
type_synonym strides = "int list"

datatype member_kind = Boolean | Integer | Float | Complex | External_Kind

datatype dtype = F32 | F64 | I32 | I64 | BoolT | C32 | C64 | External nat

datatype shape_mismatch =
    IncompatibleShapes shape shape
  | ExpectedActual shape shape
  | ReshapeElementCount nat nat
  | ContractedDimensions nat nat nat nat

datatype validation_error =
    ShapeMismatch shape_mismatch
  | ShapeDataLengthMismatch nat nat
  | RankMismatch nat nat
  | AxisOutOfBounds nat nat
  | DuplicateAxis nat string
  | AxisRoleConflict nat string string
  | InvalidPermutationLength nat nat
  | InvalidSliceStep int
  | InvalidSliceBounds int int nat
  | DTypeMismatch dtype dtype
  | InvalidArgument string string
  | NonContiguousViewAsSlice
  | ViewOutOfBounds
  | OverlappingMutableLayout
  | IntegerOverflow

datatype validation_kind = VShapeMismatch | VRankMismatch | VAxisOutOfBounds | VDTypeMismatch | VInvalidArgument

fun error_kind :: "validation_error \<Rightarrow> validation_kind" where
  "error_kind (ShapeMismatch _) = VShapeMismatch"
| "error_kind (ShapeDataLengthMismatch _ _) = VShapeMismatch"
| "error_kind (RankMismatch _ _) = VRankMismatch"
| "error_kind (InvalidPermutationLength _ _) = VRankMismatch"
| "error_kind (AxisOutOfBounds _ _) = VAxisOutOfBounds"
| "error_kind (DTypeMismatch _ _) = VDTypeMismatch"
| "error_kind _ = VInvalidArgument"

type_synonym 'a res = "validation_error + 'a"

section \<open>The scalar set and its promotion rule\<close>

definition u32_max :: nat where "u32_max = 4294967295"

record member_spec =
  ms_kind :: member_kind
  ms_level :: nat
  ms_width :: nat

definition new_spec :: "member_kind \<Rightarrow> nat \<Rightarrow> nat \<Rightarrow> member_spec" where
  "new_spec k l w = \<lparr>ms_kind = k, ms_level = l, ms_width = w\<rparr>"

fun promote_specs :: "member_spec \<Rightarrow> member_spec \<Rightarrow> member_spec" where
  "promote_specs lhs rhs =
    (case (ms_kind lhs, ms_kind rhs) of
       (Boolean, _) \<Rightarrow> rhs
     | (_, Boolean) \<Rightarrow> lhs
     | (External_Kind, _) \<Rightarrow> lhs
     | (_, External_Kind) \<Rightarrow> rhs
     | (Integer, Float) \<Rightarrow> new_spec Float u32_max u32_max
     | (Float, Integer) \<Rightarrow> new_spec Float u32_max u32_max
     | (Integer, Complex) \<Rightarrow> new_spec Complex u32_max u32_max
     | (Complex, Integer) \<Rightarrow> new_spec Complex u32_max u32_max
     | (Float, Complex) \<Rightarrow>
         new_spec Complex 0 (if ms_width rhs \<le> ms_width lhs then ms_width lhs else ms_width rhs)
     | (Complex, Float) \<Rightarrow>
         new_spec Complex 0 (if ms_width rhs \<le> ms_width lhs then ms_width lhs else ms_width rhs)
     | _ \<Rightarrow> (if ms_level rhs \<le> ms_level lhs then lhs else rhs))"

fun spec :: "dtype \<Rightarrow> member_spec" where
  "spec F32 = new_spec Float 0 32"
| "spec F64 = new_spec Float 1 64"
| "spec I32 = new_spec Integer 0 32"
| "spec I64 = new_spec Integer 1 64"
| "spec BoolT = new_spec Boolean 0 0"
| "spec C32 = new_spec Complex 0 32"
| "spec C64 = new_spec Complex 1 64"
| "spec (External _) = new_spec External_Kind 0 0"

definition TAGS :: "dtype list" where
  "TAGS = [F32, F64, I32, I64, BoolT, C32, C64]"

text \<open>Whether a candidate replaces the member chosen so far: the narrowest wide enough one, else
  the widest.\<close>

definition better_member :: "member_spec \<Rightarrow> (dtype \<times> member_spec) option \<Rightarrow> member_spec \<Rightarrow> bool" where
  "better_member target chosen sp =
    (case chosen of
       None \<Rightarrow> True
     | Some (_, cur) \<Rightarrow>
         (case (ms_width target \<le> ms_width cur, ms_width target \<le> ms_width sp) of
            (False, True) \<Rightarrow> True
          | (True, False) \<Rightarrow> False
          | (True, True) \<Rightarrow>
              ms_width sp < ms_width cur \<or> (ms_width sp = ms_width cur \<and> ms_level sp < ms_level cur)
          | (False, False) \<Rightarrow>
              ms_width cur < ms_width sp \<or> (ms_width sp = ms_width cur \<and> ms_level sp < ms_level cur)))"

fun choose_member ::
  "member_spec \<Rightarrow> (dtype \<times> member_spec) option \<Rightarrow> dtype list \<Rightarrow> (dtype \<times> member_spec) option" where
  "choose_member target chosen [] = chosen"
| "choose_member target chosen (t # ts) =
    (if ms_kind (spec t) \<noteq> ms_kind target then choose_member target chosen ts
     else if better_member target chosen (spec t) then choose_member target (Some (t, spec t)) ts
     else choose_member target chosen ts)"

fun is_external :: "dtype \<Rightarrow> bool" where
  "is_external (External _) = True"
| "is_external _ = False"

definition promote :: "dtype \<Rightarrow> dtype \<Rightarrow> dtype" where
  "promote lhs rhs =
    (if is_external lhs then lhs
     else if is_external rhs then rhs
     else
       let target = promote_specs (spec lhs) (spec rhs)
       in case find (\<lambda>t. spec t = target) TAGS of
            Some t \<Rightarrow> t
          | None \<Rightarrow>
              (case choose_member target None TAGS of
                 Some (t, _) \<Rightarrow> t
               | None \<Rightarrow> lhs))"

lemmas promote_eval =
  promote_def TAGS_def new_spec_def u32_max_def better_member_def

text \<open>The table of the whole closed set, computed once.\<close>

lemma promote_self: "promote a a = a"
  by (cases a) (simp_all add: promote_eval)

lemma promote_bool: "promote BoolT a = a" "\<not> is_external a \<Longrightarrow> promote a BoolT = a"
  by (cases a; simp add: promote_eval)+

lemma promote_table [simp]:
  "promote F32 F64 = F64" "promote F64 F32 = F64" "promote I32 I64 = I64" "promote I64 I32 = I64"
  "promote C32 C64 = C64" "promote C64 C32 = C64"
  "promote F32 I32 = F64" "promote I32 F32 = F64" "promote F32 I64 = F64" "promote I64 F32 = F64"
  "promote F64 I32 = F64" "promote I32 F64 = F64" "promote F64 I64 = F64" "promote I64 F64 = F64"
  "promote C32 I32 = C64" "promote I32 C32 = C64" "promote C32 I64 = C64" "promote I64 C32 = C64"
  "promote C64 I32 = C64" "promote I32 C64 = C64" "promote C64 I64 = C64" "promote I64 C64 = C64"
  "promote F32 C32 = C32" "promote C32 F32 = C32" "promote F64 C32 = C64" "promote C32 F64 = C64"
  "promote F32 C64 = C64" "promote C64 F32 = C64" "promote F64 C64 = C64" "promote C64 F64 = C64"
  by (simp_all add: promote_eval)

section \<open>Ranks\<close>

datatype tensor_rank = DynRank | Rank nat

fun shape_from_vec :: "tensor_rank \<Rightarrow> shape \<Rightarrow> shape res" where
  "shape_from_vec DynRank sh = Ok sh"
| "shape_from_vec (Rank n) sh = (if length sh = n then Ok sh else Err (RankMismatch n (length sh)))"

fun strides_from_vec :: "tensor_rank \<Rightarrow> strides \<Rightarrow> strides res" where
  "strides_from_vec DynRank st = Ok st"
| "strides_from_vec (Rank n) st = (if length st = n then Ok st else Err (RankMismatch n (length st)))"

fun rank_admits :: "tensor_rank \<Rightarrow> nat \<Rightarrow> bool" where
  "rank_admits DynRank _ = True"
| "rank_admits (Rank n) k = (k = n)"

lemma shape_from_vec_Ok [simp]:
  "shape_from_vec r sh = Ok sh' \<longleftrightarrow> sh' = sh \<and> rank_admits r (length sh)"
  by (cases r) auto

lemma strides_from_vec_Ok [simp]:
  "strides_from_vec r st = Ok st' \<longleftrightarrow> st' = st \<and> rank_admits r (length st)"
  by (cases r) auto

section \<open>Shape arithmetic\<close>

definition checked_product :: "shape \<Rightarrow> nat res" where
  "checked_product sh = try_fold (\<lambda>acc dim. ok_or (checked_mul acc dim) IntegerOverflow) 1 sh"

definition checked_logical_element_count :: "shape \<Rightarrow> nat res" where
  "checked_logical_element_count sh = (if 0 \<in> set sh then Ok 0 else checked_product sh)"

definition stride_step :: "strides \<times> int \<Rightarrow> nat \<Rightarrow> (strides \<times> int) res" where
  "stride_step s extent =
    (case s of (strides, stride) \<Rightarrow>
       and_then (ok_or (isize_try_from extent) IntegerOverflow) (\<lambda>e.
       and_then (ok_or (ichecked_mul stride e) IntegerOverflow) (\<lambda>next.
         Ok (strides @ [stride], next))))"

definition col_major_strides :: "shape \<Rightarrow> strides res" where
  "col_major_strides sh = and_then (try_fold stride_step ([], 1) sh) (\<lambda>(strides, _). Ok strides)"

definition validate_shape_metadata :: "shape \<Rightarrow> unit res" where
  "validate_shape_metadata sh =
    and_then (checked_product sh) (\<lambda>_. and_then (col_major_strides sh) (\<lambda>_. Ok ()))"

definition checked_shape_len :: "shape \<Rightarrow> nat \<Rightarrow> nat res" where
  "checked_shape_len sh data_len =
    and_then (validate_shape_metadata sh) (\<lambda>_.
    and_then (checked_product sh) (\<lambda>expected.
      if expected \<noteq> data_len then Err (ShapeDataLengthMismatch expected data_len) else Ok expected))"

definition permutation_step :: "nat \<Rightarrow> string \<Rightarrow> bool list \<Rightarrow> nat \<Rightarrow> bool list res" where
  "permutation_step rank role seen axis =
    (if rank \<le> axis then Err (AxisOutOfBounds axis rank)
     else if seen ! axis then Err (DuplicateAxis axis role)
     else Ok (seen[axis := True]))"

definition validate_permutation :: "nat \<Rightarrow> nat list \<Rightarrow> unit res" where
  "validate_permutation rank axes =
    (if length axes \<noteq> rank then Err (InvalidPermutationLength rank (length axes))
     else and_then (try_fold (permutation_step rank ''permutation'') (replicate rank False) axes)
            (\<lambda>_. Ok ()))"

subsection \<open>What the checks establish\<close>

lemma checked_product_fold:
  "try_fold (\<lambda>acc dim. ok_or (checked_mul acc dim) IntegerOverflow) a sh = Ok n
    \<Longrightarrow> n = a * prod_list sh"
  by (induction sh arbitrary: a) (simp, force simp: mult.assoc)

lemma checked_product_Ok: "checked_product sh = Ok n \<Longrightarrow> n = prod_list sh"
  unfolding checked_product_def by (drule checked_product_fold) simp

lemma checked_product_le: "checked_product sh = Ok n \<Longrightarrow> n \<le> usize_max"
proof -
  have "try_fold (\<lambda>acc dim. ok_or (checked_mul acc dim) IntegerOverflow) a sh = Ok n
      \<Longrightarrow> a \<le> usize_max \<Longrightarrow> n \<le> usize_max" for a
    by (induction sh arbitrary: a) auto
  then show "checked_product sh = Ok n \<Longrightarrow> n \<le> usize_max"
    by (simp add: checked_product_def usize_max_def)
qed

lemma checked_product_fold_total:
  "0 \<notin> set sh \<Longrightarrow> a * prod_list sh \<le> usize_max \<Longrightarrow>
    try_fold (\<lambda>acc dim. ok_or (checked_mul acc dim) IntegerOverflow) a sh = Ok (a * prod_list sh)"
proof (induction sh arbitrary: a)
  case Nil
  then show ?case by simp
next
  case (Cons d sh)
  then have pos: "1 \<le> prod_list sh" using prod_list_pos_iff [of sh] by simp
  have le: "a * d * 1 \<le> a * d * prod_list sh" by (rule mult_le_mono2 [OF pos])
  have "a * d * prod_list sh \<le> usize_max" using Cons.prems(2) by (simp add: mult.assoc)
  with le have "a * d \<le> usize_max" by linarith
  then have "checked_mul a d = Some (a * d)" by simp
  then show ?case using Cons.IH [of "a * d"] Cons.prems by (simp add: mult.assoc)
qed

lemma checked_product_total:
  "0 \<notin> set sh \<Longrightarrow> prod_list sh \<le> usize_max \<Longrightarrow> checked_product sh = Ok (prod_list sh)"
  unfolding checked_product_def using checked_product_fold_total [of sh 1] by simp

lemma checked_product_Err: "checked_product sh = Err e \<Longrightarrow> e = IntegerOverflow"
proof -
  have "try_fold (\<lambda>acc dim. ok_or (checked_mul acc dim) IntegerOverflow) a sh = Err e
      \<Longrightarrow> e = IntegerOverflow" for a
    by (induction sh arbitrary: a) auto
  then show "checked_product sh = Err e \<Longrightarrow> e = IntegerOverflow"
    by (simp add: checked_product_def)
qed

fun scan_products :: "int \<Rightarrow> shape \<Rightarrow> strides" where
  "scan_products p [] = []"
| "scan_products p (n # ns) = p # scan_products (p * int n) ns"

lemma length_scan_products [simp]: "length (scan_products p sh) = length sh"
  by (induction p sh rule: scan_products.induct) auto

lemma nth_scan_products: "k < length sh \<Longrightarrow> scan_products p sh ! k = p * int (prod_list (take k sh))"
proof (induction p sh arbitrary: k rule: scan_products.induct)
  case (1 p)
  then show ?case by simp
next
  case (2 p n ns)
  then show ?case by (cases k) (simp_all add: mult.assoc)
qed

lemma stride_fold:
  "try_fold stride_step (acc, p) sh = Ok (acc', q) \<Longrightarrow>
    acc' = acc @ scan_products p sh \<and> q = p * int (prod_list sh)"
  by (induction sh arbitrary: acc p) (simp, force simp: stride_step_def mult.assoc)

lemma col_major_strides_Ok: "col_major_strides sh = Ok st \<Longrightarrow> st = scan_products 1 sh"
  by (auto simp: col_major_strides_def dest: stride_fold)

lemma col_major_strides_Err: "col_major_strides sh = Err e \<Longrightarrow> e = IntegerOverflow"
proof -
  have "try_fold stride_step s sh = Err e \<Longrightarrow> e = IntegerOverflow" for s
    by (induction sh arbitrary: s) (auto simp: stride_step_def split: prod.splits)
  then show "col_major_strides sh = Err e \<Longrightarrow> e = IntegerOverflow"
    by (auto simp: col_major_strides_def split: prod.splits)
qed

lemma isize_ok_mono: "isize_ok b \<Longrightarrow> 0 \<le> a \<Longrightarrow> a \<le> b \<Longrightarrow> isize_ok a"
  by (simp add: int_range_defs)

lemma stride_fold_total:
  assumes "0 \<notin> set sh" and "0 < p" and "isize_ok (p * int (prod_list sh))"
  shows "\<exists>r. try_fold stride_step (acc, p) sh = Ok r"
  using assms
proof (induction sh arbitrary: acc p)
  case Nil
  then show ?case by simp
next
  case (Cons n sh)
  let ?P = "int (prod_list sh)"
  have n: "0 < n" using Cons.prems(1) by (cases n) auto
  have P: "1 \<le> ?P" using Cons.prems(1) prod_list_pos_iff [of sh] by (simp add: Suc_le_eq)
  have pn: "0 < p * int n" using n Cons.prems(2) by simp
  have whole: "isize_ok (p * int n * ?P)" using Cons.prems(3) by (simp add: mult.assoc)
  have "p * int n * 1 \<le> p * int n * ?P" using P pn by (intro mult_left_mono) auto
  then have ok: "isize_ok (p * int n)" using isize_ok_mono [OF whole] pn by simp
  have "1 * int n \<le> p * int n" using Cons.prems(2) by (intro mult_right_mono) auto
  then have "isize_ok (int n)" using isize_ok_mono [OF ok] by simp
  then have "int n \<le> isize_max" by (simp add: isize_ok_def)
  then have "isize_try_from n = Some (int n)" by simp
  moreover have "ichecked_mul p (int n) = Some (p * int n)" using ok by simp
  ultimately show ?case
    using Cons.IH [of "p * int n" "acc @ [p]"] Cons.prems(1) pn whole by (simp add: stride_step_def)
qed

lemma col_major_strides_total:
  assumes "0 \<notin> set sh" and "isize_ok (int (prod_list sh))"
  shows "col_major_strides sh = Ok (scan_products 1 sh)"
proof -
  from stride_fold_total [OF assms(1), of 1 "[]"] assms(2)
  obtain acc q where "try_fold stride_step ([], 1) sh = Ok (acc, q)" by fastforce
  moreover from stride_fold [OF this] have "acc = scan_products 1 sh" by simp
  ultimately show ?thesis by (simp add: col_major_strides_def)
qed

text \<open>The accumulated \<open>seen\<close> flags are exactly the axes met so far.\<close>

lemma permutation_fold:
  assumes "try_fold (permutation_step rank role) seen axes = Ok seen'" and "length seen = rank"
  shows "distinct axes \<and> (\<forall>a \<in> set axes. a < rank \<and> \<not> seen ! a) \<and> length seen' = rank"
  using assms
proof (induction axes arbitrary: seen)
  case Nil
  then show ?case by simp
next
  case (Cons a axes)
  from Cons.prems(1) obtain seen1 where s1: "permutation_step rank role seen a = Ok seen1"
    and rest1: "try_fold (permutation_step rank role) seen1 axes = Ok seen'" by auto
  from s1 have a: "a < rank" "\<not> seen ! a" and "seen1 = seen[a := True]"
    unfolding permutation_step_def by (auto split: if_splits)
  with rest1 have rest: "try_fold (permutation_step rank role) (seen[a := True]) axes = Ok seen'"
    by simp
  have "length (seen[a := True]) = rank" using Cons.prems(2) by (simp only: length_list_update)
  note all = Cons.IH [OF rest this]
  note ih = conjunct1 [OF all] conjunct2 [OF conjunct2 [OF all]]
  note ih2 = conjunct1 [OF conjunct2 [OF all]]
  have "(seen[a := True]) ! a" using a(1) Cons.prems(2) by simp
  then have new: "a \<notin> set axes" using ih2 by blast
  have "b < rank \<and> \<not> seen ! b" if "b \<in> set axes" for b
  proof -
    have "b \<noteq> a" using that new by auto
    then have "(seen[a := True]) ! b = seen ! b" by simp
    with ih2 that show ?thesis by simp
  qed
  with new ih a show ?case by simp
qed

lemma permutation_fold_total:
  assumes "distinct axes" and "\<forall>a \<in> set axes. a < rank \<and> \<not> seen ! a" and "length seen = rank"
  shows "\<exists>seen'. try_fold (permutation_step rank role) seen axes = Ok seen'"
  using assms
proof (induction axes arbitrary: seen)
  case Nil
  then show ?case by simp
next
  case (Cons a axes)
  then have "permutation_step rank role seen a = Ok (seen[a := True])"
    by (simp add: permutation_step_def)
  moreover have "\<forall>b \<in> set axes. b < rank \<and> \<not> (seen[a := True]) ! b"
    using Cons.prems by (auto simp: nth_list_update)
  ultimately show ?case using Cons by simp
qed

lemma validate_permutation_iff:
  "validate_permutation rank axes = Ok () \<longleftrightarrow>
    length axes = rank \<and> distinct axes \<and> set axes \<subseteq> {..<rank}"
proof
  assume "validate_permutation rank axes = Ok ()"
  then show "length axes = rank \<and> distinct axes \<and> set axes \<subseteq> {..<rank}"
    unfolding validate_permutation_def by (auto split: if_splits dest: permutation_fold)
next
  assume a: "length axes = rank \<and> distinct axes \<and> set axes \<subseteq> {..<rank}"
  then have "\<exists>seen'. try_fold (permutation_step rank ''permutation'') (replicate rank False) axes = Ok seen'"
    by (intro permutation_fold_total) auto
  with a show "validate_permutation rank axes = Ok ()"
    by (auto simp: validate_permutation_def)
qed

lemma validate_permutation_perm:
  assumes "validate_permutation rank axes = Ok ()"
  shows "set axes = {..<rank}"
proof -
  from assms have l: "length axes = rank" and d: "distinct axes" and s: "set axes \<subseteq> {..<rank}"
    by (simp_all add: validate_permutation_iff)
  have "card (set axes) = card {..<rank}" using l d by (simp add: distinct_card)
  then show ?thesis using s by (intro card_subset_eq) auto
qed

end
