(* ===== verification/Index_Space.thy ===== *)
theory Index_Space
  imports Tensor_Core
begin

text \<open>
  Index vectors of a shape: which are in range, the physical offset a stride vector gives them,
  their column-major position, and the odometer that walks them in that order (the inner
  \<open>while axis < rank\<close> loop shared by the exact overlap check and by the gather of erased
  tensors).
\<close>

definition in_range :: "shape \<Rightarrow> nat list \<Rightarrow> bool" where
  "in_range sh idx = list_all2 (<) idx sh"

fun dot :: "nat list \<Rightarrow> strides \<Rightarrow> int" where
  "dot (i # is) (s # ss) = int i * s + dot is ss"
| "dot _ _ = 0"

fun lin :: "shape \<Rightarrow> nat list \<Rightarrow> nat" where
  "lin (n # ns) (i # is) = i + n * lin ns is"
| "lin _ _ = 0"

text \<open>One turn of the odometer; \<open>None\<close> when every axis wrapped.\<close>

fun next_index :: "shape \<Rightarrow> nat list \<Rightarrow> nat list option" where
  "next_index (n # ns) (i # is) =
    (if i + 1 < n then Some ((i + 1) # is) else map_option ((#) 0) (next_index ns is))"
| "next_index _ _ = None"

text \<open>The index at a column-major position.\<close>

fun unlin :: "shape \<Rightarrow> nat \<Rightarrow> nat list" where
  "unlin [] k = []"
| "unlin (n # ns) k = (k mod n) # unlin ns (k div n)"

lemma in_range_Nil [simp]: "in_range [] idx \<longleftrightarrow> idx = []"
  by (simp add: in_range_def)

lemma in_range_Cons [simp]:
  "in_range (n # ns) idx \<longleftrightarrow> (\<exists>i is. idx = i # is \<and> i < n \<and> in_range ns is)"
  by (auto simp: in_range_def list_all2_Cons2)

lemma in_range_length: "in_range sh idx \<Longrightarrow> length idx = length sh"
  by (simp add: in_range_def list_all2_lengthD)

lemma in_range_nth: "in_range sh idx \<longleftrightarrow> length idx = length sh \<and> (\<forall>k < length sh. idx ! k < sh ! k)"
  by (auto simp: in_range_def list_all2_conv_all_nth)

lemma in_range_nonzero: "in_range sh idx \<Longrightarrow> 0 \<notin> set sh"
  by (induction sh arbitrary: idx) auto

lemma in_range_zeros: "0 \<notin> set sh \<Longrightarrow> in_range sh (replicate (length sh) 0)"
  by (induction sh) auto

lemma in_range_exists: "(\<exists>idx. in_range sh idx) \<longleftrightarrow> 0 \<notin> set sh"
  using in_range_nonzero in_range_zeros by blast

lemma dot_nth:
  "length idx = length st \<Longrightarrow> dot idx st = (\<Sum>k < length st. int (idx ! k) * st ! k)"
proof (induction idx st rule: dot.induct)
  case (1 i "is" s ss)
  then show ?case by (simp add: sum.lessThan_Suc_shift del: sum.lessThan_Suc)
qed auto

lemma dot_zeros: "dot (replicate n 0) st = 0"
proof (induction n arbitrary: st)
  case 0
  then show ?case by simp
next
  case (Suc n)
  then show ?case by (cases st) simp_all
qed

lemma dot_Nil2 [simp]: "dot idx [] = 0"
  by (cases idx) auto

section \<open>Column-major positions\<close>

lemma lin_less: "in_range sh idx \<Longrightarrow> lin sh idx < prod_list sh"
proof (induction sh arbitrary: idx)
  case Nil
  then show ?case by simp
next
  case (Cons n ns)
  then obtain i "is" where i: "idx = i # is" "i < n" "in_range ns is" by auto
  have "lin ns is + 1 \<le> prod_list ns" using Cons.IH [OF i(3)] by simp
  then have "n * (lin ns is + 1) \<le> n * prod_list ns" by (rule mult_le_mono2)
  then show ?case using i by simp
qed

lemma lin_inj: "in_range sh i \<Longrightarrow> in_range sh j \<Longrightarrow> lin sh i = lin sh j \<Longrightarrow> i = j"
proof (induction sh arbitrary: i j)
  case Nil
  then show ?case by simp
next
  case (Cons n ns)
  then obtain a as b bs where ij: "i = a # as" "j = b # bs" "a < n" "b < n"
    "in_range ns as" "in_range ns bs" by auto
  have eq: "a + n * lin ns as = b + n * lin ns bs" using Cons.prems(3) ij by simp
  have "(a + n * lin ns as) mod n = a" "(b + n * lin ns bs) mod n = b" using ij by simp_all
  with eq have ab: "a = b" by simp
  with eq have "lin ns as = lin ns bs" using ij by simp
  with Cons.IH ij ab show ?case by simp
qed

lemma lin_zeros: "lin sh (replicate (length sh) 0) = 0"
  by (induction sh) auto

lemma in_range_unlin: "0 \<notin> set sh \<Longrightarrow> in_range sh (unlin sh k)"
  by (induction sh arbitrary: k) auto

lemma lin_unlin: "k < prod_list sh \<Longrightarrow> lin sh (unlin sh k) = k"
proof (induction sh arbitrary: k)
  case Nil
  then show ?case by simp
next
  case (Cons n ns)
  then have "k div n < prod_list ns" by (simp add: less_mult_imp_div_less mult.commute)
  then show ?case using Cons.IH by simp
qed

lemma dot_scan_products: "length idx = length sh \<Longrightarrow> dot idx (scan_products p sh) = p * int (lin sh idx)"
proof (induction sh arbitrary: idx p)
  case Nil
  then show ?case by simp
next
  case (Cons n ns)
  then obtain i "is" where "idx = i # is" "length is = length ns" by (cases idx) auto
  with Cons.IH [of "is" "p * int n"] show ?case by (simp add: algebra_simps)
qed

text \<open>In the column-major layout the physical offset is the column-major position.\<close>

lemma dot_col_major: "in_range sh idx \<Longrightarrow> dot idx (scan_products 1 sh) = int (lin sh idx)"
  by (simp add: dot_scan_products in_range_length)

section \<open>The odometer\<close>

lemma next_index_Some:
  "in_range sh idx \<Longrightarrow> next_index sh idx = Some idx' \<Longrightarrow>
    in_range sh idx' \<and> lin sh idx' = lin sh idx + 1"
proof (induction sh arbitrary: idx idx')
  case Nil
  then show ?case by simp
next
  case (Cons n ns)
  then obtain i "is" where i: "idx = i # is" "i < n" "in_range ns is" by auto
  show ?case
  proof (cases "i + 1 < n")
    case True
    with Cons.prems i show ?thesis by auto
  next
    case False
    then have n: "n = i + 1" using i by simp
    from False Cons.prems i obtain js where js: "next_index ns is = Some js" "idx' = 0 # js" by auto
    from Cons.IH [OF i(3) js(1)] have "in_range ns js" "lin ns js = lin ns is + 1" by simp_all
    then show ?thesis using js i n by (simp add: algebra_simps)
  qed
qed

lemma next_index_None:
  "in_range sh idx \<Longrightarrow> next_index sh idx = None \<Longrightarrow> lin sh idx + 1 = prod_list sh"
proof (induction sh arbitrary: idx)
  case Nil
  then show ?case by simp
next
  case (Cons n ns)
  then obtain i "is" where i: "idx = i # is" "i < n" "in_range ns is" by auto
  from Cons.prems i have "\<not> i + 1 < n" and last: "next_index ns is = None"
    by (auto split: if_splits)
  then have n: "n = i + 1" using i by simp
  have "prod_list ns = lin ns is + 1" using Cons.IH [OF i(3) last] by simp
  then show ?case using i n by (simp add: algebra_simps)
qed

end
