(* ===== verification/Layout.thy ===== *)
theory Layout
  imports Index_Space
begin

text \<open>
  \<open>crates/tenferro-tensor-core/src/layout.rs\<close>: storage-neutral layouts (shape, strides, element
  offset), the bounds check of \<open>from_parts\<close>, and the metadata-only views.  The locale
  \<open>layout_view\<close> is the contract every view operation offers to its users: each index of the
  view names an index of the source at the same physical offset, so a view never reaches outside
  the buffer its source was validated for.
\<close>

record layout =
  l_shape :: shape
  l_strides :: strides
  l_offset :: int

record slice_spec =
  s_start :: int
  s_end :: int
  s_step :: int

section \<open>Bounds of the reachable offsets\<close>

definition reach_step :: "int \<times> int \<Rightarrow> nat \<times> int \<Rightarrow> (int \<times> int) res" where
  "reach_step s e =
    (case s of (mn, mx) \<Rightarrow> case e of (extent, stride) \<Rightarrow>
       and_then (ok_or (isize_try_from (saturating_sub extent 1)) IntegerOverflow) (\<lambda>last.
       and_then (ok_or (ichecked_mul last stride) IntegerOverflow) (\<lambda>delta.
         if delta < 0
         then and_then (ok_or (ichecked_add mn delta) IntegerOverflow) (\<lambda>mn'. Ok (mn', mx))
         else and_then (ok_or (ichecked_add mx delta) IntegerOverflow) (\<lambda>mx'. Ok (mn, mx')))))"

definition reachable_offset_range :: "shape \<Rightarrow> strides \<Rightarrow> int \<Rightarrow> (int \<times> int) option res" where
  "reachable_offset_range sh st off =
    (if 0 \<in> set sh then Ok None
     else and_then (try_fold reach_step (off, off) (zip sh st)) (\<lambda>r. Ok (Some r)))"

definition validate_reachable_bounds :: "shape \<Rightarrow> strides \<Rightarrow> int \<Rightarrow> nat \<Rightarrow> unit res" where
  "validate_reachable_bounds sh st off buffer_len =
    (if length sh \<noteq> length st then Err (RankMismatch (length sh) (length st))
     else and_then (reachable_offset_range sh st off) (\<lambda>range.
       case range of
         Some (mn, mx) \<Rightarrow>
           (if mn < 0 then Err ViewOutOfBounds
            else and_then (ok_or (usize_try_from mx) IntegerOverflow) (\<lambda>m.
              if m < buffer_len then Ok () else Err ViewOutOfBounds))
       | None \<Rightarrow>
           (if off < 0 then Err ViewOutOfBounds
            else and_then (ok_or (usize_try_from off) IntegerOverflow) (\<lambda>o'.
              if o' \<le> buffer_len then Ok () else Err ViewOutOfBounds))))"

definition layout_from_parts :: "shape \<Rightarrow> strides \<Rightarrow> int \<Rightarrow> nat \<Rightarrow> layout res" where
  "layout_from_parts sh st off buffer_len =
    and_then (checked_logical_element_count sh) (\<lambda>_.
    and_then (validate_reachable_bounds sh st off buffer_len) (\<lambda>_.
      Ok \<lparr>l_shape = sh, l_strides = st, l_offset = off\<rparr>))"

definition layout_from_vecs :: "tensor_rank \<Rightarrow> shape \<Rightarrow> strides \<Rightarrow> int \<Rightarrow> nat \<Rightarrow> layout res" where
  "layout_from_vecs r sh st off buffer_len =
    and_then (shape_from_vec r sh) (\<lambda>sh'.
    and_then (strides_from_vec r st) (\<lambda>st'. layout_from_parts sh' st' off buffer_len))"

definition compact :: "tensor_rank \<Rightarrow> shape \<Rightarrow> layout res" where
  "compact r sh =
    and_then (col_major_strides sh) (\<lambda>st.
    and_then (strides_from_vec r st) (\<lambda>st'.
      Ok \<lparr>l_shape = sh, l_strides = st', l_offset = 0\<rparr>))"

definition layout_is_compact_col_major :: "layout \<Rightarrow> bool res" where
  "layout_is_compact_col_major l =
    (if 0 \<in> set (l_shape l) then Ok True
     else and_then (col_major_strides (l_shape l)) (\<lambda>st. Ok (st = l_strides l)))"

subsection \<open>Meaning\<close>

definition offset_of :: "layout \<Rightarrow> nat list \<Rightarrow> int" where
  "offset_of l idx = l_offset l + dot idx (l_strides l)"

definition wf_layout :: "layout \<Rightarrow> bool" where
  "wf_layout l \<longleftrightarrow> length (l_strides l) = length (l_shape l)"

definition in_buffer :: "layout \<Rightarrow> nat \<Rightarrow> bool" where
  "in_buffer l len \<longleftrightarrow>
    (\<forall>idx. in_range (l_shape l) idx \<longrightarrow> 0 \<le> offset_of l idx \<and> offset_of l idx < int len)"

fun lo_reach :: "shape \<Rightarrow> strides \<Rightarrow> int" where
  "lo_reach (n # ns) (s # ss) = min 0 ((int n - 1) * s) + lo_reach ns ss"
| "lo_reach _ _ = 0"

fun hi_reach :: "shape \<Rightarrow> strides \<Rightarrow> int" where
  "hi_reach (n # ns) (s # ss) = max 0 ((int n - 1) * s) + hi_reach ns ss"
| "hi_reach _ _ = 0"

lemma reach_fold:
  "0 \<notin> set sh \<Longrightarrow> try_fold reach_step (mn, mx) (zip sh st) = Ok r \<Longrightarrow>
    r = (mn + lo_reach sh st, mx + hi_reach sh st)"
proof (induction sh st arbitrary: mn mx rule: lo_reach.induct)
  case (1 n ns s ss)
  then have n: "int (saturating_sub n 1) = int n - 1"
    by (cases n) (auto simp: saturating_sub_def)
  from 1 obtain p q where step: "reach_step (mn, mx) (n, s) = Ok (p, q)"
    and rest: "try_fold reach_step (p, q) (zip ns ss) = Ok r" by auto
  from step have "p = mn + min 0 ((int n - 1) * s) \<and> q = mx + max 0 ((int n - 1) * s)"
    unfolding reach_step_def using n by (auto split: if_splits)
  with "1.IH" [OF _ rest] "1.prems"(1) show ?case by simp
qed auto

lemma dot_between:
  "in_range sh idx \<Longrightarrow> lo_reach sh st \<le> dot idx st \<and> dot idx st \<le> hi_reach sh st"
proof (induction sh st arbitrary: idx rule: lo_reach.induct)
  case (1 n ns s ss)
  then obtain i "is" where i: "idx = i # is" "i < n" "in_range ns is" by auto
  have "min 0 ((int n - 1) * s) \<le> int i * s \<and> int i * s \<le> max 0 ((int n - 1) * s)"
  proof (cases "0 \<le> s")
    case True
    then have "int i * s \<le> (int n - 1) * s" "0 \<le> int i * s"
      using i by (auto intro: mult_right_mono)
    then show ?thesis by simp
  next
    case False
    then have "(int n - 1) * s \<le> int i * s" "int i * s \<le> 0"
      using i by (auto intro: mult_right_mono_neg simp: mult_nonneg_nonpos)
    then show ?thesis by simp
  qed
  then have h1: "min 0 ((int n - 1) * s) \<le> int i * s" "int i * s \<le> max 0 ((int n - 1) * s)"
    by (simp_all only: conj_absorb)
  from "1.IH" [OF i(3)] have h2: "lo_reach ns ss \<le> dot is ss" "dot is ss \<le> hi_reach ns ss" by simp_all
  show ?case using add_mono [OF h1(1) h2(1)] add_mono [OF h1(2) h2(2)] i by simp
qed auto

lemma dot_attains_lo:
  "0 \<notin> set sh \<Longrightarrow> length st = length sh \<Longrightarrow> \<exists>idx. in_range sh idx \<and> dot idx st = lo_reach sh st"
proof (induction sh st rule: lo_reach.induct)
  case (1 n ns s ss)
  then obtain "is" where i: "in_range ns is" "dot is ss = lo_reach ns ss" by auto
  have n: "0 < n" using "1.prems"(1) by (cases n) auto
  let ?i = "if s < 0 then n - 1 else 0"
  have "s < 0 \<Longrightarrow> (int n - 1) * s \<le> 0" "\<not> s < 0 \<Longrightarrow> 0 \<le> (int n - 1) * s"
    using n by (auto intro: mult_nonneg_nonpos mult_nonneg_nonneg)
  then have "int ?i * s = min 0 ((int n - 1) * s)" using n by (auto simp: of_nat_diff)
  then have "dot (?i # is) (s # ss) = lo_reach (n # ns) (s # ss)" using i by simp
  moreover have "in_range (n # ns) (?i # is)" using i n by auto
  ultimately show ?case by blast
qed auto

lemma dot_attains_hi:
  "0 \<notin> set sh \<Longrightarrow> length st = length sh \<Longrightarrow> \<exists>idx. in_range sh idx \<and> dot idx st = hi_reach sh st"
proof (induction sh st rule: lo_reach.induct)
  case (1 n ns s ss)
  then obtain "is" where i: "in_range ns is" "dot is ss = hi_reach ns ss" by auto
  have n: "0 < n" using "1.prems"(1) by (cases n) auto
  let ?i = "if s < 0 then 0 else n - 1"
  have "s < 0 \<Longrightarrow> (int n - 1) * s \<le> 0" "\<not> s < 0 \<Longrightarrow> 0 \<le> (int n - 1) * s"
    using n by (auto intro: mult_nonneg_nonpos mult_nonneg_nonneg)
  then have "int ?i * s = max 0 ((int n - 1) * s)" using n by (auto simp: of_nat_diff)
  then have "dot (?i # is) (s # ss) = hi_reach (n # ns) (s # ss)" using i by simp
  moreover have "in_range (n # ns) (?i # is)" using i n by auto
  ultimately show ?case by blast
qed auto

lemma lo_reach_le_0: "lo_reach sh st \<le> 0"
  by (induction sh st rule: lo_reach.induct) auto

lemma hi_reach_ge_0: "0 \<le> hi_reach sh st"
  by (induction sh st rule: hi_reach.induct) auto

lemma validate_bounds_Ok:
  assumes "validate_reachable_bounds sh st off len = Ok ()"
  shows "length st = length sh"
    and "in_range sh idx \<Longrightarrow> 0 \<le> off + dot idx st \<and> off + dot idx st < int len"
    and "0 \<le> off \<and> off \<le> int len"
proof -
  from assms show len: "length st = length sh"
    by (auto simp: validate_reachable_bounds_def split: if_splits)
  have core: "0 \<le> off + lo_reach sh st \<and> off + hi_reach sh st < int len" if z: "0 \<notin> set sh"
  proof -
    from assms z len obtain mn mx where
      f: "try_fold reach_step (off, off) (zip sh st) = Ok (mn, mx)"
      and "\<not> mn < 0" "0 \<le> mx" "nat mx < len"
      unfolding validate_reachable_bounds_def reachable_offset_range_def
      by (auto split: if_splits)
    with reach_fold [OF z f] show ?thesis by auto
  qed
  show "0 \<le> off + dot idx st \<and> off + dot idx st < int len" if r: "in_range sh idx"
    using core [OF in_range_nonzero [OF r]] dot_between [OF r, of st] by linarith
  show "0 \<le> off \<and> off \<le> int len"
  proof (cases "0 \<in> set sh")
    case True
    with assms len show ?thesis
      unfolding validate_reachable_bounds_def reachable_offset_range_def
      by (auto split: if_splits)
  next
    case False
    then show ?thesis
      using core lo_reach_le_0 [of sh st] hi_reach_ge_0 [of sh st] by linarith
  qed
qed

lemma validate_bounds_Err:
  assumes "validate_reachable_bounds sh st off len = Err ViewOutOfBounds"
    and z: "0 \<notin> set sh"
  shows "\<exists>idx. in_range sh idx \<and> \<not> (0 \<le> off + dot idx st \<and> off + dot idx st < int len)"
proof -
  have e: "try_fold reach_step s xs = Err e \<Longrightarrow> e = IntegerOverflow" for s xs e
    by (induction xs arbitrary: s) (auto simp: reach_step_def split: if_splits prod.splits)
  from assms have len: "length st = length sh"
    by (auto simp: validate_reachable_bounds_def split: if_splits)
  from assms len obtain mn mx where
    f: "try_fold reach_step (off, off) (zip sh st) = Ok (mn, mx)"
    and bad: "mn < 0 \<or> 0 \<le> mx \<and> len \<le> nat mx"
    unfolding validate_reachable_bounds_def reachable_offset_range_def
    by (auto split: if_splits dest: e)
  from reach_fold [OF z f] have "mn = off + lo_reach sh st" "mx = off + hi_reach sh st" by simp_all
  with bad have "off + lo_reach sh st < 0 \<or> int len \<le> off + hi_reach sh st" by linarith
  then show ?thesis
    using dot_attains_lo [OF z len] dot_attains_hi [OF z len] by (metis linorder_not_less)
qed

lemma from_parts_Ok:
  assumes "layout_from_parts sh st off len = Ok l"
  shows "l = \<lparr>l_shape = sh, l_strides = st, l_offset = off\<rparr>" and "wf_layout l" and "in_buffer l len"
    and "0 \<le> l_offset l \<and> l_offset l \<le> int len"
proof -
  from assms have v: "validate_reachable_bounds sh st off len = Ok ()"
    and l: "l = \<lparr>l_shape = sh, l_strides = st, l_offset = off\<rparr>"
    by (auto simp: layout_from_parts_def)
  show "l = \<lparr>l_shape = sh, l_strides = st, l_offset = off\<rparr>" by (rule l)
  show "wf_layout l" using validate_bounds_Ok(1) [OF v] l by (simp add: wf_layout_def)
  show "in_buffer l len" using validate_bounds_Ok(2) [OF v] l by (simp add: in_buffer_def offset_of_def)
  show "0 \<le> l_offset l \<and> l_offset l \<le> int len" using validate_bounds_Ok(3) [OF v] l by simp
qed

end
