(* ===== verification/Layout_Views.thy ===== *)
theory Layout_Views
  imports Layout
begin

text \<open>
  The metadata-only view operations of \<open>layout.rs\<close>: \<open>transpose_view\<close>, \<open>slice_view\<close>,
  \<open>reshape_view_as\<close> and \<open>broadcast_in_dim_view\<close>.  Each is an interpretation of the locale
  \<open>layout_view\<close>: it maps every index of its result to an index of its source at the same
  physical offset.
\<close>

section \<open>The operations\<close>

definition layout_transpose_view :: "tensor_rank \<Rightarrow> layout \<Rightarrow> nat list \<Rightarrow> layout res" where
  "layout_transpose_view r l axes =
    and_then (validate_permutation (length (l_shape l)) axes) (\<lambda>_.
    and_then (shape_from_vec r (map (\<lambda>a. l_shape l ! a) axes)) (\<lambda>sh.
    and_then (strides_from_vec r (map (\<lambda>a. l_strides l ! a) axes)) (\<lambda>st.
      Ok \<lparr>l_shape = sh, l_strides = st, l_offset = l_offset l\<rparr>)))"

definition positive_ceil_div :: "int \<Rightarrow> int \<Rightarrow> nat res" where
  "positive_ceil_div numerator denominator =
    (if numerator < 0 \<or> denominator \<le> 0 then Err IntegerOverflow
     else
       let extent = (if numerator = 0 then 0 else 1 + (numerator - 1) div denominator)
       in ok_or (usize_try_from extent) IntegerOverflow)"

definition normalize_slice :: "slice_spec \<Rightarrow> nat \<Rightarrow> (int \<times> nat) res" where
  "normalize_slice sp axis_len =
    (if s_step sp = 0 then Err (InvalidSliceStep (s_step sp))
     else if axis_len = 0 then Ok (0, 0)
     else
       and_then (ok_or (isize_try_from axis_len) IntegerOverflow) (\<lambda>n.
       if 0 < s_step sp then
         and_then (if s_start sp < 0 then ok_or (ichecked_add (s_start sp) n) IntegerOverflow
                   else Ok (s_start sp)) (\<lambda>start.
         and_then (if s_end sp < 0 then ok_or (ichecked_add (s_end sp) n) IntegerOverflow
                   else Ok (s_end sp)) (\<lambda>end'.
           if start < 0 \<or> n < start \<or> end' < 0 \<or> n < end'
           then and_then (ok_or (usize_try_from n) IntegerOverflow) (\<lambda>u.
                  Err (InvalidSliceBounds (s_start sp) (s_end sp) u))
           else if end' \<le> start then Ok (start, 0)
           else and_then (positive_ceil_div (end' - start) (s_step sp)) (\<lambda>e. Ok (start, e))))
       else
         and_then (if s_start sp < 0 then ok_or (ichecked_add (s_start sp) n) IntegerOverflow
                   else Ok (s_start sp)) (\<lambda>start.
         and_then (if s_end sp < - 1 then ok_or (ichecked_add (s_end sp) n) IntegerOverflow
                   else Ok (s_end sp)) (\<lambda>end'.
           if start < 0 \<or> n \<le> start \<or> end' < - 1 \<or> n \<le> end'
           then and_then (ok_or (usize_try_from n) IntegerOverflow) (\<lambda>u.
                  Err (InvalidSliceBounds (s_start sp) (s_end sp) u))
           else if start \<le> end' then Ok (start, 0)
           else and_then (ok_or (ichecked_neg (s_step sp)) IntegerOverflow) (\<lambda>step.
                and_then (positive_ceil_div (start - end') step) (\<lambda>e. Ok (start, e)))))))"

definition slice_step ::
  "shape \<times> strides \<times> int \<Rightarrow> (nat \<times> int) \<times> slice_spec \<Rightarrow> (shape \<times> strides \<times> int) res" where
  "slice_step s e =
    (case s of (sh, st, off) \<Rightarrow> case e of ((axis_len, stride), sp) \<Rightarrow>
       and_then (normalize_slice sp axis_len) (\<lambda>(start, extent).
       and_then (ok_or (ichecked_mul start stride) IntegerOverflow) (\<lambda>start_offset.
       and_then (ok_or (ichecked_add off start_offset) IntegerOverflow) (\<lambda>off'.
       and_then (ok_or (ichecked_mul stride (s_step sp)) IntegerOverflow) (\<lambda>stride'.
         Ok (sh @ [extent], st @ [stride'], off'))))))"

definition layout_slice_view ::
  "tensor_rank \<Rightarrow> layout \<Rightarrow> slice_spec list \<Rightarrow> nat \<Rightarrow> layout res" where
  "layout_slice_view r l sl buffer_len =
    (if length sl \<noteq> length (l_shape l) then Err (RankMismatch (length (l_shape l)) (length sl))
     else
       and_then (try_fold slice_step ([], [], l_offset l) (zip (zip (l_shape l) (l_strides l)) sl))
         (\<lambda>(sh, st, off). layout_from_vecs r sh st off buffer_len))"

definition layout_reshape_view_as ::
  "tensor_rank \<Rightarrow> layout \<Rightarrow> shape \<Rightarrow> nat \<Rightarrow> layout res" where
  "layout_reshape_view_as r2 l sh buffer_len =
    and_then (layout_is_compact_col_major l) (\<lambda>c.
      if \<not> c then Err NonContiguousViewAsSlice
      else
        and_then (checked_product (l_shape l)) (\<lambda>from'.
        and_then (checked_product sh) (\<lambda>to.
          if from' \<noteq> to then Err (ShapeMismatch (ReshapeElementCount from' to))
          else
            and_then (col_major_strides sh) (\<lambda>st.
            and_then (strides_from_vec r2 st) (\<lambda>st'.
              layout_from_parts sh st' (l_offset l) buffer_len)))))"

definition broadcast_step ::
  "layout \<Rightarrow> shape \<Rightarrow> bool list \<times> strides \<Rightarrow> nat \<times> nat \<Rightarrow> (bool list \<times> strides) res" where
  "broadcast_step l sh s e =
    (case s of (seen, st) \<Rightarrow> case e of (input_axis, output_axis) \<Rightarrow>
       if length sh \<le> output_axis then Err (AxisOutOfBounds output_axis (length sh))
       else if seen ! output_axis then Err (DuplicateAxis output_axis ''permutation'')
       else
         let seen' = seen[output_axis := True];
             input_extent = l_shape l ! input_axis;
             output_extent = sh ! output_axis
         in if input_extent \<noteq> output_extent \<and> input_extent \<noteq> 1
            then Err (ShapeDataLengthMismatch input_extent output_extent)
            else if input_extent = output_extent
            then Ok (seen', st[output_axis := l_strides l ! input_axis])
            else Ok (seen', st))"

definition layout_broadcast_in_dim_view ::
  "tensor_rank \<Rightarrow> layout \<Rightarrow> shape \<Rightarrow> nat list \<Rightarrow> nat \<Rightarrow> layout res" where
  "layout_broadcast_in_dim_view r2 l sh dims buffer_len =
    (if length dims \<noteq> length (l_shape l) then Err (RankMismatch (length (l_shape l)) (length dims))
     else
       and_then (try_fold (broadcast_step l sh) (replicate (length sh) False, replicate (length sh) 0)
                   (zip [0..<length dims] dims)) (\<lambda>(_, st).
       and_then (strides_from_vec r2 st) (\<lambda>st'.
         layout_from_parts sh st' (l_offset l) buffer_len)))"

section \<open>The contract of a view\<close>

locale layout_view =
  fixes view :: "layout \<Rightarrow> nat \<Rightarrow> layout res"
    and src :: "layout \<Rightarrow> layout \<Rightarrow> nat list \<Rightarrow> nat list"
  assumes view_wf: "wf_layout l \<Longrightarrow> view l len = Ok l' \<Longrightarrow> wf_layout l'"
    and view_src: "wf_layout l \<Longrightarrow> view l len = Ok l' \<Longrightarrow> in_range (l_shape l') idx \<Longrightarrow>
      in_range (l_shape l) (src l l' idx) \<and> offset_of l' idx = offset_of l (src l l' idx)"
begin

lemma in_buffer_view:
  "wf_layout l \<Longrightarrow> in_buffer l len \<Longrightarrow> view l n = Ok l' \<Longrightarrow> in_buffer l' len"
  unfolding in_buffer_def by (metis view_src)

text \<open>What a reader of the view sees is what the source holds at the named index.\<close>

lemma view_reads:
  "wf_layout l \<Longrightarrow> view l n = Ok l' \<Longrightarrow> in_range (l_shape l') idx \<Longrightarrow>
    (data :: 'a list) ! nat (offset_of l' idx) = data ! nat (offset_of l (src l l' idx))"
  using view_src by metis

text \<open>Views of views: the offsets still come from the first layout.\<close>

lemma view_twice:
  assumes "wf_layout l" and "view l n = Ok l1" and "view l1 n = Ok l2" and "in_range (l_shape l2) idx"
  shows "in_range (l_shape l) (src l l1 (src l1 l2 idx)) \<and>
    offset_of l2 idx = offset_of l (src l l1 (src l1 l2 idx))"
  using assms view_src view_wf by metis

end

section \<open>Transposition\<close>

fun index_of :: "nat \<Rightarrow> nat list \<Rightarrow> nat" where
  "index_of a [] = 0"
| "index_of a (x # xs) = (if x = a then 0 else Suc (index_of a xs))"

definition transpose_src :: "nat list \<Rightarrow> layout \<Rightarrow> layout \<Rightarrow> nat list \<Rightarrow> nat list" where
  "transpose_src axes l l' idx = map (\<lambda>a. idx ! index_of a axes) [0..<length (l_shape l)]"

lemma index_of_less: "a \<in> set xs \<Longrightarrow> index_of a xs < length xs"
  by (induction xs) auto

lemma nth_index_of: "a \<in> set xs \<Longrightarrow> xs ! index_of a xs = a"
  by (induction xs) auto

lemma index_of_nth: "distinct xs \<Longrightarrow> k < length xs \<Longrightarrow> index_of (xs ! k) xs = k"
proof (induction xs arbitrary: k)
  case Nil
  then show ?case by simp
next
  case (Cons x xs)
  then show ?case by (cases k) auto
qed

lemma dot_permuted:
  assumes "distinct axes" and "set axes = {..<length st}" and "length axes = length st"
    and "length idx = length st"
  shows "dot (map (\<lambda>a. idx ! index_of a axes) [0..<length st]) st = dot idx (map (\<lambda>a. st ! a) axes)"
proof -
  let ?n = "length st"
  have bij: "bij_betw (\<lambda>k. axes ! k) {..<?n} {..<?n}"
    using bij_betw_nth [OF assms(1)] assms(2,3) by auto
  have "dot (map (\<lambda>a. idx ! index_of a axes) [0..<?n]) st =
      (\<Sum>a < ?n. int (idx ! index_of a axes) * st ! a)"
    by (simp add: dot_nth)
  also have "\<dots> = (\<Sum>k < ?n. int (idx ! index_of (axes ! k) axes) * st ! (axes ! k))"
    by (rule sum.reindex_bij_betw [OF bij, symmetric])
  also have "\<dots> = (\<Sum>k < ?n. int (idx ! k) * st ! (axes ! k))"
    using assms by (intro sum.cong) (auto simp: index_of_nth)
  also have "\<dots> = dot idx (map (\<lambda>a. st ! a) axes)"
    using assms by (simp add: dot_nth)
  finally show ?thesis .
qed

lemma in_range_permuted:
  assumes "distinct axes" and "set axes = {..<length sh}" and "length axes = length sh"
    and "in_range (map (\<lambda>a. sh ! a) axes) idx"
  shows "in_range sh (map (\<lambda>a. idx ! index_of a axes) [0..<length sh])"
proof -
  have "idx ! index_of a axes < sh ! a" if "a < length sh" for a
  proof -
    from that assms(2) have a: "a \<in> set axes" by auto
    have "idx ! index_of a axes < map (\<lambda>a. sh ! a) axes ! index_of a axes"
      using assms(4) index_of_less [OF a] unfolding in_range_nth by simp
    with index_of_less [OF a] nth_index_of [OF a] show ?thesis by simp
  qed
  then show ?thesis by (simp add: in_range_nth)
qed

lemma transpose_Ok:
  assumes "layout_transpose_view r l axes = Ok l'"
  shows "l' = \<lparr>l_shape = map (\<lambda>a. l_shape l ! a) axes, l_strides = map (\<lambda>a. l_strides l ! a) axes,
      l_offset = l_offset l\<rparr>"
    and "distinct axes" and "set axes = {..<length (l_shape l)}" and "length axes = length (l_shape l)"
proof -
  from assms have v: "validate_permutation (length (l_shape l)) axes = Ok ()"
    by (auto simp: layout_transpose_view_def)
  then show "distinct axes" "length axes = length (l_shape l)"
    by (simp_all add: validate_permutation_iff)
  show "set axes = {..<length (l_shape l)}" by (rule validate_permutation_perm [OF v])
  from assms show "l' = \<lparr>l_shape = map (\<lambda>a. l_shape l ! a) axes,
      l_strides = map (\<lambda>a. l_strides l ! a) axes, l_offset = l_offset l\<rparr>"
    by (auto simp: layout_transpose_view_def)
qed

interpretation transpose:
  layout_view "\<lambda>l len. layout_transpose_view r l axes" "transpose_src axes" for r axes
proof
  fix l len l'
  assume wf: "wf_layout l" and t: "layout_transpose_view r l axes = Ok l'"
  note T = transpose_Ok [OF t]
  show "wf_layout l'" using T by (simp add: wf_layout_def)
  fix idx
  assume idx: "in_range (l_shape l') idx"
  have len: "length (l_strides l) = length (l_shape l)" using wf by (simp add: wf_layout_def)
  have "length idx = length (l_strides l)"
    using in_range_length [OF idx] T len by simp
  then show "in_range (l_shape l) (transpose_src axes l l' idx) \<and>
      offset_of l' idx = offset_of l (transpose_src axes l l' idx)"
    using idx T len in_range_permuted [of axes "l_shape l" idx] dot_permuted [of axes "l_strides l" idx]
    by (simp add: transpose_src_def offset_of_def)
qed

section \<open>Slicing\<close>

definition slice_start :: "slice_spec \<Rightarrow> nat \<Rightarrow> int" where
  "slice_start sl n = (if s_start sl < 0 then s_start sl + int n else s_start sl)"

definition slice_end :: "slice_spec \<Rightarrow> nat \<Rightarrow> int" where
  "slice_end sl n =
    (if 0 < s_step sl then (if s_end sl < 0 then s_end sl + int n else s_end sl)
     else (if s_end sl < - 1 then s_end sl + int n else s_end sl))"

lemma ceil_div_steps:
  assumes "positive_ceil_div a d = Ok e"
  shows "i < e \<longleftrightarrow> int i * d < a"
proof -
  from assms have a: "0 \<le> a" "0 < d" by (auto simp: positive_ceil_div_def split: if_splits)
  show ?thesis
  proof (cases "a = 0")
    case True
    with assms a have "e = 0" by (auto simp: positive_ceil_div_def)
    with True a show ?thesis by (simp add: not_less)
  next
    case False
    with assms a have e: "int e = 1 + (a - 1) div d"
      by (auto simp: positive_ceil_div_def Let_def pos_imp_zdiv_nonneg_iff)
    have "i < e \<longleftrightarrow> int i \<le> (a - 1) div d" using e by linarith
    also have "\<dots> \<longleftrightarrow> int i * d \<le> a - 1"
    proof
      assume "int i \<le> (a - 1) div d"
      then have "int i * d \<le> (a - 1) div d * d" using a by (intro mult_right_mono) auto
      also have "\<dots> \<le> a - 1" using a by (metis mult.commute minus_mod_eq_mult_div
          pos_mod_sign diff_le_eq le_add_same_cancel1)
      finally show "int i * d \<le> a - 1" .
    next
      assume "int i * d \<le> a - 1"
      then have "(int i * d) div d \<le> (a - 1) div d" using a by (intro zdiv_mono1) auto
      then show "int i \<le> (a - 1) div d" using a by simp
    qed
    finally show ?thesis by linarith
  qed
qed

text \<open>The extent counts exactly the steps from the start that stay before the end.\<close>

lemma normalize_slice_Ok:
  assumes "normalize_slice sl n = Ok (start, extent)" and "0 < n"
  shows "start = slice_start sl n"
    and "i < extent \<longleftrightarrow>
      (if 0 < s_step sl then start + int i * s_step sl < slice_end sl n
       else slice_end sl n < start + int i * s_step sl)"
    and "0 \<le> start \<and> start \<le> int n"
    and "i < extent \<Longrightarrow> 0 \<le> start + int i * s_step sl \<and> start + int i * s_step sl < int n"
proof -
  from assms have nz: "s_step sl \<noteq> 0" and n: "int n \<le> isize_max"
    by (auto simp: normalize_slice_def split: if_splits)
  have main: "start = slice_start sl n \<and>
      (i < extent \<longleftrightarrow> (if 0 < s_step sl then start + int i * s_step sl < slice_end sl n
         else slice_end sl n < start + int i * s_step sl)) \<and>
      0 \<le> start \<and> start \<le> int n \<and>
      (if 0 < s_step sl then 0 \<le> slice_end sl n \<and> slice_end sl n \<le> int n
       else - 1 \<le> slice_end sl n \<and> start < int n)"
  proof (cases "0 < s_step sl")
    case True
    from True assms n have start: "start = slice_start sl n"
      and rng: "0 \<le> start" "start \<le> int n" "0 \<le> slice_end sl n" "slice_end sl n \<le> int n"
      and ext: "slice_end sl n \<le> start \<and> extent = 0 \<or>
        start < slice_end sl n \<and> positive_ceil_div (slice_end sl n - start) (s_step sl) = Ok extent"
      unfolding normalize_slice_def slice_start_def slice_end_def
      by (auto split: if_splits)
    from ext have "i < extent \<longleftrightarrow> start + int i * s_step sl < slice_end sl n"
    proof
      assume "slice_end sl n \<le> start \<and> extent = 0"
      moreover have "0 \<le> int i * s_step sl" using True by simp
      ultimately show ?thesis by linarith
    next
      assume a: "start < slice_end sl n \<and> positive_ceil_div (slice_end sl n - start) (s_step sl) = Ok extent"
      from ceil_div_steps [OF conjunct2 [OF a], of i] show ?thesis by linarith
    qed
    with True start rng show ?thesis by simp
  next
    case False
    with nz have neg: "s_step sl < 0" by simp
    from False assms n have start: "start = slice_start sl n"
      and rng: "0 \<le> start" "start < int n" "- 1 \<le> slice_end sl n"
      and ext: "start \<le> slice_end sl n \<and> extent = 0 \<or>
        slice_end sl n < start \<and> positive_ceil_div (start - slice_end sl n) (- s_step sl) = Ok extent"
      unfolding normalize_slice_def slice_start_def slice_end_def
      by (auto split: if_splits)
    from ext have "i < extent \<longleftrightarrow> slice_end sl n < start + int i * s_step sl"
    proof
      assume "start \<le> slice_end sl n \<and> extent = 0"
      moreover have "int i * s_step sl \<le> 0" using neg by (simp add: mult_nonneg_nonpos)
      ultimately show ?thesis by linarith
    next
      assume a: "slice_end sl n < start \<and> positive_ceil_div (start - slice_end sl n) (- s_step sl) = Ok extent"
      have "int i * (- s_step sl) = - (int i * s_step sl)" by simp
      with ceil_div_steps [OF conjunct2 [OF a], of i] show ?thesis by linarith
    qed
    with False start rng show ?thesis by simp
  qed
  then show "start = slice_start sl n" by simp
  from main show "i < extent \<longleftrightarrow>
      (if 0 < s_step sl then start + int i * s_step sl < slice_end sl n
       else slice_end sl n < start + int i * s_step sl)" by simp
  from main show "0 \<le> start \<and> start \<le> int n" by simp
  assume i: "i < extent"
  show "0 \<le> start + int i * s_step sl \<and> start + int i * s_step sl < int n"
  proof (cases "0 < s_step sl")
    case True
    then have "0 \<le> int i * s_step sl" by simp
    with main i True show ?thesis by simp
  next
    case False
    then have "int i * s_step sl \<le> 0" by (simp add: mult_nonneg_nonpos)
    with main i False show ?thesis by simp
  qed
qed

lemma normalize_slice_empty: "normalize_slice sl 0 = Ok (start, extent) \<Longrightarrow> extent = 0"
  by (auto simp: normalize_slice_def split: if_splits)

fun slice_index :: "shape \<Rightarrow> slice_spec list \<Rightarrow> nat list \<Rightarrow> nat list" where
  "slice_index (n # ns) (sl # sls) (i # is) =
    nat (slice_start sl n + int i * s_step sl) # slice_index ns sls is"
| "slice_index _ _ _ = []"

definition slice_src :: "slice_spec list \<Rightarrow> layout \<Rightarrow> layout \<Rightarrow> nat list \<Rightarrow> nat list" where
  "slice_src sl l l' idx = slice_index (l_shape l) sl idx"

lemma slice_fold:
  "length st = length sh \<Longrightarrow> length sl = length sh \<Longrightarrow>
    try_fold slice_step (sh0, st0, off0) (zip (zip sh st) sl) = Ok (sh', st', off') \<Longrightarrow>
    \<exists>es ss. sh' = sh0 @ es \<and> st' = st0 @ ss \<and> length es = length sh \<and> length ss = length sh \<and>
      (\<forall>idx. in_range es idx \<longrightarrow>
        in_range sh (slice_index sh sl idx) \<and>
        off' + dot idx ss = off0 + dot (slice_index sh sl idx) st)"
proof (induction sh arbitrary: st sl sh0 st0 off0)
  case Nil
  then show ?case by simp
next
  case (Cons n ns)
  then obtain s ss0 c cs where st: "st = s # ss0" "length ss0 = length ns"
    and sl: "sl = c # cs" "length cs = length ns"
    by (cases st; cases sl) auto
  from Cons.prems(3) st(1) sl(1) obtain s1 where
    step: "slice_step (sh0, st0, off0) ((n, s), c) = Ok s1"
    and tail: "try_fold slice_step s1 (zip (zip ns ss0) cs) = Ok (sh', st', off')"
    by auto
  from step obtain start extent where norm: "normalize_slice c n = Ok (start, extent)"
    and s1: "s1 = (sh0 @ [extent], st0 @ [s * s_step c], off0 + start * s)"
    by (auto simp: slice_step_def split: prod.splits)
  note rest = tail [unfolded s1]
  from Cons.IH [OF st(2) sl(2) rest] obtain es ss where
    shape: "sh' = (sh0 @ [extent]) @ es" "st' = (st0 @ [s * s_step c]) @ ss"
      "length es = length ns" "length ss = length ns"
    and ih: "\<And>idx. in_range es idx \<Longrightarrow> in_range ns (slice_index ns cs idx) \<and>
        off' + dot idx ss = off0 + start * s + dot (slice_index ns cs idx) ss0"
    by blast
  have "in_range (n # ns) (slice_index (n # ns) sl idx) \<and>
      off' + dot idx ((s * s_step c) # ss) = off0 + dot (slice_index (n # ns) sl idx) st"
    if r: "in_range (extent # es) idx" for idx
  proof -
    from r obtain i "is" where i: "idx = i # is" "i < extent" "in_range es is" by auto
    have n: "0 < n" using norm i(2) normalize_slice_empty by (cases n) auto
    have eq: "start = slice_start c n" by (rule normalize_slice_Ok(1) [OF norm n])
    have b: "0 \<le> slice_start c n + int i * s_step c \<and> slice_start c n + int i * s_step c < int n"
      using normalize_slice_Ok(4) [OF norm n i(2)] by (simp add: eq)
    then have "in_range (n # ns) (slice_index (n # ns) sl idx)"
      using ih [OF i(3)] i(1) sl(1) by auto
    moreover have "off' + dot idx ((s * s_step c) # ss) = off0 + dot (slice_index (n # ns) sl idx) st"
      using ih [OF i(3)] b i(1) sl(1) st(1) eq by (simp add: algebra_simps)
    ultimately show ?thesis by blast
  qed
  then show ?case using shape by (intro exI [of _ "extent # es"] exI [of _ "(s * s_step c) # ss"]) simp
qed

interpretation slicing: layout_view "\<lambda>l len. layout_slice_view r l sl len" "slice_src sl" for r sl
proof
  fix l len l'
  assume wf: "wf_layout l" and v: "layout_slice_view r l sl len = Ok l'"
  then obtain sh st off where len: "length sl = length (l_shape l)"
    and f: "try_fold slice_step ([], [], l_offset l) (zip (zip (l_shape l) (l_strides l)) sl) = Ok (sh, st, off)"
    and p: "layout_from_parts sh st off len = Ok l'"
    by (auto simp: layout_slice_view_def layout_from_vecs_def split: if_splits)
  note P = from_parts_Ok [OF p]
  show "wf_layout l'" by (rule P(2))
  fix idx
  assume idx: "in_range (l_shape l') idx"
  from wf have "length (l_strides l) = length (l_shape l)" by (simp add: wf_layout_def)
  from slice_fold [OF this len f] idx P(1)
  show "in_range (l_shape l) (slice_src sl l l' idx) \<and>
      offset_of l' idx = offset_of l (slice_src sl l l' idx)"
    by (auto simp: slice_src_def offset_of_def)
qed

section \<open>Reshaping\<close>

definition reshape_src :: "layout \<Rightarrow> layout \<Rightarrow> nat list \<Rightarrow> nat list" where
  "reshape_src l l' idx = unlin (l_shape l) (lin (l_shape l') idx)"

lemma reshape_Ok:
  assumes "layout_reshape_view_as r2 l sh len = Ok l'"
  shows "layout_from_parts sh (scan_products 1 sh) (l_offset l) len = Ok l'"
    and "prod_list (l_shape l) = prod_list sh"
    and "0 \<notin> set (l_shape l) \<Longrightarrow> l_strides l = scan_products 1 (l_shape l)"
proof -
  from assms obtain st where c: "layout_is_compact_col_major l = Ok True"
    and f: "checked_product (l_shape l) = Ok (prod_list sh)"
    and st: "col_major_strides sh = Ok st"
    and p: "layout_from_parts sh st (l_offset l) len = Ok l'"
    by (auto simp: layout_reshape_view_as_def dest!: checked_product_Ok [of sh] split: if_splits)
  show "layout_from_parts sh (scan_products 1 sh) (l_offset l) len = Ok l'"
    using p col_major_strides_Ok [OF st] by simp
  show "prod_list (l_shape l) = prod_list sh" using checked_product_Ok [OF f] by simp
  assume "0 \<notin> set (l_shape l)"
  with c have "col_major_strides (l_shape l) = Ok (l_strides l)"
    by (auto simp: layout_is_compact_col_major_def)
  then show "l_strides l = scan_products 1 (l_shape l)" by (rule col_major_strides_Ok)
qed

interpretation reshape:
  layout_view "\<lambda>l len. layout_reshape_view_as r2 l sh len" reshape_src for r2 sh
proof
  fix l len l'
  assume v: "layout_reshape_view_as r2 l sh len = Ok l'"
  note R = reshape_Ok [OF v] and P = from_parts_Ok [OF reshape_Ok(1) [OF v]]
  show "wf_layout l'" by (rule P(2))
  fix idx
  assume idx: "in_range (l_shape l') idx"
  then have sh: "in_range sh idx" using P(1) by simp
  have "0 < prod_list sh" using in_range_nonzero [OF sh] by (simp add: prod_list_pos_iff)
  then have nz: "0 \<notin> set (l_shape l)" using R(2) prod_list_pos_iff [of "l_shape l"] by simp
  have less: "lin sh idx < prod_list (l_shape l)" using lin_less [OF sh] R(2) by simp
  have r: "in_range (l_shape l) (reshape_src l l' idx)"
    unfolding reshape_src_def by (rule in_range_unlin [OF nz])
  have "lin (l_shape l) (reshape_src l l' idx) = lin sh idx"
    using lin_unlin [OF less] P(1) by (simp add: reshape_src_def)
  then have "offset_of l' idx = offset_of l (reshape_src l l' idx)"
    using dot_col_major [OF sh] dot_col_major [OF r] R(3) [OF nz] P(1) by (simp add: offset_of_def)
  with r show "in_range (l_shape l) (reshape_src l l' idx) \<and>
      offset_of l' idx = offset_of l (reshape_src l l' idx)" by simp
qed

section \<open>Broadcasting\<close>

definition broadcast_index :: "shape \<Rightarrow> shape \<Rightarrow> nat list \<Rightarrow> nat list \<Rightarrow> nat list" where
  "broadcast_index ish osh dims idx =
    map (\<lambda>k. if ish ! k = osh ! (dims ! k) then idx ! (dims ! k) else 0) [0..<length ish]"

definition broadcast_src :: "nat list \<Rightarrow> layout \<Rightarrow> layout \<Rightarrow> nat list \<Rightarrow> nat list" where
  "broadcast_src dims l l' idx = broadcast_index (l_shape l) (l_shape l') dims idx"

lemma dot_update:
  assumes "k < length st" and "length idx = length st" and "st ! k = 0"
  shows "dot idx (st[k := x]) = dot idx st + int (idx ! k) * x"
proof -
  have "dot idx (st[k := x]) = (\<Sum>j < length st. int (idx ! j) * (st[k := x]) ! j)"
    using assms(2) by (simp add: dot_nth)
  also have "\<dots> = (\<Sum>j < length st. int (idx ! j) * st ! j + (if j = k then int (idx ! k) * x else 0))"
    using assms by (intro sum.cong) (auto simp: nth_list_update)
  also have "\<dots> = dot idx st + int (idx ! k) * x"
    using assms by (simp add: sum.distrib dot_nth)
  finally show ?thesis .
qed

text \<open>Each input axis contributes its stride at its own output axis, or nothing when it is an
  expanded singleton.\<close>

lemma broadcast_fold:
  assumes "try_fold (broadcast_step l sh) (seen, st) (zip [m..<m + length dims] dims) = Ok (seen', st')"
    and "length seen = length sh" and "length st = length sh" and "length idx = length sh"
    and "\<And>k. k < length sh \<Longrightarrow> \<not> seen ! k \<Longrightarrow> st ! k = 0"
  shows "length st' = length sh \<and>
    (\<forall>j < length dims. dims ! j < length sh \<and>
      (l_shape l ! (m + j) = sh ! (dims ! j) \<or> l_shape l ! (m + j) = 1)) \<and>
    dot idx st' = dot idx st +
      (\<Sum>j < length dims. (if l_shape l ! (m + j) = sh ! (dims ! j)
         then int (idx ! (dims ! j)) * l_strides l ! (m + j) else 0))"
  using assms
proof (induction dims arbitrary: seen st m)
  case Nil
  then show ?case by simp
next
  case (Cons d dims)
  let ?eq = "l_shape l ! m = sh ! d"
  define st1 where "st1 = (if ?eq then st[d := l_strides l ! m] else st)"
  have upt: "[m..<m + length (d # dims)] = m # [Suc m..<Suc m + length dims]"
    by (simp add: upt_conv_Cons del: upt_Suc)
  from Cons.prems(1) obtain s1 where
    step: "broadcast_step l sh (seen, st) (m, d) = Ok s1"
    and tail: "try_fold (broadcast_step l sh) s1 (zip [Suc m..<Suc m + length dims] dims) = Ok (seen', st')"
    unfolding upt by (auto simp del: upt_Suc)
  from step have d: "d < length sh" "\<not> seen ! d" "?eq \<or> l_shape l ! m = 1"
    and s1: "s1 = (seen[d := True], st1)"
    unfolding st1_def by (auto simp: broadcast_step_def Let_def split: if_splits)
  note rest = tail [unfolded s1]
  have zero: "k < length sh \<Longrightarrow> \<not> (seen[d := True]) ! k \<Longrightarrow> st1 ! k = 0" for k
    using Cons.prems(2,5) [of] Cons.prems(5) [of k] unfolding st1_def
    by (cases "k = d") (auto simp: Cons.prems(2))
  have dot1: "dot idx st1 = dot idx st + (if ?eq then int (idx ! d) * l_strides l ! m else 0)"
    using dot_update [of d st idx] Cons.prems(3,4) Cons.prems(5) [OF d(1,2)] d(1)
    unfolding st1_def by simp
  have len1: "length st1 = length sh" using Cons.prems(3) by (simp add: st1_def)
  note ih = Cons.IH [OF rest _ len1 Cons.prems(4) zero, simplified, OF Cons.prems(2)]
  have dims: "(d # dims) ! j < length sh \<and>
      (l_shape l ! (m + j) = sh ! ((d # dims) ! j) \<or> l_shape l ! (m + j) = 1)"
    if "j < length (d # dims)" for j
    using that ih d(1,3) by (cases j) auto
  have "dot idx st' = dot idx st + (if ?eq then int (idx ! d) * l_strides l ! m else 0) +
      (\<Sum>j < length dims. (if l_shape l ! (Suc m + j) = sh ! (dims ! j)
         then int (idx ! (dims ! j)) * l_strides l ! (Suc m + j) else 0))"
    using ih dot1 by simp
  also have "\<dots> = dot idx st + (\<Sum>j < length (d # dims). (if l_shape l ! (m + j) = sh ! ((d # dims) ! j)
         then int (idx ! ((d # dims) ! j)) * l_strides l ! (m + j) else 0))"
    by (auto simp: sum.lessThan_Suc_shift simp del: sum.lessThan_Suc intro!: sum.cong)
  finally show ?case using ih dims by blast
qed

interpretation broadcast:
  layout_view "\<lambda>l len. layout_broadcast_in_dim_view r2 l sh dims len" "broadcast_src dims"
  for r2 sh dims
proof
  fix l len l'
  assume wf: "wf_layout l" and v: "layout_broadcast_in_dim_view r2 l sh dims len = Ok l'"
  then obtain seen st where dl: "length dims = length (l_shape l)"
    and f: "try_fold (broadcast_step l sh) (replicate (length sh) False, replicate (length sh) 0)
              (zip [0..<0 + length dims] dims) = Ok (seen, st)"
    and p: "layout_from_parts sh st (l_offset l) len = Ok l'"
    by (auto simp: layout_broadcast_in_dim_view_def split: if_splits)
  note P = from_parts_Ok [OF p]
  show "wf_layout l'" by (rule P(2))
  fix idx
  assume "in_range (l_shape l') idx"
  then have idx: "in_range sh idx" using P(1) by simp
  note F = broadcast_fold [OF f _ _ in_range_length [OF idx], simplified]
  have bounds: "dims ! j < length sh" "l_shape l ! j = sh ! (dims ! j) \<or> l_shape l ! j = 1"
    if "j < length (l_shape l)" for j
    using F that dl by auto
  let ?src = "broadcast_index (l_shape l) sh dims idx"
  have r: "in_range (l_shape l) ?src"
    unfolding in_range_nth broadcast_index_def
    using bounds idx by (fastforce simp: in_range_nth)
  have len: "length (l_strides l) = length (l_shape l)" using wf by (simp add: wf_layout_def)
  have "dot ?src (l_strides l) = (\<Sum>j < length (l_shape l).
      (if l_shape l ! j = sh ! (dims ! j) then int (idx ! (dims ! j)) * l_strides l ! j else 0))"
    by (simp add: dot_nth broadcast_index_def len if_distrib if_distribR cong: if_cong)
  then have "dot idx st = dot ?src (l_strides l)"
    using F dl in_range_length [OF idx] dot_nth [of idx "replicate (length sh) 0"]
    by (simp cong: if_cong)
  then show "in_range (l_shape l) (broadcast_src dims l l' idx) \<and>
      offset_of l' idx = offset_of l (broadcast_src dims l l' idx)"
    using r P(1) by (simp add: broadcast_src_def offset_of_def)
qed

end
