(* ===== verification/Layout_Overlap.thy ===== *)
theory Layout_Overlap
  imports Layout
begin

text \<open>
  \<open>TensorLayout::validate_mutable_no_overlap\<close> of \<open>layout.rs\<close>: the sorted-stride scan, and the
  exact enumeration it falls back to below 4096 elements.  A layout it accepts maps distinct
  indices to distinct physical offsets; a small layout it rejects really aliases.
\<close>

section \<open>The check\<close>

definition MUTABLE_NO_OVERLAP_EXACT_ELEMENT_LIMIT :: nat where
  "MUTABLE_NO_OVERLAP_EXACT_ELEMENT_LIMIT = 4096"

definition physical_offset_step :: "int \<Rightarrow> nat \<times> int \<Rightarrow> int res" where
  "physical_offset_step off e =
    (case e of (index, stride) \<Rightarrow>
       and_then (ok_or (isize_try_from index) IntegerOverflow) (\<lambda>i.
       and_then (ok_or (ichecked_mul i stride) IntegerOverflow) (\<lambda>delta.
         ok_or (ichecked_add off delta) IntegerOverflow)))"

fun odometer_left :: "shape \<Rightarrow> nat list \<Rightarrow> nat" where
  "odometer_left (n # ns) (i # is) = (n - i) + (n + 1) * odometer_left ns is"
| "odometer_left _ _ = 0"

lemma odometer_left_next: "next_index sh idx = Some idx' \<Longrightarrow> odometer_left sh idx' < odometer_left sh idx"
proof (induction sh idx arbitrary: idx' rule: next_index.induct)
  case (1 n ns i "is")
  show ?case
  proof (cases "i + 1 < n")
    case True
    with "1.prems" show ?thesis by auto
  next
    case False
    with "1.prems" obtain js where js: "next_index ns is = Some js" "idx' = 0 # js" by auto
    have "odometer_left ns js + 1 \<le> odometer_left ns is" using "1.IH" [OF False js(1)] by simp
    then have "(n + 1) * (odometer_left ns js + 1) \<le> (n + 1) * odometer_left ns is"
      by (rule mult_le_mono2)
    then show ?thesis using js(2) by simp
  qed
qed auto

function no_overlap_loop :: "layout \<Rightarrow> int set \<Rightarrow> nat list \<Rightarrow> unit res" where
  "no_overlap_loop l seen indices =
    and_then (try_fold physical_offset_step (l_offset l) (zip indices (l_strides l))) (\<lambda>off.
      if off \<in> seen then Err OverlappingMutableLayout
      else case next_index (l_shape l) indices of
             None \<Rightarrow> Ok ()
           | Some indices' \<Rightarrow> no_overlap_loop l (insert off seen) indices')"
  by pat_completeness auto
termination
  by (relation "measure (\<lambda>(l, _, indices). odometer_left (l_shape l) indices)")
    (auto dest: odometer_left_next)

declare no_overlap_loop.simps [simp del]

definition validate_mutable_no_overlap_exact_or_reject :: "layout \<Rightarrow> nat \<Rightarrow> unit res" where
  "validate_mutable_no_overlap_exact_or_reject l element_count =
    (if MUTABLE_NO_OVERLAP_EXACT_ELEMENT_LIMIT < element_count then Err OverlappingMutableLayout
     else no_overlap_loop l {} (replicate (length (l_shape l)) 0))"

definition overlap_axes :: "shape \<Rightarrow> strides \<Rightarrow> (nat \<times> nat) list" where
  "overlap_axes sh st =
    map (\<lambda>(extent, stride). (extent, nat \<bar>stride\<bar>)) (filter (\<lambda>(extent, _). 1 < extent) (zip sh st))"

fun overlap_scan :: "unit res \<Rightarrow> nat \<Rightarrow> (nat \<times> nat) list \<Rightarrow> unit res" where
  "overlap_scan fallback span [] = Ok ()"
| "overlap_scan fallback span ((extent, stride) # axes) =
    (if stride \<le> span then fallback
     else
       and_then (ok_or (checked_mul (extent - 1) stride) IntegerOverflow) (\<lambda>d.
       and_then (ok_or (checked_add span d) IntegerOverflow) (\<lambda>span'.
         overlap_scan fallback span' axes)))"

definition layout_validate_mutable_no_overlap :: "layout \<Rightarrow> unit res" where
  "layout_validate_mutable_no_overlap l =
    (if 0 \<in> set (l_shape l) then Ok ()
     else if list_ex (\<lambda>(extent, stride). 1 < extent \<and> stride = 0) (zip (l_shape l) (l_strides l))
     then Err OverlappingMutableLayout
     else
       and_then (checked_product (l_shape l)) (\<lambda>element_count.
         overlap_scan (validate_mutable_no_overlap_exact_or_reject l element_count) 0
           (sort_by (\<lambda>a b. snd a \<le> snd b) (overlap_axes (l_shape l) (l_strides l)))))"

text \<open>What the check promises.\<close>

definition no_alias :: "layout \<Rightarrow> bool" where
  "no_alias l \<longleftrightarrow> inj_on (offset_of l) {idx. in_range (l_shape l) idx}"

section \<open>The exact enumeration\<close>

lemma physical_offset:
  "try_fold physical_offset_step off (zip idx st) = Ok r \<Longrightarrow> r = off + dot idx st"
proof (induction idx st arbitrary: off rule: dot.induct)
  case (1 i "is" s ss)
  from "1.prems" obtain off1 where "physical_offset_step off (i, s) = Ok off1"
    and tail: "try_fold physical_offset_step off1 (zip is ss) = Ok r" by auto
  then have "off1 = off + int i * s" by (simp add: physical_offset_step_def)
  with "1.IH" [OF tail] show ?case by simp
qed auto

definition visited :: "shape \<Rightarrow> nat \<Rightarrow> nat list set" where
  "visited sh k = {i. in_range sh i \<and> lin sh i < k}"

lemma visited_Suc: "in_range sh idx \<Longrightarrow> visited sh (lin sh idx + 1) = insert idx (visited sh (lin sh idx))"
  unfolding visited_def using lin_inj [of sh _ idx] by (auto simp: less_Suc_eq)

lemma visited_all: "visited sh (prod_list sh) = {i. in_range sh i}"
  unfolding visited_def using lin_less by blast

lemma no_overlap_loop_spec:
  assumes "in_range (l_shape l) idx"
    and "seen = offset_of l ` visited (l_shape l) (lin (l_shape l) idx)"
    and "inj_on (offset_of l) (visited (l_shape l) (lin (l_shape l) idx))"
  shows "(no_overlap_loop l seen idx = Ok () \<longrightarrow> no_alias l) \<and>
    (no_overlap_loop l seen idx = Err OverlappingMutableLayout \<longrightarrow> \<not> no_alias l)"
  using assms
proof (induction l seen idx rule: no_overlap_loop.induct)
  case (1 l seen idx)
  let ?sh = "l_shape l"
  let ?fold = "try_fold physical_offset_step (l_offset l) (zip idx (l_strides l))"
  show ?case
  proof (cases ?fold)
    case (Inl e)
    have "e = IntegerOverflow" if "try_fold physical_offset_step off (zip is ss) = Inl e" for off "is" ss
      using that
      by (induction "is" ss arbitrary: off rule: dot.induct) (auto simp: physical_offset_step_def)
    with Inl have "e = IntegerOverflow" by blast
    with Inl show ?thesis by (simp add: no_overlap_loop.simps [of l seen idx])
  next
    case (Inr off)
    then have off: "off = offset_of l idx" by (simp add: physical_offset offset_of_def)
    have v: "visited ?sh (lin ?sh idx + 1) = insert idx (visited ?sh (lin ?sh idx))"
      by (rule visited_Suc [OF "1.prems"(1)])
    show ?thesis
    proof (cases "off \<in> seen")
      case True
      then obtain j where "in_range ?sh j" "lin ?sh j < lin ?sh idx" "offset_of l j = offset_of l idx"
        using "1.prems"(2) off by (auto simp: visited_def)
      then have "\<not> no_alias l" using "1.prems"(1) unfolding no_alias_def inj_on_def by fastforce
      then show ?thesis using True Inr by (simp add: no_overlap_loop.simps [of l seen idx])
    next
      case False
      have inj: "inj_on (offset_of l) (visited ?sh (lin ?sh idx + 1))"
        using False "1.prems"(2,3) off unfolding v by auto
      show ?thesis
      proof (cases "next_index ?sh idx")
        case None
        from next_index_None [OF "1.prems"(1) None] inj visited_all [of ?sh] have "no_alias l"
          by (simp add: no_alias_def)
        then show ?thesis using None False Inr by (simp add: no_overlap_loop.simps [of l seen idx])
      next
        case (Some idx')
        note nx = next_index_Some [OF "1.prems"(1) Some]
        have seen: "insert off seen = offset_of l ` visited ?sh (lin ?sh idx')"
          using "1.prems"(2) off nx v by simp
        have "no_overlap_loop l seen idx = no_overlap_loop l (insert off seen) idx'"
          using Some False Inr by (simp add: no_overlap_loop.simps [of l seen idx])
        then show ?thesis
          using "1.IH" [OF False Some conjunct1 [OF nx] seen] inj nx by simp
      qed
    qed
  qed
qed

lemma exact_spec:
  assumes "0 \<notin> set (l_shape l)"
  shows "validate_mutable_no_overlap_exact_or_reject l n = Ok () \<Longrightarrow> no_alias l"
    and "validate_mutable_no_overlap_exact_or_reject l n = Err OverlappingMutableLayout \<Longrightarrow>
      n \<le> MUTABLE_NO_OVERLAP_EXACT_ELEMENT_LIMIT \<Longrightarrow> \<not> no_alias l"
  using no_overlap_loop_spec [OF in_range_zeros [OF assms], of "{}"]
  by (auto simp: validate_mutable_no_overlap_exact_or_reject_def lin_zeros visited_def split: if_splits)

section \<open>The sorted scan\<close>

text \<open>Each axis that can move, with the difference of two indices along it, signed by its stride.\<close>

fun axis_diffs :: "shape \<Rightarrow> strides \<Rightarrow> nat list \<Rightarrow> nat list \<Rightarrow> ((nat \<times> nat) \<times> int) list" where
  "axis_diffs (n # ns) (s # ss) (i # is) (j # js) =
    (if 1 < n then [((n, nat \<bar>s\<bar>), (int i - int j) * sgn s)] else []) @ axis_diffs ns ss is js"
| "axis_diffs _ _ _ _ = []"

lemma axis_diffs_axes:
  "in_range sh i \<Longrightarrow> in_range sh j \<Longrightarrow> length st = length sh \<Longrightarrow>
    map fst (axis_diffs sh st i j) = overlap_axes sh st"
proof (induction sh arbitrary: st i j)
  case Nil
  then show ?case by (simp add: overlap_axes_def)
next
  case (Cons n ns)
  then show ?case by (cases st) (auto simp: overlap_axes_def)
qed

lemma axis_diffs_bound:
  "in_range sh i \<Longrightarrow> in_range sh j \<Longrightarrow> ((n, s), d) \<in> set (axis_diffs sh st i j) \<Longrightarrow> \<bar>d\<bar> \<le> int n - 1"
proof (induction sh arbitrary: st i j)
  case Nil
  then show ?case by simp
next
  case (Cons m ns)
  have *: "\<bar>(int a - int b) * sgn t\<bar> \<le> int m - 1" if "a < m" "b < m" for a b t
    using that by (auto simp: abs_mult sgn_if abs_less_iff)
  from Cons show ?case by (cases st) (auto dest: * [THEN zle_diff1_eq [THEN iffD1]] split: if_splits)
qed

lemma axis_diffs_sum:
  "in_range sh i \<Longrightarrow> in_range sh j \<Longrightarrow> length st = length sh \<Longrightarrow>
    dot i st - dot j st = sum_list (map (\<lambda>((n, s), d). d * int s) (axis_diffs sh st i j))"
proof (induction sh arbitrary: st i j)
  case Nil
  then show ?case by simp
next
  case (Cons n ns)
  then obtain a as b bs s ss where ij: "i = a # as" "j = b # bs" "a < n" "b < n"
    "in_range ns as" "in_range ns bs" "st = s # ss" "length ss = length ns" by (cases st) auto
  have sgn: "(int a - int b) * sgn s * int (nat \<bar>s\<bar>) = (int a - int b) * s"
    by (simp add: sgn_if)
  have one: "\<not> 1 < n \<Longrightarrow> a = b" using ij by simp
  from Cons.IH [OF ij(5,6,8)] sgn one show ?case
    by (auto simp: ij algebra_simps)
qed

lemma axis_diffs_zero:
  "in_range sh i \<Longrightarrow> in_range sh j \<Longrightarrow> length st = length sh \<Longrightarrow>
    \<forall>(n, s) \<in> set (zip sh st). 1 < n \<longrightarrow> s \<noteq> 0 \<Longrightarrow>
    \<forall>(_, d) \<in> set (axis_diffs sh st i j). d = 0 \<Longrightarrow> i = j"
proof (induction sh arbitrary: st i j)
  case Nil
  then show ?case by simp
next
  case (Cons n ns)
  then obtain a as b bs s ss where ij: "i = a # as" "j = b # bs" "a < n" "b < n"
    "in_range ns as" "in_range ns bs" "st = s # ss" "length ss = length ns" by (cases st) auto
  have "as = bs" using Cons.IH [OF ij(5,6,8)] Cons.prems(4,5) by (auto simp: ij)
  moreover have "a = b"
    using ij Cons.prems(4,5) by (cases "1 < n") (auto simp: sgn_if split: if_splits)
  ultimately show ?case by (simp add: ij)
qed

text \<open>When every stride exceeds the span of the axes before it, a signed combination of the
  strides within the extents vanishes only trivially.\<close>

lemma overlap_scan_zero:
  "overlap_scan fallback span (map fst ds) = Ok () \<Longrightarrow> fallback \<noteq> Ok () \<Longrightarrow>
    \<forall>((n, s), d) \<in> set ds. 1 < n \<and> \<bar>d\<bar> \<le> int n - 1 \<Longrightarrow> \<bar>e\<bar> \<le> int span \<Longrightarrow>
    e + sum_list (map (\<lambda>((n, s), d). d * int s) ds) = 0 \<Longrightarrow>
    e = 0 \<and> (\<forall>(_, d) \<in> set ds. d = 0)"
proof (induction ds arbitrary: span e)
  case Nil
  then show ?case by simp
next
  case (Cons x ds)
  obtain n s d where x: "x = ((n, s), d)" by (metis prod.exhaust)
  from Cons.prems(1,2) have s: "span < s"
    and rest: "overlap_scan fallback (span + (n - 1) * s) (map fst ds) = Ok ()"
    by (auto simp: x split: if_splits)
  from Cons.prems(3) have n: "1 < n" "\<bar>d\<bar> \<le> int n - 1" by (auto simp: x)
  have "\<bar>d * int s\<bar> \<le> (int n - 1) * int s" unfolding abs_mult using n by (intro mult_mono) auto
  also have "\<dots> = int ((n - 1) * s)" using n by (simp add: of_nat_diff)
  finally have bound: "\<bar>e + d * int s\<bar> \<le> int (span + (n - 1) * s)"
    using Cons.prems(4) by linarith
  have "(e + d * int s) + sum_list (map (\<lambda>((n, s), d). d * int s) ds) = 0"
    using Cons.prems(5) by (simp add: x)
  from Cons.IH [OF rest Cons.prems(2) _ bound this] Cons.prems(3)
  have ih: "e + d * int s = 0" "\<forall>(_, d) \<in> set ds. d = 0" by auto
  have "d = 0"
  proof (rule ccontr)
    assume "d \<noteq> 0"
    then have "1 * int s \<le> \<bar>d\<bar> * int s" by (intro mult_right_mono) auto
    moreover have "\<bar>e\<bar> = \<bar>d\<bar> * int s" using ih(1) by (metis abs_minus abs_mult abs_of_nat add_eq_0_iff)
    ultimately show False using Cons.prems(4) s by linarith
  qed
  with ih show ?case by (auto simp: x)
qed

lemma overlap_scan_cases:
  "overlap_scan fallback span axes = Ok () \<Longrightarrow>
    fallback = Ok () \<or> overlap_scan (Err IntegerOverflow) span axes = Ok ()"
  "overlap_scan fallback span axes = Err OverlappingMutableLayout \<Longrightarrow> fallback = Err OverlappingMutableLayout"
  by (induction fallback span axes rule: overlap_scan.induct) (auto split: if_splits)

lemma scan_no_alias:
  assumes "length st = length sh" and "\<forall>(n, s) \<in> set (zip sh st). 1 < n \<longrightarrow> s \<noteq> 0"
    and "overlap_scan (Err IntegerOverflow) 0 (sort_by (\<lambda>a b. snd a \<le> snd b) (overlap_axes sh st)) = Ok ()"
    and "in_range sh i" and "in_range sh j" and "dot i st = dot j st"
  shows "i = j"
proof -
  let ?ds = "axis_diffs sh st i j"
  let ?sorted = "sort_by (\<lambda>a b. snd (fst a) \<le> snd (fst b)) ?ds"
  have scan: "overlap_scan (Err IntegerOverflow) 0 (map fst ?sorted) = Ok ()"
    using assms(3)
    unfolding axis_diffs_axes [OF assms(4,5,1), symmetric] sort_by_map [of "\<lambda>a b. snd a \<le> snd b"] .
  have "sum_list (map (\<lambda>((n, s), d). d * int s) ?sorted) = sum_list (map (\<lambda>((n, s), d). d * int s) ?ds)"
    by (rule sum_list_sort_by)
  then have zero: "0 + sum_list (map (\<lambda>((n, s), d). d * int s) ?sorted) = 0"
    using axis_diffs_sum [OF assms(4,5,1)] assms(6) by simp
  have "1 < n" if "((n, s), d) \<in> set ?ds" for n s d
  proof -
    from that have "(n, s) \<in> set (map fst ?ds)" by force
    then show ?thesis using axis_diffs_axes [OF assms(4,5,1)] by (auto simp: overlap_axes_def)
  qed
  with axis_diffs_bound [OF assms(4,5)]
  have "\<forall>((n, s), d) \<in> set ?sorted. 1 < n \<and> \<bar>d\<bar> \<le> int n - 1" by fastforce
  from overlap_scan_zero [OF scan _ this _ zero]
  have "\<forall>(_, d) \<in> set ?ds. d = 0" by simp
  then show ?thesis by (rule axis_diffs_zero [OF assms(4,5,1,2)])
qed

section \<open>Soundness and exactness\<close>

lemma no_overlap_sound:
  assumes "wf_layout l" and "layout_validate_mutable_no_overlap l = Ok ()"
  shows "no_alias l"
proof (cases "0 \<in> set (l_shape l)")
  case True
  then have "{idx. in_range (l_shape l) idx} = {}" using in_range_nonzero by blast
  then show ?thesis by (simp add: no_alias_def)
next
  case False
  let ?axes = "sort_by (\<lambda>a b. snd a \<le> snd b) (overlap_axes (l_shape l) (l_strides l))"
  from assms(2) False obtain n where
    nz: "\<forall>(n, s) \<in> set (zip (l_shape l) (l_strides l)). 1 < n \<longrightarrow> s \<noteq> 0"
    and scan: "overlap_scan (validate_mutable_no_overlap_exact_or_reject l n) 0 ?axes = Ok ()"
    by (auto simp: layout_validate_mutable_no_overlap_def list_ex_iff split: if_splits)
  from overlap_scan_cases(1) [OF scan] show ?thesis
  proof
    assume "validate_mutable_no_overlap_exact_or_reject l n = Ok ()"
    then show ?thesis by (rule exact_spec(1) [OF False])
  next
    assume "overlap_scan (Err IntegerOverflow) 0 ?axes = Ok ()"
    with scan_no_alias [OF _ nz] assms(1) show ?thesis
      unfolding no_alias_def inj_on_def by (auto simp: wf_layout_def offset_of_def)
  qed
qed

lemma no_overlap_exact:
  assumes "wf_layout l" and "layout_validate_mutable_no_overlap l = Err OverlappingMutableLayout"
    and "prod_list (l_shape l) \<le> MUTABLE_NO_OVERLAP_EXACT_ELEMENT_LIMIT"
  shows "\<not> no_alias l"
proof -
  let ?sh = "l_shape l"
  from assms(2) have nz: "0 \<notin> set ?sh" by (auto simp: layout_validate_mutable_no_overlap_def)
  show ?thesis
  proof (cases "list_ex (\<lambda>(n, s). 1 < n \<and> s = 0) (zip ?sh (l_strides l))")
    case True
    then obtain k where k: "k < length ?sh" "1 < ?sh ! k" "l_strides l ! k = 0"
      using assms(1) by (auto simp: list_ex_iff wf_layout_def set_zip)
    let ?z = "replicate (length ?sh) (0 :: nat)"
    let ?o = "?z[k := 1]"
    have "in_range ?sh ?z" by (rule in_range_zeros [OF nz])
    moreover from this k have "in_range ?sh ?o" by (auto simp: in_range_nth nth_list_update)
    moreover have "dot ?o (l_strides l) = (\<Sum>j < length ?sh. int (?o ! j) * l_strides l ! j)"
      using assms(1) by (simp add: dot_nth wf_layout_def)
    then have "dot ?o (l_strides l) = 0"
      using k by (simp add: nth_list_update) (intro sum.neutral, auto)
    moreover have "?z ! k = 0" "?o ! k = 1" using k(1) by simp_all
    then have "?z \<noteq> ?o" by (metis zero_neq_one)
    ultimately show ?thesis unfolding no_alias_def inj_on_def offset_of_def
      by (metis (mono_tags) dot_zeros mem_Collect_eq)
  next
    case False
    with assms(2) nz obtain n where
      n: "checked_product ?sh = Ok n \<or> checked_product ?sh = Err OverlappingMutableLayout"
      and scan: "checked_product ?sh = Ok n \<longrightarrow>
        overlap_scan (validate_mutable_no_overlap_exact_or_reject l n) 0
         (sort_by (\<lambda>a b. snd a \<le> snd b) (overlap_axes ?sh (l_strides l))) = Err OverlappingMutableLayout"
      by (auto simp: layout_validate_mutable_no_overlap_def)
    from n have ok: "checked_product ?sh = Ok n" using checked_product_Err by fastforce
    have "n = prod_list ?sh" by (rule checked_product_Ok [OF ok])
    with exact_spec(2) [OF nz overlap_scan_cases(2)] scan ok assms(3) show ?thesis by simp
  qed
qed

end
