(* ===== verification/Layout_Theorems.thy ===== *)
theory Layout_Theorems
  imports Layout_Views Layout_Overlap
begin

text \<open>
  What \<open>crates/tenferro-tensor-core/src/layout.rs\<close> promises its callers: the bounds check
  is exact, every metadata-only view stays inside the buffer and reads the elements its name says,
  transpositions can be undone, and the overlap check for mutable views decides aliasing.
\<close>

section \<open>Bounds\<close>

text \<open>C10: A layout accepted by \<open>Layout::from_parts\<close> addresses only elements of its buffer: every
  index of the shape has an offset inside it, whatever the signs of the strides, and the base
  offset itself lies inside or at the end.\<close>

theorem from_parts_in_buffer:
  assumes "layout_from_parts sh st off len = Ok l"
  shows "wf_layout l \<and> in_buffer l len \<and> 0 \<le> l_offset l \<and> l_offset l \<le> int len"
  using from_parts_Ok [OF assms] by blast

theorem from_parts_in_buffer_witness:
  "in_buffer \<lparr>l_shape = [2, 3], l_strides = [-1, 2], l_offset = 1\<rparr> 6"
proof -
  have "layout_from_parts [2, 3] [-1, 2] 1 6 = Ok \<lparr>l_shape = [2, 3], l_strides = [-1, 2], l_offset = 1\<rparr>"
    by (simp add: layout_from_parts_def checked_logical_element_count_def checked_product_def
        validate_reachable_bounds_def reachable_offset_range_def reach_step_def checked_defs int_range_defs)
  from from_parts_in_buffer [OF this] show ?thesis by blast
qed

text \<open>\<open>Layout::from_parts\<close> rejects nothing it should accept: when it reports a view out of
  bounds for a shape without empty axes, some index really falls outside the buffer.\<close>

theorem from_parts_rejects_only_escapes:
  assumes "layout_from_parts sh st off len = Err ViewOutOfBounds" and "0 \<notin> set sh"
  shows "\<exists>idx. in_range sh idx \<and> \<not> (0 \<le> off + dot idx st \<and> off + dot idx st < int len)"
proof -
  have "validate_reachable_bounds sh st off len = Err ViewOutOfBounds"
    using assms(1) checked_product_Err [of sh]
    by (auto simp: layout_from_parts_def checked_logical_element_count_def split: if_splits)
  then show ?thesis using validate_bounds_Err assms(2) by blast
qed

theorem from_parts_rejects_only_escapes_witness:
  "\<exists>idx. in_range [2, 3] idx \<and> \<not> (0 \<le> 1 + dot idx [1, 2] \<and> 1 + dot idx [1, 2] < int 6)"
proof -
  have "layout_from_parts [2, 3] [1, 2] 1 6 = Err ViewOutOfBounds"
    by (simp add: layout_from_parts_def checked_logical_element_count_def checked_product_def
        validate_reachable_bounds_def reachable_offset_range_def reach_step_def checked_defs int_range_defs)
  from from_parts_rejects_only_escapes [OF this] show ?thesis by simp
qed

section \<open>Views\<close>

text \<open>C11: No view operation reaches outside the buffer its source was validated for:
  transposition, slicing, reshaping and broadcasting all keep the bounds.\<close>

theorem views_stay_in_buffer:
  assumes "wf_layout l" and "in_buffer l len"
    and "layout_transpose_view r l axes = Ok l' \<or> layout_slice_view r l sl len = Ok l' \<or>
      layout_reshape_view_as r l sh len = Ok l' \<or> layout_broadcast_in_dim_view r l sh dims len = Ok l'"
  shows "wf_layout l' \<and> in_buffer l' len"
  using assms transpose.view_wf transpose.in_buffer_view slicing.view_wf slicing.in_buffer_view
    reshape.view_wf reshape.in_buffer_view broadcast.view_wf broadcast.in_buffer_view
  by metis

theorem views_stay_in_buffer_witness:
  "in_buffer \<lparr>l_shape = [3, 2], l_strides = [2, 1], l_offset = 0\<rparr> 6"
proof -
  let ?l = "\<lparr>l_shape = [2, 3], l_strides = [1, 2], l_offset = 0\<rparr>"
  have wf: "wf_layout ?l" by (simp add: wf_layout_def)
  have b: "in_buffer ?l 6"
    by (auto simp: in_buffer_def offset_of_def)
  have "layout_transpose_view DynRank ?l [1, 0] = Ok \<lparr>l_shape = [3, 2], l_strides = [2, 1], l_offset = 0\<rparr>"
    by (simp add: layout_transpose_view_def validate_permutation_def permutation_step_def)
  then show ?thesis using views_stay_in_buffer [OF wf b] by blast
qed






text \<open>A reshape view keeps the column-major order: position \<open>k\<close> of the new shape is position
  \<open>k\<close> of the old one.\<close>

theorem reshape_view_reads:
  assumes "wf_layout l" and "layout_reshape_view_as r l sh len = Ok l'" and "in_range sh idx"
  shows "\<exists>src. in_range (l_shape l) src \<and> lin (l_shape l) src = lin sh idx \<and> offset_of l' idx = offset_of l src"
proof -
  have sh: "l_shape l' = sh" using from_parts_Ok(1) [OF reshape_Ok(1) [OF assms(2)]] by simp
  have "lin sh idx < prod_list (l_shape l)" using lin_less [OF assms(3)] reshape_Ok(2) [OF assms(2)] by simp
  then show ?thesis
    using reshape.view_src [OF assms(1,2)] assms(3) sh
    by (intro exI [of _ "unlin (l_shape l) (lin sh idx)"]) (simp add: reshape_src_def lin_unlin)
qed

theorem reshape_view_reads_witness:
  "\<exists>src. in_range [2, 3] src \<and> lin [2, 3] src = lin [3, 2] [1, 1] \<and>
    offset_of \<lparr>l_shape = [3, 2], l_strides = [1, 3], l_offset = 0\<rparr> [1, 1] =
    offset_of \<lparr>l_shape = [2, 3], l_strides = [1, 2], l_offset = 0\<rparr> src"
proof -
  let ?l = "\<lparr>l_shape = [2, 3], l_strides = [1, 2], l_offset = 0\<rparr>"
  have v: "layout_reshape_view_as DynRank ?l [3, 2] 6 = Ok \<lparr>l_shape = [3, 2], l_strides = [1, 3], l_offset = 0\<rparr>"
    by (simp add: layout_reshape_view_as_def layout_is_compact_col_major_def col_major_strides_def stride_step_def
        layout_from_parts_def checked_logical_element_count_def checked_product_def
        validate_reachable_bounds_def reachable_offset_range_def reach_step_def checked_defs int_range_defs)
  have wf: "wf_layout ?l" by (simp add: wf_layout_def)
  show ?thesis using reshape_view_reads [OF wf v, of "[1, 1]"] by simp
qed

text \<open>A broadcast view repeats the source: an output axis that an input axis of the same extent
  is mapped to indexes that axis, and every other axis, in particular one stretched from extent
  one, does not move the offset.\<close>

theorem broadcast_view_reads:
  assumes "wf_layout l" and "layout_broadcast_in_dim_view r l sh dims len = Ok l'" and "in_range (l_shape l') idx"
  shows "in_range (l_shape l) (broadcast_index (l_shape l) (l_shape l') dims idx) \<and>
    offset_of l' idx = offset_of l (broadcast_index (l_shape l) (l_shape l') dims idx)"
  using broadcast.view_src [OF assms] by (simp add: broadcast_src_def)

theorem broadcast_view_reads_witness:
  "offset_of \<lparr>l_shape = [2, 3], l_strides = [0, 1], l_offset = 0\<rparr> [1, 2] =
    offset_of \<lparr>l_shape = [3], l_strides = [1], l_offset = 0\<rparr> [2]"
proof -
  let ?l = "\<lparr>l_shape = [3], l_strides = [1], l_offset = 0\<rparr>"
  have v: "layout_broadcast_in_dim_view DynRank ?l [2, 3] [1] 3 =
      Ok \<lparr>l_shape = [2, 3], l_strides = [0, 1], l_offset = 0\<rparr>"
    by (simp add: layout_broadcast_in_dim_view_def broadcast_step_def Let_def
        layout_from_parts_def checked_logical_element_count_def checked_product_def
        validate_reachable_bounds_def reachable_offset_range_def reach_step_def checked_defs int_range_defs)
  have wf: "wf_layout ?l" by (simp add: wf_layout_def)
  show ?thesis using broadcast_view_reads [OF wf v, of "[1, 2]"] by (simp add: broadcast_index_def)
qed

text \<open>Transposing with a permutation and then with its inverse gives the layout back.\<close>

lemma inverse_permutation:
  assumes "distinct axes" and "set axes = {..<n}" and "length axes = n"
  shows "validate_permutation n (map (\<lambda>a. index_of a axes) [0..<n]) = Ok ()"
    and "length xs = n \<Longrightarrow> map (\<lambda>a. map (\<lambda>b. xs ! b) axes ! index_of a axes) [0..<n] = xs"
proof -
  have mem: "a \<in> set axes" if "a < n" for a using that assms(2) by simp
  have inj: "inj_on (\<lambda>a. index_of a axes) {0..<n}"
    by (intro inj_onI) (metis atLeastLessThan_iff mem nth_index_of)
  show "validate_permutation n (map (\<lambda>a. index_of a axes) [0..<n]) = Ok ()"
    using inj mem index_of_less [of _ axes] assms(3)
    by (auto simp: validate_permutation_iff distinct_map)
  show "map (\<lambda>a. map (\<lambda>b. xs ! b) axes ! index_of a axes) [0..<n] = xs" if "length xs = n"
    using that mem by (intro nth_equalityI) (simp_all add: index_of_less nth_index_of)
qed

theorem transpose_inverse:
  assumes "wf_layout l" and "layout_transpose_view r l axes = Ok l'"
  shows "layout_transpose_view r l' (map (\<lambda>a. index_of a axes) [0..<length axes]) = Ok l"
proof -
  note T = transpose_Ok [OF assms(2)]
  have r: "rank_admits r (length axes)"
    using assms(2) by (auto simp: layout_transpose_view_def)
  note inv = inverse_permutation [OF T(2,3,4)]
  have "length (l_strides l) = length (l_shape l)" using assms(1) by (simp add: wf_layout_def)
  then show ?thesis
    using inv(1) inv(2) [of "l_shape l"] inv(2) [of "l_strides l"] r T(4)
    by (simp add: T(1) layout_transpose_view_def comp_def)
qed

theorem transpose_inverse_witness:
  "layout_transpose_view DynRank \<lparr>l_shape = [4, 2, 3], l_strides = [6, 1, 2], l_offset = 0\<rparr>
     (map (\<lambda>a. index_of a [2, 0, 1]) [0..<length [2, 0, 1 :: nat]]) =
   Ok \<lparr>l_shape = [2, 3, 4], l_strides = [1, 2, 6], l_offset = 0\<rparr>"
proof (rule transpose_inverse)
  show "wf_layout \<lparr>l_shape = [2, 3, 4], l_strides = [1, 2, 6], l_offset = 0\<rparr>" by (simp add: wf_layout_def)
  show "layout_transpose_view DynRank \<lparr>l_shape = [2, 3, 4], l_strides = [1, 2, 6], l_offset = 0\<rparr> [2, 0, 1] =
      Ok \<lparr>l_shape = [4, 2, 3], l_strides = [6, 1, 2], l_offset = 0\<rparr>"
    by (simp add: layout_transpose_view_def validate_permutation_def permutation_step_def numeral_2_eq_2)
qed

section \<open>Mutable views\<close>

text \<open>C3: When \<open>validate_mutable_no_overlap\<close> accepts a layout, no two of its indices share an
  element, so handing out mutable references to all of them is safe.\<close>

theorem mutable_layout_never_aliases:
  assumes "wf_layout l" and "layout_validate_mutable_no_overlap l = Ok ()"
  shows "\<forall>i j. in_range (l_shape l) i \<longrightarrow> in_range (l_shape l) j \<longrightarrow> offset_of l i = offset_of l j \<longrightarrow> i = j"
  using no_overlap_sound [OF assms] by (auto simp: no_alias_def inj_on_def)

theorem mutable_layout_never_aliases_witness:
  "offset_of \<lparr>l_shape = [2, 3], l_strides = [3, 1], l_offset = 0\<rparr> [1, 0] \<noteq>
    offset_of \<lparr>l_shape = [2, 3], l_strides = [3, 1], l_offset = 0\<rparr> [0, 2]"
proof -
  let ?l = "\<lparr>l_shape = [2, 3], l_strides = [3, 1], l_offset = 0\<rparr>"
  have ok: "layout_validate_mutable_no_overlap ?l = Ok ()"
    by (simp add: layout_validate_mutable_no_overlap_def overlap_axes_def sort_by_def
        checked_product_def checked_defs int_range_defs)
  have wf: "wf_layout ?l" by (simp add: wf_layout_def)
  have "in_range (l_shape ?l) [1, 0]" "in_range (l_shape ?l) [0, 2]" "[1, 0] \<noteq> [0, 2 :: nat]" by simp_all
  with mutable_layout_never_aliases [OF wf ok] show ?thesis by blast
qed

text \<open>C21: Up to the exact-search limit the rejection is exact too: a rejected layout really has two
  indices at one offset, so no usable mutable view is refused.\<close>

theorem mutable_layout_rejection_exact:
  assumes "wf_layout l" and "layout_validate_mutable_no_overlap l = Err OverlappingMutableLayout"
    and "prod_list (l_shape l) \<le> MUTABLE_NO_OVERLAP_EXACT_ELEMENT_LIMIT"
  shows "\<exists>i j. in_range (l_shape l) i \<and> in_range (l_shape l) j \<and> i \<noteq> j \<and> offset_of l i = offset_of l j"
  using no_overlap_exact [OF assms] by (auto simp: no_alias_def inj_on_def)

theorem mutable_layout_rejection_exact_witness:
  "\<exists>i j. in_range [2, 2] i \<and> in_range [2, 2] j \<and> i \<noteq> j \<and> dot i [1, 1] = dot j [1, 1]"
proof -
  let ?l = "\<lparr>l_shape = [2, 2], l_strides = [1, 1], l_offset = 0\<rparr>"
  have "layout_validate_mutable_no_overlap ?l = Err OverlappingMutableLayout"
    by (simp add: layout_validate_mutable_no_overlap_def overlap_axes_def sort_by_def
        validate_mutable_no_overlap_exact_or_reject_def MUTABLE_NO_OVERLAP_EXACT_ELEMENT_LIMIT_def
        no_overlap_loop.simps physical_offset_step_def checked_product_def checked_defs int_range_defs)
  then show ?thesis
    using mutable_layout_rejection_exact [of ?l]
    by (simp add: wf_layout_def offset_of_def MUTABLE_NO_OVERLAP_EXACT_ELEMENT_LIMIT_def del: in_range_Cons)
qed

end
