(* ===== verification/Host_View.thy ===== *)
theory Host_View
  imports Layout_Views
begin

text \<open>
  Owned host tensors and borrowed host views of \<open>crates/tenferro-tensor-core/src/lib.rs\<close>:
  \<open>HostTensor\<close>, \<open>HostTensorView\<close> and their constructors, reinterpretations and views.  A view
  built by any of these operations is well formed (\<open>wf_view\<close>): every index stays in the slice.
  A panic (\<open>expect\<close>) is \<open>None\<close>.
\<close>

section \<open>Owned tensors\<close>

record 'a host_tensor =
  ht_data :: "'a list"
  ht_shape :: shape

record 'a host_view =
  v_data :: "'a list"
  v_shape :: shape
  v_strides :: strides
  v_offset :: int

definition from_vec_col_major :: "shape \<Rightarrow> 'a list \<Rightarrow> 'a host_tensor res" where
  "from_vec_col_major sh data =
    and_then (checked_shape_len sh (length data)) (\<lambda>_. Ok \<lparr>ht_data = data, ht_shape = sh\<rparr>)"

definition into_vec_col_major :: "'a host_tensor \<Rightarrow> shape \<times> 'a list" where
  "into_vec_col_major t = (ht_shape t, ht_data t)"

definition into_reshaped :: "'a host_tensor \<Rightarrow> shape \<Rightarrow> 'a host_tensor res" where
  "into_reshaped t sh =
    and_then (checked_product sh) (\<lambda>to.
      if length (ht_data t) \<noteq> to then Err (ShapeMismatch (ReshapeElementCount (length (ht_data t)) to))
      else and_then (validate_shape_metadata sh) (\<lambda>_. Ok \<lparr>ht_data = ht_data t, ht_shape = sh\<rparr>))"

definition as_view :: "'a host_tensor \<Rightarrow> 'a host_view option" where
  "as_view t =
    (case col_major_strides (ht_shape t) of
       Inl _ \<Rightarrow> None
     | Inr st \<Rightarrow> Some \<lparr>v_data = ht_data t, v_shape = ht_shape t, v_strides = st, v_offset = 0\<rparr>)"

section \<open>Borrowed views\<close>

definition validate_view_bounds :: "'a list \<Rightarrow> shape \<Rightarrow> strides \<Rightarrow> int \<Rightarrow> unit res" where
  "validate_view_bounds data sh st off =
    and_then (checked_logical_element_count sh) (\<lambda>_. validate_reachable_bounds sh st off (length data))"

definition from_slice :: "shape \<Rightarrow> strides \<Rightarrow> int \<Rightarrow> 'a list \<Rightarrow> 'a host_view res" where
  "from_slice sh st off data =
    and_then (validate_view_bounds data sh st off) (\<lambda>_.
      Ok \<lparr>v_data = data, v_shape = sh, v_strides = st, v_offset = off\<rparr>)"

fun contiguous_from :: "int \<Rightarrow> shape \<Rightarrow> strides \<Rightarrow> bool res" where
  "contiguous_from expected (extent # sh) (stride # st) =
    (if extent \<le> 1 then contiguous_from expected sh st
     else if stride \<noteq> expected then Ok False
     else
       and_then (ok_or (isize_try_from extent) IntegerOverflow) (\<lambda>e.
       and_then (ok_or (ichecked_mul expected e) IntegerOverflow) (\<lambda>next.
         contiguous_from next sh st)))"
| "contiguous_from expected _ _ = Ok True"

definition is_slice_contiguous :: "shape \<Rightarrow> strides \<Rightarrow> bool res" where
  "is_slice_contiguous sh st = (if 0 \<in> set sh then Ok True else contiguous_from 1 sh st)"

definition view_is_compact_col_major :: "'a host_view \<Rightarrow> bool res" where
  "view_is_compact_col_major v = is_slice_contiguous (v_shape v) (v_strides v)"

definition view_is_zero_offset_col_major :: "'a host_view \<Rightarrow> bool res" where
  "view_is_zero_offset_col_major v =
    (if v_offset v = 0 then view_is_compact_col_major v else Ok False)"

definition view_as_slice :: "'a host_view \<Rightarrow> 'a list res" where
  "view_as_slice v =
    and_then (is_slice_contiguous (v_shape v) (v_strides v)) (\<lambda>c.
      if \<not> c then Err NonContiguousViewAsSlice
      else
        and_then (checked_product (v_shape v)) (\<lambda>len.
        and_then (ok_or (usize_try_from (v_offset v)) IntegerOverflow) (\<lambda>start.
        and_then (ok_or (checked_add start len) IntegerOverflow) (\<lambda>end'.
          if end' \<le> length (v_data v) then Ok (take len (drop start (v_data v)))
          else Err ViewOutOfBounds))))"

definition view_reshape :: "'a host_view \<Rightarrow> shape \<Rightarrow> 'a host_view res" where
  "view_reshape v sh =
    and_then (view_is_compact_col_major v) (\<lambda>c.
      if \<not> c then Err NonContiguousViewAsSlice
      else
        and_then (checked_product (v_shape v)) (\<lambda>from'.
        and_then (checked_product sh) (\<lambda>to.
          if from' \<noteq> to then Err (ShapeMismatch (ReshapeElementCount from' to))
          else and_then (col_major_strides sh) (\<lambda>st. from_slice sh st (v_offset v) (v_data v)))))"

definition view_transpose :: "'a host_view \<Rightarrow> nat list \<Rightarrow> 'a host_view res" where
  "view_transpose v axes =
    and_then (validate_permutation (length (v_shape v)) axes) (\<lambda>_.
      from_slice (map (\<lambda>a. v_shape v ! a) axes) (map (\<lambda>a. v_strides v ! a) axes)
        (v_offset v) (v_data v))"

definition view_slice_step ::
  "shape \<times> strides \<times> int \<Rightarrow> (nat \<times> int) \<times> slice_spec \<Rightarrow> (shape \<times> strides \<times> int) res" where
  "view_slice_step s e =
    (case s of (sh, st, off) \<Rightarrow> case e of ((axis_len, stride), sp) \<Rightarrow>
       if s_step sp \<le> 0 then Err (InvalidSliceStep (s_step sp))
       else if s_start sp < 0 \<or> s_end sp < 0
       then Err (InvalidSliceBounds (s_start sp) (s_end sp) axis_len)
       else
         and_then (ok_or (usize_try_from (s_start sp)) IntegerOverflow) (\<lambda>start.
         and_then (ok_or (usize_try_from (s_end sp)) IntegerOverflow) (\<lambda>end'.
           if axis_len < start \<or> axis_len < end'
           then Err (InvalidSliceBounds (s_start sp) (s_end sp) axis_len)
           else
             and_then (ok_or (usize_try_from (s_step sp)) IntegerOverflow) (\<lambda>step.
             and_then
               (if end' \<le> start then Ok 0
                else and_then (ok_or (Option.bind (checked_sub end' start)
                                 (\<lambda>span. checked_add span (step - 1))) IntegerOverflow)
                       (\<lambda>n. Ok (n div step))) (\<lambda>extent.
             and_then (ok_or (isize_try_from start) IntegerOverflow) (\<lambda>i.
             and_then (ok_or (ichecked_mul i stride) IntegerOverflow) (\<lambda>start_offset.
             and_then (ok_or (ichecked_add off start_offset) IntegerOverflow) (\<lambda>off'.
             and_then (ok_or (ichecked_mul stride (s_step sp)) IntegerOverflow) (\<lambda>new_stride.
               Ok (sh @ [extent], st @ [new_stride], off')))))))))) "

definition view_slice :: "'a host_view \<Rightarrow> slice_spec list \<Rightarrow> 'a host_view res" where
  "view_slice v sl =
    (if length sl \<noteq> length (v_shape v) then Err (RankMismatch (length (v_shape v)) (length sl))
     else
       and_then (try_fold view_slice_step ([], [], v_offset v) (zip (zip (v_shape v) (v_strides v)) sl))
         (\<lambda>(sh, st, off). from_slice sh st off (v_data v)))"

section \<open>Meaning\<close>

definition layout_of :: "'a host_view \<Rightarrow> layout" where
  "layout_of v = \<lparr>l_shape = v_shape v, l_strides = v_strides v, l_offset = v_offset v\<rparr>"

definition element :: "'a host_view \<Rightarrow> nat list \<Rightarrow> 'a" where
  "element v idx = v_data v ! nat (offset_of (layout_of v) idx)"

definition wf_tensor :: "'a host_tensor \<Rightarrow> bool" where
  "wf_tensor t \<longleftrightarrow>
    length (ht_data t) = prod_list (ht_shape t) \<and> is_ok (col_major_strides (ht_shape t))"

definition wf_view :: "'a host_view \<Rightarrow> bool" where
  "wf_view v \<longleftrightarrow> wf_layout (layout_of v) \<and> in_buffer (layout_of v) (length (v_data v)) \<and>
    0 \<le> v_offset v \<and> v_offset v \<le> int (length (v_data v))"

lemma layout_of_simps [simp]:
  "l_shape (layout_of v) = v_shape v" "l_strides (layout_of v) = v_strides v"
  "l_offset (layout_of v) = v_offset v"
  by (simp_all add: layout_of_def)

lemma from_slice_Ok:
  assumes "from_slice sh st off data = Ok v"
  shows "v = \<lparr>v_data = data, v_shape = sh, v_strides = st, v_offset = off\<rparr>"
    and "layout_from_parts sh st off (length data) = Ok (layout_of v)"
    and "wf_view v"
proof -
  from assms show v: "v = \<lparr>v_data = data, v_shape = sh, v_strides = st, v_offset = off\<rparr>"
    by (simp add: from_slice_def)
  from assms show p: "layout_from_parts sh st off (length data) = Ok (layout_of v)"
    by (auto simp: from_slice_def validate_view_bounds_def layout_from_parts_def layout_of_def)
  show "wf_view v" using from_parts_Ok [OF p] v by (simp add: wf_view_def)
qed

lemma from_vec_Ok:
  assumes "from_vec_col_major sh data = Ok t"
  shows "t = \<lparr>ht_data = data, ht_shape = sh\<rparr>" and "wf_tensor t"
  using assms checked_product_Ok
  by (auto simp: from_vec_col_major_def checked_shape_len_def validate_shape_metadata_def wf_tensor_def
      is_ok_iff split: if_splits)

lemma into_reshaped_Ok:
  assumes "into_reshaped t sh = Ok t'"
  shows "t' = \<lparr>ht_data = ht_data t, ht_shape = sh\<rparr>" and "wf_tensor t'"
  using assms checked_product_Ok
  by (auto simp: into_reshaped_def validate_shape_metadata_def wf_tensor_def is_ok_iff split: if_splits)

lemma as_view_total:
  assumes "wf_tensor t"
  shows "as_view t = Some \<lparr>v_data = ht_data t, v_shape = ht_shape t,
    v_strides = scan_products 1 (ht_shape t), v_offset = 0\<rparr>"
proof -
  from assms obtain st where "col_major_strides (ht_shape t) = Ok st"
    by (auto simp: wf_tensor_def is_ok_iff)
  with col_major_strides_Ok [OF this] show ?thesis by (simp add: as_view_def)
qed

section \<open>Contiguous views\<close>

lemma contiguous_dot:
  "contiguous_from p sh st = Ok True \<Longrightarrow> length st = length sh \<Longrightarrow> in_range sh idx \<Longrightarrow>
    dot idx st = p * int (lin sh idx)"
proof (induction p sh st arbitrary: idx rule: contiguous_from.induct)
  case (1 p n sh s st)
  from "1.prems"(3) obtain i "is" where i: "idx = i # is" "i < n" "in_range sh is" by auto
  show ?case
  proof (cases "n \<le> 1")
    case True
    with i have "i = 0" "n = 1" by auto
    with "1.IH"(1) [OF True] "1.prems" i True show ?thesis by simp
  next
    case False
    with "1.prems"(1) have s: "s = p" and tail: "contiguous_from (p * int n) sh st = Ok True"
      by (auto split: if_splits)
    have "dot is st = p * int n * int (lin sh is)"
      using "1.IH"(2) [OF False _ tail] "1.prems"(2) i(3) s by simp
    then show ?thesis using i(1) s by (simp add: algebra_simps)
  qed
qed auto

lemma compact_offset:
  assumes "is_slice_contiguous (v_shape v) (v_strides v) = Ok True" and "wf_view v"
    and "in_range (v_shape v) idx"
  shows "offset_of (layout_of v) idx = v_offset v + int (lin (v_shape v) idx)"
proof -
  have "contiguous_from 1 (v_shape v) (v_strides v) = Ok True"
    using assms(1) in_range_nonzero [OF assms(3)] by (simp add: is_slice_contiguous_def)
  from contiguous_dot [OF this _ assms(3)] assms(2) show ?thesis
    by (simp add: offset_of_def wf_view_def wf_layout_def)
qed

lemma compact_end:
  assumes "is_slice_contiguous (v_shape v) (v_strides v) = Ok True" and "wf_view v"
    and "0 \<notin> set (v_shape v)"
  shows "v_offset v + int (prod_list (v_shape v)) \<le> int (length (v_data v))"
proof -
  let ?n = "prod_list (v_shape v)"
  have "0 < ?n" using assms(3) by (simp add: prod_list_pos_iff)
  then have n: "?n - 1 < ?n" by simp
  let ?idx = "unlin (v_shape v) (?n - 1)"
  have r: "in_range (v_shape v) ?idx" by (rule in_range_unlin [OF assms(3)])
  have "offset_of (layout_of v) ?idx < int (length (v_data v))"
    using assms(2) r by (simp add: wf_view_def in_buffer_def)
  then show ?thesis
    using compact_offset [OF assms(1,2) r] lin_unlin [OF n] n by (simp add: of_nat_diff)
qed

text \<open>\<open>as_slice\<close> lists the elements in column-major order.\<close>

lemma as_slice_Ok:
  assumes "view_as_slice v = Ok xs" and "wf_view v"
  shows "length xs = prod_list (v_shape v)"
    and "in_range (v_shape v) idx \<Longrightarrow> xs ! lin (v_shape v) idx = element v idx"
proof -
  from assms(1) obtain n where c: "is_slice_contiguous (v_shape v) (v_strides v) = Ok True"
    and p: "checked_product (v_shape v) = Ok n" and off: "0 \<le> v_offset v"
    and e: "nat (v_offset v) + n \<le> length (v_data v)"
    and xs: "xs = take n (drop (nat (v_offset v)) (v_data v))"
    by (auto simp: view_as_slice_def split: if_splits)
  have n: "n = prod_list (v_shape v)" by (rule checked_product_Ok [OF p])
  show "length xs = prod_list (v_shape v)" using xs e n by simp
  assume r: "in_range (v_shape v) idx"
  have "lin (v_shape v) idx < n" using lin_less [OF r] n by simp
  then show "xs ! lin (v_shape v) idx = element v idx"
    using xs e off compact_offset [OF c assms(2) r] by (simp add: element_def nat_add_distrib)
qed

text \<open>A compact view over a slice of at most \<open>usize::MAX\<close> elements can always be read as one.\<close>

lemma as_slice_total:
  assumes "is_slice_contiguous (v_shape v) (v_strides v) = Ok True" and "wf_view v"
    and "0 \<notin> set (v_shape v)" and "length (v_data v) \<le> usize_max"
  shows "\<exists>xs. view_as_slice v = Ok xs"
proof -
  let ?n = "prod_list (v_shape v)"
  note e = compact_end [OF assms(1-3)]
  have off: "0 \<le> v_offset v" using assms(2) by (simp add: wf_view_def)
  have le: "nat (v_offset v) + ?n \<le> length (v_data v)" using e off by linarith
  then have "checked_product (v_shape v) = Ok ?n"
    using assms(3,4) by (intro checked_product_total) auto
  then show ?thesis using assms(1,4) off le by (simp add: view_as_slice_def)
qed

section \<open>The view operations\<close>

lemma view_transpose_Ok:
  assumes "view_transpose v axes = Ok v'" and "wf_view v"
  shows "wf_view v'" and "v_data v' = v_data v"
    and "in_range (v_shape v') idx \<Longrightarrow>
      in_range (v_shape v) (transpose_src axes (layout_of v) (layout_of v') idx) \<and>
      element v' idx = element v (transpose_src axes (layout_of v) (layout_of v') idx)"
proof -
  from assms(1) have p: "validate_permutation (length (v_shape v)) axes = Ok ()"
    and s: "from_slice (map (\<lambda>a. v_shape v ! a) axes) (map (\<lambda>a. v_strides v ! a) axes)
      (v_offset v) (v_data v) = Ok v'"
    by (auto simp: view_transpose_def)
  note S = from_slice_Ok [OF s]
  show "wf_view v'" by (rule S(3))
  show d: "v_data v' = v_data v" using S(1) by simp
  have t: "layout_transpose_view DynRank (layout_of v) axes = Ok (layout_of v')"
    using p S(1) by (simp add: layout_transpose_view_def layout_of_def)
  assume "in_range (v_shape v') idx"
  with transpose.view_src [OF _ t, of idx] assms(2)
  show "in_range (v_shape v) (transpose_src axes (layout_of v) (layout_of v') idx) \<and>
      element v' idx = element v (transpose_src axes (layout_of v) (layout_of v') idx)"
    by (simp add: wf_view_def element_def d)
qed

lemma view_reshape_Ok:
  assumes "view_reshape v sh = Ok v'" and "wf_view v"
  shows "wf_view v'" and "v_data v' = v_data v" and "v_shape v' = sh"
    and "in_range sh idx \<Longrightarrow> in_range (v_shape v) (unlin (v_shape v) (lin sh idx)) \<and>
      element v' idx = element v (unlin (v_shape v) (lin sh idx))"
proof -
  from assms(1) obtain st where c: "is_slice_contiguous (v_shape v) (v_strides v) = Ok True"
    and n: "prod_list (v_shape v) = prod_list sh" and st: "col_major_strides sh = Ok st"
    and s: "from_slice sh st (v_offset v) (v_data v) = Ok v'"
    by (auto simp: view_reshape_def view_is_compact_col_major_def split: if_splits
        dest!: checked_product_Ok)
  note S = from_slice_Ok [OF s]
  show "wf_view v'" by (rule S(3))
  show d: "v_data v' = v_data v" and sh: "v_shape v' = sh" using S(1) by simp_all
  assume r: "in_range sh idx"
  then have "0 < prod_list sh" using in_range_nonzero prod_list_pos_iff by blast
  then have nz: "0 \<notin> set (v_shape v)" using n prod_list_pos_iff [of "v_shape v"] by simp
  let ?src = "unlin (v_shape v) (lin sh idx)"
  have src: "in_range (v_shape v) ?src" by (rule in_range_unlin [OF nz])
  have "lin (v_shape v) ?src = lin sh idx" using lin_less [OF r] n by (intro lin_unlin) simp
  then have "offset_of (layout_of v') idx = offset_of (layout_of v) ?src"
    using compact_offset [OF c assms(2) src] dot_col_major [OF r] col_major_strides_Ok [OF st] S(1)
    by (simp add: offset_of_def layout_of_def)
  with src d show "in_range (v_shape v) ?src \<and> element v' idx = element v ?src"
    by (simp add: element_def)
qed

text \<open>Where a host slice succeeds, the layout slice of the same specification gives the same view.\<close>

lemma ceil_div_nat:
  assumes "0 < a" and "0 < (d :: nat)"
  shows "int ((a + (d - 1)) div d) = 1 + (int a - 1) div int d"
proof -
  have "a + (d - 1) = (a - 1) + d" using assms by simp
  then have "(a + (d - 1)) div d = ((a - 1) + d) div d" by (rule arg_cong)
  also have "\<dots> = (a - 1) div d + 1" using assms by (simp only: div_add_self2)
  finally have "int ((a + (d - 1)) div d) = int ((a - 1) div d) + 1" by simp
  then show ?thesis using assms(1) by (simp only: zdiv_int of_nat_diff [OF Suc_leI] One_nat_def) simp
qed

lemma view_slice_step_refines:
  assumes "view_slice_step s ((n, stride), sp) = Ok s'" and "int n \<le> isize_max"
  shows "slice_step s ((n, stride), sp) = Ok s'"
proof -
  obtain sh st off where s: "s = (sh, st, off)" by (metis prod.exhaust)
  let ?m = "nat (s_end sp) - nat (s_start sp) + (nat (s_step sp) - 1)"
  from assms(1) obtain extent where raw: "\<not> s_step sp \<le> 0" "\<not> s_start sp < 0" "\<not> s_end sp < 0"
    "\<not> n < nat (s_start sp)" "\<not> n < nat (s_end sp)"
    and e: "if nat (s_end sp) \<le> nat (s_start sp) then extent = 0
      else ?m \<le> usize_max \<and> extent = ?m div nat (s_step sp)"
    and rest: "isize_ok (s_start sp * stride)" "isize_ok (off + s_start sp * stride)"
      "isize_ok (stride * s_step sp)"
    and s': "s' = (sh @ [extent], st @ [stride * s_step sp], off + s_start sp * stride)"
    unfolding view_slice_step_def s by (auto split: if_splits simp: bind_eq_Some_conv)
  from raw have step: "0 < s_step sp" and b: "0 \<le> s_start sp" "0 \<le> s_end sp"
    "s_start sp \<le> int n" "s_end sp \<le> int n" by linarith+
  from e have ext: "s_end sp \<le> s_start sp \<and> extent = 0 \<or>
    s_start sp < s_end sp \<and> extent = ?m div nat (s_step sp) \<and> ?m \<le> usize_max"
    by (simp split: if_splits) (use b in linarith)+
  have "normalize_slice sp n = Ok (s_start sp, extent)"
  proof (cases "s_start sp < s_end sp")
    case True
    let ?a = "nat (s_end sp) - nat (s_start sp)"
    have a: "int ?a = s_end sp - s_start sp" "0 < ?a" using True b by linarith+
    have e: "int extent = 1 + (s_end sp - s_start sp - 1) div s_step sp"
      using ext True step ceil_div_nat [OF a(2), of "nat (s_step sp)"] a(1) by simp
    have "extent \<le> ?a + (nat (s_step sp) - 1)" using ext True by simp
    then have "extent \<le> usize_max" using ext True by linarith
    then have "positive_ceil_div (s_end sp - s_start sp) (s_step sp) = Ok extent"
      using True step e by (simp add: positive_ceil_div_def flip: e)
    moreover have "n \<noteq> 0" using True b by auto
    ultimately show ?thesis using True step b assms(2) by (simp add: normalize_slice_def)
  next
    case False
    then show ?thesis using step b ext assms(2) by (auto simp: normalize_slice_def)
  qed
  then show ?thesis using rest s s' by (simp add: slice_step_def)
qed

lemma view_slice_fold_refines:
  "try_fold view_slice_step s (zip (zip sh st) sl) = Ok r \<Longrightarrow> \<forall>n \<in> set sh. int n \<le> isize_max \<Longrightarrow>
    try_fold slice_step s (zip (zip sh st) sl) = Ok r"
proof (induction sh arbitrary: s st sl)
  case Nil
  then show ?case by simp
next
  case (Cons n sh)
  show ?case
  proof (cases "st = [] \<or> sl = []")
    case True
    with Cons.prems show ?thesis by auto
  next
    case False
    then obtain a as b bs where ab: "st = a # as" "sl = b # bs" by (metis neq_Nil_conv)
    with Cons.prems obtain s1 where "view_slice_step s ((n, a), b) = Ok s1"
      and tail: "try_fold view_slice_step s1 (zip (zip sh as) bs) = Ok r" by auto
    then show ?thesis
      using Cons.IH [OF tail] Cons.prems(2) ab view_slice_step_refines by simp
  qed
qed

lemma view_slice_refines:
  assumes "view_slice v sl = Ok v'" and "\<forall>n \<in> set (v_shape v). int n \<le> isize_max"
  shows "layout_slice_view DynRank (layout_of v) sl (length (v_data v)) = Ok (layout_of v')"
    and "v_data v' = v_data v" and "wf_view v'"
proof -
  from assms(1) obtain sh st off where l: "length sl = length (v_shape v)"
    and f: "try_fold view_slice_step ([], [], v_offset v) (zip (zip (v_shape v) (v_strides v)) sl)
      = Ok (sh, st, off)" and s: "from_slice sh st off (v_data v) = Ok v'"
    by (auto simp: view_slice_def split: if_splits)
  note S = from_slice_Ok [OF s]
  show "v_data v' = v_data v" using S(1) by simp
  show "wf_view v'" by (rule S(3))
  show "layout_slice_view DynRank (layout_of v) sl (length (v_data v)) = Ok (layout_of v')"
    using l view_slice_fold_refines [OF f assms(2)] S(2)
    by (simp add: layout_slice_view_def layout_from_vecs_def)
qed

lemma view_slice_reads:
  assumes "view_slice v sl = Ok v'" and "wf_view v" and "\<forall>n \<in> set (v_shape v). int n \<le> isize_max"
    and "in_range (v_shape v') idx"
  shows "in_range (v_shape v) (slice_index (v_shape v) sl idx) \<and>
    element v' idx = element v (slice_index (v_shape v) sl idx)"
  using slicing.view_src [OF _ view_slice_refines(1) [OF assms(1,3)], of idx] assms(2,4)
    view_slice_refines(2) [OF assms(1,3)]
  by (simp add: wf_view_def element_def slice_src_def)

end
