(* ===== verification/Erased.thy ===== *)
theory Erased
  imports Host_View
begin

text \<open>
  \<open>crates/tenferro-tensor-core/src/erased.rs\<close>: tensors whose element type is known only at run
  time, with metadata-only permutation and explicit materialization, and the scalar domains of
  \<open>scalar.rs\<close>.  The concrete element type is a type variable of the payload, its \<open>TypeId\<close> a
  number; \<open>sole\<close> says whether the caller holds the only reference to the payload (\<open>Arc::get_mut\<close>).
  The products of \<open>count\<close> wrap as they do in a release build.
\<close>

section \<open>Layouts\<close>

definition isaturating_mul :: "int \<Rightarrow> int \<Rightarrow> int" where
  "isaturating_mul a b = max isize_min (min isize_max (a * b))"

definition as_isize :: "nat \<Rightarrow> int" where
  "as_isize n = (if int n \<le> isize_max then int n else int n - 18446744073709551616)"

fun dense_strides :: "int \<Rightarrow> shape \<Rightarrow> strides" where
  "dense_strides running [] = []"
| "dense_strides running (extent # sh) =
    running # dense_strides (isaturating_mul running (as_isize extent)) sh"

definition dense_layout :: "shape \<Rightarrow> layout" where
  "dense_layout sh = \<lparr>l_shape = sh, l_strides = dense_strides 1 sh, l_offset = 0\<rparr>"

definition layout_count :: "layout \<Rightarrow> nat" where
  "layout_count l = foldl (\<lambda>a n. a * n mod 18446744073709551616) 1 (l_shape l)"

fun dense_from :: "int \<Rightarrow> shape \<Rightarrow> strides \<Rightarrow> bool" where
  "dense_from running (extent # sh) (stride # st) =
    (stride = running \<and> dense_from (isaturating_mul running (as_isize extent)) sh st)"
| "dense_from running _ _ = True"

definition layout_is_dense :: "layout \<Rightarrow> bool" where
  "layout_is_dense l = (l_offset l = 0 \<and> dense_from 1 (l_shape l) (l_strides l))"

definition layout_permuted :: "layout \<Rightarrow> nat list \<Rightarrow> layout res" where
  "layout_permuted l axes =
    (if length axes \<noteq> length (l_shape l)
     then Err (InvalidPermutationLength (length (l_shape l)) (length axes))
     else
       and_then (try_fold (permutation_step (length (l_shape l)) ''permute'')
                   (replicate (length (l_shape l)) False) axes) (\<lambda>_.
         Ok \<lparr>l_shape = map (\<lambda>a. l_shape l ! a) axes, l_strides = map (\<lambda>a. l_strides l ! a) axes,
              l_offset = l_offset l\<rparr>))"

fun linear_from :: "int \<Rightarrow> shape \<Rightarrow> strides \<Rightarrow> nat list \<Rightarrow> int option" where
  "linear_from linear (extent # sh) (stride # st) (i # is) =
    (if extent \<le> i then None else linear_from (linear + stride * int i) sh st is)"
| "linear_from linear _ _ _ = Some linear"

definition linear_index :: "layout \<Rightarrow> nat list \<Rightarrow> int option" where
  "linear_index l idx =
    (if length idx \<noteq> length (l_shape l) then None
     else linear_from (l_offset l) (l_shape l) (l_strides l) idx)"

section \<open>Erased tensors\<close>

record 'a erased =
  e_payload :: "'a host_tensor"
  e_element :: nat
  e_layout :: layout
  e_payload_elements :: nat
  e_dense :: bool

fun advance :: "shape \<Rightarrow> nat list \<Rightarrow> nat list" where
  "advance (n # ns) (i # is) = (if i + 1 < n then (i + 1) # is else 0 # advance ns is)"
| "advance _ is = is"

definition gather_step ::
  "'a list \<Rightarrow> layout \<Rightarrow> nat \<Rightarrow> 'a list \<times> nat list \<Rightarrow> nat \<Rightarrow> ('a list \<times> nat list) res" where
  "gather_step source l expected s _ =
    (case s of (gathered, index) \<Rightarrow>
       and_then (ok_or (Option.bind (Option.bind (linear_index l index) usize_try_from)
                          (\<lambda>i. if i < length source then Some i else None))
                   (ShapeDataLengthMismatch expected (length source))) (\<lambda>i.
         Ok (gathered @ [source ! i], advance (l_shape l) index)))"

definition gather :: "'a host_tensor \<Rightarrow> layout \<Rightarrow> 'a host_tensor res" where
  "gather t l =
    and_then (try_fold (gather_step (ht_data t) l (layout_count l))
                ([], replicate (length (l_shape l)) 0) [0..<layout_count l]) (\<lambda>(gathered, _).
      from_vec_col_major (l_shape l) gathered)"

definition erased_new :: "nat \<Rightarrow> 'a host_tensor \<Rightarrow> 'a erased" where
  "erased_new elt value =
    \<lparr>e_payload = value, e_element = elt, e_layout = dense_layout (ht_shape value),
     e_payload_elements = layout_count (dense_layout (ht_shape value)), e_dense = True\<rparr>"

definition erased_permuted :: "'a erased \<Rightarrow> nat list \<Rightarrow> 'a erased res" where
  "erased_permuted e axes =
    and_then (layout_permuted (e_layout e) axes) (\<lambda>l.
      Ok (e\<lparr>e_layout := l, e_dense := layout_is_dense l\<rparr>))"

definition erased_to_contiguous :: "'a erased \<Rightarrow> 'a erased res" where
  "erased_to_contiguous e =
    and_then (gather (e_payload e) (e_layout e)) (\<lambda>p.
      Ok \<lparr>e_payload = p, e_element = e_element e, e_layout = dense_layout (l_shape (e_layout e)),
          e_payload_elements = layout_count (dense_layout (l_shape (e_layout e))), e_dense = True\<rparr>)"

definition erased_is :: "nat \<Rightarrow> 'a erased \<Rightarrow> bool" where
  "erased_is t e = (e_element e = t)"

definition downcast_ref :: "nat \<Rightarrow> 'a erased \<Rightarrow> 'a host_tensor option" where
  "downcast_ref t e =
    (if \<not> e_dense e then None else if erased_is t e then Some (e_payload e) else None)"

definition downcast_mut :: "nat \<Rightarrow> bool \<Rightarrow> 'a erased \<Rightarrow> 'a host_tensor option" where
  "downcast_mut t sole e =
    (if \<not> e_dense e then None
     else if \<not> sole then None
     else if erased_is t e then Some (e_payload e) else None)"

definition into_typed :: "nat \<Rightarrow> bool \<Rightarrow> 'a erased \<Rightarrow> 'a host_tensor option" where
  "into_typed t sole e =
    (if \<not> e_dense e then None
     else if \<not> sole then None
     else if erased_is t e then Some (e_payload e) else None)"

definition as_dense :: "nat \<Rightarrow> 'a erased \<Rightarrow> ('a list \<times> shape) option" where
  "as_dense t e =
    (if \<not> e_dense e then None
     else if erased_is t e then Some (ht_data (e_payload e), ht_shape (e_payload e)) else None)"

definition element_at :: "nat \<Rightarrow> 'a erased \<Rightarrow> nat list \<Rightarrow> 'a option" where
  "element_at t e idx =
    (if \<not> erased_is t e then None
     else Option.bind (Option.bind (linear_index (e_layout e) idx) usize_try_from)
            (get (ht_data (e_payload e))))"

text \<open>Writing through the reference \<open>element_at_mut\<close> returns.\<close>

definition element_at_mut :: "nat \<Rightarrow> bool \<Rightarrow> 'a erased \<Rightarrow> nat list \<Rightarrow> 'a \<Rightarrow> 'a erased option" where
  "element_at_mut t sole e idx x =
    Option.bind (Option.bind (linear_index (e_layout e) idx) usize_try_from) (\<lambda>i.
      if \<not> sole then None
      else if \<not> erased_is t e then None
      else if i < length (ht_data (e_payload e))
      then Some (e\<lparr>e_payload := (e_payload e)\<lparr>ht_data := (ht_data (e_payload e))[i := x]\<rparr>\<rparr>)
      else None)"

section \<open>Scalar domains\<close>

datatype scalar_domain = Field | NonField

datatype ad_admission_error = UnsupportedAdOrder nat | NonFieldScalar | AdRuleUnavailable

fun domain :: "dtype \<Rightarrow> scalar_domain" where
  "domain BoolT = NonField"
| "domain _ = Field"

definition ad_admission :: "scalar_domain \<Rightarrow> nat \<Rightarrow> ad_admission_error + unit" where
  "ad_admission d order =
    (if order \<noteq> 1 then Err (UnsupportedAdOrder order)
     else case d of Field \<Rightarrow> Err AdRuleUnavailable | NonField \<Rightarrow> Err NonFieldScalar)"

section \<open>Dense strides\<close>

lemma no_saturation:
  "isize_ok (p * int n) \<Longrightarrow> int n \<le> isize_max \<Longrightarrow> isaturating_mul p (as_isize n) = p * int n"
  by (simp add: isaturating_mul_def as_isize_def isize_ok_def)

lemma dense_strides_Ok:
  "try_fold stride_step (acc, p) sh = Ok r \<Longrightarrow> dense_strides p sh = scan_products p sh"
proof (induction sh arbitrary: acc p)
  case Nil
  then show ?case by simp
next
  case (Cons n sh)
  then obtain s1 where step: "stride_step (acc, p) n = Ok s1" and tail: "try_fold stride_step s1 sh = Ok r"
    by auto
  from step have ok: "isize_ok (p * int n)" "int n \<le> isize_max" and s1: "s1 = (acc @ [p], p * int n)"
    by (auto simp: stride_step_def)
  from Cons.IH [OF tail [unfolded s1]] no_saturation [OF ok] show ?case by simp
qed

lemma dense_layout_eq:
  assumes "is_ok (col_major_strides sh)"
  shows "dense_layout sh = \<lparr>l_shape = sh, l_strides = scan_products 1 sh, l_offset = 0\<rparr>"
  using assms dense_strides_Ok by (auto simp: dense_layout_def is_ok_iff col_major_strides_def)

lemma length_dense_strides [simp]: "length (dense_strides p sh) = length sh"
  by (induction p sh rule: dense_strides.induct) auto

lemma dense_from_iff: "length st = length sh \<Longrightarrow> dense_from p sh st \<longleftrightarrow> st = dense_strides p sh"
proof (induction sh arbitrary: st p)
  case Nil
  then show ?case by simp
next
  case (Cons n sh)
  then show ?case by (cases st) auto
qed

lemma isize_product:
  assumes "is_ok (col_major_strides sh)" and "0 \<notin> set sh"
  shows "isize_ok (int (prod_list sh))"
proof -
  have fold: "try_fold stride_step (acc, p) xs = Ok r \<Longrightarrow> isize_ok p \<Longrightarrow> isize_ok (p * int (prod_list xs))"
    for acc p xs r
  proof (induction xs arbitrary: acc p)
    case Nil
    then show ?case by simp
  next
    case (Cons n xs)
    then obtain s1 where step: "stride_step (acc, p) n = Ok s1" and tail: "try_fold stride_step s1 xs = Ok r"
      by auto
    from step have ok: "isize_ok (p * int n)" and s1: "s1 = (acc @ [p], p * int n)"
      by (auto simp: stride_step_def)
    from Cons.IH [OF tail [unfolded s1] ok] show ?case by (simp add: mult.assoc)
  qed
  from assms(1) obtain r where "try_fold stride_step ([], 1) sh = Ok r"
    by (auto simp: is_ok_iff col_major_strides_def)
  from fold [OF this] show ?thesis by simp
qed

lemma layout_count_eq: "layout_count l = prod_list (l_shape l) mod 18446744073709551616"
proof -
  have "foldl (\<lambda>a n. a * n mod 18446744073709551616) (p mod 18446744073709551616) xs =
      (p * prod_list xs) mod (18446744073709551616 :: nat)" for p xs
    by (induction xs arbitrary: p) (simp_all add: mult.assoc mod_mult_left_eq)
  from this [of 1] show ?thesis by (simp add: layout_count_def)
qed

text \<open>Two shapes whose extents and column-major strides are the same pairs are the same shape,
  as long as no extent is zero.\<close>

lemma scan_products_ge:
  "0 \<notin> set xs \<Longrightarrow> 0 < p \<Longrightarrow> (n, s) \<in> set (zip xs (scan_products p xs)) \<Longrightarrow> p \<le> s"
proof (induction xs arbitrary: p)
  case Nil
  then show ?case by simp
next
  case (Cons x xs)
  have x: "0 < x" using Cons.prems(1) by auto
  then have "p * 1 \<le> p * int x" using Cons.prems(2) by (intro mult_left_mono) auto
  moreover have "(n, s) \<in> set (zip xs (scan_products (p * int x) xs)) \<Longrightarrow> p * int x \<le> s"
    using Cons x by simp
  ultimately show ?case using Cons.prems(3) by auto
qed

lemma chain_head:
  assumes "0 \<notin> set (x # xs)" and "0 < p"
    and "(y, p) \<in> set (zip (x # xs) (scan_products p (x # xs)))" and "y \<noteq> x"
  shows "x = 1"
proof (rule ccontr)
  assume "x \<noteq> 1"
  then have x: "2 \<le> x" using assms(1) by (cases x) auto
  have "(y, p) \<in> set (zip xs (scan_products (p * int x) xs))" using assms(3,4) by auto
  with scan_products_ge [of xs "p * int x"] assms(1,2) x have "p * int x \<le> p" by simp
  moreover have "p * 2 \<le> p * int x" using x assms(2) by (intro mult_left_mono) auto
  ultimately show False using assms(2) by simp
qed

lemma chain_unique:
  "0 \<notin> set a \<Longrightarrow> 0 \<notin> set b \<Longrightarrow> 0 < p \<Longrightarrow>
    mset (zip a (scan_products p a)) = mset (zip b (scan_products p b)) \<Longrightarrow> a = b"
proof (induction a arbitrary: b p)
  case Nil
  then have "mset (zip b (scan_products p b)) = {#}" by simp
  then show ?case by (cases b) auto
next
  case (Cons x xs)
  have "length (zip b (scan_products p b)) = length (zip (x # xs) (scan_products p (x # xs)))"
    by (simp only: Cons.prems(4) flip: size_mset)
  then obtain y ys where b: "b = y # ys" by (cases b) auto
  have sets: "set (zip (x # xs) (scan_products p (x # xs))) = set (zip b (scan_products p b))"
    by (metis Cons.prems(4) set_mset_mset)
  have "x = y"
  proof (rule ccontr)
    assume ne: "x \<noteq> y"
    have "(y, p) \<in> set (zip (x # xs) (scan_products p (x # xs)))" unfolding sets b by simp
    then have "x = 1" using chain_head [OF Cons.prems(1,3)] ne by blast
    moreover have "(x, p) \<in> set (zip (y # ys) (scan_products p (y # ys)))"
      using sets unfolding b by auto
    then have "y = 1" using chain_head [of y ys p x] Cons.prems(2,3) ne b by blast
    ultimately show False using ne by simp
  qed
  moreover have "mset (zip xs (scan_products (p * int x) xs)) = mset (zip ys (scan_products (p * int x) ys))"
    using Cons.prems(4) b calculation by simp
  then have "xs = ys" using Cons.prems b by (intro Cons.IH [of ys "p * int x"]) auto
  ultimately show ?case by (simp add: b)
qed

section \<open>The invariant\<close>

definition wf_erased :: "'a erased \<Rightarrow> bool" where
  "wf_erased e \<longleftrightarrow>
    (let sh = ht_shape (e_payload e) in
     wf_tensor (e_payload e) \<and> wf_layout (e_layout e) \<and> l_offset (e_layout e) = 0 \<and>
     in_buffer (e_layout e) (length (ht_data (e_payload e))) \<and>
     mset (zip (l_shape (e_layout e)) (l_strides (e_layout e))) = mset (zip sh (scan_products 1 sh)) \<and>
     (e_dense e \<longrightarrow> layout_is_dense (e_layout e)))"

lemma wf_erased_new:
  assumes "wf_tensor t"
  shows "wf_erased (erased_new k t)"
proof -
  let ?sh = "ht_shape t"
  have d: "dense_layout ?sh = \<lparr>l_shape = ?sh, l_strides = scan_products 1 ?sh, l_offset = 0\<rparr>"
    using assms by (simp add: wf_tensor_def dense_layout_eq)
  then have "scan_products 1 ?sh = dense_strides 1 ?sh" by (simp add: dense_layout_def)
  then have "layout_is_dense (dense_layout ?sh)" by (simp add: d layout_is_dense_def dense_from_iff)
  moreover have "in_buffer (dense_layout ?sh) (length (ht_data t))"
    using assms lin_less by (simp add: in_buffer_def d offset_of_def dot_col_major wf_tensor_def)
  ultimately show ?thesis
    using assms by (simp add: wf_erased_def erased_new_def wf_layout_def d)
qed

lemma layout_permuted_Ok:
  assumes "layout_permuted l axes = Ok l'"
  shows "layout_transpose_view DynRank l axes = Ok l'"
proof -
  let ?n = "length (l_shape l)"
  from assms obtain seen where len: "length axes = ?n"
    and f: "try_fold (permutation_step ?n ''permute'') (replicate ?n False) axes = Ok seen"
    and l': "l' = \<lparr>l_shape = map (\<lambda>a. l_shape l ! a) axes,
      l_strides = map (\<lambda>a. l_strides l ! a) axes, l_offset = l_offset l\<rparr>"
    by (auto simp: layout_permuted_def split: if_splits)
  from permutation_fold [OF f] len have "validate_permutation ?n axes = Ok ()"
    by (auto simp: validate_permutation_iff)
  then show ?thesis by (simp add: layout_transpose_view_def l')
qed

lemma mset_permuted:
  assumes "distinct axes" and "set axes = {..<length xs}"
  shows "mset (map (\<lambda>a. xs ! a) axes) = mset xs"
proof -
  have "mset axes = mset [0..<length xs]"
    using set_eq_iff_mset_eq_distinct [of axes "[0..<length xs]"] assms by (simp add: lessThan_atLeast0)
  then have "mset (map (\<lambda>a. xs ! a) axes) = mset (map (\<lambda>a. xs ! a) [0..<length xs])" by simp
  then show ?thesis by (simp only: map_nth)
qed

lemma erased_permuted_Ok:
  assumes "erased_permuted e axes = Ok e'" and "wf_erased e"
  shows "wf_erased e'" and "e_payload e' = e_payload e" and "e_element e' = e_element e"
    and "in_range (l_shape (e_layout e')) idx \<Longrightarrow>
      in_range (l_shape (e_layout e)) (transpose_src axes (e_layout e) (e_layout e') idx) \<and>
      offset_of (e_layout e') idx = offset_of (e_layout e) (transpose_src axes (e_layout e) (e_layout e') idx)"
proof -
  from assms(1) obtain l where p: "layout_permuted (e_layout e) axes = Ok l"
    and e': "e' = e\<lparr>e_layout := l, e_dense := layout_is_dense l\<rparr>"
    by (auto simp: erased_permuted_def)
  note t = layout_permuted_Ok [OF p]
  note T = transpose_Ok [OF t]
  have wfl: "wf_layout (e_layout e)" using assms(2) by (simp add: wf_erased_def Let_def)
  let ?z = "zip (l_shape (e_layout e)) (l_strides (e_layout e))"
  have len: "length (l_strides (e_layout e)) = length (l_shape (e_layout e))"
    using wfl by (simp add: wf_layout_def)
  have ax: "i < length axes \<Longrightarrow> axes ! i < length (l_shape (e_layout e))" for i
    using T(3) nth_mem [of i axes] by simp
  have "zip (l_shape l) (l_strides l) = map (\<lambda>a. ?z ! a) axes"
    by (rule nth_equalityI) (use T(1) len ax in auto)
  then have "mset (zip (l_shape l) (l_strides l)) = mset ?z"
    using mset_permuted [OF T(2), of ?z] T(3) len by simp
  moreover have "in_buffer l (length (ht_data (e_payload e)))"
    using transpose.in_buffer_view [OF wfl _ t] assms(2) by (simp add: wf_erased_def Let_def)
  ultimately show "wf_erased e'"
    using assms(2) transpose.view_wf [OF wfl t] T(1) by (simp add: wf_erased_def Let_def e')
  show "e_payload e' = e_payload e" "e_element e' = e_element e" by (simp_all add: e')
  assume "in_range (l_shape (e_layout e')) idx"
  with transpose.view_src [OF wfl t, of idx]
  show "in_range (l_shape (e_layout e)) (transpose_src axes (e_layout e) (e_layout e') idx) \<and>
      offset_of (e_layout e') idx = offset_of (e_layout e) (transpose_src axes (e_layout e) (e_layout e') idx)"
    by (simp add: e')
qed

section \<open>Reading elements\<close>

lemma linear_from_in_range:
  "in_range sh idx \<Longrightarrow> length st = length sh \<Longrightarrow> linear_from p sh st idx = Some (p + dot idx st)"
proof (induction sh arbitrary: st idx p)
  case Nil
  then show ?case by simp
next
  case (Cons n sh)
  then show ?case by (cases st) (auto simp: algebra_simps)
qed

lemma linear_from_out:
  "\<not> in_range sh idx \<Longrightarrow> length st = length sh \<Longrightarrow> length idx = length sh \<Longrightarrow> linear_from p sh st idx = None"
proof (induction sh arbitrary: st idx p)
  case Nil
  then show ?case by simp
next
  case (Cons n sh)
  then show ?case by (cases st; cases idx) auto
qed

lemma linear_index_iff:
  "wf_layout l \<Longrightarrow> linear_index l idx = (if in_range (l_shape l) idx then Some (offset_of l idx) else None)"
  by (auto simp: linear_index_def wf_layout_def offset_of_def linear_from_in_range linear_from_out
      dest: in_range_length)

lemma element_at_eq:
  assumes "wf_erased e" and "length (ht_data (e_payload e)) \<le> usize_max"
  shows "element_at (e_element e) e idx =
    (if in_range (l_shape (e_layout e)) idx
     then Some (ht_data (e_payload e) ! nat (offset_of (e_layout e) idx)) else None)"
proof -
  have wf: "wf_layout (e_layout e)" and b: "in_buffer (e_layout e) (length (ht_data (e_payload e)))"
    using assms(1) by (simp_all add: wf_erased_def Let_def)
  show ?thesis
  proof (cases "in_range (l_shape (e_layout e)) idx")
    case True
    with b have o: "0 \<le> offset_of (e_layout e) idx"
      "nat (offset_of (e_layout e) idx) < length (ht_data (e_payload e))"
      by (auto simp: in_buffer_def)
    then have "usize_try_from (offset_of (e_layout e) idx) = Some (nat (offset_of (e_layout e) idx))"
      using assms(2) by simp
    then show ?thesis using True o by (simp add: element_at_def erased_is_def linear_index_iff [OF wf])
  next
    case False
    then show ?thesis by (simp add: element_at_def erased_is_def linear_index_iff [OF wf])
  qed
qed

text \<open>A dense erased tensor with no zero extent presents exactly its payload.\<close>

lemma dense_is_payload:
  assumes "wf_erased e" and "e_dense e" and "0 \<notin> set (l_shape (e_layout e))"
  shows "l_shape (e_layout e) = ht_shape (e_payload e)"
    and "l_strides (e_layout e) = scan_products 1 (l_shape (e_layout e))"
proof -
  let ?l = "e_layout e" and ?sh = "ht_shape (e_payload e)"
  have wf: "wf_tensor (e_payload e)" "length (l_strides ?l) = length (l_shape ?l)"
    and m: "mset (zip (l_shape ?l) (l_strides ?l)) = mset (zip ?sh (scan_products 1 ?sh))"
    and d: "dense_from 1 (l_shape ?l) (l_strides ?l)"
    using assms(1,2) by (simp_all add: wf_erased_def Let_def wf_layout_def layout_is_dense_def)
  have fst: "mset (l_shape ?l) = mset ?sh"
    using arg_cong [OF m, of "image_mset fst"] wf(2) by (simp flip: mset_map)
  then have nz: "0 \<notin> set ?sh" using assms(3) by (metis set_mset_mset)
  have "prod_list (l_shape ?l) = prod_list ?sh" using fst by (metis prod_mset_prod_list)
  then have ok: "isize_ok (int (prod_list (l_shape ?l)))"
    using isize_product [OF _ nz] wf(1) by (simp add: wf_tensor_def)
  note c = col_major_strides_total [OF assms(3) ok]
  then show st: "l_strides ?l = scan_products 1 (l_shape ?l)"
    using d dense_from_iff [OF wf(2)] dense_layout_eq [of "l_shape ?l"] by (simp add: dense_layout_def)
  show "l_shape ?l = ?sh" using chain_unique [OF assms(3) nz, of 1] m st by simp
qed

section \<open>Materialization\<close>

lemma advance_lin:
  assumes "in_range sh idx" and "lin sh idx + 1 < prod_list sh"
  shows "in_range sh (advance sh idx)" and "lin sh (advance sh idx) = lin sh idx + 1"
proof -
  have eq: "next_index s i = Some j \<Longrightarrow> advance s i = j" for s i j
    by (induction s i arbitrary: j rule: next_index.induct) (auto split: if_splits)
  from assms next_index_None [OF assms(1)] obtain j where j: "next_index sh idx = Some j"
    by (cases "next_index sh idx") auto
  from next_index_Some [OF assms(1) j] eq [OF j]
  show "in_range sh (advance sh idx)" "lin sh (advance sh idx) = lin sh idx + 1" by simp_all
qed

lemma gather_fold:
  assumes wf: "wf_layout l" and b: "in_buffer l (length src)" and u: "length src \<le> usize_max"
    and "in_range (l_shape l) idx" and "length acc = lin (l_shape l) idx"
    and "lin (l_shape l) idx + m \<le> prod_list (l_shape l)" and "length ks = m"
  shows "\<exists>xs idx'. try_fold (gather_step src l n) (acc, idx) ks = Ok (acc @ xs, idx') \<and> length xs = m \<and>
    (\<forall>j. in_range (l_shape l) j \<longrightarrow> lin (l_shape l) idx \<le> lin (l_shape l) j \<longrightarrow>
      lin (l_shape l) j < lin (l_shape l) idx + m \<longrightarrow>
      xs ! (lin (l_shape l) j - lin (l_shape l) idx) = src ! nat (offset_of l j))"
  using assms(4-7)
proof (induction ks arbitrary: acc idx m)
  case Nil
  then show ?case by auto
next
  case (Cons k ks)
  let ?sh = "l_shape l"
  from b Cons.prems(1) have o: "0 \<le> offset_of l idx" "nat (offset_of l idx) < length src"
    by (auto simp: in_buffer_def)
  have us: "usize_try_from (offset_of l idx) = Some (nat (offset_of l idx))" using o u by simp
  let ?x = "src ! nat (offset_of l idx)"
  have step: "gather_step src l n (acc, idx) k = Ok (acc @ [?x], advance ?sh idx)"
    using o us Cons.prems(1) by (simp add: gather_step_def linear_index_iff [OF wf])
  show ?case
  proof (cases ks)
    case Nil
    with Cons.prems(4) have m: "m = 1" by simp
    have "[?x] ! (lin ?sh j - lin ?sh idx) = src ! nat (offset_of l j)"
      if "in_range ?sh j" "lin ?sh idx \<le> lin ?sh j" "lin ?sh j < lin ?sh idx + m" for j
    proof -
      from that m have "lin ?sh j = lin ?sh idx" by simp
      with lin_inj [OF that(1) Cons.prems(1)] show ?thesis by simp
    qed
    then show ?thesis using step Nil m by (intro exI [of _ "[?x]"] exI [of _ "advance ?sh idx"]) simp
  next
    case (Cons k' ks')
    with Cons.prems(4) obtain m' where m: "m = Suc m'" "0 < m'" "length ks = m'" by (cases m) auto
    have lt: "lin ?sh idx + 1 < prod_list ?sh" using Cons.prems(3) m by simp
    note adv = advance_lin [OF Cons.prems(1) lt]
    from Cons.IH [OF adv(1), of "acc @ [?x]" m'] Cons.prems(2,3) m adv(2) obtain xs idx' where
      ih: "try_fold (gather_step src l n) (acc @ [?x], advance ?sh idx) ks = Ok ((acc @ [?x]) @ xs, idx')"
      "length xs = m'"
      "\<forall>j. in_range ?sh j \<longrightarrow> lin ?sh idx + 1 \<le> lin ?sh j \<longrightarrow> lin ?sh j < lin ?sh idx + 1 + m' \<longrightarrow>
        xs ! (lin ?sh j - (lin ?sh idx + 1)) = src ! nat (offset_of l j)"
      by auto
    have "(?x # xs) ! (lin ?sh j - lin ?sh idx) = src ! nat (offset_of l j)"
      if r: "in_range ?sh j" "lin ?sh idx \<le> lin ?sh j" "lin ?sh j < lin ?sh idx + m" for j
    proof (cases "lin ?sh j = lin ?sh idx")
      case True
      with lin_inj [OF r(1) Cons.prems(1)] show ?thesis by simp
    next
      case False
      with r(2) have d: "lin ?sh idx + 1 \<le> lin ?sh j" by simp
      then have "lin ?sh j - lin ?sh idx = Suc (lin ?sh j - (lin ?sh idx + 1))" by simp
      then show ?thesis using ih(3) r d m(1) by simp
    qed
    then show ?thesis using step ih(1,2) m(1)
      by (intro exI [of _ "?x # xs"] exI [of _ idx']) simp
  qed
qed

lemma to_contiguous_total:
  assumes wf: "wf_erased e" and nz: "0 \<notin> set (l_shape (e_layout e))"
  shows "\<exists>e'. erased_to_contiguous e = Ok e' \<and> wf_erased e' \<and> e_dense e' \<and>
    e_element e' = e_element e \<and> l_shape (e_layout e') = l_shape (e_layout e) \<and>
    (\<forall>idx. element_at (e_element e) e' idx = element_at (e_element e) e idx)"
proof -
  let ?l = "e_layout e" and ?data = "ht_data (e_payload e)"
  let ?sh = "l_shape (e_layout e)" and ?psh = "ht_shape (e_payload e)"
  have wfl: "wf_layout ?l" and b: "in_buffer ?l (length ?data)" and wft: "wf_tensor (e_payload e)"
    and m: "mset (zip ?sh (l_strides ?l)) = mset (zip ?psh (scan_products 1 ?psh))"
    using wf by (simp_all add: wf_erased_def Let_def)
  have fst: "mset ?sh = mset ?psh"
    using arg_cong [OF m, of "image_mset fst"] wfl by (simp add: wf_layout_def flip: mset_map)
  then have pnz: "0 \<notin> set ?psh" using nz by (metis set_mset_mset)
  have prod: "prod_list ?sh = length ?data"
    using fst wft by (metis prod_mset_prod_list wf_tensor_def)
  have iok: "isize_ok (int (prod_list ?sh))"
    using isize_product [OF _ pnz] wft prod by (simp add: wf_tensor_def)
  then have u: "prod_list ?sh \<le> usize_max" by (simp add: int_range_defs)
  have cnt: "layout_count ?l = prod_list ?sh" using u by (simp add: layout_count_eq usize_max_def)
  let ?z = "replicate (length ?sh) 0"
  have z: "in_range ?sh ?z" by (rule in_range_zeros [OF nz])
  from gather_fold [OF wfl b _ z, of "[]" "prod_list ?sh" "[0..<layout_count ?l]" "layout_count ?l"]
  obtain xs idx' where g: "try_fold (gather_step ?data ?l (layout_count ?l)) ([], ?z) [0..<layout_count ?l]
      = Ok (xs, idx')" and lx: "length xs = prod_list ?sh"
    and rd: "\<forall>j. in_range ?sh j \<longrightarrow> xs ! lin ?sh j = ?data ! nat (offset_of ?l j)"
    using u prod cnt lin_less [of ?sh] by (auto simp: lin_zeros)
  let ?t = "\<lparr>ht_data = xs, ht_shape = ?sh\<rparr>"
  have cm: "col_major_strides ?sh = Ok (scan_products 1 ?sh)" by (rule col_major_strides_total [OF nz iok])
  have wt: "wf_tensor ?t" using lx cm by (simp add: wf_tensor_def)
  have "gather (e_payload e) ?l = Ok ?t"
    using g lx cm checked_product_total [OF nz u]
    by (simp add: gather_def from_vec_col_major_def checked_shape_len_def validate_shape_metadata_def)
  then have ok: "erased_to_contiguous e = Ok (erased_new (e_element e) ?t)"
    by (simp add: erased_to_contiguous_def erased_new_def)
  let ?e' = "erased_new (e_element e) ?t"
  have wf': "wf_erased ?e'" by (rule wf_erased_new [OF wt])
  have l': "e_layout ?e' = \<lparr>l_shape = ?sh, l_strides = scan_products 1 ?sh, l_offset = 0\<rparr>"
    using cm by (simp add: erased_new_def dense_layout_eq)
  have "element_at (e_element e) ?e' idx = element_at (e_element e) e idx" for idx
    using element_at_eq [OF wf' , of idx] element_at_eq [OF wf, of idx] rd u prod lx l'
    by (simp add: erased_new_def offset_of_def dot_col_major)
  then show ?thesis using ok wf' l' by (intro exI [of _ ?e']) (simp add: erased_new_def)
qed

end
