(* ===== verification/Tensor_Theorems.thy ===== *)
theory Tensor_Theorems
  imports Host_View Erased
begin

text \<open>
  What the host tensors and views of \<open>crates/tenferro-tensor-core/src/lib.rs\<close> and the erased
  tensors of \<open>erased.rs\<close> promise: construction and extraction are inverse, contiguous access
  is in column-major order, host slicing refines layout slicing, and the erased container returns
  the same elements whatever layout it holds.
\<close>

section \<open>Host tensors\<close>

lemma contiguous_scan:
  "0 \<notin> set sh \<Longrightarrow> try_fold stride_step (acc, p) sh = Ok r \<Longrightarrow>
    contiguous_from p sh (scan_products p sh) = Ok True"
proof (induction sh arbitrary: acc p)
  case Nil
  then show ?case by simp
next
  case (Cons n sh)
  from Cons.prems(2) obtain s where s: "stride_step (acc, p) n = Ok s" and r: "try_fold stride_step s sh = Ok r"
    by auto
  from s have n: "isize_try_from n = Some (int n)" "ichecked_mul p (int n) = Some (p * int n)"
    and "s = (acc @ [p], p * int n)"
    by (auto simp: stride_step_def)
  with r have rest: "try_fold stride_step (acc @ [p], p * int n) sh = Ok r" by simp
  have nz: "0 \<notin> set sh" using Cons.prems(1) by simp
  have IH: "contiguous_from (p * int n) sh (scan_products (p * int n) sh) = Ok True"
    by (rule Cons.IH [OF nz rest])
  show ?case using n IH Cons.prems(1) by (cases "n = 1") auto
qed

lemma from_vec_as_slice:
  assumes "from_vec_col_major sh data = Ok t"
  shows "view_as_slice \<lparr>v_data = data, v_shape = sh, v_strides = scan_products 1 sh, v_offset = 0\<rparr> = Ok data"
proof -
  from assms have p: "checked_product sh = Ok (length data)" and c: "is_ok (col_major_strides sh)"
    by (auto simp: from_vec_col_major_def checked_shape_len_def validate_shape_metadata_def is_ok_iff
        split: if_splits)
  have "is_slice_contiguous sh (scan_products 1 sh) = Ok True"
    using c contiguous_scan [of sh "[]" 1]
    by (auto simp: is_slice_contiguous_def is_ok_iff col_major_strides_def)
  then show ?thesis using checked_product_le [OF p] by (simp add: view_as_slice_def p)
qed

text \<open>C32: A tensor built from a column-major vector gives the same vector back, by value and
  through its compact view, and the element at an index is the one at its column-major position.\<close>

theorem from_vec_round_trip:
  assumes "from_vec_col_major sh data = Ok t"
  shows "into_vec_col_major t = (sh, data) \<and>
    (\<exists>v. as_view t = Some v \<and> wf_view v \<and> view_as_slice v = Ok data \<and>
      (\<forall>idx. in_range sh idx \<longrightarrow> element v idx = data ! lin sh idx))"
proof -
  note F = from_vec_Ok [OF assms]
  have len: "length data = prod_list sh" using F by (simp add: wf_tensor_def)
  let ?v = "\<lparr>v_data = data, v_shape = sh, v_strides = scan_products 1 sh, v_offset = 0\<rparr>"
  have v: "as_view t = Some ?v" using as_view_total [OF F(2)] by (simp add: F(1))
  have "element ?v idx = data ! lin sh idx" if "in_range sh idx" for idx
    by (simp add: element_def offset_of_def dot_col_major [OF that])
  moreover have "wf_view ?v"
    using lin_less [of sh] by (simp add: wf_view_def wf_layout_def in_buffer_def offset_of_def dot_col_major len)
  ultimately show ?thesis
    using v from_vec_as_slice [OF assms] by (auto simp: into_vec_col_major_def F(1))
qed

theorem from_vec_round_trip_witness:
  "into_vec_col_major \<lparr>ht_data = [1, 2, 3, 4, 5, 6 :: nat], ht_shape = [2, 3]\<rparr> = ([2, 3], [1, 2, 3, 4, 5, 6])"
proof -
  have "from_vec_col_major [2, 3] [1, 2, 3, 4, 5, 6 :: nat] =
      Ok \<lparr>ht_data = [1, 2, 3, 4, 5, 6], ht_shape = [2, 3]\<rparr>"
    by (simp add: from_vec_col_major_def checked_shape_len_def validate_shape_metadata_def
        checked_product_def col_major_strides_def stride_step_def checked_defs int_range_defs)
  from from_vec_round_trip [OF this] show ?thesis by blast
qed

text \<open>C30: When a view hands out its elements as a slice, the slice holds exactly the view's
  elements in column-major order.\<close>

theorem view_as_slice_column_major:
  assumes "wf_view v" and "view_as_slice v = Ok xs"
  shows "length xs = prod_list (v_shape v) \<and>
    (\<forall>idx. in_range (v_shape v) idx \<longrightarrow> xs ! lin (v_shape v) idx = element v idx)"
  using as_slice_Ok [OF assms(2,1)] by blast

theorem view_as_slice_column_major_witness:
  "[7, 8 :: nat] ! lin [2] [1] = element \<lparr>v_data = [5, 6, 7, 8], v_shape = [2], v_strides = [1], v_offset = 2\<rparr> [1]"
proof -
  let ?v = "\<lparr>v_data = [5, 6, 7, 8 :: nat], v_shape = [2], v_strides = [1], v_offset = 2\<rparr>"
  have wf: "wf_view ?v"
    by (auto simp: wf_view_def wf_layout_def in_buffer_def offset_of_def)
  have s: "view_as_slice ?v = Ok [7, 8]"
    by (simp add: view_as_slice_def is_slice_contiguous_def checked_product_def checked_defs int_range_defs)
  have "in_range [2] [1]" by simp
  then show ?thesis using view_as_slice_column_major [OF wf s] by (metis host_view.select_convs(2))
qed

text \<open>C25: Slicing a borrowed host view refines slicing its layout, as long as every extent of the view fits
  \<open>isize\<close>: every slice the view accepts is one the layout operation accepts with the same result, and it reads
  the elements the slice names. Beyond \<open>isize\<close> only the layout operation converts the extent and reports
  \<open>IntegerOverflow\<close>; the next lemma after the witness records such a view.\<close>

theorem host_slice_refines_layout_slice:
  assumes "wf_view v" and "view_slice v sl = Ok v'" and "\<forall>n \<in> set (v_shape v). int n \<le> isize_max"
  shows "layout_slice_view DynRank (layout_of v) sl (length (v_data v)) = Ok (layout_of v') \<and> wf_view v' \<and>
    (\<forall>idx. in_range (v_shape v') idx \<longrightarrow>
      in_range (v_shape v) (slice_index (v_shape v) sl idx) \<and>
      element v' idx = element v (slice_index (v_shape v) sl idx))"
  using view_slice_refines [OF assms(2,3)] view_slice_reads [OF assms(2,1,3)] by blast

theorem host_slice_refines_layout_slice_witness:
  "layout_slice_view DynRank \<lparr>l_shape = [5], l_strides = [1], l_offset = 0\<rparr>
     [\<lparr>s_start = 1, s_end = 5, s_step = 2\<rparr>] 5 = Ok \<lparr>l_shape = [2], l_strides = [2], l_offset = 1\<rparr>"
proof -
  let ?v = "\<lparr>v_data = [5, 6, 7, 8, 9 :: nat], v_shape = [5], v_strides = [1], v_offset = 0\<rparr>"
  let ?s = "[\<lparr>s_start = 1, s_end = 5, s_step = 2\<rparr>]"
  have wf: "wf_view ?v"
    by (auto simp: wf_view_def wf_layout_def in_buffer_def offset_of_def)
  have s: "view_slice ?v ?s = Ok \<lparr>v_data = [5, 6, 7, 8, 9], v_shape = [2], v_strides = [2], v_offset = 1\<rparr>"
    by (simp add: view_slice_def view_slice_step_def from_slice_def validate_view_bounds_def
        checked_logical_element_count_def checked_product_def
        validate_reachable_bounds_def reachable_offset_range_def reach_step_def checked_defs int_range_defs)
  have "\<forall>n \<in> set (v_shape ?v). int n \<le> isize_max" by (simp add: isize_max_def)
  from conjunct1 [OF host_slice_refines_layout_slice [OF wf s this]] show ?thesis
    by (simp add: layout_of_def eval_nat_numeral)
qed

lemma host_slice_beyond_isize:
  defines "v \<equiv> \<lparr>v_data = [] :: nat list, v_shape = [0, 2 ^ 63], v_strides = [1, 0], v_offset = 0\<rparr>"
    and "sl \<equiv> [\<lparr>s_start = 0, s_end = 0, s_step = 1\<rparr>, \<lparr>s_start = 0, s_end = 1, s_step = 1\<rparr>]"
  shows "wf_view v" and "view_slice v sl = Ok (v\<lparr>v_shape := [0, 1]\<rparr>)"
    and "layout_slice_view DynRank (layout_of v) sl 0 = Err IntegerOverflow"
proof -
  show "wf_view v" by (simp add: v_def wf_view_def wf_layout_def in_buffer_def layout_of_def)
  show "view_slice v sl = Ok (v\<lparr>v_shape := [0, 1]\<rparr>)"
    by (simp add: v_def sl_def view_slice_def view_slice_step_def from_slice_def validate_view_bounds_def
        checked_logical_element_count_def checked_product_def
        validate_reachable_bounds_def reachable_offset_range_def reach_step_def checked_defs int_range_defs)
  show "layout_slice_view DynRank (layout_of v) sl 0 = Err IntegerOverflow"
    by (simp add: v_def sl_def layout_of_def layout_slice_view_def slice_step_def normalize_slice_def checked_defs int_range_defs)
qed

section \<open>Erased tensors\<close>

text \<open>C34: Permuting an erased tensor is only a change of names: the element at an index of the
  permuted tensor is the element at the permuted index of the original, and the payload is not
  touched.\<close>

theorem erased_permuted_reads:
  assumes "wf_erased e" and "length (ht_data (e_payload e)) \<le> usize_max"
    and "erased_permuted e axes = Ok e'" and "in_range (l_shape (e_layout e')) idx"
  shows "wf_erased e' \<and> e_payload e' = e_payload e \<and>
    element_at (e_element e) e' idx =
      element_at (e_element e) e (transpose_src axes (e_layout e) (e_layout e') idx)"
proof -
  note P = erased_permuted_Ok [OF assms(3,1)]
  have u: "length (ht_data (e_payload e')) \<le> usize_max" using assms(2) P(2) by simp
  show ?thesis
    using P(4) [OF assms(4)] assms(4) element_at_eq [OF P(1) u, of idx] P(1,2,3)
      element_at_eq [OF assms(1,2), of "transpose_src axes (e_layout e) (e_layout e') idx"]
    by simp
qed

definition sample_erased :: "nat erased" where
  "sample_erased = erased_new 7 \<lparr>ht_data = [1, 2, 3, 4, 5, 6 :: nat], ht_shape = [2, 3]\<rparr>"

lemma example_erased:
  "sample_erased =
    \<lparr>e_payload = \<lparr>ht_data = [1, 2, 3, 4, 5, 6], ht_shape = [2, 3]\<rparr>, e_element = 7,
     e_layout = \<lparr>l_shape = [2, 3], l_strides = [1, 2], l_offset = 0\<rparr>, e_payload_elements = 6, e_dense = True\<rparr>"
  by (simp add: sample_erased_def erased_new_def dense_layout_def layout_count_def isaturating_mul_def
      as_isize_def int_range_defs)

lemma example_erased_wf:
  "wf_erased sample_erased"
  unfolding sample_erased_def
  by (rule wf_erased_new) (simp add: wf_tensor_def col_major_strides_def stride_step_def checked_defs int_range_defs)

lemma example_permuted:
  "erased_permuted sample_erased [1, 0] =
    Ok \<lparr>e_payload = \<lparr>ht_data = [1, 2, 3, 4, 5, 6], ht_shape = [2, 3]\<rparr>, e_element = 7,
     e_layout = \<lparr>l_shape = [3, 2], l_strides = [2, 1], l_offset = 0\<rparr>, e_payload_elements = 6, e_dense = False\<rparr>"
  by (simp add: example_erased erased_permuted_def layout_permuted_def permutation_step_def layout_is_dense_def)

theorem erased_permuted_reads_witness:
  "element_at 7 sample_erased [1, 2] = Some 6"
proof -
  have u: "length (ht_data (e_payload sample_erased))
      \<le> usize_max"
    by (simp add: example_erased usize_max_def)
  show ?thesis
    using erased_permuted_reads [OF example_erased_wf u example_permuted, of "[2, 1]"]
    by (simp add: example_erased element_at_def erased_is_def linear_index_def usize_max_def transpose_src_def
        get_def)
qed

text \<open>C19: \<open>to_contiguous\<close> of a well-formed erased tensor without empty axes always succeeds, its
  result is dense, and every index, in or out of range, reads as before.\<close>

theorem erased_to_contiguous_total:
  assumes "wf_erased e" and "0 \<notin> set (l_shape (e_layout e))"
  shows "\<exists>e'. erased_to_contiguous e = Ok e' \<and> e_dense e' \<and>
    l_shape (e_layout e') = l_shape (e_layout e) \<and>
    (\<forall>idx. element_at (e_element e) e' idx = element_at (e_element e) e idx)"
  using to_contiguous_total [OF assms] by blast

theorem erased_to_contiguous_total_witness:
  "\<exists>e'. erased_to_contiguous sample_erased = Ok e' \<and>
    e_dense e'"
proof -
  have "0 \<notin> set (l_shape (e_layout sample_erased))"
    by (simp add: example_erased)
  from erased_to_contiguous_total [OF example_erased_wf this] show ?thesis by blast
qed

text \<open>The dense fast path agrees with element access: when \<open>as_dense\<close> exposes the payload of a
  tensor without empty axes, the shape is the tensor's and the data lists its elements in
  column-major order.\<close>

theorem as_dense_agrees:
  assumes "wf_erased e" and "length (ht_data (e_payload e)) \<le> usize_max"
    and "as_dense t e = Some (xs, sh)" and "0 \<notin> set (l_shape (e_layout e))"
  shows "sh = l_shape (e_layout e) \<and>
    (\<forall>idx. in_range sh idx \<longrightarrow> element_at t e idx = Some (xs ! lin sh idx))"
proof -
  have d: "e_dense e" and t: "t = e_element e" and xs: "xs = ht_data (e_payload e)" "sh = ht_shape (e_payload e)"
    using assms(3) by (auto simp: as_dense_def erased_is_def split: if_splits)
  note D = dense_is_payload [OF assms(1) d assms(4)]
  have off: "l_offset (e_layout e) = 0" using assms(1) by (simp add: wf_erased_def Let_def)
  have "element_at t e idx = Some (xs ! lin sh idx)" if "in_range sh idx" for idx
    using that element_at_eq [OF assms(1,2), of idx] D t xs off
    by (simp add: offset_of_def dot_col_major)
  then show ?thesis using D xs by simp
qed

theorem as_dense_agrees_witness:
  "as_dense 7 sample_erased =
     Some ([1, 2, 3, 4, 5, 6], [2, 3]) \<and>
   element_at 7 sample_erased [1, 2] =
     Some ([1, 2, 3, 4, 5, 6] ! lin [2, 3] [1, 2])"
proof -
  have u: "length (ht_data (e_payload sample_erased))
      \<le> usize_max"
    by (simp add: example_erased usize_max_def)
  have d: "as_dense 7 sample_erased =
      Some ([1, 2, 3, 4, 5, 6], [2, 3])"
    by (simp add: as_dense_def example_erased erased_is_def)
  have nz: "0 \<notin> set (l_shape (e_layout sample_erased))"
    by (simp add: example_erased)
  have r: "in_range [2, 3] [1, 2]" by simp
  show ?thesis using as_dense_agrees [OF example_erased_wf u d nz] d r by blast
qed

text \<open>With an empty axis the dense flag says less: this permutation is flagged dense, and the dense
  accessor reports the payload's shape, which is not the tensor's.\<close>

lemma empty_permutation_dense_shape:
  "\<exists>e'. erased_permuted (erased_new 7 \<lparr>ht_data = [] :: nat list, ht_shape = [0, 2, 3]\<rparr>) [0, 2, 1] = Ok e' \<and>
    l_shape (e_layout e') = [0, 3, 2] \<and> as_dense 7 e' = Some ([], [0, 2, 3])"
  by (simp add: erased_new_def dense_layout_def isaturating_mul_def as_isize_def int_range_defs
      erased_permuted_def layout_permuted_def permutation_step_def layout_is_dense_def numeral_2_eq_2
      as_dense_def erased_is_def)

section \<open>Promotion\<close>

text \<open>On the closed scalar set promotion is a join: commutative, associative and idempotent, so
  the result type of an operation does not depend on the order of its operands.\<close>

theorem promote_semilattice:
  assumes "\<not> is_external a" and "\<not> is_external b" and "\<not> is_external c"
  shows "promote a b = promote b a \<and> promote (promote a b) c = promote a (promote b c) \<and> promote a a = a"
  using assms
  by (cases a; cases b; cases c) (simp_all add: promote_self promote_bool)

theorem promote_semilattice_witness: "promote (promote F32 I32) C32 = promote F32 (promote I32 C32)"
  using promote_semilattice [of F32 I32 C32] by simp

end
