(* ===== verification/Ordered_Map.thy ===== *)
theory Ordered_Map
  imports Prelude
begin

text \<open>
  \<open>std::collections::BTreeMap\<close> as the code uses it: an ordered finite map with insertion,
  removal, lookup and iteration in key order.  The map is a list of entries sorted by key.
  The locale \<open>ordered_map\<close> is the contract the clients (symbol sets, buffer pool bins, binding
  tables) rely on; it is interpreted on the sorted-list model, and the client lemmas about
  sums over all entries are proved once from the contract.
\<close>

type_synonym ('k, 'v) btree_map = "('k \<times> 'v) list"

definition bt_invar :: "('k::linorder, 'v) btree_map \<Rightarrow> bool" where
  "bt_invar m = sorted_wrt (<) (map fst m)"

definition bt_get :: "('k, 'v) btree_map \<Rightarrow> 'k \<Rightarrow> 'v option" where
  "bt_get m k = map_of m k"

fun bt_insert :: "'k::linorder \<Rightarrow> 'v \<Rightarrow> ('k, 'v) btree_map \<Rightarrow> ('k, 'v) btree_map" where
  "bt_insert k v [] = [(k, v)]"
| "bt_insert k v (e # m) =
    (if k = fst e then (k, v) # m
     else if k < fst e then (k, v) # e # m
     else e # bt_insert k v m)"

definition bt_remove :: "'k \<Rightarrow> ('k, 'v) btree_map \<Rightarrow> ('k, 'v) btree_map" where
  "bt_remove k m = filter (\<lambda>e. fst e \<noteq> k) m"

text \<open>\<open>entry(k).or_insert(v)\<close> and \<open>entry(k).or_default()\<close> followed by an update.\<close>

definition bt_or_insert :: "'k::linorder \<Rightarrow> 'v \<Rightarrow> ('k, 'v) btree_map \<Rightarrow> ('k, 'v) btree_map" where
  "bt_or_insert k v m = (case bt_get m k of None \<Rightarrow> bt_insert k v m | Some _ \<Rightarrow> m)"

definition bt_update :: "'k::linorder \<Rightarrow> 'v \<Rightarrow> ('v \<Rightarrow> 'v) \<Rightarrow> ('k, 'v) btree_map \<Rightarrow> ('k, 'v) btree_map" where
  "bt_update k d f m = bt_insert k (f (case bt_get m k of None \<Rightarrow> d | Some v \<Rightarrow> v)) m"

section \<open>The contract\<close>

locale ordered_map =
  fixes emp :: "'m"
    and lookup :: "'m \<Rightarrow> 'k::linorder \<Rightarrow> 'v option"
    and ins :: "'k \<Rightarrow> 'v \<Rightarrow> 'm \<Rightarrow> 'm"
    and del :: "'k \<Rightarrow> 'm \<Rightarrow> 'm"
    and ents :: "'m \<Rightarrow> ('k \<times> 'v) list"
    and inv :: "'m \<Rightarrow> bool"
  assumes emp_ents: "ents emp = []"
    and ents_sorted: "inv m \<Longrightarrow> sorted_wrt (<) (map fst (ents m))"
    and lookup_ents: "inv m \<Longrightarrow> lookup m k = map_of (ents m) k"
    and lookup_ins: "inv m \<Longrightarrow> lookup (ins k v m) = (lookup m)(k \<mapsto> v)"
    and lookup_del: "inv m \<Longrightarrow> lookup (del k m) = (lookup m)(k := None)"
    and inv_emp: "inv emp"
    and inv_ins: "inv m \<Longrightarrow> inv (ins k v m)"
    and inv_del: "inv m \<Longrightarrow> inv (del k m)"
begin

lemma distinct_keys: "inv m \<Longrightarrow> distinct (map fst (ents m))"
  using ents_sorted strict_sorted_iff by blast

lemma in_ents_iff: "inv m \<Longrightarrow> (k, v) \<in> set (ents m) \<longleftrightarrow> lookup m k = Some v"
  by (simp add: lookup_ents distinct_keys)

lemma keys_eq_dom: "inv m \<Longrightarrow> fst ` set (ents m) = dom (lookup m)"
  by (auto simp: lookup_ents dom_def map_of_eq_None_iff simp flip: not_None_eq)

lemma finite_dom: "inv m \<Longrightarrow> finite (dom (lookup m))"
  by (metis keys_eq_dom List.finite_set finite_imageI)

lemma total_as_sum:
  fixes f :: "'k \<Rightarrow> 'v \<Rightarrow> nat"
  assumes "inv m"
  shows "(\<Sum>(k, v) \<leftarrow> ents m. f k v) = (\<Sum>k \<in> dom (lookup m). f k (the (lookup m k)))"
proof -
  have d: "distinct (ents m)" using distinct_keys [OF assms] by (simp add: distinct_map)
  have inj: "inj_on fst (set (ents m))" using distinct_keys [OF assms] by (simp add: distinct_map)
  have "(\<Sum>(k, v) \<leftarrow> ents m. f k v) = (\<Sum>e \<in> set (ents m). f (fst e) (snd e))"
    using sum_list_distinct_conv_sum_set [OF d, of "\<lambda>e. f (fst e) (snd e)"]
    by (simp add: split_def)
  also have "\<dots> = (\<Sum>e \<in> set (ents m). f (fst e) (the (lookup m (fst e))))"
    by (rule sum.cong) (auto simp: in_ents_iff [OF assms])
  also have "\<dots> = (\<Sum>k \<in> fst ` set (ents m). f k (the (lookup m k)))"
    using sum.reindex [OF inj, of "\<lambda>k. f k (the (lookup m k))"] by (simp add: o_def)
  finally show ?thesis by (simp add: keys_eq_dom [OF assms])
qed

text \<open>Replacing or adding one entry changes a total by exactly that entry.\<close>

lemma total_ins:
  fixes f :: "'k \<Rightarrow> 'v \<Rightarrow> nat"
  assumes "inv m"
  shows "(\<Sum>(k, v) \<leftarrow> ents (ins k v m). f k v) + (case lookup m k of None \<Rightarrow> 0 | Some w \<Rightarrow> f k w) =
    (\<Sum>(k, v) \<leftarrow> ents m. f k v) + f k v"
proof -
  let ?D = "dom (lookup m)" and ?g = "\<lambda>j. f j (the (lookup m j))"
  have fin: "finite ?D" by (rule finite_dom [OF assms])
  have "(\<Sum>(k, v) \<leftarrow> ents (ins k v m). f k v) =
      (\<Sum>j \<in> insert k ?D. f j (the (((lookup m)(k \<mapsto> v)) j)))"
    by (simp add: total_as_sum inv_ins [OF assms] lookup_ins [OF assms])
  also have "insert k ?D = insert k (?D - {k})" by auto
  also have "(\<Sum>j \<in> insert k (?D - {k}). f j (the (((lookup m)(k \<mapsto> v)) j))) =
      f k v + (\<Sum>j \<in> ?D - {k}. f j (the (((lookup m)(k \<mapsto> v)) j)))"
    using fin by (subst sum.insert) auto
  also have "(\<Sum>j \<in> ?D - {k}. f j (the (((lookup m)(k \<mapsto> v)) j))) = sum ?g (?D - {k})"
    by (rule sum.cong) auto
  finally have new: "(\<Sum>(k, v) \<leftarrow> ents (ins k v m). f k v) = f k v + sum ?g (?D - {k})" .
  have old: "(\<Sum>(k, v) \<leftarrow> ents m. f k v) =
      sum ?g (?D - {k}) + (case lookup m k of None \<Rightarrow> 0 | Some w \<Rightarrow> f k w)"
  proof (cases "lookup m k")
    case None
    then have "?D - {k} = ?D" by auto
    with None show ?thesis by (simp add: total_as_sum [OF assms])
  next
    case (Some w)
    then have "k \<in> ?D" by auto
    with fin Some show ?thesis
      by (simp add: total_as_sum [OF assms] sum.remove [of ?D k])
  qed
  from new old show ?thesis by simp
qed

lemma total_del:
  fixes f :: "'k \<Rightarrow> 'v \<Rightarrow> nat"
  assumes "inv m"
  shows "(\<Sum>(k, v) \<leftarrow> ents (del k m). f k v) + (case lookup m k of None \<Rightarrow> 0 | Some w \<Rightarrow> f k w) =
    (\<Sum>(k, v) \<leftarrow> ents m. f k v)"
proof -
  let ?D = "dom (lookup m)" and ?g = "\<lambda>j. f j (the (lookup m j))"
  have fin: "finite ?D" by (rule finite_dom [OF assms])
  have "(\<Sum>(k, v) \<leftarrow> ents (del k m). f k v) =
      (\<Sum>j \<in> ?D - {k}. f j (the (((lookup m)(k := None)) j)))"
    by (simp add: total_as_sum inv_del [OF assms] lookup_del [OF assms])
  also have "\<dots> = sum ?g (?D - {k})" by (rule sum.cong) auto
  finally have new: "(\<Sum>(k, v) \<leftarrow> ents (del k m). f k v) = sum ?g (?D - {k})" .
  show ?thesis
  proof (cases "lookup m k")
    case None
    then have "?D - {k} = ?D" by auto
    with None new show ?thesis by (simp add: total_as_sum [OF assms])
  next
    case (Some w)
    then have "k \<in> ?D" by auto
    with fin Some new show ?thesis
      by (simp add: total_as_sum [OF assms] sum.remove [of ?D k])
  qed
qed

end

section \<open>The sorted list provides the contract\<close>

lemma bt_insert_keys: "set (map fst (bt_insert k v m)) = insert k (set (map fst m))"
  by (induction k v m rule: bt_insert.induct) auto

lemma bt_insert_sorted: "sorted_wrt (<) (map fst m) \<Longrightarrow> sorted_wrt (<) (map fst (bt_insert k v m))"
proof (induction k v m rule: bt_insert.induct)
  case (1 k v)
  then show ?case by simp
next
  case (2 k v e m)
  have keys: "set (map fst (bt_insert k v m)) = insert k (set (map fst m))"
    by (rule bt_insert_keys)
  consider "k = fst e" | "k < fst e" | "fst e < k" by fastforce
  then show ?case
  proof cases
    case 3
    then have "\<forall>x \<in> set (map fst (bt_insert k v m)). fst e < x"
      using "2.prems" keys by simp
    moreover have "k \<noteq> fst e" "\<not> k < fst e" using 3 by auto
    ultimately show ?thesis using "2.IH" "2.prems" by simp
  qed (use "2.prems" in auto)
qed

lemma map_of_bt_insert:
  "sorted_wrt (<) (map fst m) \<Longrightarrow> map_of (bt_insert k v m) = (map_of m)(k \<mapsto> v)"
proof (induction k v m rule: bt_insert.induct)
  case (1 k v)
  then show ?case by simp
next
  case (2 k v e m)
  then show ?case by (cases e) (auto simp: fun_eq_iff)
qed

lemma map_of_bt_remove: "map_of (bt_remove k m) = (map_of m)(k := None)"
  unfolding bt_remove_def by (induction m) (auto simp: fun_eq_iff)

interpretation btree: ordered_map "[]" bt_get bt_insert bt_remove "\<lambda>m. m" bt_invar
proof
  show "bt_invar m \<Longrightarrow> bt_invar (bt_remove k m)" for k :: "'k::linorder" and m :: "('k, 'v) btree_map"
    unfolding bt_invar_def bt_remove_def
    by (induction m) auto
qed (auto simp: bt_invar_def bt_get_def [abs_def] bt_insert_sorted map_of_bt_insert map_of_bt_remove)

lemma bt_invar_Nil [simp]: "bt_invar []"
  by (rule btree.inv_emp)

lemma bt_invar_insert [simp]: "bt_invar m \<Longrightarrow> bt_invar (bt_insert k v m)"
  by (rule btree.inv_ins)

lemma bt_invar_remove [simp]: "bt_invar m \<Longrightarrow> bt_invar (bt_remove k m)"
  by (rule btree.inv_del)

lemma bt_get_Nil [simp]: "bt_get [] k = None"
  by (simp add: bt_get_def)

lemma bt_get_insert [simp]: "bt_invar m \<Longrightarrow> bt_get (bt_insert k v m) = (bt_get m)(k \<mapsto> v)"
  by (rule btree.lookup_ins)

lemma bt_get_remove [simp]: "bt_invar m \<Longrightarrow> bt_get (bt_remove k m) = (bt_get m)(k := None)"
  by (rule btree.lookup_del)

lemma bt_invar_or_insert [simp]: "bt_invar m \<Longrightarrow> bt_invar (bt_or_insert k v m)"
  by (simp add: bt_or_insert_def split: option.splits)

lemma bt_get_or_insert:
  "bt_invar m \<Longrightarrow> bt_get (bt_or_insert k v m) =
    (bt_get m)(k \<mapsto> (case bt_get m k of None \<Rightarrow> v | Some w \<Rightarrow> w))"
  by (auto simp: bt_or_insert_def fun_eq_iff split: option.splits)

lemma bt_invar_update [simp]: "bt_invar m \<Longrightarrow> bt_invar (bt_update k d f m)"
  by (simp add: bt_update_def)

lemma bt_get_update:
  "bt_invar m \<Longrightarrow> bt_get (bt_update k d f m) =
    (bt_get m)(k \<mapsto> f (case bt_get m k of None \<Rightarrow> d | Some w \<Rightarrow> w))"
  by (simp add: bt_update_def)

end
