(* ===== verification/Symbol_Sets.thy ===== *)
theory Symbol_Sets
  imports Ordered_Map "HOL-Library.Product_Lexorder"
begin

text \<open>
  \<open>SymbolSets\<close> of \<open>tenferro-runtime/src/shape_constraint/solver.rs\<close>: a union-find over input
  dimensions \<open>(input, axis)\<close> whose roots are the least members of their classes.  The walk to the
  root is bounded by the number of entries; \<open>rep_root\<close> shows the bound is never what stops it,
  because parents only decrease (\<open>ss_invar\<close>).
\<close>

type_synonym symbol = "nat \<times> nat"
type_synonym 'a symbol_sets = "('a, 'a) btree_map"

definition parent :: "'a::linorder symbol_sets \<Rightarrow> 'a \<Rightarrow> 'a" where
  "parent sets s = (case bt_get sets s of None \<Rightarrow> s | Some p \<Rightarrow> p)"

definition ensure :: "'a::linorder symbol_sets \<Rightarrow> 'a \<Rightarrow> 'a symbol_sets" where
  "ensure sets s = bt_or_insert s s sets"

fun rep_loop :: "nat \<Rightarrow> 'a::linorder symbol_sets \<Rightarrow> 'a \<Rightarrow> 'a" where
  "rep_loop 0 sets current = current"
| "rep_loop (Suc fuel) sets current =
    (if parent sets current = current then current else rep_loop fuel sets (parent sets current))"

definition representative :: "'a::linorder symbol_sets \<Rightarrow> 'a \<Rightarrow> 'a" where
  "representative sets s = rep_loop (length sets) sets s"

definition union :: "'a::linorder symbol_sets \<Rightarrow> 'a \<Rightarrow> 'a \<Rightarrow> 'a symbol_sets" where
  "union sets lhs rhs =
    (let sets = ensure (ensure sets lhs) rhs;
         lhs_root = representative sets lhs;
         rhs_root = representative sets rhs
     in if lhs_root = rhs_root then sets
        else if lhs_root < rhs_root then bt_insert rhs_root lhs_root sets
        else bt_insert lhs_root rhs_root sets)"

definition flatten_step :: "'a::linorder symbol_sets \<Rightarrow> 'a \<Rightarrow> 'a symbol_sets" where
  "flatten_step sets s = bt_insert s (representative sets s) sets"

definition flatten :: "'a::linorder symbol_sets \<Rightarrow> 'a symbol_sets" where
  "flatten sets = foldl flatten_step sets (map fst sets)"

definition representatives_are_flat :: "'a::linorder symbol_sets \<Rightarrow> bool" where
  "representatives_are_flat sets = list_all (\<lambda>(s, p). p = representative sets s) sets"

section \<open>The invariant and the walk to the root\<close>

definition ss_invar :: "'a::linorder symbol_sets \<Rightarrow> bool" where
  "ss_invar sets \<longleftrightarrow> bt_invar sets \<and> (\<forall>s. parent sets s \<le> s)"

text \<open>The root of a symbol as a relation, free of the fuel.\<close>

inductive root_of :: "'a::linorder symbol_sets \<Rightarrow> 'a \<Rightarrow> 'a \<Rightarrow> bool" for sets where
  root_stop: "parent sets s = s \<Longrightarrow> root_of sets s s"
| root_step: "parent sets s \<noteq> s \<Longrightarrow> root_of sets (parent sets s) r \<Longrightarrow> root_of sets s r"

inductive_cases root_ofE: "root_of sets s r"

lemma root_of_unique: "root_of sets s r \<Longrightarrow> root_of sets s r' \<Longrightarrow> r = r'"
proof (induction arbitrary: r' rule: root_of.induct)
  case (root_stop s)
  then show ?case by (blast elim: root_ofE)
next
  case (root_step s r)
  from root_step.prems root_step.hyps(1) have "root_of sets (parent sets s) r'"
    by (blast elim: root_ofE)
  then show ?case by (rule root_step.IH)
qed

lemma root_of_root: "root_of sets s r \<Longrightarrow> parent sets r = r"
  by (induction rule: root_of.induct) auto

lemma root_of_le: "ss_invar sets \<Longrightarrow> root_of sets s r \<Longrightarrow> r \<le> s"
proof -
  assume inv: "ss_invar sets" and r: "root_of sets s r"
  from r show "r \<le> s"
  proof (induction rule: root_of.induct [consumes 1])
    case (root_step s r)
    then show ?case using inv by (meson order_trans ss_invar_def)
  qed auto
qed

lemma not_dom_parent: "bt_get sets s = None \<Longrightarrow> parent sets s = s"
  by (simp add: parent_def)

lemma rep_loop_root:
  assumes "ss_invar sets" and "card {k \<in> dom (bt_get sets). k \<le> s} \<le> n"
  shows "root_of sets s (rep_loop n sets s)"
  using assms(2)
proof (induction n arbitrary: s)
  case 0
  have "finite (dom (bt_get sets))"
    using btree.finite_dom assms(1) by (auto simp: ss_invar_def)
  then have "{k \<in> dom (bt_get sets). k \<le> s} = {}" using 0 by simp
  then have "s \<notin> dom (bt_get sets)" by blast
  then have "bt_get sets s = None" by (simp add: domIff)
  from root_stop [OF not_dom_parent [OF this]] show ?case by simp
next
  case (Suc n)
  have fin: "finite (dom (bt_get sets))"
    using btree.finite_dom assms(1) by (auto simp: ss_invar_def)
  show ?case
  proof (cases "parent sets s = s")
    case True
    then show ?thesis using root_stop by simp
  next
    case False
    then have dom: "s \<in> dom (bt_get sets)" using not_dom_parent by (auto simp: domIff)
    have lt: "parent sets s < s" using False assms(1) by (simp add: ss_invar_def order.strict_iff_order)
    have "{k \<in> dom (bt_get sets). k \<le> parent sets s} \<subset> {k \<in> dom (bt_get sets). k \<le> s}"
      using lt dom by (auto simp: less_le_not_le intro: order_trans)
    then have "card {k \<in> dom (bt_get sets). k \<le> parent sets s} < card {k \<in> dom (bt_get sets). k \<le> s}"
      using fin by (intro psubset_card_mono) auto
    then have "root_of sets (parent sets s) (rep_loop n sets (parent sets s))"
      using Suc.prems by (intro Suc.IH) simp
    then show ?thesis using False root_step by simp
  qed
qed

lemma rep_root:
  assumes "ss_invar sets"
  shows "root_of sets s (representative sets s)"
proof -
  have bt: "bt_invar sets" using assms by (simp add: ss_invar_def)
  have "{k \<in> dom (bt_get sets). k \<le> s} \<subseteq> fst ` set sets"
    using btree.keys_eq_dom [OF bt] by auto
  then have "card {k \<in> dom (bt_get sets). k \<le> s} \<le> card (fst ` set sets)"
    by (intro card_mono) auto
  also have "\<dots> \<le> length sets" by (metis card_length length_map set_map)
  finally show ?thesis unfolding representative_def by (rule rep_loop_root [OF assms])
qed

lemma rep_eq: "ss_invar sets \<Longrightarrow> root_of sets s r \<Longrightarrow> representative sets s = r"
  using rep_root root_of_unique by blast

lemma rep_le: "ss_invar sets \<Longrightarrow> representative sets s \<le> s"
  using rep_root root_of_le by blast

lemma rep_fixed: "ss_invar sets \<Longrightarrow> parent sets (representative sets s) = representative sets s"
  using rep_root root_of_root by blast

lemma rep_of_root: "ss_invar sets \<Longrightarrow> parent sets r = r \<Longrightarrow> representative sets r = r"
  by (rule rep_eq [OF _ root_stop])

lemma rep_idem [simp]: "ss_invar sets \<Longrightarrow> representative sets (representative sets s) = representative sets s"
  by (simp add: rep_of_root rep_fixed)

lemma rep_not_dom: "ss_invar sets \<Longrightarrow> bt_get sets s = None \<Longrightarrow> representative sets s = s"
  by (simp add: rep_of_root not_dom_parent)

lemma ss_invar_Nil [simp]: "ss_invar []"
  by (simp add: ss_invar_def parent_def)

lemma rep_Nil [simp]: "representative [] s = s"
  by (simp add: representative_def)

section \<open>Each operation\<close>

lemma parent_ensure [simp]: "bt_invar sets \<Longrightarrow> parent (ensure sets a) s = parent sets s"
  by (auto simp: ensure_def parent_def bt_get_or_insert split: option.splits)

lemma dom_ensure: "bt_invar sets \<Longrightarrow> dom (bt_get (ensure sets a)) = insert a (dom (bt_get sets))"
  by (auto simp: ensure_def bt_get_or_insert)

lemma ss_invar_ensure [simp]: "ss_invar sets \<Longrightarrow> ss_invar (ensure sets a)"
  by (simp add: ss_invar_def) (simp add: ensure_def)

lemma root_of_cong:
  "root_of sets s r \<Longrightarrow> (\<And>x. parent sets' x = parent sets x) \<Longrightarrow> root_of sets' s r"
  by (induction rule: root_of.induct) (auto intro: root_of.intros)

lemma rep_ensure [simp]: "ss_invar sets \<Longrightarrow> representative (ensure sets a) s = representative sets s"
  by (rule rep_eq [OF ss_invar_ensure], assumption)
    (rule root_of_cong [OF rep_root], auto simp: ss_invar_def)

text \<open>Linking one root below another moves exactly the first root's class.\<close>

lemma parent_insert: "bt_invar sets \<Longrightarrow> parent (bt_insert a b sets) s = (if s = a then b else parent sets s)"
  by (auto simp: parent_def)

lemma link_root:
  assumes "ss_invar sets" and "parent sets a = a" and "parent sets b = b" and "a < b"
  shows "ss_invar (bt_insert b a sets)"
    and "representative (bt_insert b a sets) s =
      (if representative sets s = b then a else representative sets s)"
proof -
  have bt: "bt_invar sets" using assms(1) by (simp add: ss_invar_def)
  show inv: "ss_invar (bt_insert b a sets)"
    using assms(1,4) by (simp add: ss_invar_def parent_insert [OF bt])
  have a: "root_of (bt_insert b a sets) a a"
    using assms(2,4) by (intro root_stop) (simp add: parent_insert [OF bt])
  have "root_of (bt_insert b a sets) s (if r = b then a else r)" if "root_of sets s r" for r
    using that
  proof (induction rule: root_of.induct)
    case (root_stop s)
    show ?case
    proof (cases "s = b")
      case True
      have "parent (bt_insert b a sets) b = a" by (simp add: parent_insert [OF bt])
      then show ?thesis using True a assms(4) root_of.root_step [of "bt_insert b a sets" b a] by auto
    next
      case False
      then show ?thesis using root_stop by (simp add: parent_insert [OF bt] root_of.root_stop)
    qed
  next
    case (root_step s r)
    then have "s \<noteq> b" using assms(3) by auto
    then have "parent (bt_insert b a sets) s = parent sets s" by (simp add: parent_insert [OF bt])
    then show ?case using root_step root_of.root_step [of "bt_insert b a sets" s] by simp
  qed
  from rep_eq [OF inv this [OF rep_root [OF assms(1)]]]
  show "representative (bt_insert b a sets) s =
      (if representative sets s = b then a else representative sets s)" .
qed

lemma union_spec:
  assumes "ss_invar sets"
  shows "ss_invar (union sets lhs rhs)"
    and "representative (union sets lhs rhs) s =
      (if representative sets s = representative sets lhs \<or> representative sets s = representative sets rhs
       then min (representative sets lhs) (representative sets rhs) else representative sets s)"
proof -
  let ?e = "ensure (ensure sets lhs) rhs"
  have e: "ss_invar ?e" using assms by simp
  have rep: "representative ?e x = representative sets x" for x using assms by simp
  have fix1: "parent ?e (representative sets lhs) = representative sets lhs"
    and fix2: "parent ?e (representative sets rhs) = representative sets rhs"
    using rep_fixed [OF e] rep by metis+
  consider "representative sets lhs = representative sets rhs"
    | "representative sets lhs < representative sets rhs"
    | "representative sets rhs < representative sets lhs" by fastforce
  then have "ss_invar (union sets lhs rhs) \<and> representative (union sets lhs rhs) s =
      (if representative sets s = representative sets lhs \<or> representative sets s = representative sets rhs
       then min (representative sets lhs) (representative sets rhs) else representative sets s)"
  proof cases
    case 1
    then show ?thesis using e rep by (simp add: union_def Let_def)
  next
    case 2
    then have u: "union sets lhs rhs = bt_insert (representative sets rhs) (representative sets lhs) ?e"
      using rep by (auto simp: union_def Let_def)
    show ?thesis unfolding u
      using link_root [OF e fix1 fix2 2] rep 2 by (auto simp: min_def)
  next
    case 3
    then have u: "union sets lhs rhs = bt_insert (representative sets lhs) (representative sets rhs) ?e"
      using rep by (auto simp: union_def Let_def)
    show ?thesis unfolding u
      using link_root [OF e fix2 fix1 3] rep 3 by (auto simp: min_def)
  qed
  then show "ss_invar (union sets lhs rhs)" and "representative (union sets lhs rhs) s =
      (if representative sets s = representative sets lhs \<or> representative sets s = representative sets rhs
       then min (representative sets lhs) (representative sets rhs) else representative sets s)"
    by simp_all
qed

section \<open>Classes\<close>

text \<open>The equalities recorded so far, seen through a valuation of the symbols: it respects them
  exactly when it is constant along \<open>representative\<close>.\<close>

definition constant_along :: "'a::linorder symbol_sets \<Rightarrow> ('a \<Rightarrow> 'v) \<Rightarrow> bool" where
  "constant_along sets v \<longleftrightarrow> (\<forall>s. v s = v (representative sets s))"

lemma constant_along_Nil [simp]: "constant_along [] v"
  by (simp add: constant_along_def)

lemma constant_along_union:
  assumes "ss_invar sets"
  shows "constant_along (union sets a b) v \<longleftrightarrow> constant_along sets v \<and> v a = v b"
proof
  assume u: "constant_along (union sets a b) v"
  have rep: "v s = v (representative sets s)" for s
    using u union_spec(2) [OF assms, of a b s] union_spec(2) [OF assms, of a b "representative sets s"]
      assms unfolding constant_along_def by (metis rep_idem)
  have "v a = v b"
    using u union_spec(2) [OF assms, of a b a] union_spec(2) [OF assms, of a b b]
    unfolding constant_along_def by metis
  with rep show "constant_along sets v \<and> v a = v b" by (simp add: constant_along_def)
next
  assume c: "constant_along sets v \<and> v a = v b"
  then have r: "v (representative sets a) = v (representative sets b)"
    by (metis constant_along_def)
  then have "v (min (representative sets a) (representative sets b)) = v (representative sets a)"
    by (simp add: min_def)
  with c r show "constant_along (union sets a b) v"
    unfolding constant_along_def union_spec(2) [OF assms] by metis
qed

lemma flatten_step_spec:
  assumes "ss_invar sets"
  shows "ss_invar (flatten_step sets x) \<and> representative (flatten_step sets x) s = representative sets s \<and>
    parent (flatten_step sets x) s = (if s = x then representative sets x else parent sets s)"
proof -
  have bt: "bt_invar sets" using assms by (simp add: ss_invar_def)
  have p: "parent (flatten_step sets x) s = (if s = x then representative sets x else parent sets s)" for s
    by (simp add: flatten_step_def parent_insert [OF bt])
  have inv: "ss_invar (flatten_step sets x)"
    using assms rep_le [OF assms, of x] by (simp add: ss_invar_def p) (simp add: flatten_step_def)
  have "root_of (flatten_step sets x) s r" if "root_of sets s r" for r
    using that
  proof (induction rule: root_of.induct)
    case (root_stop s)
    then have "representative sets s = s" by (rule rep_of_root [OF assms])
    with root_stop have "parent (flatten_step sets x) s = s" by (auto simp: p)
    then show ?case by (rule root_of.root_stop)
  next
    case (root_step s r)
    show ?case
    proof (cases "s = x")
      case True
      have r: "root_of sets s r" using root_step by (blast intro: root_of.root_step)
      then have rx: "representative sets x = r" using True rep_eq [OF assms] by simp
      have "parent sets r = r" by (rule root_of_root [OF r])
      then have "root_of (flatten_step sets x) r r"
        using rx rep_of_root [OF assms, of r] by (intro root_of.root_stop) (simp add: p)
      then show ?thesis
        using True rx root_of.root_step [of "flatten_step sets x" s r] by (cases "s = r") (auto simp: p)
    next
      case False
      then have "parent (flatten_step sets x) s = parent sets s" by (simp add: p)
      with root_step show ?thesis using root_of.root_step [of "flatten_step sets x" s] by simp
    qed
  qed
  then have "representative (flatten_step sets x) s = representative sets s"
    using rep_eq [OF inv] rep_root [OF assms] by blast
  with inv p show ?thesis by blast
qed

lemma flatten_fold:
  assumes "ss_invar sets"
  shows "ss_invar (foldl flatten_step sets xs) \<and>
    representative (foldl flatten_step sets xs) s = representative sets s \<and>
    (\<forall>k. parent (foldl flatten_step sets xs) k = (if k \<in> set xs then representative sets k else parent sets k))"
  using assms
proof (induction xs arbitrary: sets)
  case Nil
  then show ?case by simp
next
  case (Cons x xs)
  note F = flatten_step_spec [OF Cons.prems, of x]
  have inv: "ss_invar (flatten_step sets x)" using F by blast
  from Cons.IH [OF inv] F show ?case by auto
qed

lemma flatten_spec:
  assumes "ss_invar sets"
  shows "ss_invar (flatten sets)" and "representative (flatten sets) s = representative sets s"
    and "parent (flatten sets) s = representative sets s"
proof -
  note F = flatten_fold [OF assms, of "map fst sets", folded flatten_def]
  show "ss_invar (flatten sets)" "representative (flatten sets) s = representative sets s"
    using F by blast+
  have "s \<notin> set (map fst sets) \<Longrightarrow> representative sets s = parent sets s"
    using rep_not_dom [OF assms, of s] not_dom_parent [of sets s]
    by (simp add: bt_get_def map_of_eq_None_iff)
  then show "parent (flatten sets) s = representative sets s" using F by auto
qed

lemma flatten_flat: "ss_invar sets \<Longrightarrow> representatives_are_flat (flatten sets)"
proof -
  assume inv: "ss_invar sets"
  note F = flatten_spec [OF inv]
  have bt: "bt_invar (flatten sets)" using F(1) by (simp add: ss_invar_def)
  have "p = representative (flatten sets) s" if "(s, p) \<in> set (flatten sets)" for s p
  proof -
    from that have "bt_get (flatten sets) s = Some p" by (simp add: btree.in_ents_iff [OF bt])
    then have "parent (flatten sets) s = p" by (simp add: parent_def)
    then show ?thesis using F(2,3) by simp
  qed
  then show ?thesis by (auto simp: representatives_are_flat_def list_all_iff)
qed

text \<open>Folding a list of equalities: what the final sets say is exactly the list.\<close>

definition unions :: "'a::linorder symbol_sets \<Rightarrow> ('a \<times> 'a) list \<Rightarrow> 'a symbol_sets" where
  "unions sets eqs = foldl (\<lambda>m (a, b). union m a b) sets eqs"

lemma unions_simps [simp]:
  "unions sets [] = sets" "unions sets ((a, b) # eqs) = unions (union sets a b) eqs"
  by (simp_all add: unions_def)

lemma unions_spec:
  "ss_invar sets \<Longrightarrow> ss_invar (unions sets eqs) \<and>
    (constant_along (unions sets eqs) v \<longleftrightarrow> constant_along sets v \<and> (\<forall>(a, b) \<in> set eqs. v a = v b))"
proof (induction eqs arbitrary: sets)
  case Nil
  then show ?case by simp
next
  case (Cons e eqs)
  obtain a b where e: "e = (a, b)" by (metis prod.exhaust)
  from Cons.IH [OF union_spec(1) [OF Cons.prems, of a b]] constant_along_union [OF Cons.prems, of a b]
  show ?case by (auto simp: e)
qed

text \<open>The representative is the least symbol its class forces to be equal.\<close>

lemma representative_least:
  fixes sets :: "'a::linorder symbol_sets"
  assumes "ss_invar sets"
  shows "representative sets s = (LEAST t. \<forall>v :: 'a \<Rightarrow> bool. constant_along sets v \<longrightarrow> v s = v t)"
proof (rule sym, rule Least_equality)
  show "\<forall>v :: 'a \<Rightarrow> bool. constant_along sets v \<longrightarrow> v s = v (representative sets s)"
    by (auto simp: constant_along_def)
next
  fix t
  assume a: "\<forall>v :: 'a \<Rightarrow> bool. constant_along sets v \<longrightarrow> v s = v t"
  let ?v = "\<lambda>x. representative sets x = representative sets s"
  have "constant_along sets ?v" using assms by (simp add: constant_along_def)
  with a have "representative sets t = representative sets s" by blast
  then show "representative sets s \<le> t" using rep_le [OF assms, of t] by simp
qed

end
