(* ===== verification/Dim_Expr.thy ===== *)
theory Dim_Expr
  imports Prelude
begin

text \<open>
  Dimension expressions: \<open>DimExpr\<close> over the shapes of an operation's inputs
  (\<open>tenferro-internal-ops/src/dim_expr.rs\<close>), symbolic dimensions \<open>SymDim\<close> over traced tensors
  (\<open>sym_dim.rs\<close>), the conversions between them, and the constraint recorder of extension shape
  inference (\<open>shape_constraint.rs\<close>).  \<open>sym_eval\<close> is the reference semantics of a symbolic
  dimension: what it is worth once every traced tensor has a shape.
\<close>

section \<open>DimExpr\<close>

datatype dim_expr =
    Const nat
  | InputDim nat nat
  | Add dim_expr dim_expr
  | Sub dim_expr dim_expr
  | Mul dim_expr dim_expr
  | FloorDiv dim_expr dim_expr
  | Min dim_expr dim_expr
  | Max dim_expr dim_expr

datatype dim_expr_eval_error =
    InputOutOfBounds nat nat
  | ExprAxisOutOfBounds nat nat nat
  | AddOverflow nat nat
  | SubUnderflow nat nat
  | MulOverflow nat nat
  | FloorDivByZero nat nat

fun eval :: "dim_expr \<Rightarrow> nat list list \<Rightarrow> dim_expr_eval_error + nat" where
  "eval (Const v) shapes = Ok v"
| "eval (InputDim input_idx axis) shapes =
    and_then (ok_or (get shapes input_idx) (InputOutOfBounds input_idx (length shapes))) (\<lambda>shape.
      ok_or (get shape axis) (ExprAxisOutOfBounds input_idx axis (length shape)))"
| "eval (Add a b) shapes =
    and_then (eval a shapes) (\<lambda>lhs. and_then (eval b shapes) (\<lambda>rhs.
      ok_or (checked_add lhs rhs) (AddOverflow lhs rhs)))"
| "eval (Sub a b) shapes =
    and_then (eval a shapes) (\<lambda>lhs. and_then (eval b shapes) (\<lambda>rhs.
      ok_or (checked_sub lhs rhs) (SubUnderflow lhs rhs)))"
| "eval (Mul a b) shapes =
    and_then (eval a shapes) (\<lambda>lhs. and_then (eval b shapes) (\<lambda>rhs.
      ok_or (checked_mul lhs rhs) (MulOverflow lhs rhs)))"
| "eval (FloorDiv a b) shapes =
    and_then (eval a shapes) (\<lambda>lhs. and_then (eval b shapes) (\<lambda>rhs.
      if rhs = 0 then Err (FloorDivByZero lhs rhs) else Ok (lhs div rhs)))"
| "eval (Min a b) shapes =
    and_then (eval a shapes) (\<lambda>lhs. and_then (eval b shapes) (\<lambda>rhs. Ok (min lhs rhs)))"
| "eval (Max a b) shapes =
    and_then (eval a shapes) (\<lambda>lhs. and_then (eval b shapes) (\<lambda>rhs. Ok (max lhs rhs)))"

definition max_opt :: "nat option \<Rightarrow> nat option \<Rightarrow> nat option" where
  "max_opt a b =
    (case (a, b) of
       (Some x, Some y) \<Rightarrow> Some (max x y)
     | (Some x, None) \<Rightarrow> Some x
     | (None, Some x) \<Rightarrow> Some x
     | (None, None) \<Rightarrow> None)"

fun max_input_idx :: "dim_expr \<Rightarrow> nat option" where
  "max_input_idx (Const _) = None"
| "max_input_idx (InputDim input_idx _) = Some input_idx"
| "max_input_idx (Add a b) = max_opt (max_input_idx a) (max_input_idx b)"
| "max_input_idx (Sub a b) = max_opt (max_input_idx a) (max_input_idx b)"
| "max_input_idx (Mul a b) = max_opt (max_input_idx a) (max_input_idx b)"
| "max_input_idx (FloorDiv a b) = max_opt (max_input_idx a) (max_input_idx b)"
| "max_input_idx (Min a b) = max_opt (max_input_idx a) (max_input_idx b)"
| "max_input_idx (Max a b) = max_opt (max_input_idx a) (max_input_idx b)"

fun remap :: "nat \<Rightarrow> nat \<Rightarrow> dim_expr \<Rightarrow> dim_expr" where
  "remap from' to (Const v) = Const v"
| "remap from' to (InputDim input_idx axis) = InputDim (if input_idx = from' then to else input_idx) axis"
| "remap from' to (Add a b) = Add (remap from' to a) (remap from' to b)"
| "remap from' to (Sub a b) = Sub (remap from' to a) (remap from' to b)"
| "remap from' to (Mul a b) = Mul (remap from' to a) (remap from' to b)"
| "remap from' to (FloorDiv a b) = FloorDiv (remap from' to a) (remap from' to b)"
| "remap from' to (Min a b) = Min (remap from' to a) (remap from' to b)"
| "remap from' to (Max a b) = Max (remap from' to a) (remap from' to b)"

fun is_const :: "dim_expr \<Rightarrow> bool" where
  "is_const (Const _) = True"
| "is_const _ = False"

definition from_concrete :: "nat list \<Rightarrow> dim_expr list" where
  "from_concrete shape = map Const shape"

definition input_shape :: "nat \<Rightarrow> nat \<Rightarrow> dim_expr list" where
  "input_shape input_idx rank = map (\<lambda>axis. InputDim input_idx axis) [0..<rank]"

definition eval_all :: "dim_expr list \<Rightarrow> nat list list \<Rightarrow> dim_expr_eval_error + nat list" where
  "eval_all exprs shapes = traverse (\<lambda>e. eval e shapes) exprs"

definition remap_all :: "dim_expr list \<Rightarrow> nat \<Rightarrow> nat \<Rightarrow> dim_expr list" where
  "remap_all exprs from' to = map (remap from' to) exprs"

definition max_input_idx_all :: "dim_expr list \<Rightarrow> nat option" where
  "max_input_idx_all exprs =
    (case List.map_filter max_input_idx exprs of [] \<Rightarrow> None | x # xs \<Rightarrow> Some (foldl max x xs))"

section \<open>SymDim\<close>

datatype sym_dim =
    SConst nat
  | TensorAxis nat nat
  | SAdd sym_dim sym_dim
  | SSub sym_dim sym_dim
  | SMul sym_dim sym_dim
  | SFloorDiv sym_dim sym_dim
  | SMin sym_dim sym_dim
  | SMax sym_dim sym_dim

definition both :: "(nat \<Rightarrow> nat \<Rightarrow> nat option) \<Rightarrow> nat option \<Rightarrow> nat option \<Rightarrow> nat option" where
  "both f a b = Option.bind a (\<lambda>x. Option.bind b (f x))"

lemma both_None: "both f None b = None" "both f a None = None"
  by (auto simp: both_def)

lemma both_Some: "both f (Some a) (Some b) = f a b"
  by (simp add: both_def)

fun raw_constant_value :: "sym_dim \<Rightarrow> nat option" where
  "raw_constant_value (SConst v) = Some v"
| "raw_constant_value (TensorAxis _ _) = None"
| "raw_constant_value (SAdd l r) = both checked_add (raw_constant_value l) (raw_constant_value r)"
| "raw_constant_value (SSub l r) = both checked_sub (raw_constant_value l) (raw_constant_value r)"
| "raw_constant_value (SMul l r) = both checked_mul (raw_constant_value l) (raw_constant_value r)"
| "raw_constant_value (SFloorDiv l r) =
    Option.bind (raw_constant_value r) (\<lambda>rhs.
      Option.bind (raw_constant_value l) (\<lambda>lhs. checked_div lhs rhs))"
| "raw_constant_value (SMin l r) =
    both (\<lambda>a b. Some (min a b)) (raw_constant_value l) (raw_constant_value r)"
| "raw_constant_value (SMax l r) =
    both (\<lambda>a b. Some (max a b)) (raw_constant_value l) (raw_constant_value r)"

text \<open>Indexing an absent input or axis panics: \<open>None\<close>.\<close>

definition lift2 :: "('a \<Rightarrow> 'a \<Rightarrow> 'a) \<Rightarrow> 'a option \<Rightarrow> 'a option \<Rightarrow> 'a option" where
  "lift2 f a b = Option.bind a (\<lambda>x. Option.bind b (\<lambda>y. Some (f x y)))"

fun from_dim_expr :: "dim_expr \<Rightarrow> sym_dim list list \<Rightarrow> sym_dim option" where
  "from_dim_expr (Const v) shapes = Some (SConst v)"
| "from_dim_expr (InputDim input_idx axis) shapes =
    Option.bind (get shapes input_idx) (\<lambda>shape. get shape axis)"
| "from_dim_expr (Add a b) shapes = lift2 SAdd (from_dim_expr a shapes) (from_dim_expr b shapes)"
| "from_dim_expr (Sub a b) shapes = lift2 SSub (from_dim_expr a shapes) (from_dim_expr b shapes)"
| "from_dim_expr (Mul a b) shapes = lift2 SMul (from_dim_expr a shapes) (from_dim_expr b shapes)"
| "from_dim_expr (FloorDiv a b) shapes =
    lift2 SFloorDiv (from_dim_expr a shapes) (from_dim_expr b shapes)"
| "from_dim_expr (Min a b) shapes = lift2 SMin (from_dim_expr a shapes) (from_dim_expr b shapes)"
| "from_dim_expr (Max a b) shapes = lift2 SMax (from_dim_expr a shapes) (from_dim_expr b shapes)"

definition seq2 :: "('a \<Rightarrow> 'a \<Rightarrow> 'a) \<Rightarrow> 'e + 'a \<Rightarrow> 'e + 'a \<Rightarrow> 'e + 'a" where
  "seq2 f a b = and_then a (\<lambda>x. and_then b (\<lambda>y. Ok (f x y)))"

fun raw_to_dim_expr :: "sym_dim \<Rightarrow> (nat \<times> nat) list \<Rightarrow> nat + dim_expr" where
  "raw_to_dim_expr (SConst v) m = Ok (Const v)"
| "raw_to_dim_expr (TensorAxis tensor_id axis) m =
    and_then (ok_or (map_of m tensor_id) tensor_id) (\<lambda>input_idx. Ok (InputDim input_idx axis))"
| "raw_to_dim_expr (SAdd l r) m = seq2 Add (raw_to_dim_expr l m) (raw_to_dim_expr r m)"
| "raw_to_dim_expr (SSub l r) m = seq2 Sub (raw_to_dim_expr l m) (raw_to_dim_expr r m)"
| "raw_to_dim_expr (SMul l r) m = seq2 Mul (raw_to_dim_expr l m) (raw_to_dim_expr r m)"
| "raw_to_dim_expr (SFloorDiv l r) m = seq2 FloorDiv (raw_to_dim_expr l m) (raw_to_dim_expr r m)"
| "raw_to_dim_expr (SMin l r) m = seq2 Min (raw_to_dim_expr l m) (raw_to_dim_expr r m)"
| "raw_to_dim_expr (SMax l r) m = seq2 Max (raw_to_dim_expr l m) (raw_to_dim_expr r m)"

fun collect_tensor_ids :: "sym_dim \<Rightarrow> nat list \<Rightarrow> nat list" where
  "collect_tensor_ids (SConst _) ids = ids"
| "collect_tensor_ids (TensorAxis tensor_id _) ids =
    (if tensor_id \<in> set ids then ids else ids @ [tensor_id])"
| "collect_tensor_ids (SAdd l r) ids = collect_tensor_ids r (collect_tensor_ids l ids)"
| "collect_tensor_ids (SSub l r) ids = collect_tensor_ids r (collect_tensor_ids l ids)"
| "collect_tensor_ids (SMul l r) ids = collect_tensor_ids r (collect_tensor_ids l ids)"
| "collect_tensor_ids (SFloorDiv l r) ids = collect_tensor_ids r (collect_tensor_ids l ids)"
| "collect_tensor_ids (SMin l r) ids = collect_tensor_ids r (collect_tensor_ids l ids)"
| "collect_tensor_ids (SMax l r) ids = collect_tensor_ids r (collect_tensor_ids l ids)"

definition referenced_tensor_ids :: "sym_dim \<Rightarrow> nat list" where
  "referenced_tensor_ids s = collect_tensor_ids s []"

section \<open>Extension shape requirements\<close>

datatype extension_shape_error =
    ExtInputOutOfBounds string nat nat
  | ExtAxisOutOfBounds string nat nat nat
  | ExtRankMismatch string nat nat nat nat

datatype shape_relation = Equal

record shape_constraint =
  sc_relation :: shape_relation
  sc_lhs :: sym_dim
  sc_rhs :: sym_dim

record 'd shape_context =
  ctx_family :: string
  ctx_dtypes :: "'d list"
  ctx_shapes :: "sym_dim list list"
  ctx_constraints :: "shape_constraint list"

definition constraint_equal :: "sym_dim \<Rightarrow> sym_dim \<Rightarrow> shape_constraint" where
  "constraint_equal lhs rhs = \<lparr>sc_relation = Equal, sc_lhs = lhs, sc_rhs = rhs\<rparr>"

definition new_for_inference :: "string \<Rightarrow> 'd list \<Rightarrow> sym_dim list list \<Rightarrow> 'd shape_context" where
  "new_for_inference family dtypes shapes =
    \<lparr>ctx_family = family, ctx_dtypes = dtypes, ctx_shapes = shapes, ctx_constraints = []\<rparr>"

definition ctx_input_dtype :: "'d shape_context \<Rightarrow> nat \<Rightarrow> extension_shape_error + 'd" where
  "ctx_input_dtype c input =
    ok_or (get (ctx_dtypes c) input) (ExtInputOutOfBounds (ctx_family c) input (length (ctx_dtypes c)))"

definition ctx_input_shape :: "'d shape_context \<Rightarrow> nat \<Rightarrow> extension_shape_error + sym_dim list" where
  "ctx_input_shape c input =
    ok_or (get (ctx_shapes c) input) (ExtInputOutOfBounds (ctx_family c) input (length (ctx_shapes c)))"

definition ctx_input_axis :: "'d shape_context \<Rightarrow> nat \<Rightarrow> nat \<Rightarrow> extension_shape_error + sym_dim" where
  "ctx_input_axis c input axis =
    and_then (ctx_input_shape c input) (\<lambda>shape.
      ok_or (get shape axis) (ExtAxisOutOfBounds (ctx_family c) input axis (length shape)))"

definition require_equal ::
  "'d shape_context \<Rightarrow> sym_dim \<Rightarrow> sym_dim \<Rightarrow> extension_shape_error + 'd shape_context" where
  "require_equal c lhs rhs =
    Ok (c\<lparr>ctx_constraints := ctx_constraints c @ [constraint_equal lhs rhs]\<rparr>)"

definition require_axes_equal ::
  "'d shape_context \<Rightarrow> nat \<times> nat \<Rightarrow> nat \<times> nat \<Rightarrow> extension_shape_error + 'd shape_context" where
  "require_axes_equal c lhs rhs =
    and_then (ctx_input_axis c (fst lhs) (snd lhs)) (\<lambda>l.
    and_then (ctx_input_axis c (fst rhs) (snd rhs)) (\<lambda>r. require_equal c l r))"

definition require_same_shape ::
  "'d shape_context \<Rightarrow> nat \<Rightarrow> nat \<Rightarrow> extension_shape_error + 'd shape_context" where
  "require_same_shape c lhs_input rhs_input =
    and_then (ctx_input_shape c lhs_input) (\<lambda>lhs.
    and_then (ctx_input_shape c rhs_input) (\<lambda>rhs.
      if length lhs \<noteq> length rhs
      then Err (ExtRankMismatch (ctx_family c) lhs_input (length lhs) rhs_input (length rhs))
      else Ok (c\<lparr>ctx_constraints := ctx_constraints c @
                   map (\<lambda>(l, r). constraint_equal l r) (zip lhs rhs)\<rparr>)))"

section \<open>Meaning of a symbolic dimension\<close>

text \<open>\<open>env t\<close> is the shape of the traced tensor \<open>t\<close>; the arithmetic is that of \<open>eval\<close>.\<close>

fun sym_eval :: "(nat \<Rightarrow> nat list option) \<Rightarrow> sym_dim \<Rightarrow> nat option" where
  "sym_eval env (SConst v) = Some v"
| "sym_eval env (TensorAxis t axis) = Option.bind (env t) (\<lambda>shape. get shape axis)"
| "sym_eval env (SAdd l r) = both checked_add (sym_eval env l) (sym_eval env r)"
| "sym_eval env (SSub l r) = both checked_sub (sym_eval env l) (sym_eval env r)"
| "sym_eval env (SMul l r) = both checked_mul (sym_eval env l) (sym_eval env r)"
| "sym_eval env (SFloorDiv l r) = both checked_div (sym_eval env l) (sym_eval env r)"
| "sym_eval env (SMin l r) = both (\<lambda>a b. Some (min a b)) (sym_eval env l) (sym_eval env r)"
| "sym_eval env (SMax l r) = both (\<lambda>a b. Some (max a b)) (sym_eval env l) (sym_eval env r)"

fun sym_tensors :: "sym_dim \<Rightarrow> nat set" where
  "sym_tensors (SConst _) = {}"
| "sym_tensors (TensorAxis t _) = {t}"
| "sym_tensors (SAdd l r) = sym_tensors l \<union> sym_tensors r"
| "sym_tensors (SSub l r) = sym_tensors l \<union> sym_tensors r"
| "sym_tensors (SMul l r) = sym_tensors l \<union> sym_tensors r"
| "sym_tensors (SFloorDiv l r) = sym_tensors l \<union> sym_tensors r"
| "sym_tensors (SMin l r) = sym_tensors l \<union> sym_tensors r"
| "sym_tensors (SMax l r) = sym_tensors l \<union> sym_tensors r"

definition ok :: "'e + 'a \<Rightarrow> 'a option" where
  "ok r = (case r of Inl _ \<Rightarrow> None | Inr a \<Rightarrow> Some a)"

lemma ok_simps [simp]: "ok (Inl e) = None" "ok (Inr a) = Some a"
  by (simp_all add: ok_def)

lemma ok_eq_Some [simp]: "ok r = Some a \<longleftrightarrow> r = Inr a"
  by (cases r) auto

lemma ok_and_then [simp]: "ok (and_then r f) = Option.bind (ok r) (\<lambda>x. ok (f x))"
  by (cases r) auto

lemma ok_ok_or [simp]: "ok (ok_or x e) = x"
  by (cases x) auto

lemma both_eq_Some [simp]: "both f a b = Some c \<longleftrightarrow> (\<exists>x y. a = Some x \<and> b = Some y \<and> f x y = Some c)"
  by (auto simp: both_def bind_eq_Some_conv)

lemma lift2_eq_Some [simp]: "lift2 f a b = Some c \<longleftrightarrow> (\<exists>x y. a = Some x \<and> b = Some y \<and> c = f x y)"
  by (auto simp: lift2_def bind_eq_Some_conv)

lemma seq2_eq_Ok [simp]: "seq2 f a b = Inr c \<longleftrightarrow> (\<exists>x y. a = Inr x \<and> b = Inr y \<and> c = f x y)"
  by (auto simp: seq2_def)

subsection \<open>The operators on optional values\<close>

lemma ok_eval_simps:
  "ok (eval (Add a b) sh) = both checked_add (ok (eval a sh)) (ok (eval b sh))"
  "ok (eval (Sub a b) sh) = both checked_sub (ok (eval a sh)) (ok (eval b sh))"
  "ok (eval (Mul a b) sh) = both checked_mul (ok (eval a sh)) (ok (eval b sh))"
  "ok (eval (FloorDiv a b) sh) = both checked_div (ok (eval a sh)) (ok (eval b sh))"
  "ok (eval (Min a b) sh) = both (\<lambda>a b. Some (min a b)) (ok (eval a sh)) (ok (eval b sh))"
  "ok (eval (Max a b) sh) = both (\<lambda>a b. Some (max a b)) (ok (eval a sh)) (ok (eval b sh))"
  "ok (eval (InputDim i k) sh) = Option.bind (get sh i) (\<lambda>s. get s k)"
  "ok (eval (Const v) sh) = Some v"
  by (cases "eval a sh"; cases "eval b sh"; auto simp: both_def checked_div_def)+

text \<open>Folding constants never changes a value: a constant is what the expression is worth under
  every assignment of shapes.\<close>

lemma constant_value_sound: "raw_constant_value s = Some v \<Longrightarrow> sym_eval env s = Some v"
  by (induction s arbitrary: v) (fastforce simp: bind_eq_Some_conv)+

lemma constant_value_complete: "sym_eval (\<lambda>_. None) s = Some v \<Longrightarrow> raw_constant_value s = Some v"
  by (induction s arbitrary: v) (fastforce simp: bind_eq_Some_conv)+

text \<open>Composing an operation-local expression with the symbolic shapes of its inputs.\<close>

lemma from_dim_expr_eval:
  assumes "from_dim_expr e sshapes = Some s"
    and "list_all2 (\<lambda>ss cs. list_all2 (\<lambda>d n. sym_eval env d = Some n) ss cs) sshapes cshapes"
  shows "sym_eval env s = ok (eval e cshapes)"
  using assms(1)
proof (induction e arbitrary: s)
  case (Const v)
  then show ?case by auto
next
  case (InputDim i k)
  then obtain ss where ss: "i < length sshapes" "sshapes ! i = ss" "k < length ss" "ss ! k = s"
    by (auto simp: bind_eq_Some_conv)
  from list_all2_nthD [OF assms(2) ss(1)] list_all2_lengthD [OF assms(2)]
  have i: "list_all2 (\<lambda>d n. sym_eval env d = Some n) ss (cshapes ! i)" "i < length cshapes"
    using ss by auto
  from list_all2_nthD [OF i(1) ss(3)] list_all2_lengthD [OF i(1)] ss i(2)
  show ?case by (simp add: get_def)
qed (force simp: ok_eval_simps simp del: eval.simps)+

text \<open>Resolving a symbolic dimension against the operation's inputs.\<close>

lemma to_dim_expr_eval:
  assumes "raw_to_dim_expr s m = Ok e"
  shows "ok (eval e shapes) = sym_eval (\<lambda>t. Option.bind (map_of m t) (get shapes)) s"
  using assms
  by (induction s arbitrary: e) (auto simp: ok_eval_simps simp del: eval.simps(2-8))

lemma to_dim_expr_total:
  "(\<exists>e. raw_to_dim_expr s m = Ok e) \<longleftrightarrow> sym_tensors s \<subseteq> dom (map_of m)"
  by (induction s) (auto simp: domIff)

lemma to_dim_expr_Err:
  "raw_to_dim_expr s m = Err t \<Longrightarrow> t \<in> sym_tensors s \<and> map_of m t = None"
  by (induction s) (auto simp: seq2_def)

lemma collect_tensor_ids_set: "set (collect_tensor_ids s ids) = set ids \<union> sym_tensors s"
  by (induction s arbitrary: ids) auto

lemma collect_tensor_ids_distinct: "distinct ids \<Longrightarrow> distinct (collect_tensor_ids s ids)"
  by (induction s arbitrary: ids) auto

lemma sym_eval_cong: "(\<And>t. t \<in> sym_tensors s \<Longrightarrow> env t = env' t) \<Longrightarrow> sym_eval env s = sym_eval env' s"
  by (induction s) (simp_all)

subsection \<open>Inputs an expression reads\<close>

fun inputs_of :: "dim_expr \<Rightarrow> nat set" where
  "inputs_of (Const _) = {}"
| "inputs_of (InputDim i _) = {i}"
| "inputs_of (Add a b) = inputs_of a \<union> inputs_of b"
| "inputs_of (Sub a b) = inputs_of a \<union> inputs_of b"
| "inputs_of (Mul a b) = inputs_of a \<union> inputs_of b"
| "inputs_of (FloorDiv a b) = inputs_of a \<union> inputs_of b"
| "inputs_of (Min a b) = inputs_of a \<union> inputs_of b"
| "inputs_of (Max a b) = inputs_of a \<union> inputs_of b"

lemma finite_inputs_of [simp]: "finite (inputs_of e)"
  by (induction e) auto

lemma max_opt_Max:
  assumes "finite A" and "finite B"
    and "x = (if A = {} then None else Some (Lattices_Big.Max A))"
    and "y = (if B = {} then None else Some (Lattices_Big.Max B))"
  shows "max_opt x y = (if A \<union> B = {} then None else Some (Lattices_Big.Max (A \<union> B)))"
  using assms by (auto simp: max_opt_def Max_Un)

lemma max_input_idx_Max:
  "max_input_idx e = (if inputs_of e = {} then None else Some (Lattices_Big.Max (inputs_of e)))"
proof (induction e)
  case (Const v)
  then show ?case by simp
next
  case (InputDim i k)
  then show ?case by simp
next
  case (Add a b)
  then show ?case using max_opt_Max [of "inputs_of a" "inputs_of b"] by simp
next
  case (Sub a b)
  then show ?case using max_opt_Max [of "inputs_of a" "inputs_of b"] by simp
next
  case (Mul a b)
  then show ?case using max_opt_Max [of "inputs_of a" "inputs_of b"] by simp
next
  case (FloorDiv a b)
  then show ?case using max_opt_Max [of "inputs_of a" "inputs_of b"] by simp
next
  case (Min a b)
  then show ?case using max_opt_Max [of "inputs_of a" "inputs_of b"] by simp
next
  case (Max a b)
  then show ?case using max_opt_Max [of "inputs_of a" "inputs_of b"] by simp
qed

lemma eval_no_missing_input:
  "\<forall>i \<in> inputs_of e. i < length shapes \<Longrightarrow> eval e shapes \<noteq> Err (InputOutOfBounds i n)"
  by (induction e) (auto split: if_splits)

lemma eval_remap:
  assumes "from' < length shapes" and "to < length shapes" and "shapes ! from' = shapes ! to"
  shows "ok (eval (remap from' to e) shapes) = ok (eval e shapes)"
  using assms by (induction e) (auto simp: ok_eval_simps get_def simp del: eval.simps)

text \<open>What an evaluation returns fits the machine as long as the inputs and constants do.\<close>

fun consts_ok :: "dim_expr \<Rightarrow> bool" where
  "consts_ok (Const v) = usize_ok v"
| "consts_ok (InputDim _ _) = True"
| "consts_ok (Add a b) = (consts_ok a \<and> consts_ok b)"
| "consts_ok (Sub a b) = (consts_ok a \<and> consts_ok b)"
| "consts_ok (Mul a b) = (consts_ok a \<and> consts_ok b)"
| "consts_ok (FloorDiv a b) = (consts_ok a \<and> consts_ok b)"
| "consts_ok (Min a b) = (consts_ok a \<and> consts_ok b)"
| "consts_ok (Max a b) = (consts_ok a \<and> consts_ok b)"

lemma eval_usize:
  "eval e shapes = Ok v \<Longrightarrow> consts_ok e \<Longrightarrow> \<forall>sh \<in> set shapes. \<forall>n \<in> set sh. usize_ok n \<Longrightarrow> usize_ok v"
proof (induction e arbitrary: v)
  case (InputDim i k)
  then show ?case by (auto dest!: nth_mem)
next
  case (FloorDiv a b)
  then obtain x y where "usize_ok x" "v = x div y" by (auto split: if_splits)
  then show ?case by (metis div_le_dividend le_trans usize_ok_def)
next
  case (Sub a b)
  then obtain x y where "usize_ok x" "v = x - y" by (auto split: if_splits)
  then show ?case by (simp add: usize_ok_def)
qed (fastforce simp: usize_ok_def)+

end
