(* ===== verification/Expr_Order.thy ===== *)
theory Expr_Order
  imports Dim_Expr "HOL-Library.Char_ord" "HOL-Library.List_Lexorder" "HOL-Library.Option_ord"
    "HOL-Library.Product_Lexorder"
begin

text \<open>
  The structural order and the printed form of dimension expressions
  (\<open>compare_expression\<close>, \<open>format_expression\<close> of \<open>shape_constraint/solver.rs\<close>).  The order is an
  instance of the library's \<open>linorder\<close>, so guards sorted with it have one normal form.
\<close>

section \<open>std::cmp::Ordering\<close>

datatype ordering = Lt | Eq | Gt

definition cmp :: "'a::linorder \<Rightarrow> 'a \<Rightarrow> ordering" where
  "cmp a b = (if a < b then Lt else if a = b then Eq else Gt)"

fun then_with :: "ordering \<Rightarrow> ordering \<Rightarrow> ordering" where
  "then_with Eq o2 = o2"
| "then_with o1 _ = o1"

fun expression_rank :: "dim_expr \<Rightarrow> nat" where
  "expression_rank (Const _) = 0"
| "expression_rank (InputDim _ _) = 1"
| "expression_rank (Add _ _) = 2"
| "expression_rank (Sub _ _) = 3"
| "expression_rank (Mul _ _) = 4"
| "expression_rank (FloorDiv _ _) = 5"
| "expression_rank (Min _ _) = 6"
| "expression_rank (Max _ _) = 7"

fun compare_expression :: "dim_expr \<Rightarrow> dim_expr \<Rightarrow> ordering" where
  "compare_expression (Const l) (Const r) = cmp l r"
| "compare_expression (InputDim i j) (InputDim k l) = then_with (cmp i k) (cmp j l)"
| "compare_expression (Add a b) (Add c d) = then_with (compare_expression a c) (compare_expression b d)"
| "compare_expression (Sub a b) (Sub c d) = then_with (compare_expression a c) (compare_expression b d)"
| "compare_expression (Mul a b) (Mul c d) = then_with (compare_expression a c) (compare_expression b d)"
| "compare_expression (FloorDiv a b) (FloorDiv c d) =
    then_with (compare_expression a c) (compare_expression b d)"
| "compare_expression (Min a b) (Min c d) = then_with (compare_expression a c) (compare_expression b d)"
| "compare_expression (Max a b) (Max c d) = then_with (compare_expression a c) (compare_expression b d)"
| "compare_expression l r = cmp (expression_rank l) (expression_rank r)"

definition flip_ordering :: "ordering \<Rightarrow> ordering" where
  "flip_ordering c = (case c of Lt \<Rightarrow> Gt | Eq \<Rightarrow> Eq | Gt \<Rightarrow> Lt)"

lemma cmp_simps [simp]:
  "cmp a b = Lt \<longleftrightarrow> a < b" "cmp a b = Eq \<longleftrightarrow> a = b" "cmp a b = Gt \<longleftrightarrow> b < a" "cmp a a = Eq"
  by (auto simp: cmp_def)

lemma then_with_simps [simp]:
  "then_with x y = Lt \<longleftrightarrow> x = Lt \<or> x = Eq \<and> y = Lt"
  "then_with x y = Eq \<longleftrightarrow> x = Eq \<and> y = Eq"
  "then_with x y = Gt \<longleftrightarrow> x = Gt \<or> x = Eq \<and> y = Gt"
  by (cases x; simp)+

lemma cmp_pair: "then_with (cmp a c) (cmp b d) = cmp (a, b) (c, d)"
  by (auto simp: cmp_def)

lemma cmp_not_Gt: "cmp a b \<noteq> Gt \<longleftrightarrow> a \<le> b"
  by (auto simp: not_less)

lemma flip_cmp [simp]: "flip_ordering (cmp a b) = cmp b a"
  by (auto simp: flip_ordering_def cmp_def)

lemma flip_then_with [simp]: "flip_ordering (then_with x y) = then_with (flip_ordering x) (flip_ordering y)"
  by (cases x) (simp_all add: flip_ordering_def)

lemma compare_expression_Eq [simp]: "compare_expression a b = Eq \<longleftrightarrow> a = b"
proof (induction a b rule: compare_expression.induct)
qed (simp_all add: cmp_def)

lemma compare_expression_refl [simp]: "compare_expression e e = Eq"
  by simp

lemma compare_expression_flip: "compare_expression b a = flip_ordering (compare_expression a b)"
  by (induction a b rule: compare_expression.induct) simp_all

text \<open>The order is the lexicographic order of the prefix code of the tree.\<close>

fun prefix_code :: "dim_expr \<Rightarrow> nat list" where
  "prefix_code (Const v) = [0, v]"
| "prefix_code (InputDim i k) = [1, i, k]"
| "prefix_code (Add a b) = 2 # prefix_code a @ prefix_code b"
| "prefix_code (Sub a b) = 3 # prefix_code a @ prefix_code b"
| "prefix_code (Mul a b) = 4 # prefix_code a @ prefix_code b"
| "prefix_code (FloorDiv a b) = 5 # prefix_code a @ prefix_code b"
| "prefix_code (Min a b) = 6 # prefix_code a @ prefix_code b"
| "prefix_code (Max a b) = 7 # prefix_code a @ prefix_code b"

lemma cmp_Cons: "cmp (x # xs) (y # ys) = then_with (cmp x y) (cmp xs ys)"
  by (auto simp: cmp_def)

lemma then_with_assoc: "then_with (then_with x y) z = then_with x (then_with y z)"
  by (cases x) simp_all

lemma then_with_Eq [simp]: "then_with x Eq = x"
  by (cases x) simp_all

lemma cmp_numeral: "m \<noteq> n \<Longrightarrow> then_with (cmp m n) z = cmp m n"
  by (simp add: cmp_def)

lemma compare_prefix_code:
  "cmp (prefix_code a @ xs) (prefix_code b @ ys) = then_with (compare_expression a b) (cmp xs ys)"
  by (induction a b arbitrary: xs ys rule: compare_expression.induct)
    (simp_all add: cmp_Cons then_with_assoc cmp_numeral)

lemma compare_expression_code: "compare_expression a b = cmp (prefix_code a) (prefix_code b)"
  using compare_prefix_code [of a "[]" b "[]"] by simp

lemma compare_expression_trans:
  "compare_expression a b = Lt \<Longrightarrow> compare_expression b c = Lt \<Longrightarrow> compare_expression a c = Lt"
  by (simp add: compare_expression_code)

instantiation dim_expr :: linorder
begin

definition less_dim_expr :: "dim_expr \<Rightarrow> dim_expr \<Rightarrow> bool" where
  "less_dim_expr a b \<longleftrightarrow> compare_expression a b = Lt"

definition less_eq_dim_expr :: "dim_expr \<Rightarrow> dim_expr \<Rightarrow> bool" where
  "less_eq_dim_expr a b \<longleftrightarrow> compare_expression a b \<noteq> Gt"

instance
proof
  fix x y z :: dim_expr
  have le: "x \<le> y \<longleftrightarrow> compare_expression x y = Lt \<or> x = y" for x y
    unfolding less_eq_dim_expr_def by (cases "compare_expression x y") auto
  have gt: "compare_expression y x = Lt \<longleftrightarrow> compare_expression x y = Gt" for x y
    by (cases "compare_expression x y") (auto simp: compare_expression_flip [of y x] flip_ordering_def)
  show "x < y \<longleftrightarrow> x \<le> y \<and> \<not> y \<le> x"
    unfolding less_dim_expr_def le using gt [of x y] by auto
  show "x \<le> x" by (simp add: le)
  show "x \<le> y \<Longrightarrow> y \<le> z \<Longrightarrow> x \<le> z" unfolding le using compare_expression_trans by blast
  show "x \<le> y \<Longrightarrow> y \<le> x \<Longrightarrow> x = y" unfolding le using gt [of x y] by auto
  show "x \<le> y \<or> y \<le> x" unfolding le using gt by (cases "compare_expression x y") auto
qed

end

lemma compare_expression_cmp: "compare_expression a b = cmp a b"
  unfolding cmp_def less_dim_expr_def by (cases "compare_expression a b") auto

section \<open>Printing\<close>

function show_nat :: "nat \<Rightarrow> string" where
  "show_nat n = (if n < 10 then [char_of (48 + n)] else show_nat (n div 10) @ [char_of (48 + n mod 10)])"
  by auto
termination by (relation "measure id") auto

declare show_nat.simps [simp del]

fun format_expression :: "dim_expr \<Rightarrow> string" where
  "format_expression (Const v) = show_nat v"
| "format_expression (InputDim i k) = ''input['' @ show_nat i @ ''].shape['' @ show_nat k @ '']''"
| "format_expression (Add a b) = ''('' @ format_expression a @ '' + '' @ format_expression b @ '')''"
| "format_expression (Sub a b) = ''('' @ format_expression a @ '' - '' @ format_expression b @ '')''"
| "format_expression (Mul a b) = ''('' @ format_expression a @ '' * '' @ format_expression b @ '')''"
| "format_expression (FloorDiv a b) = ''('' @ format_expression a @ '' / '' @ format_expression b @ '')''"
| "format_expression (Min a b) = ''min('' @ format_expression a @ '', '' @ format_expression b @ '')''"
| "format_expression (Max a b) = ''max('' @ format_expression a @ '', '' @ format_expression b @ '')''"

section \<open>Retained size\<close>

definition checked_sum :: "nat list \<Rightarrow> nat option" where
  "checked_sum values =
    foldl (\<lambda>acc v. Option.bind acc (\<lambda>sum. checked_add sum v)) (Some 0) values"

definition retained_node :: "nat \<Rightarrow> nat option \<Rightarrow> nat option \<Rightarrow> nat option" where
  "retained_node sz l r =
    Option.bind (checked_mul 2 sz) (\<lambda>own.
    Option.bind l (\<lambda>x. Option.bind r (\<lambda>y. checked_sum [own, x, y])))"

text \<open>\<open>sz\<close> is \<open>size_of::<DimExpr>()\<close>.\<close>

fun retained_bytes :: "nat \<Rightarrow> dim_expr \<Rightarrow> nat option" where
  "retained_bytes sz (Const _) = Some 0"
| "retained_bytes sz (InputDim _ _) = Some 0"
| "retained_bytes sz (Add l r) = retained_node sz (retained_bytes sz l) (retained_bytes sz r)"
| "retained_bytes sz (Sub l r) = retained_node sz (retained_bytes sz l) (retained_bytes sz r)"
| "retained_bytes sz (Mul l r) = retained_node sz (retained_bytes sz l) (retained_bytes sz r)"
| "retained_bytes sz (FloorDiv l r) = retained_node sz (retained_bytes sz l) (retained_bytes sz r)"
| "retained_bytes sz (Min l r) = retained_node sz (retained_bytes sz l) (retained_bytes sz r)"
| "retained_bytes sz (Max l r) = retained_node sz (retained_bytes sz l) (retained_bytes sz r)"

end
