(* ===== verification/Shape_Solver.thy ===== *)
theory Shape_Solver
  imports Symbol_Sets Expr_Order
begin

text \<open>
  The shape-constraint solver of \<open>tenferro-runtime/src/shape_constraint/solver.rs\<close>: \<open>discharge\<close>
  turns the equalities recorded during graph construction into the guards a compiled program
  checks on its concrete input shapes, or reports an inconsistency.  A guard is checked by
  \<open>guard_evaluate\<close>; \<open>holds\<close> is the meaning of one equality.
\<close>

section \<open>Data\<close>

record constraint_source =
  cs_family :: string
  cs_instruction :: "nat option"

record local_constraint =
  lc_source :: constraint_source
  lc_relation :: shape_relation
  lc_lhs :: dim_expr
  lc_rhs :: dim_expr

record shape_guard =
  g_source :: constraint_source
  g_relation :: shape_relation
  g_lhs :: dim_expr
  g_rhs :: dim_expr

datatype shape_eval_error =
    MissingInput nat nat
  | EvalAxisOutOfBounds nat nat nat
  | Overflow
  | Underflow
  | DivisionByZero

datatype solver_error =
    ConstraintEvaluation string "nat option" shape_relation string shape_eval_error
  | ConstraintViolation string "nat option" shape_relation string string nat nat

record symbol_edge =
  se_lhs :: symbol
  se_rhs :: symbol
  se_source :: constraint_source

record error_candidate =
  ec_primary :: string
  ec_secondary :: string
  ec_source :: constraint_source
  ec_kind :: nat
  ec_error :: solver_error

definition with_instruction :: "constraint_source \<Rightarrow> nat \<Rightarrow> constraint_source" where
  "with_instruction s i = s\<lparr>cs_instruction := Some i\<rparr>"

section \<open>Comparisons\<close>

definition source_key :: "constraint_source \<Rightarrow> string \<times> nat option" where
  "source_key s = (cs_family s, cs_instruction s)"

definition compare_source :: "constraint_source \<Rightarrow> constraint_source \<Rightarrow> ordering" where
  "compare_source l r = then_with (cmp (cs_family l) (cs_family r)) (cmp (cs_instruction l) (cs_instruction r))"

fun relation_rank :: "shape_relation \<Rightarrow> nat" where
  "relation_rank Equal = 0"

definition compare_guard :: "shape_guard \<Rightarrow> shape_guard \<Rightarrow> ordering" where
  "compare_guard l r =
    then_with (cmp (relation_rank (g_relation l)) (relation_rank (g_relation r)))
      (then_with (compare_expression (g_lhs l) (g_lhs r))
        (then_with (compare_expression (g_rhs l) (g_rhs r)) (compare_source (g_source l) (g_source r))))"

definition compare_edge :: "symbol_edge \<Rightarrow> symbol_edge \<Rightarrow> ordering" where
  "compare_edge l r =
    then_with (cmp (se_lhs l) (se_lhs r))
      (then_with (cmp (se_rhs l) (se_rhs r)) (compare_source (se_source l) (se_source r)))"

type_synonym pending_binding = "symbol \<times> nat \<times> constraint_source"

definition compare_binding :: "pending_binding \<Rightarrow> pending_binding \<Rightarrow> ordering" where
  "compare_binding l r =
    then_with (cmp (fst l) (fst r))
      (then_with (cmp (fst (snd l)) (fst (snd r))) (compare_source (snd (snd l)) (snd (snd r))))"

definition compare_error_candidate :: "error_candidate \<Rightarrow> error_candidate \<Rightarrow> ordering" where
  "compare_error_candidate l r =
    then_with (cmp (ec_primary l) (ec_primary r))
      (then_with (cmp (ec_secondary l) (ec_secondary r))
        (then_with (compare_source (ec_source l) (ec_source r)) (cmp (ec_kind l) (ec_kind r))))"

definition le_by :: "('a \<Rightarrow> 'a \<Rightarrow> ordering) \<Rightarrow> 'a \<Rightarrow> 'a \<Rightarrow> bool" where
  "le_by c a b \<longleftrightarrow> c a b \<noteq> Gt"

section \<open>Recognizing declarations\<close>

fun as_symbol :: "dim_expr \<Rightarrow> symbol option" where
  "as_symbol (InputDim input_idx axis) = Some (input_idx, axis)"
| "as_symbol _ = None"

fun as_const :: "dim_expr \<Rightarrow> nat option" where
  "as_const (Const v) = Some v"
| "as_const _ = None"

definition symbol_expr :: "symbol \<Rightarrow> dim_expr" where
  "symbol_expr s = InputDim (fst s) (snd s)"

definition canonical_symbol_pair :: "symbol \<Rightarrow> symbol \<Rightarrow> symbol \<times> symbol" where
  "canonical_symbol_pair l r = (if l \<le> r then (l, r) else (r, l))"

definition symbol_binding :: "local_constraint \<Rightarrow> (symbol \<times> nat) option" where
  "symbol_binding c =
    (case (as_symbol (lc_lhs c), as_const (lc_rhs c)) of
       (Some s, Some v) \<Rightarrow> Some (s, v)
     | _ \<Rightarrow> (case (as_symbol (lc_rhs c), as_const (lc_lhs c)) of
               (Some s, Some v) \<Rightarrow> Some (s, v)
             | _ \<Rightarrow> None))"

definition is_basis_declaration :: "local_constraint \<Rightarrow> bool" where
  "is_basis_declaration c =
    (case (as_symbol (lc_lhs c), as_symbol (lc_rhs c)) of
       (Some l, Some r) \<Rightarrow> (if l \<noteq> r then True else symbol_binding c \<noteq> None)
     | _ \<Rightarrow> symbol_binding c \<noteq> None)"

fun is_statically_total :: "dim_expr \<Rightarrow> bool" where
  "is_statically_total (Const _) = True"
| "is_statically_total _ = False"

definition canonical_guard :: "constraint_source \<Rightarrow> shape_relation \<Rightarrow> dim_expr \<Rightarrow> dim_expr \<Rightarrow> shape_guard" where
  "canonical_guard src rel l r =
    (if compare_expression l r = Gt
     then \<lparr>g_source = src, g_relation = rel, g_lhs = r, g_rhs = l\<rparr>
     else \<lparr>g_source = src, g_relation = rel, g_lhs = l, g_rhs = r\<rparr>)"

section \<open>Normalization\<close>

definition commute :: "dim_expr \<Rightarrow> dim_expr \<Rightarrow> dim_expr \<times> dim_expr" where
  "commute l r = (if compare_expression l r = Gt then (r, l) else (l, r))"

fun add_node :: "dim_expr \<times> dim_expr \<Rightarrow> shape_eval_error + dim_expr" where
  "add_node (Const l, Const r) = ok_or (map_option Const (checked_add l r)) Overflow"
| "add_node (l, r) = (if l = Const 0 then Ok r else if r = Const 0 then Ok l else Ok (Add l r))"

fun sub_node :: "dim_expr \<times> dim_expr \<Rightarrow> shape_eval_error + dim_expr" where
  "sub_node (Const l, Const r) = ok_or (map_option Const (checked_sub l r)) Underflow"
| "sub_node (l, r) = (if r = Const 0 then Ok l else Ok (Sub l r))"

fun mul_node :: "dim_expr \<times> dim_expr \<Rightarrow> shape_eval_error + dim_expr" where
  "mul_node (Const l, Const r) = ok_or (map_option Const (checked_mul l r)) Overflow"
| "mul_node (l, r) = (if l = Const 1 then Ok r else if r = Const 1 then Ok l else Ok (Mul l r))"

fun div_node :: "dim_expr \<times> dim_expr \<Rightarrow> shape_eval_error + dim_expr" where
  "div_node (Const l, Const r) = (if r = 0 then Err DivisionByZero else Ok (Const (l div r)))"
| "div_node (l, r) = Ok (FloorDiv l r)"

fun fold_node ::
  "(nat \<Rightarrow> nat \<Rightarrow> nat) \<Rightarrow> (dim_expr \<Rightarrow> dim_expr \<Rightarrow> dim_expr) \<Rightarrow> dim_expr \<times> dim_expr \<Rightarrow> shape_eval_error + dim_expr"
where
  "fold_node f construct (Const l, Const r) = Ok (Const (f l r))"
| "fold_node f construct (l, r) = Ok (construct l r)"

fun normalize ::
  "symbol symbol_sets \<Rightarrow> (symbol, nat) btree_map \<Rightarrow> dim_expr \<Rightarrow> shape_eval_error + dim_expr"
where
  "normalize sets bindings (Const v) = Ok (Const v)"
| "normalize sets bindings (InputDim input_idx axis) =
    (let r = representative sets (input_idx, axis) in
     case bt_get bindings r of Some v \<Rightarrow> Ok (Const v) | None \<Rightarrow> Ok (symbol_expr r))"
| "normalize sets bindings (Add l r) =
    and_then (normalize sets bindings l) (\<lambda>l'. and_then (normalize sets bindings r) (\<lambda>r'.
      add_node (commute l' r')))"
| "normalize sets bindings (Sub l r) =
    and_then (normalize sets bindings l) (\<lambda>l'. and_then (normalize sets bindings r) (\<lambda>r'.
      sub_node (l', r')))"
| "normalize sets bindings (Mul l r) =
    and_then (normalize sets bindings l) (\<lambda>l'. and_then (normalize sets bindings r) (\<lambda>r'.
      mul_node (commute l' r')))"
| "normalize sets bindings (FloorDiv l r) =
    and_then (normalize sets bindings l) (\<lambda>l'. and_then (normalize sets bindings r) (\<lambda>r'.
      div_node (l', r')))"
| "normalize sets bindings (Min l r) =
    and_then (normalize sets bindings l) (\<lambda>l'. and_then (normalize sets bindings r) (\<lambda>r'.
      fold_node min Min (commute l' r')))"
| "normalize sets bindings (Max l r) =
    and_then (normalize sets bindings l) (\<lambda>l'. and_then (normalize sets bindings r) (\<lambda>r'.
      fold_node max Max (commute l' r')))"

section \<open>Candidates for the reported error\<close>

definition evaluation_candidate ::
  "constraint_source \<Rightarrow> shape_relation \<Rightarrow> dim_expr \<Rightarrow> shape_eval_error \<Rightarrow> error_candidate" where
  "evaluation_candidate src rel e cause =
    \<lparr>ec_primary = format_expression e, ec_secondary = [], ec_source = src, ec_kind = 0,
     ec_error = ConstraintEvaluation (cs_family src) (cs_instruction src) rel (format_expression e) cause\<rparr>"

definition violation_candidate ::
  "constraint_source \<Rightarrow> shape_relation \<Rightarrow> dim_expr \<Rightarrow> dim_expr \<Rightarrow> nat \<Rightarrow> nat \<Rightarrow> error_candidate" where
  "violation_candidate src rel l r lv rv =
    (let le = format_expression l; re = format_expression r;
         (p, s) = (if le \<le> re then (le, re) else (re, le))
     in \<lparr>ec_primary = p, ec_secondary = s, ec_source = src, ec_kind = 1,
         ec_error = ConstraintViolation (cs_family src) (cs_instruction src) rel le re lv rv\<rparr>)"

section \<open>Basis guards\<close>

definition declare_step ::
  "symbol symbol_sets \<times> symbol_edge list \<Rightarrow> local_constraint \<Rightarrow> symbol symbol_sets \<times> symbol_edge list" where
  "declare_step st c =
    (case st of (sets, edges) \<Rightarrow>
       case (as_symbol (lc_lhs c), as_symbol (lc_rhs c)) of
         (Some l, Some r) \<Rightarrow>
           (union sets l r,
            if l \<noteq> r
            then edges @ [\<lparr>se_lhs = fst (canonical_symbol_pair l r), se_rhs = snd (canonical_symbol_pair l r),
                           se_source = lc_source c\<rparr>]
            else edges)
       | _ \<Rightarrow> (sets, edges))"

definition spanning_step ::
  "symbol symbol_sets \<times> shape_guard list \<Rightarrow> symbol_edge \<Rightarrow> symbol symbol_sets \<times> shape_guard list" where
  "spanning_step st e =
    (case st of (sets, guards) \<Rightarrow>
       if representative sets (se_lhs e) = representative sets (se_rhs e) then (sets, guards)
       else (union sets (se_lhs e) (se_rhs e),
             guards @ [canonical_guard (se_source e) Equal (symbol_expr (se_lhs e)) (symbol_expr (se_rhs e))]))"

definition spanning_tree_guards :: "symbol_edge list \<Rightarrow> shape_guard list" where
  "spanning_tree_guards edges = snd (foldl spanning_step ([], []) (sort_by (le_by compare_edge) edges))"

definition pending_step ::
  "symbol symbol_sets \<times> pending_binding list \<Rightarrow> local_constraint \<Rightarrow>
   symbol symbol_sets \<times> pending_binding list" where
  "pending_step st c =
    (case st of (sets, pending) \<Rightarrow>
       case symbol_binding c of
         Some (s, v) \<Rightarrow>
           (let sets' = ensure sets s in (sets', pending @ [(representative sets' s, v, lc_source c)]))
       | None \<Rightarrow> (sets, pending))"

definition insert_source ::
  "(nat, constraint_source) btree_map \<Rightarrow> nat \<times> constraint_source \<Rightarrow> (nat, constraint_source) btree_map" where
  "insert_source m e =
    (case e of (v, src) \<Rightarrow>
       case bt_get m v of
         None \<Rightarrow> bt_insert v src m
       | Some selected \<Rightarrow> (if compare_source src selected = Lt then bt_insert v src m else m))"

record bind_state =
  bs_bindings :: "(symbol, nat) btree_map"
  bs_guards :: "shape_guard list"
  bs_errors :: "error_candidate list"

definition bind_group :: "bind_state \<Rightarrow> symbol \<Rightarrow> (nat \<times> constraint_source) list \<Rightarrow> bind_state" where
  "bind_group st s grp =
    (case foldl insert_source [] grp of
       [] \<Rightarrow> st
     | [(v1, src1)] \<Rightarrow>
         st\<lparr>bs_bindings := bt_insert s v1 (bs_bindings st),
            bs_guards := bs_guards st @ [canonical_guard src1 Equal (symbol_expr s) (Const v1)]\<rparr>
     | (v1, src1) # (v2, src2) # _ \<Rightarrow>
         st\<lparr>bs_bindings := bt_insert s v1 (bs_bindings st),
            bs_errors := bs_errors st @
              [violation_candidate (if compare_source src1 src2 \<noteq> Gt then src1 else src2) Equal
                 (symbol_expr s) (Const v2) v1 v2]\<rparr>)"

function bind_loop :: "bind_state \<Rightarrow> pending_binding list \<Rightarrow> bind_state" where
  "bind_loop st [] = st"
| "bind_loop st (p # ps) =
    bind_loop (bind_group st (fst p) (map snd (takeWhile (\<lambda>q. fst q = fst p) (p # ps))))
      (dropWhile (\<lambda>q. fst q = fst p) (p # ps))"
  by pat_completeness auto
termination
  by (relation "measure (\<lambda>(st, ps). length ps)") (auto simp: le_imp_less_Suc length_dropWhile_le)

section \<open>The remaining constraints\<close>

definition normalize_step ::
  "symbol symbol_sets \<Rightarrow> (symbol, nat) btree_map \<Rightarrow>
   shape_guard list \<times> error_candidate list \<Rightarrow> local_constraint \<Rightarrow> shape_guard list \<times> error_candidate list" where
  "normalize_step sets bindings st c =
    (case st of (guards, errors) \<Rightarrow>
       if is_basis_declaration c then (guards, errors)
       else
         let lhs = normalize sets bindings (lc_lhs c);
             rhs = normalize sets bindings (lc_rhs c);
             errors = errors @ (case lhs of Inl cause \<Rightarrow>
                [evaluation_candidate (lc_source c) (lc_relation c) (lc_lhs c) cause] | Inr _ \<Rightarrow> []);
             errors = errors @ (case rhs of Inl cause \<Rightarrow>
                [evaluation_candidate (lc_source c) (lc_relation c) (lc_rhs c) cause] | Inr _ \<Rightarrow> [])
         in case (lhs, rhs) of
              (Inr l, Inr r) \<Rightarrow>
                if l = r then
                  (if is_statically_total l then (guards, errors)
                   else (guards @ [\<lparr>g_source = lc_source c, g_relation = lc_relation c, g_lhs = l, g_rhs = r\<rparr>],
                         errors))
                else
                  (case (as_const l, as_const r) of
                     (Some lv, Some rv) \<Rightarrow>
                       (guards, errors @ [violation_candidate (lc_source c) (lc_relation c) l r lv rv])
                   | _ \<Rightarrow> (guards @ [canonical_guard (lc_source c) (lc_relation c) l r], errors))
            | _ \<Rightarrow> (guards, errors))"

section \<open>Assembling the guards\<close>

fun dedup_by :: "('a \<Rightarrow> 'a \<Rightarrow> bool) \<Rightarrow> 'a list \<Rightarrow> 'a list" where
  "dedup_by same (x # y # zs) = (if same y x then dedup_by same (x # zs) else x # dedup_by same (y # zs))"
| "dedup_by same xs = xs"

definition guard_key :: "shape_guard \<Rightarrow> shape_relation \<times> dim_expr \<times> dim_expr" where
  "guard_key g = (g_relation g, g_lhs g, g_rhs g)"

definition sort_and_dedup_guards :: "shape_guard list \<Rightarrow> shape_guard list" where
  "sort_and_dedup_guards gs = dedup_by (\<lambda>a b. guard_key a = guard_key b) (sort_by (le_by compare_guard) gs)"

definition merge_guards :: "shape_guard list \<Rightarrow> shape_guard list \<Rightarrow> shape_guard list" where
  "merge_guards basis guards =
    (let basis = sort_and_dedup_guards basis;
         guards = sort_and_dedup_guards guards;
         keys = guard_key ` set basis
     in sort_by (le_by compare_guard) (basis @ filter (\<lambda>g. guard_key g \<notin> keys) guards))"

definition discharge :: "local_constraint list \<Rightarrow> solver_error + shape_guard list" where
  "discharge constraints =
    (let (sets0, edges) = foldl declare_step ([], []) constraints;
         (sets, pending) = foldl pending_step (flatten sets0, []) constraints;
         bound = bind_loop \<lparr>bs_bindings = [], bs_guards = spanning_tree_guards edges, bs_errors = []\<rparr>
                   (sort_by (le_by compare_binding) pending);
         (guards, errors) = foldl (normalize_step sets (bs_bindings bound)) ([], bs_errors bound) constraints
     in if errors \<noteq> []
        then Err (ec_error (hd (sort_by (le_by compare_error_candidate) errors)))
        else Ok (merge_guards (bs_guards bound) guards))"

section \<open>Checking a guard\<close>

fun map_eval_error :: "dim_expr_eval_error \<Rightarrow> shape_eval_error" where
  "map_eval_error (InputOutOfBounds i n) = MissingInput i n"
| "map_eval_error (ExprAxisOutOfBounds i k r) = EvalAxisOutOfBounds i k r"
| "map_eval_error (AddOverflow _ _) = Overflow"
| "map_eval_error (MulOverflow _ _) = Overflow"
| "map_eval_error (SubUnderflow _ _) = Underflow"
| "map_eval_error (FloorDivByZero _ _) = DivisionByZero"

definition evaluate_expression :: "shape_guard \<Rightarrow> dim_expr \<Rightarrow> nat list list \<Rightarrow> solver_error + nat" where
  "evaluate_expression g e shapes =
    (case eval e shapes of
       Inl cause \<Rightarrow> Inl (ConstraintEvaluation (cs_family (g_source g)) (cs_instruction (g_source g))
                           (g_relation g) (format_expression e) (map_eval_error cause))
     | Inr v \<Rightarrow> Inr v)"

definition guard_evaluate :: "shape_guard \<Rightarrow> nat list list \<Rightarrow> solver_error + unit" where
  "guard_evaluate g shapes =
    and_then (evaluate_expression g (g_lhs g) shapes) (\<lambda>lv.
    and_then (evaluate_expression g (g_rhs g) shapes) (\<lambda>rv.
      if lv = rv then Ok ()
      else Err (ConstraintViolation (cs_family (g_source g)) (cs_instruction (g_source g)) (g_relation g)
                  (format_expression (g_lhs g)) (format_expression (g_rhs g)) lv rv)))"

end
