(* ===== verification/Solver_Correct.thy ===== *)
theory Solver_Correct
  imports Shape_Solver
begin

text \<open>
  Correctness of \<open>discharge\<close>: on every list of concrete input shapes, the guards it returns hold
  exactly when the recorded constraints do, and when it reports an error no input shapes satisfy
  the constraints.  The proof follows the algorithm: the spanning tree keeps the equalities of
  the symbols, the bindings their values, and normalization the value of every expression.
\<close>

section \<open>Meaning\<close>

definition ev :: "nat list list \<Rightarrow> dim_expr \<Rightarrow> nat option" where
  "ev shapes e = ok (eval e shapes)"

definition holds :: "nat list list \<Rightarrow> dim_expr \<Rightarrow> dim_expr \<Rightarrow> bool" where
  "holds shapes l r \<longleftrightarrow> ev shapes l = ev shapes r \<and> ev shapes l \<noteq> None"

definition constraint_holds :: "nat list list \<Rightarrow> local_constraint \<Rightarrow> bool" where
  "constraint_holds shapes c \<longleftrightarrow> holds shapes (lc_lhs c) (lc_rhs c)"

definition guard_holds :: "nat list list \<Rightarrow> shape_guard \<Rightarrow> bool" where
  "guard_holds shapes g \<longleftrightarrow> holds shapes (g_lhs g) (g_rhs g)"

definition shapes_ok :: "nat list list \<Rightarrow> bool" where
  "shapes_ok shapes \<longleftrightarrow> (\<forall>sh \<in> set shapes. \<forall>n \<in> set sh. usize_ok n)"

definition constraint_ok :: "local_constraint \<Rightarrow> bool" where
  "constraint_ok c \<longleftrightarrow> consts_ok (lc_lhs c) \<and> consts_ok (lc_rhs c)"

lemma guard_evaluate_Ok: "guard_evaluate g shapes = Ok () \<longleftrightarrow> guard_holds shapes g"
  by (auto simp: guard_evaluate_def evaluate_expression_def guard_holds_def holds_def ev_def
      split: sum.splits)

lemma ev_usize: "shapes_ok shapes \<Longrightarrow> consts_ok e \<Longrightarrow> ev shapes e = Some v \<Longrightarrow> v \<le> usize_max"
  using eval_usize [of e shapes v] by (simp add: ev_def shapes_ok_def usize_ok_def)

lemma ev_simps:
  "ev shapes (Add a b) = both checked_add (ev shapes a) (ev shapes b)"
  "ev shapes (Sub a b) = both checked_sub (ev shapes a) (ev shapes b)"
  "ev shapes (Mul a b) = both checked_mul (ev shapes a) (ev shapes b)"
  "ev shapes (FloorDiv a b) = both checked_div (ev shapes a) (ev shapes b)"
  "ev shapes (Min a b) = both (\<lambda>a b. Some (min a b)) (ev shapes a) (ev shapes b)"
  "ev shapes (Max a b) = both (\<lambda>a b. Some (max a b)) (ev shapes a) (ev shapes b)"
  "ev shapes (Const v) = Some v"
  by (simp_all add: ev_def ok_eval_simps del: eval.simps)

declare both_None [simp]

declare both_Some [simp]

lemma holds_sym: "holds shapes l r \<longleftrightarrow> holds shapes r l"
  unfolding holds_def by metis

lemma holds_Const [simp]: "holds shapes l (Const v) \<longleftrightarrow> ev shapes l = Some v"
  by (auto simp: holds_def ev_simps)

lemma holds_Const2 [simp]: "holds shapes (Const v) l \<longleftrightarrow> ev shapes l = Some v"
  using holds_sym holds_Const by blast

lemma guard_holds_canonical [simp]: "guard_holds shapes (canonical_guard src rel l r) \<longleftrightarrow> holds shapes l r"
  by (auto simp: guard_holds_def canonical_guard_def holds_sym)

abbreviation val :: "nat list list \<Rightarrow> symbol \<Rightarrow> nat option" where
  "val shapes s \<equiv> ev shapes (symbol_expr s)"

lemma as_symbol_Some: "as_symbol e = Some s \<longleftrightarrow> e = symbol_expr s"
  by (cases e) (auto simp: symbol_expr_def)

lemma as_symbol_expr [simp]: "as_symbol (symbol_expr s) = Some s"
  by (simp add: as_symbol_Some)

lemma as_const_Some: "as_const e = Some v \<longleftrightarrow> e = Const v"
  by (cases e) auto

lemma symbol_expr_inj [simp]: "symbol_expr a = symbol_expr b \<longleftrightarrow> a = b"
  by (auto simp: symbol_expr_def prod_eq_iff)

section \<open>Normalization keeps values\<close>

text \<open>The context a normalization relies on: equalities recorded in \<open>sets\<close>, values in \<open>bindings\<close>.\<close>

definition context_ok :: "nat list list \<Rightarrow> symbol symbol_sets \<Rightarrow> (symbol, nat) btree_map \<Rightarrow> bool" where
  "context_ok shapes sets bindings \<longleftrightarrow>
    constant_along sets (val shapes) \<and>
    (\<forall>s v. bt_get bindings s = Some v \<longrightarrow> val shapes s = Some v \<and> usize_ok v)"

definition same_value :: "nat list list \<Rightarrow> shape_eval_error + dim_expr \<Rightarrow> nat option \<Rightarrow> bool" where
  "same_value shapes r v \<longleftrightarrow>
    (case r of Inl _ \<Rightarrow> v = None | Inr e \<Rightarrow> consts_ok e \<and> ev shapes e = v)"

lemma same_value_simps [simp]:
  "same_value shapes (Inl e) v \<longleftrightarrow> v = None"
  "same_value shapes (Inr d) v \<longleftrightarrow> consts_ok d \<and> ev shapes d = v"
  by (simp_all add: same_value_def)

lemma both_commute: "(\<And>x y. f x y = f y x) \<Longrightarrow> both f a b = both f b a"
  by (cases a; cases b; simp)

lemma checked_commute: "checked_add a b = checked_add b a" "checked_mul a b = checked_mul b a"
  by (simp_all add: checked_defs add.commute mult.commute)

lemma add_node_value:
  assumes "shapes_ok shapes" and "consts_ok l" and "consts_ok r"
  shows "same_value shapes (add_node (l, r)) (both checked_add (ev shapes l) (ev shapes r))"
proof -
  have u: "ev shapes l = Some v \<Longrightarrow> v \<le> usize_max" "ev shapes r = Some v \<Longrightarrow> v \<le> usize_max" for v
    using ev_usize assms by blast+
  show ?thesis
  proof (cases "\<exists>a b. l = Const a \<and> r = Const b")
    case True
    then obtain a b where "l = Const a" "r = Const b" by blast
    then show ?thesis by (simp add: ev_simps usize_ok_def checked_add_def)
  next
    case False
    then have node: "add_node (l, r) = (if l = Const 0 then Ok r else if r = Const 0 then Ok l else Ok (Add l r))"
      by (cases l; cases r) auto
    have "both checked_add (Some 0) (ev shapes r) = ev shapes r"
      using u(2) by (cases "ev shapes r") auto
    moreover have "both checked_add (ev shapes l) (Some 0) = ev shapes l"
      using u(1) by (cases "ev shapes l") auto
    ultimately show ?thesis using assms by (auto simp: node ev_simps)
  qed
qed

lemma mul_node_value:
  assumes "shapes_ok shapes" and "consts_ok l" and "consts_ok r"
  shows "same_value shapes (mul_node (l, r)) (both checked_mul (ev shapes l) (ev shapes r))"
proof -
  have u: "ev shapes l = Some v \<Longrightarrow> v \<le> usize_max" "ev shapes r = Some v \<Longrightarrow> v \<le> usize_max" for v
    using ev_usize assms by blast+
  show ?thesis
  proof (cases "\<exists>a b. l = Const a \<and> r = Const b")
    case True
    then obtain a b where "l = Const a" "r = Const b" by blast
    then show ?thesis by (simp add: ev_simps usize_ok_def checked_mul_def)
  next
    case False
    then have node: "mul_node (l, r) = (if l = Const 1 then Ok r else if r = Const 1 then Ok l else Ok (Mul l r))"
      by (cases l; cases r) auto
    have "both checked_mul (Some 1) (ev shapes r) = ev shapes r"
      using u(2) by (cases "ev shapes r") auto
    moreover have "both checked_mul (ev shapes l) (Some 1) = ev shapes l"
      using u(1) by (cases "ev shapes l") auto
    ultimately show ?thesis using assms by (auto simp: node ev_simps)
  qed
qed

lemma sub_node_value:
  assumes "consts_ok l" and "consts_ok r"
  shows "same_value shapes (sub_node (l, r)) (both checked_sub (ev shapes l) (ev shapes r))"
proof (cases "\<exists>a b. l = Const a \<and> r = Const b")
  case True
  then obtain a b where "l = Const a" "r = Const b" by blast
  then show ?thesis using assms by (auto simp: ev_simps usize_ok_def checked_sub_def)
next
  case False
  then have node: "sub_node (l, r) = (if r = Const 0 then Ok l else Ok (Sub l r))"
    by (cases l; cases r) auto
  have "both checked_sub (ev shapes l) (Some 0) = ev shapes l" by (cases "ev shapes l") auto
  then show ?thesis using assms by (auto simp: node ev_simps)
qed

lemma div_node_value:
  assumes "consts_ok l" and "consts_ok r"
  shows "same_value shapes (div_node (l, r)) (both checked_div (ev shapes l) (ev shapes r))"
proof (cases "\<exists>a b. l = Const a \<and> r = Const b")
  case True
  then obtain a b where lr: "l = Const a" "r = Const b" by blast
  have "usize_ok a \<Longrightarrow> usize_ok (a div b)"
    unfolding usize_ok_def by (rule le_trans [OF div_le_dividend])
  then show ?thesis using assms lr by (auto simp: ev_simps checked_div_def)
next
  case False
  then have node: "div_node (l, r) = Ok (FloorDiv l r)" by (cases l; cases r) auto
  show ?thesis using assms by (simp add: node ev_simps)
qed

lemma min_node_value:
  assumes "consts_ok l" and "consts_ok r"
  shows "same_value shapes (fold_node min Min (l, r)) (both (\<lambda>a b. Some (min a b)) (ev shapes l) (ev shapes r))"
  using assms by (cases l; cases r) (auto simp: ev_simps min_def)

lemma max_node_value:
  assumes "consts_ok l" and "consts_ok r"
  shows "same_value shapes (fold_node max Max (l, r)) (both (\<lambda>a b. Some (max a b)) (ev shapes l) (ev shapes r))"
  using assms by (cases l; cases r) (auto simp: ev_simps max_def)

lemma commute_value:
  assumes "\<And>l r. consts_ok l \<Longrightarrow> consts_ok r \<Longrightarrow>
      same_value shapes (node (l, r)) (both f (ev shapes l) (ev shapes r))"
    and "\<And>x y. f x y = f y x" and "consts_ok l" and "consts_ok r"
  shows "same_value shapes (node (commute l r)) (both f (ev shapes l) (ev shapes r))"
  using assms(1) [OF assms(3,4)] assms(1) [OF assms(4,3)] both_commute [of f, OF assms(2)]
  by (auto simp: commute_def)

lemma binary_value:
  assumes "same_value shapes a va" and "same_value shapes b vb"
    and "\<And>l r. consts_ok l \<Longrightarrow> consts_ok r \<Longrightarrow> same_value shapes (node l r) (both f (ev shapes l) (ev shapes r))"
  shows "same_value shapes (and_then a (\<lambda>l. and_then b (\<lambda>r. node l r))) (both f va vb)"
  using assms by (cases a; cases b) auto

lemma normalize_value:
  assumes inv: "ss_invar sets" and ctx: "context_ok shapes sets bindings" and sh: "shapes_ok shapes"
    and "consts_ok e"
  shows "same_value shapes (normalize sets bindings e) (ev shapes e)"
  using assms(4)
proof (induction e)
  case (Const v)
  then show ?case by (simp add: ev_simps)
next
  case (InputDim i k)
  let ?r = "representative sets (i, k)"
  have "val shapes (i, k) = val shapes ?r" using ctx unfolding context_ok_def constant_along_def by blast
  then have eq: "ev shapes (InputDim i k) = val shapes ?r" by (simp add: symbol_expr_def)
  show ?case
  proof (cases "bt_get bindings ?r")
    case None
    then show ?thesis by (simp add: Let_def eq symbol_expr_def)
  next
    case (Some v)
    then have "val shapes ?r = Some v \<and> usize_ok v" using ctx unfolding context_ok_def by blast
    with Some show ?thesis by (simp add: Let_def eq ev_simps)
  qed
next
  case (Add a b)
  then have "same_value shapes (normalize sets bindings a) (ev shapes a)"
    "same_value shapes (normalize sets bindings b) (ev shapes b)" by simp_all
  from binary_value [OF this commute_value [OF add_node_value [OF sh] checked_commute(1)]] show ?case
    by (simp add: ev_simps)
next
  case (Sub a b)
  then have "same_value shapes (normalize sets bindings a) (ev shapes a)"
    "same_value shapes (normalize sets bindings b) (ev shapes b)" by simp_all
  from binary_value [OF this sub_node_value] show ?case by (simp add: ev_simps)
next
  case (Mul a b)
  then have "same_value shapes (normalize sets bindings a) (ev shapes a)"
    "same_value shapes (normalize sets bindings b) (ev shapes b)" by simp_all
  from binary_value [OF this commute_value [OF mul_node_value [OF sh] checked_commute(2)]] show ?case
    by (simp add: ev_simps)
next
  case (FloorDiv a b)
  then have "same_value shapes (normalize sets bindings a) (ev shapes a)"
    "same_value shapes (normalize sets bindings b) (ev shapes b)" by simp_all
  from binary_value [OF this div_node_value] show ?case by (simp add: ev_simps)
next
  case (Min a b)
  then have "same_value shapes (normalize sets bindings a) (ev shapes a)"
    "same_value shapes (normalize sets bindings b) (ev shapes b)" by simp_all
  from binary_value [OF this commute_value [OF min_node_value]] show ?case
    by (simp add: ev_simps min.commute)
next
  case (Max a b)
  then have "same_value shapes (normalize sets bindings a) (ev shapes a)"
    "same_value shapes (normalize sets bindings b) (ev shapes b)" by simp_all
  from binary_value [OF this commute_value [OF max_node_value]] show ?case
    by (simp add: ev_simps max.commute)
qed

section \<open>The spanning tree\<close>

lemma spanning_fold:
  assumes "ss_invar sets"
    and "\<And>x. x \<notin> M \<Longrightarrow> representative sets x = x" and "\<And>x. x \<in> M \<Longrightarrow> representative sets x \<in> M"
    and "(\<forall>g \<in> set gs. guard_holds shapes g) \<Longrightarrow> constant_along sets (val shapes) \<and> (\<forall>x \<in> M. val shapes x \<noteq> None)"
    and "foldl spanning_step (sets, gs) edges = (sets', gs')"
    and "\<forall>e \<in> set edges. se_lhs e \<noteq> se_rhs e"
  shows "(\<forall>g \<in> set gs'. guard_holds shapes g) \<longleftrightarrow>
    (\<forall>g \<in> set gs. guard_holds shapes g) \<and>
    (\<forall>e \<in> set edges. holds shapes (symbol_expr (se_lhs e)) (symbol_expr (se_rhs e)))"
  using assms
proof (induction edges arbitrary: sets gs M)
  case Nil
  then show ?case by simp
next
  case (Cons e edges)
  let ?a = "se_lhs e" and ?b = "se_rhs e"
  let ?G = "\<lambda>gs. \<forall>g \<in> set gs. guard_holds shapes g"
  let ?h = "holds shapes (symbol_expr ?a) (symbol_expr ?b)"
  have ne: "?a \<noteq> ?b" and rest: "\<forall>e \<in> set edges. se_lhs e \<noteq> se_rhs e" using Cons.prems(6) by auto
  show ?case
  proof (cases "representative sets ?a = representative sets ?b")
    case True
    then have "spanning_step (sets, gs) e = (sets, gs)" by (simp add: spanning_step_def)
    then have f: "foldl spanning_step (sets, gs) edges = (sets', gs')" using Cons.prems(5) by simp
    have "?h" if "?G gs"
    proof -
      from Cons.prems(4) [OF that] have c: "constant_along sets (val shapes)"
        and d: "\<forall>x \<in> M. val shapes x \<noteq> None" by auto
      have "val shapes ?a = val shapes ?b" using c True unfolding constant_along_def by metis
      moreover have "?a \<in> M \<or> ?b \<in> M" using Cons.prems(2) True ne by metis
      ultimately show ?thesis using d unfolding holds_def by metis
    qed
    then show ?thesis using Cons.IH [OF Cons.prems(1-4) f rest] by auto
  next
    case False
    let ?g = "canonical_guard (se_source e) Equal (symbol_expr ?a) (symbol_expr ?b)"
    let ?u = "union sets ?a ?b" and ?M = "insert ?a (insert ?b M)"
    have "spanning_step (sets, gs) e = (?u, gs @ [?g])" using False by (simp add: spanning_step_def)
    then have f: "foldl spanning_step (?u, gs @ [?g]) edges = (sets', gs')" using Cons.prems(5) by simp
    have inv: "ss_invar ?u" by (rule union_spec(1) [OF Cons.prems(1)])
    have roots: "representative sets ?a \<in> ?M" "representative sets ?b \<in> ?M"
      using Cons.prems(2,3) by (metis insertCI)+
    have out: "representative ?u x = x" if "x \<notin> ?M" for x
    proof -
      have "representative sets x = x" using that Cons.prems(2) by simp
      moreover have "x \<noteq> representative sets ?a" "x \<noteq> representative sets ?b" using that roots by metis+
      ultimately show ?thesis by (simp add: union_spec(2) [OF Cons.prems(1)])
    qed
    have inside: "representative ?u x \<in> ?M" if "x \<in> ?M" for x
    proof -
      have "x = ?a \<or> x = ?b \<or> x \<in> M" using that by simp
      then have "representative sets x \<in> ?M"
        by (elim disjE) (use roots Cons.prems(3) [of x] in simp_all)
      then show ?thesis using roots by (simp add: union_spec(2) [OF Cons.prems(1)] min_def)
    qed
    have sem: "constant_along ?u (val shapes) \<and> (\<forall>x \<in> ?M. val shapes x \<noteq> None)" if "?G (gs @ [?g])"
    proof -
      from that have "?G gs" and h: "?h" by auto
      from Cons.prems(4) [OF this(1)] have c: "constant_along sets (val shapes)"
        and d: "\<And>x. x \<in> M \<Longrightarrow> val shapes x \<noteq> None" by blast+
      from h have eq: "val shapes ?a = val shapes ?b" "val shapes ?a \<noteq> None" unfolding holds_def by blast+
      have "val shapes x \<noteq> None" if "x \<in> ?M" for x
        using that eq d by (metis insertE)
      then show ?thesis using c eq(1) constant_along_union [OF Cons.prems(1)] by blast
    qed
    show ?thesis using Cons.IH [OF inv out inside sem f rest] by auto
  qed
qed

lemma spanning_tree_guards_iff:
  assumes "\<forall>e \<in> set edges. se_lhs e \<noteq> se_rhs e"
  shows "(\<forall>g \<in> set (spanning_tree_guards edges). guard_holds shapes g) \<longleftrightarrow>
    (\<forall>e \<in> set edges. holds shapes (symbol_expr (se_lhs e)) (symbol_expr (se_rhs e)))"
proof -
  let ?s = "sort_by (le_by compare_edge) edges"
  obtain sets' gs' where f: "foldl spanning_step ([], []) ?s = (sets', gs')" by (metis prod.exhaust)
  from spanning_fold [of "[]" "{}" "[]" shapes ?s, OF _ _ _ _ f] assms show ?thesis
    by (simp add: spanning_tree_guards_def f)
qed

section \<open>Declarations\<close>

definition symbol_pairs :: "local_constraint list \<Rightarrow> (symbol \<times> symbol) list" where
  "symbol_pairs cs = List.map_filter (\<lambda>c. case (as_symbol (lc_lhs c), as_symbol (lc_rhs c)) of
    (Some l, Some r) \<Rightarrow> Some (l, r) | _ \<Rightarrow> None) cs"

lemma declare_fold:
  "foldl declare_step (sets, edges) cs = (sets', edges') \<Longrightarrow>
    sets' = unions sets (symbol_pairs cs) \<and>
    (\<exists>new. edges' = edges @ new \<and> (\<forall>e \<in> set new. se_lhs e \<noteq> se_rhs e) \<and>
      (\<forall>shapes. (\<forall>e \<in> set new. holds shapes (symbol_expr (se_lhs e)) (symbol_expr (se_rhs e))) \<longleftrightarrow>
        (\<forall>(l, r) \<in> set (symbol_pairs cs). l \<noteq> r \<longrightarrow> holds shapes (symbol_expr l) (symbol_expr r))))"
proof (induction cs arbitrary: sets edges)
  case Nil
  then show ?case by (simp add: symbol_pairs_def List.map_filter_simps)
next
  case (Cons c cs)
  show ?case
  proof (cases "\<exists>l r. as_symbol (lc_lhs c) = Some l \<and> as_symbol (lc_rhs c) = Some r")
    case False
    then have "declare_step (sets, edges) c = (sets, edges)" and "symbol_pairs (c # cs) = symbol_pairs cs"
      by (auto simp: declare_step_def symbol_pairs_def List.map_filter_simps split: option.splits)
    with Cons show ?thesis by simp
  next
    case True
    then obtain l r where lr: "as_symbol (lc_lhs c) = Some l" "as_symbol (lc_rhs c) = Some r" by blast
    let ?e = "\<lparr>se_lhs = fst (canonical_symbol_pair l r), se_rhs = snd (canonical_symbol_pair l r),
      se_source = lc_source c\<rparr>"
    let ?new = "if l \<noteq> r then [?e] else []"
    have pairs: "symbol_pairs (c # cs) = (l, r) # symbol_pairs cs"
      using lr by (simp add: symbol_pairs_def List.map_filter_simps)
    have "declare_step (sets, edges) c = (union sets l r, edges @ ?new)"
      using lr by (simp add: declare_step_def)
    then have "foldl declare_step (union sets l r, edges @ ?new) cs = (sets', edges')"
      using Cons.prems by (simp only: foldl.simps)
    from Cons.IH [OF this] obtain new where
      ih: "sets' = unions (union sets l r) (symbol_pairs cs)" "edges' = (edges @ ?new) @ new"
        "\<forall>e \<in> set new. se_lhs e \<noteq> se_rhs e"
        "\<forall>shapes. (\<forall>e \<in> set new. holds shapes (symbol_expr (se_lhs e)) (symbol_expr (se_rhs e))) \<longleftrightarrow>
          (\<forall>(l, r) \<in> set (symbol_pairs cs). l \<noteq> r \<longrightarrow> holds shapes (symbol_expr l) (symbol_expr r))"
      by blast
    have e: "se_lhs ?e \<noteq> se_rhs ?e" if "l \<noteq> r" using that by (simp add: canonical_symbol_pair_def)
    have h: "holds shapes (symbol_expr (se_lhs ?e)) (symbol_expr (se_rhs ?e)) \<longleftrightarrow>
        holds shapes (symbol_expr l) (symbol_expr r)" for shapes
      by (simp add: canonical_symbol_pair_def holds_sym)
    show ?thesis
    proof (intro conjI exI [of _ "?new @ new"] allI)
      show "sets' = unions sets (symbol_pairs (c # cs))" using ih(1) pairs by simp
      show "edges' = edges @ ?new @ new" using ih(2) by simp
      show "\<forall>e \<in> set (?new @ new). se_lhs e \<noteq> se_rhs e" using ih(3) e by auto
      fix shapes
      show "(\<forall>e \<in> set (?new @ new). holds shapes (symbol_expr (se_lhs e)) (symbol_expr (se_rhs e))) \<longleftrightarrow>
        (\<forall>(l, r) \<in> set (symbol_pairs (c # cs)). l \<noteq> r \<longrightarrow> holds shapes (symbol_expr l) (symbol_expr r))"
        using ih(4) h [of shapes] unfolding pairs by auto
    qed
  qed
qed

lemma pending_fold:
  "ss_invar sets \<Longrightarrow> foldl pending_step (sets, pending) cs = (sets', pending') \<Longrightarrow>
    ss_invar sets' \<and> representative sets' = representative sets \<and>
    (\<exists>new. pending' = pending @ new \<and>
      (\<forall>s v. (\<exists>src. (s, v, src) \<in> set new) \<longleftrightarrow>
        (\<exists>c \<in> set cs. \<exists>t. symbol_binding c = Some (t, v) \<and> s = representative sets t)))"
proof (induction cs arbitrary: sets pending)
  case Nil
  then show ?case by simp
next
  case (Cons c cs)
  show ?case
  proof (cases "symbol_binding c")
    case None
    with Cons show ?thesis by (auto simp: pending_step_def)
  next
    case (Some b)
    obtain t v where b: "b = (t, v)" by (metis prod.exhaust)
    let ?s = "ensure sets t"
    have inv: "ss_invar ?s" using Cons.prems(1) by simp
    have rep: "representative ?s = representative sets" using Cons.prems(1) by (simp add: fun_eq_iff del: split_paired_All)
    have "pending_step (sets, pending) c = (?s, pending @ [(representative sets t, v, lc_source c)])"
      using Some b rep by (simp add: pending_step_def Let_def)
    then have f: "foldl pending_step (?s, pending @ [(representative sets t, v, lc_source c)]) cs = (sets', pending')"
      using Cons.prems(2) by simp
    from Cons.IH [OF inv f] rep obtain new where
      ih: "ss_invar sets'" "representative sets' = representative sets"
        "pending' = pending @ (representative sets t, v, lc_source c) # new"
        "\<forall>s v. (\<exists>src. (s, v, src) \<in> set new) \<longleftrightarrow>
          (\<exists>c \<in> set cs. \<exists>t. symbol_binding c = Some (t, v) \<and> s = representative sets t)"
      by auto
    show ?thesis
    proof (intro conjI exI [of _ "(representative sets t, v, lc_source c) # new"] allI)
      fix s w
      show "(\<exists>src. (s, w, src) \<in> set ((representative sets t, v, lc_source c) # new)) \<longleftrightarrow>
        (\<exists>c \<in> set (c # cs). \<exists>t. symbol_binding c = Some (t, w) \<and> s = representative sets t)"
      proof -
        have "(\<exists>src. (s, w, src) \<in> set ((representative sets t, v, lc_source c) # new)) \<longleftrightarrow>
            (s = representative sets t \<and> w = v) \<or> (\<exists>src. (s, w, src) \<in> set new)" by auto
        moreover have "(\<exists>u. symbol_binding c = Some (u, w) \<and> s = representative sets u) \<longleftrightarrow>
            s = representative sets t \<and> w = v"
          using Some b by (metis Pair_inject option.inject)
        moreover have "(\<exists>d \<in> set (c # cs). \<exists>u. symbol_binding d = Some (u, w) \<and> s = representative sets u) \<longleftrightarrow>
            (\<exists>u. symbol_binding c = Some (u, w) \<and> s = representative sets u) \<or> (\<exists>src. (s, w, src) \<in> set new)"
          using ih(4) by (simp del: split_paired_Ex split_paired_All)
        ultimately show ?thesis by blast
      qed
    qed (use ih in auto)
  qed
qed

section \<open>Bindings\<close>

lemma insert_source_keys:
  assumes "bt_invar m"
  shows "bt_invar (insert_source m (v, src)) \<and> dom (bt_get (insert_source m (v, src))) = insert v (dom (bt_get m))"
  using assms by (auto simp: insert_source_def split: option.splits)

lemma insert_sources_keys:
  "bt_invar m \<Longrightarrow> bt_invar (foldl insert_source m grp) \<and>
    dom (bt_get (foldl insert_source m grp)) = fst ` set grp \<union> dom (bt_get m)"
proof (induction grp arbitrary: m)
  case Nil
  then show ?case by simp
next
  case (Cons e grp)
  obtain v src where "e = (v, src)" by (metis prod.exhaust)
  with Cons.IH [of "insert_source m e"] insert_source_keys [OF Cons.prems, of v src] show ?case by auto
qed

lemma group_values:
  assumes "foldl insert_source [] grp = m"
  shows "sorted_wrt (<) (map fst m)" and "set (map fst m) = fst ` set grp"
proof -
  from insert_sources_keys [of "[]" grp] assms have m: "bt_invar m" "dom (bt_get m) = fst ` set grp" by auto
  from m(1) show "sorted_wrt (<) (map fst m)" by (simp add: bt_invar_def)
  from btree.keys_eq_dom [OF m(1)] m(2) show "set (map fst m) = fst ` set grp" by simp
qed

text \<open>What the loop over the sorted bindings establishes, for one start state.\<close>

definition bound_spec :: "bind_state \<Rightarrow> pending_binding list \<Rightarrow> bind_state \<Rightarrow> bool" where
  "bound_spec st ps st' \<longleftrightarrow>
    bt_invar (bs_bindings st') \<and>
    (\<forall>s v. bt_get (bs_bindings st') s = Some v \<longrightarrow>
      bt_get (bs_bindings st) s = Some v \<or> (\<exists>src. (s, v, src) \<in> set ps)) \<and>
    (\<exists>gs es. bs_guards st' = bs_guards st @ gs \<and> bs_errors st' = bs_errors st @ es \<and>
      (es = [] \<longrightarrow>
        (\<forall>shapes. (\<forall>g \<in> set gs. guard_holds shapes g) \<longleftrightarrow> (\<forall>(s, v, _) \<in> set ps. val shapes s = Some v)) \<and>
        (\<forall>(s, v, _) \<in> set ps. bt_get (bs_bindings st') s = Some v)) \<and>
      (es \<noteq> [] \<longrightarrow> (\<exists>s v w src src'. (s, v, src) \<in> set ps \<and> (s, w, src') \<in> set ps \<and> v \<noteq> w)))"

lemma bind_group_spec:
  assumes "bt_invar (bs_bindings st)" and "\<forall>p \<in> set ps. fst p = s" and "ps \<noteq> []"
  shows "bound_spec st ps (bind_group st s (map snd ps)) \<and>
    (\<forall>t. t \<noteq> s \<longrightarrow> bt_get (bs_bindings (bind_group st s (map snd ps))) t = bt_get (bs_bindings st) t)"
proof -
  let ?m = "foldl insert_source [] (map snd ps)"
  note V = group_values [OF refl, of "map snd ps"]
  have mem: "(s, v, src) \<in> set ps" if "(v, src) \<in> set (map snd ps)" for v src
    using that assms(2) by (metis (no_types, lifting) imageE list.set_map prod.collapse)
  show ?thesis
  proof (cases ?m)
    case Nil
    with V(2) assms(3) show ?thesis by simp
  next
    case (Cons e m)
    obtain v1 src1 where e: "e = (v1, src1)" by (metis prod.exhaust)
    have "v1 \<in> fst ` set (map snd ps)" using V(2) Cons e by (metis fst_conv list.set_intros(1) list.simps(9))
    then obtain x where "x \<in> set (map snd ps)" "v1 = fst x" by (rule imageE)
    then obtain src where src: "(s, v1, src) \<in> set ps" using mem [of v1 "snd x"] by (metis prod.collapse)
    show ?thesis
    proof (cases m)
      case Nil
      then have one: "fst ` set (map snd ps) = {v1}" using V(2) Cons e by simp
      have all: "v = v1" if "(t, v, src) \<in> set ps" for t v src
      proof -
        from that have "v \<in> fst ` set (map snd ps)" by force
        with one show ?thesis by simp
      qed
      have sem: "(\<forall>(t, v, _) \<in> set ps. val shapes t = Some v) \<longleftrightarrow> val shapes s = Some v1" for shapes
        using all assms(2) src by fastforce
      let ?g = "canonical_guard src1 Equal (symbol_expr s) (Const v1)"
      let ?st = "st\<lparr>bs_bindings := bt_insert s v1 (bs_bindings st), bs_guards := bs_guards st @ [?g]\<rparr>"
      have bg: "bind_group st s (map snd ps) = ?st" using Cons Nil e by (simp add: bind_group_def)
      have from': "bt_get (bs_bindings st) t = Some v \<or> (\<exists>src. (t, v, src) \<in> set ps)"
        if "bt_get (bt_insert s v1 (bs_bindings st)) t = Some v" for t v
        using that src assms(1) by (auto split: if_splits)
      have here: "bt_get (bt_insert s v1 (bs_bindings st)) t = Some v" if "(t, v, src) \<in> set ps" for t v src
      proof -
        have "t = s" using assms(2) that by (metis fst_conv)
        then show ?thesis using all [OF that] assms(1) by simp
      qed
      have "bound_spec st ps ?st"
        unfolding bound_spec_def
      proof (intro conjI exI [of _ "[?g]"] exI [of _ "[]"] impI)
        show "\<forall>t v. bt_get (bs_bindings ?st) t = Some v \<longrightarrow>
            bt_get (bs_bindings st) t = Some v \<or> (\<exists>src. (t, v, src) \<in> set ps)"
          using from' by simp
        show "\<forall>shapes. (\<forall>g \<in> set [?g]. guard_holds shapes g) \<longleftrightarrow> (\<forall>(s, v, _) \<in> set ps. val shapes s = Some v)"
          using sem by simp
        show "\<forall>(t, v, _) \<in> set ps. bt_get (bs_bindings ?st) t = Some v" using here by auto
      qed (use assms(1) in simp_all)
      then show ?thesis using assms(1) by (simp add: bg)
    next
      case (Cons e2 m2)
      obtain v2 src2 where e2: "e2 = (v2, src2)" by (metis prod.exhaust)
      have two: "?m = (v1, src1) # (v2, src2) # m2" using \<open>?m = e # m\<close> Cons e e2 by simp
      have "v1 \<noteq> v2" using V(1) two by simp
      have "v2 \<in> fst ` set (map snd ps)" using V(2) two
        by (metis fst_conv list.set_intros(1,2) list.simps(9))
      then obtain y where "y \<in> set (map snd ps)" "v2 = fst y" by (rule imageE)
      then obtain src' where "(s, v2, src') \<in> set ps" using mem [of v2 "snd y"] by (metis prod.collapse)
      with \<open>v1 \<noteq> v2\<close> have "\<exists>s v w src src'. (s, v, src) \<in> set ps \<and> (s, w, src') \<in> set ps \<and> v \<noteq> w"
        using src by blast
      note conflict = this
      let ?e = "violation_candidate (if compare_source src1 src2 \<noteq> Gt then src1 else src2) Equal
        (symbol_expr s) (Const v2) v1 v2"
      have bg: "bind_group st s (map snd ps) =
          st\<lparr>bs_bindings := bt_insert s v1 (bs_bindings st), bs_errors := bs_errors st @ [?e]\<rparr>"
        by (simp add: bind_group_def two)
      have from': "bt_get (bs_bindings st) t = Some v \<or> (\<exists>src. (t, v, src) \<in> set ps)"
        if "bt_get (bt_insert s v1 (bs_bindings st)) t = Some v" for t v
        using that src assms(1) by (auto split: if_splits)
      have "bound_spec st ps (bind_group st s (map snd ps))"
        unfolding bound_spec_def bg
      proof (intro conjI exI [of _ "[] :: shape_guard list"] exI [of _ "[?e]"])
        show "\<forall>t v. bt_get (bs_bindings (st\<lparr>bs_bindings := bt_insert s v1 (bs_bindings st),
            bs_errors := bs_errors st @ [?e]\<rparr>)) t = Some v \<longrightarrow>
            bt_get (bs_bindings st) t = Some v \<or> (\<exists>src. (t, v, src) \<in> set ps)"
          using from' by simp
      qed (use assms(1) conflict in simp_all)
      then show ?thesis using assms(1) by (simp add: bg)
    qed
  qed
qed

lemma sorted_dropWhile_ne:
  assumes "sorted_wrt (\<lambda>p q. fst p \<le> fst q) (p # ps)" and "q \<in> set (dropWhile (\<lambda>q. fst q = fst p) (p # ps))"
  shows "fst q \<noteq> (fst p :: 'a::linorder)"
proof -
  let ?P = "\<lambda>q. fst q = fst p"
  from assms(2) have "dropWhile ?P (p # ps) \<noteq> []" by (metis empty_iff empty_set)
  then obtain r rs where r: "dropWhile ?P (p # ps) = r # rs" by (meson neq_Nil_conv)
  have "sorted_wrt (\<lambda>p q. fst p \<le> fst q) (r # rs)"
    using assms(1) r by (metis sorted_wrt_append takeWhile_dropWhile_id)
  moreover have "fst r \<noteq> fst p" using r hd_dropWhile [of ?P "p # ps"] by simp
  moreover have "r \<in> set (p # ps)" using r by (metis list.set_intros(1) set_dropWhileD)
  then have "fst p \<le> fst r" using assms(1) by auto
  ultimately have "fst p < fst r" and "fst r \<le> fst q" using assms(2) r by auto
  then show ?thesis by auto
qed

lemma bind_loop_spec:
  assumes "bt_invar (bs_bindings st)" and "sorted_wrt (\<lambda>p q. fst p \<le> fst q) ps"
  shows "bound_spec st ps (bind_loop st ps) \<and>
    (\<forall>t. t \<notin> fst ` set ps \<longrightarrow> bt_get (bs_bindings (bind_loop st ps)) t = bt_get (bs_bindings st) t)"
  using assms
proof (induction st ps rule: bind_loop.induct)
  case (1 st)
  then show ?case by (auto simp: bound_spec_def)
next
  case (2 st p ps)
  let ?P = "\<lambda>q. fst q = fst p"
  let ?grp = "takeWhile ?P (p # ps)" and ?rest = "dropWhile ?P (p # ps)"
  let ?st = "bind_group st (fst p) (map snd ?grp)"
  have all: "set (p # ps) = set ?grp \<union> set ?rest" by (metis set_append takeWhile_dropWhile_id)
  have grp: "\<forall>q \<in> set ?grp. fst q = fst p" by (meson set_takeWhileD)
  note G = bind_group_spec [OF "2.prems"(1) grp]
  have G': "bound_spec st ?grp ?st" "\<And>t. t \<noteq> fst p \<Longrightarrow> bt_get (bs_bindings ?st) t = bt_get (bs_bindings st) t"
    using G by auto
  have inv: "bt_invar (bs_bindings ?st)" using G'(1) by (simp add: bound_spec_def)
  have sorted: "sorted_wrt (\<lambda>p q. fst p \<le> fst q) ?rest"
    using "2.prems"(2) by (metis sorted_wrt_append takeWhile_dropWhile_id)
  note R = "2.IH" [OF inv sorted]
  let ?st' = "bind_loop ?st ?rest"
  have R': "bound_spec ?st ?rest ?st'"
    "\<And>t. t \<notin> fst ` set ?rest \<Longrightarrow> bt_get (bs_bindings ?st') t = bt_get (bs_bindings ?st) t"
    using R by auto
  have ne: "fst p \<notin> fst ` set ?rest" using sorted_dropWhile_ne [OF "2.prems"(2)] by fastforce
  have keep: "bt_get (bs_bindings ?st') (fst p) = bt_get (bs_bindings ?st) (fst p)" by (rule R'(2) [OF ne])
  have loop: "bind_loop st (p # ps) = ?st'" by simp
  from G'(1) obtain gs es where g: "bs_guards ?st = bs_guards st @ gs" "bs_errors ?st = bs_errors st @ es"
    "es = [] \<Longrightarrow> (\<forall>shapes. (\<forall>g \<in> set gs. guard_holds shapes g) \<longleftrightarrow> (\<forall>(s, v, _) \<in> set ?grp. val shapes s = Some v)) \<and>
      (\<forall>(s, v, _) \<in> set ?grp. bt_get (bs_bindings ?st) s = Some v)"
    "es \<noteq> [] \<Longrightarrow> \<exists>s v w src src'. (s, v, src) \<in> set ?grp \<and> (s, w, src') \<in> set ?grp \<and> v \<noteq> w"
    unfolding bound_spec_def by blast
  from R'(1) obtain gs' es' where r: "bs_guards ?st' = bs_guards ?st @ gs'" "bs_errors ?st' = bs_errors ?st @ es'"
    "es' = [] \<Longrightarrow> (\<forall>shapes. (\<forall>g \<in> set gs'. guard_holds shapes g) \<longleftrightarrow> (\<forall>(s, v, _) \<in> set ?rest. val shapes s = Some v)) \<and>
      (\<forall>(s, v, _) \<in> set ?rest. bt_get (bs_bindings ?st') s = Some v)"
    "es' \<noteq> [] \<Longrightarrow> \<exists>s v w src src'. (s, v, src) \<in> set ?rest \<and> (s, w, src') \<in> set ?rest \<and> v \<noteq> w"
    unfolding bound_spec_def by blast
  have grp_get: "bt_get (bs_bindings ?st') s = bt_get (bs_bindings ?st) s" if "(s, v, src) \<in> set ?grp" for s v src
  proof -
    have "fst (s, v, src) = fst p" using grp that by blast
    then show ?thesis using keep by simp
  qed
  have ok: "(\<forall>shapes. (\<forall>g \<in> set (gs @ gs'). guard_holds shapes g) \<longleftrightarrow> (\<forall>(s, v, _) \<in> set (p # ps). val shapes s = Some v)) \<and>
      (\<forall>(s, v, _) \<in> set (p # ps). bt_get (bs_bindings ?st') s = Some v)" if "es @ es' = []"
  proof (intro conjI allI)
    from that have g3: "\<forall>shapes. (\<forall>g \<in> set gs. guard_holds shapes g) \<longleftrightarrow> (\<forall>(s, v, _) \<in> set ?grp. val shapes s = Some v)"
      "\<forall>(s, v, _) \<in> set ?grp. bt_get (bs_bindings ?st) s = Some v"
      and r3: "\<forall>shapes. (\<forall>g \<in> set gs'. guard_holds shapes g) \<longleftrightarrow> (\<forall>(s, v, _) \<in> set ?rest. val shapes s = Some v)"
      "\<forall>(s, v, _) \<in> set ?rest. bt_get (bs_bindings ?st') s = Some v"
      using g(3) r(3) by blast+
    show "(\<forall>g \<in> set (gs @ gs'). guard_holds shapes g) \<longleftrightarrow> (\<forall>(s, v, _) \<in> set (p # ps). val shapes s = Some v)" for shapes
      unfolding all set_append ball_Un using g3(1) r3(1) by blast
    show "\<forall>(s, v, _) \<in> set (p # ps). bt_get (bs_bindings ?st') s = Some v"
    proof (intro ballI case_prodI2)
      fix x s y v src
      assume x: "x \<in> set (p # ps)" "x = (s, y)" "y = (v, src)"
      then have "(s, v, src) \<in> set ?grp \<or> (s, v, src) \<in> set ?rest" unfolding all by blast
      then show "bt_get (bs_bindings ?st') s = Some v"
        using g3(2) r3(2) grp_get [of s v src] by auto
    qed
  qed
  have bad: "\<exists>s v w src src'. (s, v, src) \<in> set (p # ps) \<and> (s, w, src') \<in> set (p # ps) \<and> v \<noteq> w" if "es @ es' \<noteq> []"
    using g(4) r(4) that unfolding all by blast
  have from': "bt_get (bs_bindings st) s = Some v \<or> (\<exists>src. (s, v, src) \<in> set (p # ps))"
    if "bt_get (bs_bindings ?st') s = Some v" for s v
  proof -
    from that R'(1) have "bt_get (bs_bindings ?st) s = Some v \<or> (\<exists>src. (s, v, src) \<in> set ?rest)"
      unfolding bound_spec_def by blast
    moreover have "bt_get (bs_bindings st) s = Some v \<or> (\<exists>src. (s, v, src) \<in> set ?grp)"
      if "bt_get (bs_bindings ?st) s = Some v" using that G'(1) unfolding bound_spec_def by blast
    ultimately show ?thesis unfolding all by blast
  qed
  have inv': "bt_invar (bs_bindings ?st')" using R'(1) unfolding bound_spec_def by blast
  have guards: "bs_guards ?st' = bs_guards st @ (gs @ gs')" "bs_errors ?st' = bs_errors st @ (es @ es')"
    using g(1,2) r(1,2) by simp_all
  have spec: "bound_spec st (p # ps) ?st'"
    unfolding bound_spec_def using inv' from' guards ok bad by blast
  have "bt_get (bs_bindings ?st') t = bt_get (bs_bindings st) t" if "t \<notin> fst ` set (p # ps)" for t
  proof -
    from that have "t \<noteq> fst p" "t \<notin> fst ` set ?rest" using set_dropWhileD by fastforce+
    then show ?thesis using R'(2) G'(2) by simp
  qed
  then show ?case unfolding loop using spec by blast
qed

section \<open>The remaining constraints\<close>

text \<open>Under a correct context each constraint either contributes a guard of the same meaning, is
  always true, or contributes an error because it cannot hold.\<close>

lemma normalize_step_spec:
  assumes "ss_invar sets" and "context_ok shapes sets bindings" and "shapes_ok shapes" and "constraint_ok c"
    and "normalize_step sets bindings (gs, es) c = (gs', es')" and "\<not> is_basis_declaration c"
  shows "\<exists>g e. gs' = gs @ g \<and> es' = es @ e \<and>
    (e = [] \<longrightarrow> (constraint_holds shapes c \<longleftrightarrow> (\<forall>x \<in> set g. guard_holds shapes x))) \<and>
    (e \<noteq> [] \<longrightarrow> \<not> constraint_holds shapes c)"
proof -
  let ?l = "normalize sets bindings (lc_lhs c)" and ?r = "normalize sets bindings (lc_rhs c)"
  have l: "same_value shapes ?l (ev shapes (lc_lhs c))" and r: "same_value shapes ?r (ev shapes (lc_rhs c))"
    using normalize_value [OF assms(1-3)] assms(4) by (simp_all add: constraint_ok_def)
  show ?thesis
  proof (cases ?l)
    case (Inl cause)
    then have "\<not> constraint_holds shapes c" using l by (simp add: constraint_holds_def holds_def)
    then show ?thesis using assms(5,6) Inl by (auto simp: normalize_step_def Let_def split: sum.splits)
  next
    case L: (Inr l')
    show ?thesis
    proof (cases ?r)
      case (Inl cause)
      then have "\<not> constraint_holds shapes c"
        using r by (cases "ev shapes (lc_lhs c)") (auto simp: constraint_holds_def holds_def)
      then show ?thesis using assms(5,6) L Inl by (auto simp: normalize_step_def Let_def)
    next
      case R: (Inr r')
      have eq: "constraint_holds shapes c \<longleftrightarrow> holds shapes l' r'"
        using l r L R by (simp add: constraint_holds_def holds_def)
      show ?thesis
      proof (cases "l' = r'")
        case True
        have "is_statically_total l' \<Longrightarrow> holds shapes l' l'" by (cases l') (auto simp: ev_simps)
        then show ?thesis using assms(5,6) L R eq True
          by (auto simp: normalize_step_def Let_def guard_holds_def split: if_splits)
      next
        case False
        show ?thesis
        proof (cases "\<exists>lv rv. l' = Const lv \<and> r' = Const rv")
          case True
          then obtain lv rv where c: "l' = Const lv" "r' = Const rv" by blast
          then have "\<not> constraint_holds shapes c" using eq False by (simp add: ev_simps)
          then show ?thesis using assms(5,6) L R c False by (auto simp: normalize_step_def Let_def)
        next
          case nc: False
          then have "as_const l' = None \<or> as_const r' = None" by (cases l'; cases r') auto
          then have "gs' = gs @ [canonical_guard (lc_source c) (lc_relation c) l' r'] \<and> es' = es"
            using assms(5,6) L R False by (auto simp: normalize_step_def Let_def split: option.splits)
          then show ?thesis using eq by simp
        qed
      qed
    qed
  qed
qed

lemma normalize_fold_spec:
  assumes "ss_invar sets" and "context_ok shapes sets bindings" and "shapes_ok shapes"
    and "\<forall>c \<in> set cs. constraint_ok c"
    and "foldl (normalize_step sets bindings) (gs, es) cs = (gs', es')"
  shows "\<exists>g e. gs' = gs @ g \<and> es' = es @ e \<and>
    (e = [] \<longrightarrow> ((\<forall>c \<in> set cs. \<not> is_basis_declaration c \<longrightarrow> constraint_holds shapes c) \<longleftrightarrow>
      (\<forall>x \<in> set g. guard_holds shapes x))) \<and>
    (e \<noteq> [] \<longrightarrow> (\<exists>c \<in> set cs. \<not> constraint_holds shapes c))"
  using assms(4,5)
proof (induction cs arbitrary: gs es)
  case Nil
  then show ?case by simp
next
  case (Cons c cs)
  obtain gs1 es1 where s1: "normalize_step sets bindings (gs, es) c = (gs1, es1)" by (metis prod.exhaust)
  with Cons.prems(2) have tail: "foldl (normalize_step sets bindings) (gs1, es1) cs = (gs', es')" by simp
  have ok: "constraint_ok c" "\<forall>c \<in> set cs. constraint_ok c" using Cons.prems(1) by simp_all
  from Cons.IH [OF ok(2) tail] obtain g e where ih: "gs' = gs1 @ g" "es' = es1 @ e"
    "e = [] \<longrightarrow> ((\<forall>c \<in> set cs. \<not> is_basis_declaration c \<longrightarrow> constraint_holds shapes c) \<longleftrightarrow>
      (\<forall>x \<in> set g. guard_holds shapes x))"
    "e \<noteq> [] \<longrightarrow> (\<exists>c \<in> set cs. \<not> constraint_holds shapes c)" by blast
  show ?case
  proof (cases "is_basis_declaration c")
    case True
    then have "gs1 = gs" "es1 = es" using s1 by (auto simp: normalize_step_def)
    then show ?thesis using ih True by auto
  next
    case False
    from normalize_step_spec [OF assms(1-3) ok(1) s1 False] obtain g1 e1 where
      one: "gs1 = gs @ g1" "es1 = es @ e1"
        "e1 = [] \<longrightarrow> (constraint_holds shapes c \<longleftrightarrow> (\<forall>x \<in> set g1. guard_holds shapes x))"
        "e1 \<noteq> [] \<longrightarrow> \<not> constraint_holds shapes c" by blast
    show ?thesis
      by (rule exI [of _ "g1 @ g"], rule exI [of _ "e1 @ e"]) (use one ih False in auto)
  qed
qed

text \<open>Whatever the shapes, an error comes from a declaration or from a non-basis constraint.\<close>

lemma dedup_by_keys: "f ` set (dedup_by (\<lambda>a b. f a = f b) xs) = f ` set xs"
  by (induction "\<lambda>a b. f a = f b" xs rule: dedup_by.induct) auto

lemma all_keys:
  assumes "guard_key ` set xs = guard_key ` set ys"
  shows "(\<forall>g \<in> set xs. guard_holds shapes g) \<longleftrightarrow> (\<forall>g \<in> set ys. guard_holds shapes g)"
proof -
  have key: "(\<forall>g \<in> set zs. guard_holds shapes g) \<longleftrightarrow> (\<forall>(_, l, r) \<in> guard_key ` set zs. holds shapes l r)" for zs
    by (auto simp: guard_key_def guard_holds_def)
  show ?thesis unfolding key assms ..
qed

lemma sort_and_dedup_keys: "guard_key ` set (sort_and_dedup_guards gs) = guard_key ` set gs"
  by (simp add: sort_and_dedup_guards_def dedup_by_keys)

lemma merge_guards_holds:
  "(\<forall>g \<in> set (merge_guards basis guards). guard_holds shapes g) \<longleftrightarrow>
    (\<forall>g \<in> set basis. guard_holds shapes g) \<and> (\<forall>g \<in> set guards. guard_holds shapes g)"
proof -
  let ?b = "sort_and_dedup_guards basis" and ?g = "sort_and_dedup_guards guards"
  have "guard_key ` set (merge_guards basis guards) = guard_key ` set (?b @ ?g)"
  proof -
    have "guard_key ` (B \<union> {g \<in> G. guard_key g \<notin> guard_key ` B}) = guard_key ` (B \<union> G)" for B G by blast
    then show ?thesis by (simp add: merge_guards_def Let_def)
  qed
  also have "\<dots> = guard_key ` set (basis @ guards)"
    by (simp add: image_Un sort_and_dedup_keys)
  finally show ?thesis using all_keys [of "merge_guards basis guards" "basis @ guards"] by auto
qed

section \<open>The whole\<close>

definition satisfied :: "nat list list \<Rightarrow> local_constraint list \<Rightarrow> bool" where
  "satisfied shapes cs \<longleftrightarrow> (\<forall>c \<in> set cs. constraint_holds shapes c)"

lemma symbol_pairs_iff:
  "(l, r) \<in> set (symbol_pairs cs) \<longleftrightarrow> (\<exists>c \<in> set cs. lc_lhs c = symbol_expr l \<and> lc_rhs c = symbol_expr r)"
  by (induction cs)
    (auto simp: symbol_pairs_def List.map_filter_simps as_symbol_Some split: option.splits)

lemma symbol_binding_Some:
  "symbol_binding c = Some (s, v) \<Longrightarrow>
    (lc_lhs c = symbol_expr s \<and> lc_rhs c = Const v) \<or> (lc_rhs c = symbol_expr s \<and> lc_lhs c = Const v)"
  by (auto simp: symbol_binding_def as_symbol_Some as_const_Some split: option.splits)

lemma symbol_binding_holds:
  "symbol_binding c = Some (s, v) \<Longrightarrow> constraint_holds shapes c \<longleftrightarrow> val shapes s = Some v"
  using symbol_binding_Some [of c s v] by (auto simp: constraint_holds_def)

lemma symbol_binding_ok: "symbol_binding c = Some (s, v) \<Longrightarrow> constraint_ok c \<Longrightarrow> usize_ok v"
  using symbol_binding_Some [of c s v] by (auto simp: constraint_ok_def)

lemma is_basis_declaration_iff:
  "is_basis_declaration c \<longleftrightarrow>
    (\<exists>l r. l \<noteq> r \<and> lc_lhs c = symbol_expr l \<and> lc_rhs c = symbol_expr r) \<or> (\<exists>s v. symbol_binding c = Some (s, v))"
  by (auto simp: is_basis_declaration_def simp flip: as_symbol_Some split: option.splits)

lemma ball_triple: "(\<forall>(s, v, _) \<in> A. P s v) \<longleftrightarrow> (\<forall>s v. (\<exists>src. (s, v, src) \<in> A) \<longrightarrow> P s v)"
  by auto

text \<open>The comparisons are the orders of their keys.\<close>

lemma compare_source_cmp: "compare_source l r = cmp (source_key l) (source_key r)"
  by (simp add: compare_source_def source_key_def cmp_pair)

lemma le_by_binding: "le_by compare_binding a b \<longleftrightarrow>
    (fst a, fst (snd a), source_key (snd (snd a))) \<le> (fst b, fst (snd b), source_key (snd (snd b)))"
  unfolding le_by_def compare_binding_def compare_source_cmp cmp_pair by (rule cmp_not_Gt)

text \<open>The phases of \<open>discharge\<close>, with what each establishes.\<close>

lemma discharge_phases:
  fixes cs :: "local_constraint list"
  obtains sets bindings bguards berrors guards errors where
    "discharge cs = (if errors \<noteq> [] then Err (ec_error (hd (sort_by (le_by compare_error_candidate) errors)))
       else Ok (merge_guards bguards guards))"
    and "foldl (normalize_step sets bindings) ([], berrors) cs = (guards, errors)"
    and "ss_invar sets"
    and "\<And>v :: symbol \<Rightarrow> nat option. constant_along sets v \<longleftrightarrow> (\<forall>(l, r) \<in> set (symbol_pairs cs). v l = v r)"
    and "\<And>s v. bt_get bindings s = Some v \<Longrightarrow>
       \<exists>c \<in> set cs. \<exists>t. symbol_binding c = Some (t, v) \<and> s = representative sets t"
    and "berrors = [] \<Longrightarrow> (\<forall>g \<in> set bguards. guard_holds shapes g) \<longleftrightarrow>
       (\<forall>(l, r) \<in> set (symbol_pairs cs). l \<noteq> r \<longrightarrow> holds shapes (symbol_expr l) (symbol_expr r)) \<and>
       (\<forall>c \<in> set cs. \<forall>t v. symbol_binding c = Some (t, v) \<longrightarrow> val shapes (representative sets t) = Some v)"
    and "berrors \<noteq> [] \<Longrightarrow> \<exists>c \<in> set cs. \<exists>d \<in> set cs. \<exists>s t v w. symbol_binding c = Some (s, v) \<and>
       symbol_binding d = Some (t, w) \<and> representative sets s = representative sets t \<and> v \<noteq> w"
proof -
  obtain sets0 edges where d: "foldl declare_step ([], []) cs = (sets0, edges)" by (metis prod.exhaust)
  obtain sets pending where p: "foldl pending_step (flatten sets0, []) cs = (sets, pending)"
    by (metis prod.exhaust)
  let ?st = "\<lparr>bs_bindings = [], bs_guards = spanning_tree_guards edges, bs_errors = []\<rparr>"
  let ?ps = "sort_by (le_by compare_binding) pending"
  let ?b = "bind_loop ?st ?ps"
  obtain guards errors where n: "foldl (normalize_step sets (bs_bindings ?b)) ([], bs_errors ?b) cs = (guards, errors)"
    by (metis prod.exhaust)
  have eq: "discharge cs = (if errors \<noteq> []
      then Err (ec_error (hd (sort_by (le_by compare_error_candidate) errors)))
      else Ok (merge_guards (bs_guards ?b) guards))"
    by (simp add: discharge_def d p n)
  from declare_fold [OF d] have s0: "sets0 = unions [] (symbol_pairs cs)"
    and ne: "\<forall>e \<in> set edges. se_lhs e \<noteq> se_rhs e"
    and edges: "(\<forall>e \<in> set edges. holds shapes (symbol_expr (se_lhs e)) (symbol_expr (se_rhs e))) \<longleftrightarrow>
        (\<forall>(l, r) \<in> set (symbol_pairs cs). l \<noteq> r \<longrightarrow> holds shapes (symbol_expr l) (symbol_expr r))"
    by auto
  have inv0: "ss_invar sets0" using unions_spec [of "[]" "symbol_pairs cs" "\<lambda>_. ()"] s0 by simp
  note F = flatten_spec [OF inv0]
  from pending_fold [OF F(1) p] obtain new where inv: "ss_invar sets"
    and rep: "representative sets = representative (flatten sets0)" and "pending = [] @ new"
    and pend0: "\<forall>s v. (\<exists>src. (s, v, src) \<in> set new) \<longleftrightarrow>
        (\<exists>c \<in> set cs. \<exists>t. symbol_binding c = Some (t, v) \<and> s = representative (flatten sets0) t)"
    by blast
  then have new: "pending = new" by simp
  have pend: "(\<exists>src. (s, v, src) \<in> set pending) \<longleftrightarrow>
        (\<exists>c \<in> set cs. \<exists>t. symbol_binding c = Some (t, v) \<and> s = representative (flatten sets0) t)" for s v
    using pend0 unfolding new by blast
  have along: "constant_along sets v \<longleftrightarrow> (\<forall>(l, r) \<in> set (symbol_pairs cs). v l = v r)"
    for v :: "symbol \<Rightarrow> nat option"
    using unions_spec [of "[]" "symbol_pairs cs" v] s0 rep F(2)
    unfolding constant_along_def by simp
  have "sorted_wrt (le_by compare_binding) ?ps"
    by (rule sorted_sort_by) (unfold le_by_binding, rule linear, rule order_trans)
  then have sorted: "sorted_wrt (\<lambda>p q. fst p \<le> fst q) ?ps"
    by (rule sorted_wrt_mono_rel [rotated]) (simp add: le_by_binding less_eq_prod_def, auto)
  from bind_loop_spec [OF _ sorted, of ?st] have B: "bound_spec ?st ?ps ?b" by simp
  then obtain gs es where g0: "bs_guards ?b = bs_guards ?st @ gs" and e0: "bs_errors ?b = bs_errors ?st @ es"
    and okb: "es = [] \<longrightarrow>
        (\<forall>shapes. (\<forall>g \<in> set gs. guard_holds shapes g) \<longleftrightarrow> (\<forall>(s, v, _) \<in> set ?ps. val shapes s = Some v)) \<and>
        (\<forall>(s, v, _) \<in> set ?ps. bt_get (bs_bindings ?b) s = Some v)"
    and bad: "es \<noteq> [] \<longrightarrow> (\<exists>s v w src src'. (s, v, src) \<in> set ?ps \<and> (s, w, src') \<in> set ?ps \<and> v \<noteq> w)"
    unfolding bound_spec_def by blast
  from g0 have g: "bs_guards ?b = spanning_tree_guards edges @ gs" by simp
  from e0 have e: "bs_errors ?b = es" by simp
  have from': "\<exists>src. (s, v, src) \<in> set pending" if "bt_get (bs_bindings ?b) s = Some v" for s v
  proof -
    from B that have "bt_get (bs_bindings ?st) s = Some v \<or> (\<exists>src. (s, v, src) \<in> set ?ps)"
      unfolding bound_spec_def by blast
    then show ?thesis by simp
  qed
  have bguards: "(\<forall>g \<in> set (bs_guards ?b). guard_holds shapes g) \<longleftrightarrow>
       (\<forall>(l, r) \<in> set (symbol_pairs cs). l \<noteq> r \<longrightarrow> holds shapes (symbol_expr l) (symbol_expr r)) \<and>
       (\<forall>c \<in> set cs. \<forall>t v. symbol_binding c = Some (t, v) \<longrightarrow> val shapes (representative sets t) = Some v)"
    if none: "bs_errors ?b = []"
  proof -
    from none e okb have okg: "(\<forall>g \<in> set gs. guard_holds shapes g) \<longleftrightarrow> (\<forall>(s, v, _) \<in> set ?ps. val shapes s = Some v)"
      by blast
    have "(\<forall>(s, v, _) \<in> set ?ps. val shapes s = Some v) \<longleftrightarrow>
        (\<forall>s v. (\<exists>src. (s, v, src) \<in> set pending) \<longrightarrow> val shapes s = Some v)"
      by (simp only: ball_triple set_sort_by)
    also have "\<dots> \<longleftrightarrow>
        (\<forall>c \<in> set cs. \<forall>t v. symbol_binding c = Some (t, v) \<longrightarrow> val shapes (representative sets t) = Some v)"
      unfolding pend rep by blast
    finally have e2: "(\<forall>(s, v, _) \<in> set ?ps. val shapes s = Some v) \<longleftrightarrow>
        (\<forall>c \<in> set cs. \<forall>t v. symbol_binding c = Some (t, v) \<longrightarrow> val shapes (representative sets t) = Some v)" .
    show ?thesis
      unfolding g set_append ball_Un okg spanning_tree_guards_iff [OF ne, of shapes] edges e2 ..
  qed
  have conflict: "\<exists>c \<in> set cs. \<exists>d \<in> set cs. \<exists>s t v w. symbol_binding c = Some (s, v) \<and>
       symbol_binding d = Some (t, w) \<and> representative sets s = representative sets t \<and> v \<noteq> w"
    if errs: "bs_errors ?b \<noteq> []"
  proof -
    from bad errs e obtain s v w src src' where
      "(s, v, src) \<in> set ?ps" "(s, w, src') \<in> set ?ps" and vw: "v \<noteq> w" by blast
    then have "\<exists>src. (s, v, src) \<in> set pending" "\<exists>src. (s, w, src) \<in> set pending" by auto
    with pend rep obtain c t d u where "c \<in> set cs" "symbol_binding c = Some (t, v)" "s = representative sets t"
      "d \<in> set cs" "symbol_binding d = Some (u, w)" "s = representative sets u" by metis
    with vw show ?thesis by metis
  qed
  have bindings: "\<exists>c \<in> set cs. \<exists>t. symbol_binding c = Some (t, v) \<and> s = representative sets t"
    if "bt_get (bs_bindings ?b) s = Some v" for s v
    using from' [OF that] pend rep by metis
  show thesis by (rule that [OF eq n inv along bindings bguards conflict])
qed

lemma context_from_declarations:
  assumes "constant_along sets (val shapes)"
    and "\<And>c t v. c \<in> set cs \<Longrightarrow> symbol_binding c = Some (t, v) \<Longrightarrow> val shapes (representative sets t) = Some v"
    and "\<And>s v. bt_get bindings s = Some v \<Longrightarrow>
       \<exists>c \<in> set cs. \<exists>t. symbol_binding c = Some (t, v) \<and> s = representative sets t"
    and "\<forall>c \<in> set cs. constraint_ok c"
  shows "context_ok shapes sets bindings"
  unfolding context_ok_def using assms symbol_binding_ok by metis

text \<open>The guards of a successful discharge are equivalent to the constraints.\<close>

lemma discharge_Ok:
  assumes "discharge cs = Ok gs" and "\<forall>c \<in> set cs. constraint_ok c" and "shapes_ok shapes"
  shows "(\<forall>g \<in> set gs. guard_holds shapes g) \<longleftrightarrow> satisfied shapes cs"
proof -
  obtain sets bindings bguards berrors guards errors where
    D: "discharge cs = (if errors \<noteq> [] then Err (ec_error (hd (sort_by (le_by compare_error_candidate) errors)))
       else Ok (merge_guards bguards guards))"
    and n: "foldl (normalize_step sets bindings) ([], berrors) cs = (guards, errors)"
    and inv: "ss_invar sets"
    and along: "\<And>v :: symbol \<Rightarrow> nat option. constant_along sets v \<longleftrightarrow> (\<forall>(l, r) \<in> set (symbol_pairs cs). v l = v r)"
    and bnd: "\<And>s v. bt_get bindings s = Some v \<Longrightarrow>
       \<exists>c \<in> set cs. \<exists>t. symbol_binding c = Some (t, v) \<and> s = representative sets t"
    and bg: "berrors = [] \<Longrightarrow> (\<forall>g \<in> set bguards. guard_holds shapes g) \<longleftrightarrow>
       (\<forall>(l, r) \<in> set (symbol_pairs cs). l \<noteq> r \<longrightarrow> holds shapes (symbol_expr l) (symbol_expr r)) \<and>
       (\<forall>c \<in> set cs. \<forall>t v. symbol_binding c = Some (t, v) \<longrightarrow> val shapes (representative sets t) = Some v)"
    and bad: "berrors \<noteq> [] \<Longrightarrow> \<exists>c \<in> set cs. \<exists>d \<in> set cs. \<exists>s t v w. symbol_binding c = Some (s, v) \<and>
       symbol_binding d = Some (t, w) \<and> representative sets s = representative sets t \<and> v \<noteq> w"
    by (rule discharge_phases [of cs shapes]) (rule that, assumption+)
  from D assms(1) have none: "errors = []" and gs: "gs = merge_guards bguards guards"
    by (auto split: if_splits)
  have grow: "foldl (normalize_step sets bindings) (g, e) xs = (g', e') \<Longrightarrow> \<exists>e''. e' = e @ e''" for g e g' e' xs
  proof (induction xs arbitrary: g e)
    case Nil
    then show ?case by simp
  next
    case (Cons x xs)
    obtain g1 e1 where s: "normalize_step sets bindings (g, e) x = (g1, e1)" by (metis prod.exhaust)
    then have "\<exists>e''. e1 = e @ e''"
      by (auto simp: normalize_step_def Let_def split: if_splits sum.splits option.splits)
    with Cons s show ?case by fastforce
  qed
  from grow [OF n] none have be: "berrors = []" by simp
  note basis = bg [OF be]
  have rest: "(\<forall>c \<in> set cs. \<not> is_basis_declaration c \<longrightarrow> constraint_holds shapes c) \<longleftrightarrow>
      (\<forall>g \<in> set guards. guard_holds shapes g)" if "context_ok shapes sets bindings"
    using normalize_fold_spec [OF inv that assms(3,2) n] none by auto
  have pairs: "constant_along sets (val shapes)"
    if p: "\<forall>(l, r) \<in> set (symbol_pairs cs). l \<noteq> r \<longrightarrow> holds shapes (symbol_expr l) (symbol_expr r)"
  proof -
    have "val shapes l = val shapes r" if "(l, r) \<in> set (symbol_pairs cs)" for l r
    proof (cases "l = r")
      case False
      with bspec [OF p that] have "holds shapes (symbol_expr l) (symbol_expr r)" by simp
      then show ?thesis by (simp add: holds_def)
    qed simp
    then show ?thesis unfolding along by (intro ballI case_prodI2) simp
  qed
  show ?thesis
  proof
    assume "\<forall>g \<in> set gs. guard_holds shapes g"
    then have b: "\<forall>g \<in> set bguards. guard_holds shapes g" and g: "\<forall>g \<in> set guards. guard_holds shapes g"
      by (simp_all add: gs merge_guards_holds)
    note ab = iffD1 [OF basis b]
    note p = conjunct1 [OF ab] and c = pairs [OF conjunct1 [OF ab]]
    have v: "val shapes (representative sets t) = Some v" if "d \<in> set cs" "symbol_binding d = Some (t, v)" for d t v
      using conjunct2 [OF ab] that by blast
    have ctx: "context_ok shapes sets bindings" by (rule context_from_declarations [OF c v bnd assms(2)])
    have "constraint_holds shapes c" if cc: "c \<in> set cs" for c
    proof (cases "is_basis_declaration c")
      case False
      then show ?thesis using rest [OF ctx] g cc by blast
    next
      case True
      then consider l r where "l \<noteq> r" "lc_lhs c = symbol_expr l" "lc_rhs c = symbol_expr r"
        | s v where "symbol_binding c = Some (s, v)"
        unfolding is_basis_declaration_iff by blast
      then show ?thesis
      proof cases
        case 1
        then have "(l, r) \<in> set (symbol_pairs cs)" using cc symbol_pairs_iff by blast
        with p 1 show ?thesis by (auto simp: constraint_holds_def)
      next
        case 2
        have "val shapes s = val shapes (representative sets s)" using c unfolding constant_along_def by blast
        with v [OF cc 2] symbol_binding_holds [OF 2] show ?thesis by simp
      qed
    qed
    then show "satisfied shapes cs" by (simp add: satisfied_def)
  next
    assume sat: "satisfied shapes cs"
    then have h: "\<And>c. c \<in> set cs \<Longrightarrow> constraint_holds shapes c" by (simp add: satisfied_def)
    have p: "\<forall>(l, r) \<in> set (symbol_pairs cs). holds shapes (symbol_expr l) (symbol_expr r)"
    proof clarify
      fix l1 l2 r1 r2
      assume "((l1, l2), (r1, r2)) \<in> set (symbol_pairs cs)"
      then obtain c where "c \<in> set cs" "lc_lhs c = symbol_expr (l1, l2)" "lc_rhs c = symbol_expr (r1, r2)"
        unfolding symbol_pairs_iff by blast
      with h show "holds shapes (symbol_expr (l1, l2)) (symbol_expr (r1, r2))"
        by (metis constraint_holds_def)
    qed
    then have c: "constant_along sets (val shapes)" using pairs by blast
    have v: "val shapes (representative sets t) = Some v" if "d \<in> set cs" "symbol_binding d = Some (t, v)" for d t v
    proof -
      have "val shapes t = Some v" using symbol_binding_holds [OF that(2)] h [OF that(1)] by simp
      then show ?thesis using c unfolding constant_along_def by metis
    qed
    have ctx: "context_ok shapes sets bindings" by (rule context_from_declarations [OF c v bnd assms(2)])
    have "\<forall>g \<in> set bguards. guard_holds shapes g" unfolding basis using p v by blast
    moreover have "\<forall>g \<in> set guards. guard_holds shapes g" using rest [OF ctx] h by blast
    ultimately show "\<forall>g \<in> set gs. guard_holds shapes g" by (simp add: gs merge_guards_holds)
  qed
qed

text \<open>An error means that no input shapes satisfy the constraints.\<close>

lemma discharge_Err:
  assumes "discharge cs = Err e" and "\<forall>c \<in> set cs. constraint_ok c" and "shapes_ok shapes"
  shows "\<not> satisfied shapes cs"
proof
  assume sat: "satisfied shapes cs"
  then have h: "\<And>c. c \<in> set cs \<Longrightarrow> constraint_holds shapes c" by (simp add: satisfied_def)
  obtain sets bindings bguards berrors guards errors where
    D: "discharge cs = (if errors \<noteq> [] then Err (ec_error (hd (sort_by (le_by compare_error_candidate) errors)))
       else Ok (merge_guards bguards guards))"
    and n: "foldl (normalize_step sets bindings) ([], berrors) cs = (guards, errors)"
    and inv: "ss_invar sets"
    and along: "\<And>v :: symbol \<Rightarrow> nat option. constant_along sets v \<longleftrightarrow> (\<forall>(l, r) \<in> set (symbol_pairs cs). v l = v r)"
    and bnd: "\<And>s v. bt_get bindings s = Some v \<Longrightarrow>
       \<exists>c \<in> set cs. \<exists>t. symbol_binding c = Some (t, v) \<and> s = representative sets t"
    and bg: "berrors = [] \<Longrightarrow> (\<forall>g \<in> set bguards. guard_holds shapes g) \<longleftrightarrow>
       (\<forall>(l, r) \<in> set (symbol_pairs cs). l \<noteq> r \<longrightarrow> holds shapes (symbol_expr l) (symbol_expr r)) \<and>
       (\<forall>c \<in> set cs. \<forall>t v. symbol_binding c = Some (t, v) \<longrightarrow> val shapes (representative sets t) = Some v)"
    and bad: "berrors \<noteq> [] \<Longrightarrow> \<exists>c \<in> set cs. \<exists>d \<in> set cs. \<exists>s t v w. symbol_binding c = Some (s, v) \<and>
       symbol_binding d = Some (t, w) \<and> representative sets s = representative sets t \<and> v \<noteq> w"
    by (rule discharge_phases [of cs shapes]) (rule that, assumption+)
  from D assms(1) have errs: "errors \<noteq> []" by (auto split: if_splits)
  have c: "constant_along sets (val shapes)"
    unfolding along
  proof clarify
    fix l1 l2 r1 r2
    assume "((l1, l2), (r1, r2)) \<in> set (symbol_pairs cs)"
    then obtain c where "c \<in> set cs" "lc_lhs c = symbol_expr (l1, l2)" "lc_rhs c = symbol_expr (r1, r2)"
      unfolding symbol_pairs_iff by blast
    with h show "val shapes (l1, l2) = val shapes (r1, r2)" by (metis constraint_holds_def holds_def)
  qed
  have v: "val shapes (representative sets t) = Some v" if "d \<in> set cs" "symbol_binding d = Some (t, v)" for d t v
  proof -
    have "val shapes t = Some v" using symbol_binding_holds [OF that(2)] h [OF that(1)] by simp
    then show ?thesis using c unfolding constant_along_def by metis
  qed
  have "berrors = []"
  proof (rule ccontr)
    assume "berrors \<noteq> []"
    from bad [OF this] v show False by (metis option.inject)
  qed
  moreover have ctx: "context_ok shapes sets bindings" by (rule context_from_declarations [OF c v bnd assms(2)])
  ultimately have "\<exists>c \<in> set cs. \<not> constraint_holds shapes c"
    using normalize_fold_spec [OF inv ctx assms(3,2) n] errs by auto
  with h show False by blast
qed

end
