(* ===== verification/Shape_Rules.thy ===== *)
theory Shape_Rules
  imports Tensor_Core
begin

text \<open>
  The shape rules shared by the operations of \<open>tenferro-internal-ops\<close>: NumPy broadcasting
  (\<open>broadcast.rs\<close>), axis normalization (\<open>axis.rs\<close>), reduction shapes (\<open>reduction.rs\<close>), shape
  extents (\<open>shape_extent.rs\<close>) and input keys (\<open>input_key.rs\<close>).  The specification of
  broadcasting is the order \<open>broadcastable\<close>: the computed shape is the least upper bound of
  its inputs, so it does not depend on their order or grouping.
\<close>

section \<open>Broadcasting\<close>

record broadcast_input_plan =
  bp_source_shape :: shape
  bp_dims :: "nat list"

datatype broadcast_error =
    IncompatibleBinary shape shape
  | IncompatibleInput shape shape
  | RankTooLarge shape shape

fun broadcast_error_to_validation :: "broadcast_error \<Rightarrow> validation_error" where
  "broadcast_error_to_validation (IncompatibleBinary lhs rhs) =
    ShapeMismatch (IncompatibleShapes lhs rhs)"
| "broadcast_error_to_validation (IncompatibleInput input output) =
    ShapeMismatch (ExpectedActual output input)"
| "broadcast_error_to_validation (RankTooLarge input output) =
    RankMismatch (length output) (length input)"

definition aligned_dim :: "shape \<Rightarrow> nat \<Rightarrow> nat \<Rightarrow> nat" where
  "aligned_dim sh output_rank output_axis =
    (if output_axis < output_rank - length sh then 1
     else sh ! (output_axis - (output_rank - length sh)))"

definition broadcast_in_dim_extent_error :: "shape \<Rightarrow> shape \<Rightarrow> nat list \<Rightarrow> broadcast_error option" where
  "broadcast_in_dim_extent_error input output dims =
    (if length output < length input then Some (RankTooLarge input output)
     else if length dims \<noteq> length input \<or> (\<exists>axis \<in> set dims. length output \<le> axis) \<or>
       list_ex (\<lambda>i. dims ! i \<in> set (take i dims)) [0..<length dims]
     then None
     else map_option (\<lambda>_. IncompatibleInput input output)
       (find (\<lambda>(input_dim, output_axis). input_dim \<noteq> output ! output_axis \<and> input_dim \<noteq> 1)
         (zip input dims)))"

definition broadcast_axis ::
  "shape \<Rightarrow> shape \<Rightarrow> nat \<Rightarrow> shape \<Rightarrow> nat \<Rightarrow> broadcast_error + shape" where
  "broadcast_axis lhs rhs rank out axis =
    (let lhs_dim = aligned_dim lhs rank axis; rhs_dim = aligned_dim rhs rank axis in
     if lhs_dim = rhs_dim then Ok (out @ [lhs_dim])
     else if lhs_dim = 1 then Ok (out @ [rhs_dim])
     else if rhs_dim = 1 then Ok (out @ [lhs_dim])
     else Err (IncompatibleBinary lhs rhs))"

definition broadcast_shape :: "shape \<Rightarrow> shape \<Rightarrow> broadcast_error + shape" where
  "broadcast_shape lhs rhs =
    (let rank = max (length lhs) (length rhs) in
     try_fold (broadcast_axis lhs rhs rank) [] [0..<rank])"

fun broadcast_shapes :: "shape list \<Rightarrow> broadcast_error + shape" where
  "broadcast_shapes [] = Ok []"
| "broadcast_shapes (first # rest) = try_fold broadcast_shape first rest"

definition input_plan_step ::
  "shape \<Rightarrow> shape \<Rightarrow> nat \<Rightarrow> shape \<times> nat list \<Rightarrow> nat \<times> nat \<Rightarrow> broadcast_error + shape \<times> nat list" where
  "input_plan_step input output rank_diff s e =
    (case s of (source_shape, dims) \<Rightarrow> case e of (src_axis, src_dim) \<Rightarrow>
       let dst_axis = src_axis + rank_diff; dst_dim = output ! dst_axis in
       if src_dim \<noteq> dst_dim \<and> src_dim \<noteq> 1 then Err (IncompatibleInput input output)
       else if src_dim = 1 \<and> dst_dim \<noteq> 1 then Ok (source_shape, dims)
       else Ok (source_shape @ [src_dim], dims @ [dst_axis]))"

definition broadcast_input_plan :: "shape \<Rightarrow> shape \<Rightarrow> broadcast_error + broadcast_input_plan" where
  "broadcast_input_plan input output =
    (if length output < length input then Err (RankTooLarge input output)
     else
       and_then (try_fold (input_plan_step input output (length output - length input)) ([], [])
                   (zip [0..<length input] input)) (\<lambda>(source_shape, dims).
         Ok \<lparr>bp_source_shape = source_shape, bp_dims = dims\<rparr>))"

section \<open>Axes\<close>

datatype axis_error = OutOfBounds int nat | Duplicate nat

definition normalize_axis :: "int \<Rightarrow> nat \<Rightarrow> axis_error + nat" where
  "normalize_axis axis rank =
    and_then (if 0 \<le> axis then Ok (nat axis)
              else ok_or (checked_sub rank (nat \<bar>axis\<bar>)) (OutOfBounds axis rank)) (\<lambda>normalized.
      if rank \<le> normalized then Err (OutOfBounds axis rank) else Ok normalized)"

definition normalize_axes_step ::
  "nat \<Rightarrow> bool list \<times> nat list \<Rightarrow> int \<Rightarrow> axis_error + bool list \<times> nat list" where
  "normalize_axes_step rank s axis =
    (case s of (seen, out) \<Rightarrow>
       and_then (normalize_axis axis rank) (\<lambda>normalized.
         if seen ! normalized then Err (Duplicate normalized)
         else Ok (seen[normalized := True], out @ [normalized])))"

definition normalize_axes :: "int list \<Rightarrow> nat \<Rightarrow> axis_error + nat list" where
  "normalize_axes axes rank =
    and_then (try_fold (normalize_axes_step rank) (replicate rank False, []) axes) (\<lambda>(_, out). Ok out)"

section \<open>Reductions\<close>

datatype reduction_shape_error = RedAxisOutOfBounds nat nat | RedDuplicateAxis nat

definition reduced_step :: "nat \<Rightarrow> bool list \<Rightarrow> nat \<Rightarrow> reduction_shape_error + bool list" where
  "reduced_step rank reduced axis =
    (if rank \<le> axis then Err (RedAxisOutOfBounds axis rank)
     else if reduced ! axis then Err (RedDuplicateAxis axis)
     else Ok (reduced[axis := True]))"

fun keep_axes :: "bool \<Rightarrow> bool list \<Rightarrow> shape \<Rightarrow> shape" where
  "keep_axes keepdims (r # rs) (dim # sh) =
    (if r then (if keepdims then 1 # keep_axes keepdims rs sh else keep_axes keepdims rs sh)
     else dim # keep_axes keepdims rs sh)"
| "keep_axes _ _ _ = []"

definition reduced_shape :: "shape \<Rightarrow> nat list \<Rightarrow> bool \<Rightarrow> reduction_shape_error + shape" where
  "reduced_shape input_shape axes keepdims =
    and_then (try_fold (reduced_step (length input_shape)) (replicate (length input_shape) False) axes)
      (\<lambda>reduced. Ok (keep_axes keepdims reduced input_shape))"

section \<open>Extents and input keys\<close>

datatype 'd shape_extent = Exact 'd | UpperBound 'd | Unknown

fun as_exact :: "'d shape_extent \<Rightarrow> 'd option" where
  "as_exact (Exact d) = Some d"
| "as_exact _ = None"

fun bound_expr :: "'d shape_extent \<Rightarrow> 'd option" where
  "bound_expr (Exact d) = Some d"
| "bound_expr (UpperBound d) = Some d"
| "bound_expr Unknown = None"

fun is_exact :: "'d shape_extent \<Rightarrow> bool" where
  "is_exact (Exact _) = True"
| "is_exact _ = False"

fun extent_map :: "('d \<Rightarrow> 'e) \<Rightarrow> 'd shape_extent \<Rightarrow> 'e shape_extent" where
  "extent_map f (Exact d) = Exact (f d)"
| "extent_map f (UpperBound d) = UpperBound (f d)"
| "extent_map f Unknown = Unknown"

datatype input_key = User nat | Tangent input_key nat

fun is_tangent :: "input_key \<Rightarrow> bool" where
  "is_tangent (User _) = False"
| "is_tangent (Tangent _ _) = True"

fun primal_root :: "input_key \<Rightarrow> input_key" where
  "primal_root (User i) = User i"
| "primal_root (Tangent of' _) = primal_root of'"

definition tangent_of :: "input_key \<Rightarrow> nat \<Rightarrow> input_key" where
  "tangent_of k pass = Tangent k pass"

section \<open>Broadcasting is a least upper bound\<close>

definition broadcastable :: "shape \<Rightarrow> shape \<Rightarrow> bool" where
  "broadcastable sh out \<longleftrightarrow> length sh \<le> length out \<and>
    (\<forall>axis < length out. aligned_dim sh (length out) axis = out ! axis \<or>
      aligned_dim sh (length out) axis = 1)"

text \<open>The extent at distance \<open>k\<close> from the last axis, 1 beyond the rank.\<close>

definition tail_dim :: "shape \<Rightarrow> nat \<Rightarrow> nat" where
  "tail_dim sh k = (if k < length sh then sh ! (length sh - 1 - k) else 1)"

lemma aligned_tail: "length sh \<le> r \<Longrightarrow> a < r \<Longrightarrow> aligned_dim sh r a = tail_dim sh (r - 1 - a)"
  by (auto simp: aligned_dim_def tail_dim_def intro!: arg_cong [of _ _ "(!) sh"])

lemma nth_tail: "a < length sh \<Longrightarrow> sh ! a = tail_dim sh (length sh - 1 - a)"
  by (auto simp: tail_dim_def intro!: arg_cong [of _ _ "(!) sh"])

lemma broadcastable_tail:
  "broadcastable sh out \<longleftrightarrow>
    length sh \<le> length out \<and> (\<forall>k. tail_dim sh k = tail_dim out k \<or> tail_dim sh k = 1)"
proof (cases "length sh \<le> length out")
  case True
  let ?r = "length out"
  have "(\<forall>a < ?r. aligned_dim sh ?r a = out ! a \<or> aligned_dim sh ?r a = 1) \<longleftrightarrow>
    (\<forall>a < ?r. tail_dim sh (?r - 1 - a) = tail_dim out (?r - 1 - a) \<or> tail_dim sh (?r - 1 - a) = 1)"
    using True by (simp add: aligned_tail nth_tail)
  also have "\<dots> \<longleftrightarrow> (\<forall>k. tail_dim sh k = tail_dim out k \<or> tail_dim sh k = 1)"
  proof (intro iffI allI impI)
    fix k
    assume all: "\<forall>a < ?r. tail_dim sh (?r - 1 - a) = tail_dim out (?r - 1 - a) \<or> tail_dim sh (?r - 1 - a) = 1"
    show "tail_dim sh k = tail_dim out k \<or> tail_dim sh k = 1"
    proof (cases "k < ?r")
      case True
      then have "?r - 1 - k < ?r" "?r - 1 - (?r - 1 - k) = k" by simp_all
      with all show ?thesis by metis
    next
      case False
      with \<open>length sh \<le> length out\<close> show ?thesis by (simp add: tail_dim_def)
    qed
  qed auto
  finally show ?thesis by (simp add: broadcastable_def)
next
  case False
  then show ?thesis by (simp add: broadcastable_def)
qed

lemma broadcastable_refl [simp]: "broadcastable sh sh"
  by (simp add: broadcastable_tail)

lemma broadcastable_Nil [simp]: "broadcastable [] sh"
  by (simp add: broadcastable_tail tail_dim_def)

lemma broadcastable_trans: "broadcastable a b \<Longrightarrow> broadcastable b c \<Longrightarrow> broadcastable a c"
  unfolding broadcastable_tail by (metis le_trans)

lemma broadcastable_antisym:
  assumes "broadcastable a b" and "broadcastable b a"
  shows "a = b"
proof (rule nth_equalityI)
  show len: "length a = length b" using assms by (simp add: broadcastable_tail)
  fix i
  assume "i < length a"
  then show "a ! i = b ! i"
    using assms len nth_tail [of i a] nth_tail [of i b] unfolding broadcastable_tail by metis
qed

definition compatible :: "shape \<Rightarrow> shape \<Rightarrow> bool" where
  "compatible a b \<longleftrightarrow> (\<forall>k. tail_dim a k = tail_dim b k \<or> tail_dim a k = 1 \<or> tail_dim b k = 1)"

definition joined :: "shape \<Rightarrow> shape \<Rightarrow> nat \<Rightarrow> nat" where
  "joined a b k = (if tail_dim a k = 1 then tail_dim b k else tail_dim a k)"

lemma broadcast_axes_fold:
  assumes "r = max (length a) (length b)" and "m \<le> r"
  shows "try_fold (broadcast_axis a b r) out [r - m..<r] =
    (if \<forall>k < m. tail_dim a k = tail_dim b k \<or> tail_dim a k = 1 \<or> tail_dim b k = 1
     then Ok (out @ map (\<lambda>x. joined a b (r - 1 - x)) [r - m..<r])
     else Err (IncompatibleBinary a b))"
  using assms(2)
proof (induction m arbitrary: out)
  case 0
  then show ?case by simp
next
  case (Suc m)
  have lt: "r - Suc m < r" using Suc.prems by simp
  have upt: "[r - Suc m..<r] = (r - Suc m) # [r - m..<r]"
    using Suc.prems lt by (simp add: upt_conv_Cons Suc_diff_Suc)
  have al: "aligned_dim a r (r - Suc m) = tail_dim a m" "aligned_dim b r (r - Suc m) = tail_dim b m"
    using Suc.prems assms(1) by (simp_all add: aligned_tail)
  have ix: "r - 1 - (r - Suc m) = m" using Suc.prems by simp
  have all: "(\<forall>k < Suc m. P k) \<longleftrightarrow> P m \<and> (\<forall>k < m. P k)" for P by (auto simp: less_Suc_eq)
  have step: "broadcast_axis a b r out (r - Suc m) =
    (if tail_dim a m = tail_dim b m \<or> tail_dim a m = 1 \<or> tail_dim b m = 1
     then Ok (out @ [joined a b m]) else Err (IncompatibleBinary a b))"
    by (simp add: broadcast_axis_def al joined_def)
  show ?case
    using Suc.IH [of "out @ [joined a b m]"] Suc.prems
    unfolding upt all by (simp add: step ix del: upt_Suc)
qed

lemma broadcast_shape_eq:
  "broadcast_shape a b =
    (if compatible a b
     then Ok (map (\<lambda>x. joined a b (max (length a) (length b) - 1 - x)) [0..<max (length a) (length b)])
     else Err (IncompatibleBinary a b))"
proof -
  let ?r = "max (length a) (length b)"
  have "compatible a b \<longleftrightarrow> (\<forall>k < ?r. tail_dim a k = tail_dim b k \<or> tail_dim a k = 1 \<or> tail_dim b k = 1)"
    unfolding compatible_def by (auto simp: tail_dim_def)
  then show ?thesis
    using broadcast_axes_fold [of ?r a b ?r "[]"] by (simp add: broadcast_shape_def Let_def)
qed

lemma tail_joined:
  assumes "r = max (length a) (length b)"
  shows "tail_dim (map (\<lambda>x. joined a b (r - 1 - x)) [0..<r]) k = joined a b k"
  using assms by (auto simp: tail_dim_def joined_def)

lemma broadcast_shape_Ok:
  assumes "broadcast_shape a b = Ok out"
  shows "length out = max (length a) (length b)" and "compatible a b"
    and "tail_dim out k = joined a b k"
  using assms tail_joined [OF refl, of a b k]
  by (auto simp: broadcast_shape_eq split: if_splits)

text \<open>The result is the least shape both inputs broadcast to, and exists as soon as they have a
  common one.\<close>

lemma broadcast_shape_lub:
  assumes "broadcast_shape a b = Ok out"
  shows "broadcastable out c \<longleftrightarrow> broadcastable a c \<and> broadcastable b c"
proof -
  note B = broadcast_shape_Ok [OF assms]
  show ?thesis
    using B(1,2) unfolding broadcastable_tail B(3) joined_def compatible_def
    by (auto split: if_splits; metis)
qed

lemma broadcast_shape_exists:
  "broadcastable a c \<Longrightarrow> broadcastable b c \<Longrightarrow> \<exists>out. broadcast_shape a b = Ok out"
  unfolding broadcastable_tail broadcast_shape_eq compatible_def by (auto; metis)

lemma broadcast_fold_lub:
  "try_fold broadcast_shape a shs = Ok out \<Longrightarrow>
    broadcastable out c \<longleftrightarrow> broadcastable a c \<and> (\<forall>sh \<in> set shs. broadcastable sh c)"
proof (induction shs arbitrary: a)
  case Nil
  then show ?case by simp
next
  case (Cons b shs)
  then obtain a1 where "broadcast_shape a b = Ok a1" "try_fold broadcast_shape a1 shs = Ok out" by auto
  with Cons.IH broadcast_shape_lub show ?case by auto
qed

lemma broadcast_fold_exists:
  "broadcastable a c \<Longrightarrow> \<forall>sh \<in> set shs. broadcastable sh c \<Longrightarrow>
    \<exists>out. try_fold broadcast_shape a shs = Ok out"
proof (induction shs arbitrary: a)
  case Nil
  then show ?case by simp
next
  case (Cons b shs)
  then obtain a1 where a1: "broadcast_shape a b = Ok a1" using broadcast_shape_exists by fastforce
  then have "broadcastable a1 c" using broadcast_shape_lub Cons.prems by fastforce
  with Cons a1 show ?case by auto
qed

lemma broadcast_shapes_lub:
  "broadcast_shapes shs = Ok out \<Longrightarrow> broadcastable out c \<longleftrightarrow> (\<forall>sh \<in> set shs. broadcastable sh c)"
  by (cases shs) (auto simp: broadcast_fold_lub)

lemma broadcast_shapes_exists:
  "\<forall>sh \<in> set shs. broadcastable sh c \<Longrightarrow> \<exists>out. broadcast_shapes shs = Ok out"
  by (cases shs) (auto intro: broadcast_fold_exists)

section \<open>The plan for one input\<close>

lemma input_plan_fold:
  assumes "rank_diff + m + length sh \<le> length output"
  shows "try_fold (input_plan_step input output rank_diff) (src, dims) (zip [m..<m + length sh] sh) =
    (if \<forall>k < length sh. sh ! k = output ! (m + k + rank_diff) \<or> sh ! k = 1
     then let ks = filter (\<lambda>k. sh ! k = output ! (m + k + rank_diff)) [0..<length sh] in
       Ok (src @ map (\<lambda>k. sh ! k) ks, dims @ map (\<lambda>k. m + k + rank_diff) ks)
     else Err (IncompatibleInput input output))"
  using assms
proof (induction sh arbitrary: m src dims)
  case Nil
  then show ?case by simp
next
  case (Cons n sh)
  have upt: "[m..<m + length (n # sh)] = m # [Suc m..<Suc m + length sh]"
    by (simp add: upt_conv_Cons del: upt_Suc)
  have fil: "filter (\<lambda>k. (n # sh) ! k = output ! (m + k + rank_diff)) [0..<length (n # sh)] =
    (if n = output ! (m + rank_diff) then [0] else []) @
      map Suc (filter (\<lambda>k. sh ! k = output ! (Suc m + k + rank_diff)) [0..<length sh])"
    by (simp add: upt_conv_Cons filter_map o_def map_Suc_upt [symmetric] del: upt_Suc)
  have all: "(\<forall>k < length (n # sh). (n # sh) ! k = output ! (m + k + rank_diff) \<or> (n # sh) ! k = 1) \<longleftrightarrow>
    (n = output ! (m + rank_diff) \<or> n = 1) \<and>
    (\<forall>k < length sh. sh ! k = output ! (Suc m + k + rank_diff) \<or> sh ! k = 1)"
    by (auto simp: All_less_Suc2)
  show ?case
    using Cons.IH [of "Suc m"] Cons.prems
    unfolding upt fil all
    by (auto simp: input_plan_step_def Let_def o_def simp del: upt_Suc)
qed

lemma broadcast_input_plan_eq:
  assumes "length input \<le> length output"
  shows "broadcast_input_plan input output =
    (if broadcastable input output
     then let d = length output - length input;
              ks = filter (\<lambda>k. input ! k = output ! (k + d)) [0..<length input]
          in Ok \<lparr>bp_source_shape = map (\<lambda>k. input ! k) ks, bp_dims = map (\<lambda>k. k + d) ks\<rparr>
     else Err (IncompatibleInput input output))"
proof -
  let ?d = "length output - length input"
  have "broadcastable input output \<longleftrightarrow>
      (\<forall>k < length input. input ! k = output ! (k + ?d) \<or> input ! k = 1)"
  proof
    assume b: "broadcastable input output"
    show "\<forall>k < length input. input ! k = output ! (k + ?d) \<or> input ! k = 1"
    proof (intro allI impI)
      fix k
      assume "k < length input"
      then have "k + ?d < length output" using assms by simp
      with b have "aligned_dim input (length output) (k + ?d) = output ! (k + ?d) \<or>
        aligned_dim input (length output) (k + ?d) = 1" by (simp add: broadcastable_def)
      then show "input ! k = output ! (k + ?d) \<or> input ! k = 1" by (simp add: aligned_dim_def)
    qed
  next
    assume k: "\<forall>k < length input. input ! k = output ! (k + ?d) \<or> input ! k = 1"
    have "aligned_dim input (length output) a = output ! a \<or> aligned_dim input (length output) a = 1"
      if "a < length output" for a
    proof (cases "a < ?d")
      case True
      then show ?thesis by (simp add: aligned_dim_def)
    next
      case False
      then have "a - ?d < length input" "a - ?d + ?d = a" using that assms by auto
      with k have "input ! (a - ?d) = output ! a \<or> input ! (a - ?d) = 1" by metis
      with False show ?thesis by (simp add: aligned_dim_def)
    qed
    then show "broadcastable input output" using assms by (simp add: broadcastable_def)
  qed
  then show ?thesis
    using assms input_plan_fold [of ?d 0 input "output" input "[]" "[]"]
    by (simp add: broadcast_input_plan_def Let_def)
qed

text \<open>A plan is a valid \<open>BroadcastInDim\<close>: its axes ascend and every extent it keeps is the
  output's own.\<close>

lemma input_plan_valid:
  assumes "broadcast_input_plan input output = Ok p"
  shows "broadcastable input output" and "length (bp_source_shape p) = length (bp_dims p)"
    and "sorted_wrt (<) (bp_dims p)" and "set (bp_dims p) \<subseteq> {..<length output}"
    and "map (\<lambda>a. output ! a) (bp_dims p) = bp_source_shape p"
proof -
  have le: "length input \<le> length output"
    using assms by (auto simp: broadcast_input_plan_def split: if_splits)
  let ?d = "length output - length input"
  let ?ks = "filter (\<lambda>k. input ! k = output ! (k + ?d)) [0..<length input]"
  from assms broadcast_input_plan_eq [OF le] have b: "broadcastable input output"
    and p: "p = \<lparr>bp_source_shape = map (\<lambda>k. input ! k) ?ks, bp_dims = map (\<lambda>k. k + ?d) ?ks\<rparr>"
    by (auto simp: Let_def split: if_splits)
  show "broadcastable input output" by (rule b)
  show "length (bp_source_shape p) = length (bp_dims p)" by (simp add: p)
  have "sorted_wrt (<) ?ks" by (rule sorted_wrt_filter) simp
  then show "sorted_wrt (<) (bp_dims p)" by (simp add: p sorted_wrt_map)
  show "set (bp_dims p) \<subseteq> {..<length output}" using le by (auto simp: p)
  show "map (\<lambda>a. output ! a) (bp_dims p) = bp_source_shape p" by (auto simp: p)
qed

section \<open>Axes and reductions\<close>

lemma normalize_axis_Ok:
  "normalize_axis axis rank = Ok n \<longleftrightarrow>
    n < rank \<and> int n = (if 0 \<le> axis then axis else int rank + axis)"
  by (auto simp: normalize_axis_def)

lemma normalize_axis_Err:
  "(\<exists>e. normalize_axis axis rank = Err e) \<longleftrightarrow> \<not> (- int rank \<le> axis \<and> axis < int rank)"
  by (auto simp: normalize_axis_def)

lemma seen_update:
  assumes "\<forall>a < length seen. seen ! a \<longleftrightarrow> a \<in> A" and "n < length seen"
  shows "\<forall>a < length (seen[n := True]). (seen[n := True]) ! a \<longleftrightarrow> a \<in> insert n A"
  using assms by (simp add: nth_list_update)

lemma normalize_axes_fold:
  assumes "try_fold (normalize_axes_step rank) (seen, out) axes = Ok (seen', out')"
    and "length seen = rank" and "\<forall>a < length seen. seen ! a \<longleftrightarrow> a \<in> set out" and "distinct out"
  shows "distinct out' \<and> (\<exists>ns. out' = out @ ns \<and> list_all2 (\<lambda>x n. normalize_axis x rank = Ok n) axes ns)"
  using assms
proof (induction axes arbitrary: seen out)
  case Nil
  then show ?case by simp
next
  case (Cons x axes)
  from Cons.prems(1) obtain s1 where step: "normalize_axes_step rank (seen, out) x = Ok s1"
    and tail: "try_fold (normalize_axes_step rank) s1 axes = Ok (seen', out')" by auto
  from step obtain n where n: "normalize_axis x rank = Ok n" "\<not> seen ! n"
    and s1: "s1 = (seen[n := True], out @ [n])"
    by (auto simp: normalize_axes_step_def split: if_splits)
  have lt: "n < length seen" using n(1) Cons.prems(2) by (simp add: normalize_axis_Ok)
  have seen: "\<forall>a < length (seen[n := True]). (seen[n := True]) ! a \<longleftrightarrow> a \<in> set (out @ [n])"
    using seen_update [OF Cons.prems(3) lt] by simp
  have "n \<notin> set out" using n(2) lt Cons.prems(3) by blast
  then have "distinct (out @ [n])" using Cons.prems(4) by simp
  with Cons.IH [OF tail [unfolded s1] _ seen] Cons.prems(2) obtain ns where
    "distinct out'" "out' = (out @ [n]) @ ns" "list_all2 (\<lambda>x n. normalize_axis x rank = Ok n) axes ns"
    by auto
  then show ?case using n(1) by (intro conjI exI [of _ "n # ns"]) auto
qed

lemma normalize_axes_Ok:
  assumes "normalize_axes axes rank = Ok ns"
  shows "distinct ns" and "set ns \<subseteq> {..<rank}"
    and "list_all2 (\<lambda>x n. normalize_axis x rank = Ok n) axes ns"
proof -
  from assms obtain seen where "try_fold (normalize_axes_step rank) (replicate rank False, []) axes = Ok (seen, ns)"
    by (auto simp: normalize_axes_def)
  from normalize_axes_fold [OF this] show d: "distinct ns"
    and l: "list_all2 (\<lambda>x n. normalize_axis x rank = Ok n) axes ns" by auto
  from l show "set ns \<subseteq> {..<rank}"
    by (auto simp: list_all2_conv_all_nth in_set_conv_nth normalize_axis_Ok)
qed

lemma reduced_fold:
  assumes "try_fold (reduced_step rank) reduced axes = Ok reduced'"
    and "length reduced = rank" and "\<forall>a < length reduced. reduced ! a \<longleftrightarrow> a \<in> A"
  shows "length reduced' = rank \<and> distinct axes \<and> set axes \<subseteq> {..<rank} - A \<and>
    (\<forall>a < rank. reduced' ! a \<longleftrightarrow> a \<in> A \<union> set axes)"
  using assms
proof (induction axes arbitrary: reduced A)
  case Nil
  then show ?case by simp
next
  case (Cons x axes)
  from Cons.prems(1) obtain s1 where step: "reduced_step rank reduced x = Ok s1"
    and tail: "try_fold (reduced_step rank) s1 axes = Ok reduced'" by auto
  from step have x: "x < rank" "\<not> reduced ! x" and s1: "s1 = reduced[x := True]"
    by (auto simp: reduced_step_def split: if_splits)
  have lt: "x < length reduced" using x(1) Cons.prems(2) by simp
  have "x \<notin> A" using x(2) lt Cons.prems(3) by blast
  moreover from Cons.IH [OF tail [unfolded s1] _ seen_update [OF Cons.prems(3) lt]] Cons.prems(2)
  have "length reduced' = rank \<and> distinct axes \<and> set axes \<subseteq> {..<rank} - insert x A \<and>
    (\<forall>a < rank. reduced' ! a \<longleftrightarrow> a \<in> insert x A \<union> set axes)" by simp
  ultimately show ?case using x(1) by auto
qed

lemma keep_axes_filter:
  "length reduced = length sh \<Longrightarrow>
    keep_axes False reduced sh = map (\<lambda>k. sh ! k) (filter (\<lambda>k. \<not> reduced ! k) [0..<length sh])"
proof (induction reduced sh rule: list_induct2)
  case Nil
  then show ?case by simp
next
  case (Cons r rs n sh)
  have "filter (\<lambda>k. \<not> (r # rs) ! k) [0..<length (n # sh)] =
    (if r then [] else [0]) @ map Suc (filter (\<lambda>k. \<not> rs ! k) [0..<length sh])"
    by (simp add: upt_conv_Cons filter_map o_def map_Suc_upt [symmetric] del: upt_Suc)
  then show ?case using Cons by (simp add: o_def del: upt_Suc)
qed

lemma keep_axes_keepdims:
  "length reduced = length sh \<Longrightarrow>
    keep_axes True reduced sh = map (\<lambda>(r, n). if r then 1 else n) (zip reduced sh)"
  by (induction reduced sh rule: list_induct2) auto

lemma reduced_shape_Ok:
  assumes "reduced_shape sh axes keepdims = Ok out"
  shows "distinct axes \<and> set axes \<subseteq> {..<length sh}"
    and "keepdims \<Longrightarrow> out = map (\<lambda>k. if k \<in> set axes then 1 else sh ! k) [0..<length sh]"
    and "\<not> keepdims \<Longrightarrow> out = map (\<lambda>k. sh ! k) (filter (\<lambda>k. k \<notin> set axes) [0..<length sh])"
proof -
  from assms obtain reduced where
    f: "try_fold (reduced_step (length sh)) (replicate (length sh) False) axes = Ok reduced"
    and out: "out = keep_axes keepdims reduced sh" by (auto simp: reduced_shape_def)
  from reduced_fold [OF f, of "{}"] have len: "length reduced = length sh"
    and ax: "distinct axes \<and> set axes \<subseteq> {..<length sh}"
    and r: "\<forall>a < length sh. reduced ! a \<longleftrightarrow> a \<in> set axes" by auto
  show "distinct axes \<and> set axes \<subseteq> {..<length sh}" by (rule ax)
  show "out = map (\<lambda>k. if k \<in> set axes then 1 else sh ! k) [0..<length sh]" if keepdims
    using that out len r keep_axes_keepdims [OF len] by (auto intro!: nth_equalityI)
  show "out = map (\<lambda>k. sh ! k) (filter (\<lambda>k. k \<notin> set axes) [0..<length sh])" if "\<not> keepdims"
    using that out len r keep_axes_filter [OF len]
    by (auto intro!: arg_cong [of _ _ "map _"] filter_cong)
qed

lemma primal_root_user: "\<exists>i. primal_root k = User i"
  by (induction k) auto

end
