(* ===== verification/Shape_Theorems.thy ===== *)
theory Shape_Theorems
  imports Solver_Correct Shape_Rules
begin

text \<open>
  What the symbolic-shape layer promises: the shape-constraint solver of \<open>tenferro-runtime\<close>
  turns the recorded equalities into equivalent guards or reports a real contradiction, symbolic
  and concrete dimension expressions evaluate alike, and the shape rules of
  \<open>tenferro-shape-rules\<close> compute the least common broadcast shape, the plan that realises it and
  the reduced shape.
\<close>

section \<open>The constraint solver\<close>

text \<open>C1: The guards \<open>discharge\<close> produces are equivalent to the recorded constraints: on every
  tuple of concrete input shapes all guards evaluate to success exactly when every constraint's two
  sides evaluate to the same extent.\<close>

theorem discharge_guards_equivalent:
  assumes "discharge cs = Ok gs" and "\<forall>c \<in> set cs. constraint_ok c" and "shapes_ok shapes"
  shows "(\<forall>g \<in> set gs. guard_evaluate g shapes = Ok ()) \<longleftrightarrow> satisfied shapes cs"
  using discharge_Ok [OF assms] by (simp add: guard_evaluate_Ok)

definition sample_source :: constraint_source where
  "sample_source = \<lparr>cs_family = ''add'', cs_instruction = Some 3\<rparr>"

definition sample_constraint :: "dim_expr \<Rightarrow> dim_expr \<Rightarrow> local_constraint" where
  "sample_constraint l r = \<lparr>lc_source = sample_source, lc_relation = Equal, lc_lhs = l, lc_rhs = r\<rparr>"

lemma sample_discharge:
  "discharge [sample_constraint (InputDim 0 0) (InputDim 1 0), sample_constraint (InputDim 1 0) (Const 4)] =
    Ok [\<lparr>g_source = sample_source, g_relation = Equal, g_lhs = Const 4, g_rhs = InputDim 0 0\<rparr>,
        \<lparr>g_source = sample_source, g_relation = Equal, g_lhs = InputDim 0 0, g_rhs = InputDim 1 0\<rparr>]"
  by code_simp

theorem discharge_guards_equivalent_witness:
  "satisfied [[4], [4, 9]]
     [sample_constraint (InputDim 0 0) (InputDim 1 0), sample_constraint (InputDim 1 0) (Const 4)]"
proof -
  let ?cs = "[sample_constraint (InputDim 0 0) (InputDim 1 0), sample_constraint (InputDim 1 0) (Const 4)]"
  have c: "\<forall>c \<in> set ?cs. constraint_ok c"
    by (simp add: constraint_ok_def sample_constraint_def usize_ok_def usize_max_def)
  have s: "shapes_ok [[4], [4, 9]]" by (simp add: shapes_ok_def usize_ok_def usize_max_def)
  have "guard_evaluate g [[4], [4, 9]] = Ok ()"
    if "g_lhs g = Const 4 \<and> g_rhs g = InputDim 0 0 \<or> g_lhs g = InputDim 0 0 \<and> g_rhs g = InputDim 1 0" for g
    using that by (auto simp: guard_evaluate_Ok guard_holds_def holds_def ev_def get_def)
  then show ?thesis
    using discharge_guards_equivalent [OF sample_discharge c s] by (metis (no_types, lifting)
      empty_iff list.set(1) set_ConsD shape_guard.select_convs(3,4))
qed

text \<open>C2: \<open>discharge\<close> reports an error only for constraints that no concrete input shapes can
  satisfy, so a program is never rejected for shapes it could run on.\<close>

theorem discharge_error_unsatisfiable:
  assumes "discharge cs = Err e" and "\<forall>c \<in> set cs. constraint_ok c" and "shapes_ok shapes"
  shows "\<not> satisfied shapes cs"
  by (rule discharge_Err [OF assms])

theorem discharge_error_unsatisfiable_witness:
  "\<not> satisfied [[4]] [sample_constraint (InputDim 0 0) (Const 3), sample_constraint (InputDim 0 0) (Const 4)]"
proof -
  let ?cs = "[sample_constraint (InputDim 0 0) (Const 3), sample_constraint (InputDim 0 0) (Const 4)]"
  have "is_ok (discharge ?cs) = False" by code_simp
  then obtain e where e: "discharge ?cs = Err e" by (cases "discharge ?cs") simp_all
  have c: "\<forall>c \<in> set ?cs. constraint_ok c"
    by (simp add: constraint_ok_def sample_constraint_def usize_ok_def usize_max_def)
  have s: "shapes_ok [[4]]" by (simp add: shapes_ok_def usize_ok_def usize_max_def)
  show ?thesis by (rule discharge_error_unsatisfiable [OF e c s])
qed

text \<open>The union-find of the solver answers with the least symbol that the recorded equalities
  force to be equal, whatever order they were recorded in, and \<open>flatten\<close> makes every lookup one
  step without changing an answer.\<close>

theorem representative_is_least:
  fixes eqs :: "(symbol \<times> symbol) list"
  shows "representative (unions [] eqs) s = (LEAST t. \<forall>v :: symbol \<Rightarrow> bool. (\<forall>(a, b) \<in> set eqs. v a = v b) \<longrightarrow> v s = v t) \<and>
    parent (flatten (unions [] eqs)) s = representative (unions [] eqs) s"
proof -
  have inv: "ss_invar (unions [] eqs)" by (rule conjunct1 [OF unions_spec [OF ss_invar_Nil]])
  have "constant_along (unions [] eqs) v \<longleftrightarrow> (\<forall>(a, b) \<in> set eqs. v a = v b)" for v :: "symbol \<Rightarrow> bool"
    using unions_spec [of "[]" eqs v] by simp
  then show ?thesis using representative_least [OF inv, of s] flatten_spec(3) [OF inv] by simp
qed

theorem representative_is_least_witness:
  "parent (flatten (unions [] [((2 :: nat, 0 :: nat), (1, 1)), ((0, 0), (2, 0))])) (1, 1) =
    representative (unions [] [((2, 0), (1, 1)), ((0, 0), (2, 0))]) (1, 1)"
  using representative_is_least by blast

section \<open>Symbolic dimensions\<close>

text \<open>C27: Lowering a symbolic dimension to an expression over program inputs succeeds exactly when
  every tensor it mentions is an input, and the expression then evaluates to the dimension's value
  on every tuple of input shapes.\<close>

theorem to_dim_expr_correct:
  "((\<exists>e. raw_to_dim_expr s m = Ok e) \<longleftrightarrow> sym_tensors s \<subseteq> dom (map_of m)) \<and>
    (\<forall>e shapes. raw_to_dim_expr s m = Ok e \<longrightarrow>
      ok (eval e shapes) = sym_eval (\<lambda>t. Option.bind (map_of m t) (get shapes)) s)"
  using to_dim_expr_total to_dim_expr_eval by blast

theorem to_dim_expr_correct_witness:
  "raw_to_dim_expr (SAdd (TensorAxis 9 1) (SConst 2)) [(9, 0)] = Ok (Add (InputDim 0 1) (Const 2)) \<and>
    ok (eval (Add (InputDim 0 1) (Const 2)) [[3, 5]]) = Some 7"
proof -
  have e: "raw_to_dim_expr (SAdd (TensorAxis 9 1) (SConst 2)) [(9, 0)] = Ok (Add (InputDim 0 1) (Const 2))"
    by (simp add: seq2_def)
  have "ok (eval (Add (InputDim 0 1) (Const 2)) [[3, 5]]) =
      sym_eval (\<lambda>t. Option.bind (map_of [(9, 0)] t) (get [[3, 5]])) (SAdd (TensorAxis 9 1) (SConst 2))"
    using to_dim_expr_correct [of "SAdd (TensorAxis 9 1) (SConst 2)" "[(9, 0)]"] e by blast
  with e show ?thesis by (simp add: both_def get_def checked_add_def usize_max_def)
qed

text \<open>The axes of inputs an expression mentions.\<close>

fun input_dims :: "dim_expr \<Rightarrow> (nat \<times> nat) set" where
  "input_dims (Const v) = {}"
| "input_dims (InputDim i a) = {(i, a)}"
| "input_dims (Add a b) = input_dims a \<union> input_dims b"
| "input_dims (Sub a b) = input_dims a \<union> input_dims b"
| "input_dims (Mul a b) = input_dims a \<union> input_dims b"
| "input_dims (FloorDiv a b) = input_dims a \<union> input_dims b"
| "input_dims (Min a b) = input_dims a \<union> input_dims b"
| "input_dims (Max a b) = input_dims a \<union> input_dims b"

lemma from_dim_expr_total:
  "(\<exists>s. from_dim_expr e sshapes = Some s) \<longleftrightarrow>
    (\<forall>d \<in> input_dims e. fst d < length sshapes \<and> snd d < length (sshapes ! fst d))"
proof (induction e)
  case (InputDim i a)
  then show ?case by (auto simp: get_def)
qed (simp_all add: lift2_def bind_eq_Some_conv ball_Un, blast+)

text \<open>C40: Substituting symbolic input shapes into a dimension expression succeeds exactly when every input axis it
  mentions exists, and then commutes with evaluation: under every assignment of the tensors' extents, the
  symbolic dimension has the value the expression has on the concrete shapes the symbols stand for.\<close>

theorem from_dim_expr_commutes:
  "((\<exists>s. from_dim_expr e sshapes = Some s) \<longleftrightarrow>
      (\<forall>d \<in> input_dims e. fst d < length sshapes \<and> snd d < length (sshapes ! fst d))) \<and>
    (\<forall>s env cshapes. from_dim_expr e sshapes = Some s \<longrightarrow>
      list_all2 (list_all2 (\<lambda>d n. sym_eval env d = Some n)) sshapes cshapes \<longrightarrow>
      sym_eval env s = ok (eval e cshapes))"
  using from_dim_expr_total from_dim_expr_eval by blast

theorem from_dim_expr_commutes_witness:
  "sym_eval (\<lambda>_. Some [6]) (SMul (TensorAxis 3 0) (SConst 2)) = ok (eval (Mul (InputDim 0 0) (Const 2)) [[6]])"
proof -
  have "from_dim_expr (Mul (InputDim 0 0) (Const 2)) [[TensorAxis 3 0]] = Some (SMul (TensorAxis 3 0) (SConst 2))"
    by (simp add: lift2_def get_def)
  moreover have "list_all2 (list_all2 (\<lambda>d n. sym_eval (\<lambda>_. Some [6]) d = Some n)) [[TensorAxis 3 0]] [[6]]"
    by (simp add: get_def)
  ultimately show ?thesis
    using from_dim_expr_commutes [of "Mul (InputDim 0 0) (Const 2)" "[[TensorAxis 3 0]]"] by blast
qed

text \<open>An expression whose largest input index is available never fails for a missing input, and
  its value always fits in \<open>usize\<close>.\<close>

theorem eval_in_range:
  assumes "\<forall>i. max_input_idx e = Some i \<longrightarrow> i < length shapes"
  shows "eval e shapes \<noteq> Err (InputOutOfBounds i n) \<and>
    (eval e shapes = Ok v \<longrightarrow> consts_ok e \<longrightarrow> (\<forall>sh \<in> set shapes. \<forall>n \<in> set sh. usize_ok n) \<longrightarrow> usize_ok v)"
proof -
  have "\<forall>i \<in> inputs_of e. i < length shapes"
    using assms Lattices_Big.Max_ge [OF finite_inputs_of, of _ e]
    by (auto simp: max_input_idx_Max split: if_splits intro: le_less_trans)
  then show ?thesis using eval_no_missing_input eval_usize by blast
qed

theorem eval_in_range_witness:
  "eval (Add (InputDim 0 0) (InputDim 1 0)) [[3], [4]] \<noteq> Err (InputOutOfBounds 1 2)"
proof -
  have "\<forall>i. max_input_idx (Add (InputDim 0 0) (InputDim 1 0)) = Some i \<longrightarrow> i < length [[3], [4 :: nat]]"
    by (simp add: max_opt_def)
  from eval_in_range [OF this] show ?thesis by blast
qed

section \<open>Broadcasting and reduction\<close>

text \<open>C15: \<open>broadcast_shapes\<close> computes the least common broadcast: it succeeds exactly when the
  inputs have a common broadcast shape, and its result broadcasts to precisely the shapes every
  input broadcasts to.\<close>

theorem broadcast_shapes_least:
  "(is_ok (broadcast_shapes shs) \<longleftrightarrow> (\<exists>c. \<forall>sh \<in> set shs. broadcastable sh c)) \<and>
    (\<forall>out. broadcast_shapes shs = Ok out \<longrightarrow>
      (\<forall>c. broadcastable out c \<longleftrightarrow> (\<forall>sh \<in> set shs. broadcastable sh c)))"
proof -
  have "\<forall>sh \<in> set shs. broadcastable sh out" if "broadcast_shapes shs = Ok out" for out
    using broadcast_shapes_lub [OF that, of out] by simp
  then show ?thesis
    using broadcast_shapes_lub broadcast_shapes_exists by (fastforce simp: is_ok_iff)
qed

theorem broadcast_shapes_least_witness:
  "broadcast_shapes [[3, 1], [4], [2, 1, 1]] = Ok [2, 3, 4] \<and> broadcastable [4] [2, 3, 4]"
proof -
  have b: "broadcast_shapes [[3, 1], [4], [2, 1, 1]] = Ok [2, 3, 4]" by code_simp
  have "broadcastable [2, 3, 4] [2, 3, 4]" by simp
  then have "\<forall>sh \<in> set [[3, 1], [4], [2, 1, 1]]. broadcastable sh [2, 3, 4]"
    using broadcast_shapes_least [of "[[3, 1], [4], [2, 1, 1]]"] b by blast
  with b show ?thesis by simp
qed

text \<open>The broadcast shape does not depend on the order of the inputs.\<close>

theorem broadcast_shapes_permutation:
  assumes "set shs = set shs'" and "broadcast_shapes shs = Ok out"
  shows "broadcast_shapes shs' = Ok out"
proof -
  have le: "broadcastable out c \<longleftrightarrow> (\<forall>sh \<in> set shs'. broadcastable sh c)" for c
    using broadcast_shapes_lub [OF assms(2), of c] assms(1) by simp
  then have "\<forall>sh \<in> set shs'. broadcastable sh out" by (metis broadcastable_refl)
  then obtain out' where out': "broadcast_shapes shs' = Ok out'" using broadcast_shapes_exists by blast
  have "broadcastable out c \<longleftrightarrow> broadcastable out' c" for c
    using le broadcast_shapes_lub [OF out', of c] by simp
  then have "out = out'" by (metis broadcastable_antisym broadcastable_refl)
  with out' show ?thesis by simp
qed

theorem broadcast_shapes_permutation_witness:
  "broadcast_shapes [[2, 1, 1], [4], [3, 1]] = Ok [2, 3, 4]"
proof (rule broadcast_shapes_permutation)
  show "set [[3, 1], [4], [2, 1, 1 :: nat]] = set [[2, 1, 1], [4], [3, 1]]" by auto
  show "broadcast_shapes [[3, 1], [4], [2, 1, 1]] = Ok [2, 3, 4]" by code_simp
qed

text \<open>The input plan of a broadcast exists exactly for broadcastable inputs, keeps the axes of
  the input that are not stretched, and sends them in order to output axes of the same extent.\<close>

theorem broadcast_input_plan_valid:
  assumes "length input \<le> length out"
  shows "(is_ok (broadcast_input_plan input out) \<longleftrightarrow> broadcastable input out) \<and>
    (\<forall>p. broadcast_input_plan input out = Ok p \<longrightarrow>
      length (bp_source_shape p) = length (bp_dims p) \<and> sorted_wrt (<) (bp_dims p) \<and>
      set (bp_dims p) \<subseteq> {..<length out} \<and> map (\<lambda>a. out ! a) (bp_dims p) = bp_source_shape p)"
proof
  show "is_ok (broadcast_input_plan input out) \<longleftrightarrow> broadcastable input out"
    by (simp add: broadcast_input_plan_eq [OF assms] Let_def)
qed (use input_plan_valid in blast)

theorem broadcast_input_plan_valid_witness:
  "broadcast_input_plan [3, 1] [2, 3, 4] = Ok \<lparr>bp_source_shape = [3], bp_dims = [1]\<rparr> \<and>
    map (\<lambda>a. [2, 3, 4] ! a) [1] = [3 :: nat]"
proof -
  have p: "broadcast_input_plan [3, 1] [2, 3, 4] = Ok \<lparr>bp_source_shape = [3], bp_dims = [1]\<rparr>" by code_simp
  have "length [3, 1 :: nat] \<le> length [2, 3, 4 :: nat]" by simp
  from broadcast_input_plan_valid [OF this] p show ?thesis by force
qed

text \<open>Axis lists are normalised to distinct in-range axes, negative ones counted from the end;
  any out-of-range axis makes the whole list an error.\<close>

theorem normalize_axes_correct:
  assumes "normalize_axes axes rank = Ok ns"
  shows "distinct ns \<and> set ns \<subseteq> {..<rank} \<and>
    list_all2 (\<lambda>x n. int n = (if 0 \<le> x then x else int rank + x)) axes ns"
  using normalize_axes_Ok [OF assms] by (auto simp: normalize_axis_Ok elim: list_all2_mono)

theorem normalize_axes_correct_witness: "set [2, 0 :: nat] \<subseteq> {..<3}"
proof -
  have "normalize_axes [- 1, 0] 3 = Ok [2, 0]" by code_simp
  from normalize_axes_correct [OF this] show ?thesis by blast
qed

text \<open>The reduced shape drops exactly the reduced axes, or keeps them with extent one.\<close>

theorem reduced_shape_correct:
  assumes "reduced_shape sh axes keepdims = Ok out"
  shows "out = (if keepdims then map (\<lambda>k. if k \<in> set axes then 1 else sh ! k) [0..<length sh]
                else map (\<lambda>k. sh ! k) (filter (\<lambda>k. k \<notin> set axes) [0..<length sh])) \<and>
    distinct axes \<and> set axes \<subseteq> {..<length sh}"
  using reduced_shape_Ok [OF assms] by simp

theorem reduced_shape_correct_witness: "distinct [0, 2 :: nat] \<and> set [0, 2 :: nat] \<subseteq> {..<3}"
proof -
  have "reduced_shape [2, 3, 4] [0, 2] True = Ok [1, 3, 1]" by code_simp
  from reduced_shape_correct [OF this] show ?thesis by (simp add: eval_nat_numeral)
qed

end
