(* ===== verification/Buffer_Pool.thy ===== *)
theory Buffer_Pool
  imports Ordered_Map
begin

text \<open>
  The typed host buffer pool of \<open>crates/tenferro-cpu-basic/src/buffer_pool.rs\<close>: capacity bins
  per scalar type, the retained-bytes accounting, eviction down to the retention cap, and the
  in-flight counters.  The seven \<open>*_pool\<close> and \<open>*_in_flight\<close> fields are functions of the scalar
  kind, as the macro that generates their code treats them.  \<open>alloc\<close> is the allocator:
  the capacity it grants for a request, or \<open>None\<close>.
\<close>

section \<open>State\<close>

datatype pool_kind = PF64 | PF32 | PI32 | PI64 | PBool | PC64 | PC32

definition POOL_KINDS :: "pool_kind list" where
  "POOL_KINDS = [PF64, PF32, PI32, PI64, PBool, PC64, PC32]"

text \<open>\<open>size_of\<close> of the scalar types.\<close>

fun elem_size :: "pool_kind \<Rightarrow> nat" where
  "elem_size PF64 = 8" | "elem_size PF32 = 4" | "elem_size PI32 = 4" | "elem_size PI64 = 8"
| "elem_size PBool = 1" | "elem_size PC64 = 16" | "elem_size PC32 = 8"

record 'a buf =
  b_elems :: "'a list"
  b_capacity :: nat

type_synonym 'a bins = "(nat, 'a buf list) btree_map"

record 'a pool_state =
  ps_bins :: "pool_kind \<Rightarrow> 'a bins"
  ps_in_flight :: "pool_kind \<Rightarrow> (nat, nat) btree_map"
  ps_retained :: nat
  ps_max :: nat

datatype checkout_token = Fresh nat | Reused nat

datatype pool_error = CapacityBytesOverflow | AllocationFailed

definition DEFAULT_MAX_RETAINED_CAPACITY_BYTES :: nat where
  "DEFAULT_MAX_RETAINED_CAPACITY_BYTES = 104857600"

definition new_pool :: "nat \<Rightarrow> 'a pool_state" where
  "new_pool cap = \<lparr>ps_bins = (\<lambda>_. []), ps_in_flight = (\<lambda>_. []), ps_retained = 0, ps_max = cap\<rparr>"

definition unbounded :: "'a pool_state" where
  "unbounded = new_pool usize_max"

definition wrapping_sub :: "nat \<Rightarrow> nat \<Rightarrow> nat" where
  "wrapping_sub a b = (a + (usize_max + 1) - b) mod (usize_max + 1)"

section \<open>One typed pool\<close>

fun take_best_fit :: "'a bins \<Rightarrow> nat \<Rightarrow> ('a buf \<times> 'a bins) option" where
  "take_best_fit [] len = None"
| "take_best_fit ((cap, vecs) # rest) len =
    (if len \<le> cap \<and> vecs \<noteq> [] then Some (last vecs, (cap, butlast vecs) # rest)
     else map_option (\<lambda>(b, m). (b, (cap, vecs) # m)) (take_best_fit rest len))"

definition pool_len :: "'a bins \<Rightarrow> nat" where
  "pool_len m = sum_list (map (\<lambda>(_, vecs). length vecs) m)"

fun evict_one_from_pool :: "nat \<Rightarrow> 'a bins \<Rightarrow> (nat \<times> 'a bins) option" where
  "evict_one_from_pool sz [] = None"
| "evict_one_from_pool sz ((cap, vecs) # rest) =
    (if vecs \<noteq> []
     then Some (saturating_mul cap sz, if butlast vecs = [] then rest else (cap, butlast vecs) # rest)
     else map_option (\<lambda>(n, m). (n, (cap, vecs) # m)) (evict_one_from_pool sz rest))"

definition smallest_pool_candidate :: "'a bins \<Rightarrow> pool_kind \<Rightarrow> (nat \<times> pool_kind) option" where
  "smallest_pool_candidate m kind =
    map_option (\<lambda>(cap, _). (saturating_mul cap (elem_size kind), kind)) (find (\<lambda>(_, vecs). vecs \<noteq> []) m)"

definition increment_in_flight :: "nat \<Rightarrow> (nat, nat) btree_map \<Rightarrow> (nat, nat) btree_map" where
  "increment_in_flight cap m = (if 0 < cap then bt_update cap 0 Suc m else m)"

definition decrement_in_flight :: "nat \<Rightarrow> (nat, nat) btree_map \<Rightarrow> (nat, nat) btree_map" where
  "decrement_in_flight cap m =
    (if cap = 0 then m
     else case bt_get m cap of None \<Rightarrow> m | Some n \<Rightarrow> bt_insert cap (saturating_sub n 1) m)"

definition push_buf :: "nat \<Rightarrow> 'a buf \<Rightarrow> 'a bins \<Rightarrow> 'a bins" where
  "push_buf cap b m = bt_update cap [] (\<lambda>vecs. vecs @ [b]) m"

fun replenish_count ::
  "(nat \<Rightarrow> nat option) \<Rightarrow> nat \<Rightarrow> nat \<Rightarrow> nat \<Rightarrow> 'a bins \<times> nat \<Rightarrow> 'a bins \<times> nat" where
  "replenish_count alloc sz cap 0 st = st"
| "replenish_count alloc sz cap (Suc n) st =
    replenish_count alloc sz cap n
      (case alloc cap of
         None \<Rightarrow> st
       | Some actual \<Rightarrow>
           (push_buf actual \<lparr>b_elems = [], b_capacity = actual\<rparr> (fst st),
            saturating_add (snd st) (saturating_mul actual sz)))"

definition replenish_in_flight_for ::
  "(nat \<Rightarrow> nat option) \<Rightarrow> nat \<Rightarrow> 'a bins \<Rightarrow> (nat, nat) btree_map \<Rightarrow> nat \<Rightarrow> 'a bins \<times> nat" where
  "replenish_in_flight_for alloc sz m in_flight retained =
    foldl (\<lambda>st (cap, n). replenish_count alloc sz cap n st) (m, retained) in_flight"

section \<open>Eviction\<close>

text \<open>\<open>min_by_key\<close>: the first of the candidates with the fewest bytes.\<close>

fun min_candidate :: "(nat \<times> pool_kind) list \<Rightarrow> (nat \<times> pool_kind) option" where
  "min_candidate [] = None"
| "min_candidate (c # cs) =
    (case min_candidate cs of None \<Rightarrow> Some c | Some d \<Rightarrow> (if fst c \<le> fst d then Some c else Some d))"

definition candidates :: "'a pool_state \<Rightarrow> (nat \<times> pool_kind) list" where
  "candidates st = List.map_filter (\<lambda>k. smallest_pool_candidate (ps_bins st k) k) POOL_KINDS"

definition evict_smallest_retained_buffer :: "'a pool_state \<Rightarrow> (nat \<times> 'a pool_state) option" where
  "evict_smallest_retained_buffer st =
    Option.bind (min_candidate (candidates st)) (\<lambda>(_, kind).
      map_option (\<lambda>(n, m). (n, st\<lparr>ps_bins := (ps_bins st)(kind := m)\<rparr>))
        (evict_one_from_pool (elem_size kind) (ps_bins st kind)))"

definition pool_count :: "'a pool_state \<Rightarrow> nat" where
  "pool_count st = sum_list (map (\<lambda>k. pool_len (ps_bins st k)) POOL_KINDS)"

lemma evict_one_len: "evict_one_from_pool sz m = Some (n, m') \<Longrightarrow> pool_len m = Suc (pool_len m')"
proof (induction sz m arbitrary: n m' rule: evict_one_from_pool.induct)
  case (1 sz)
  then show ?case by simp
next
  case (2 sz cap vecs rest)
  then show ?case by (cases vecs rule: rev_cases) (auto simp: pool_len_def split: if_splits)
qed

lemma set_POOL_KINDS: "set POOL_KINDS = (UNIV :: pool_kind set)"
proof -
  have "k \<in> set POOL_KINDS" for k by (cases k) (simp_all add: POOL_KINDS_def)
  then show ?thesis by auto
qed

lemma sum_POOL_KINDS:
  fixes f :: "pool_kind \<Rightarrow> nat"
  shows "sum_list (map f POOL_KINDS) = sum f UNIV"
proof -
  have "distinct POOL_KINDS" by (simp add: POOL_KINDS_def)
  then show ?thesis by (simp add: sum_list_distinct_conv_sum_set set_POOL_KINDS)
qed

lemma finite_pool_kind [simp]: "finite (UNIV :: pool_kind set)"
  by (metis List.finite_set set_POOL_KINDS)

lemma sum_kind_update:
  fixes f :: "pool_kind \<Rightarrow> 'b \<Rightarrow> nat"
  shows "(\<Sum>j \<in> UNIV. f j ((g(k := x)) j)) + f k (g k) = (\<Sum>j \<in> UNIV. f j (g j)) + f k x"
proof -
  have "(\<Sum>j \<in> UNIV - {k}. f j ((g(k := x)) j)) = (\<Sum>j \<in> UNIV - {k}. f j (g j))"
    by (rule sum.cong) auto
  then show ?thesis by (simp add: sum.remove [of UNIV k])
qed

lemma evict_smallest_count:
  assumes "evict_smallest_retained_buffer st = Some (n, st')"
  shows "pool_count st = Suc (pool_count st')"
proof -
  from assms obtain kind m where e: "evict_one_from_pool (elem_size kind) (ps_bins st kind) = Some (n, m)"
    and st': "st' = st\<lparr>ps_bins := (ps_bins st)(kind := m)\<rparr>"
    by (auto simp: evict_smallest_retained_buffer_def bind_eq_Some_conv)
  have "(\<Sum>j \<in> UNIV. pool_len (((ps_bins st)(kind := m)) j)) + pool_len (ps_bins st kind) =
      (\<Sum>j \<in> UNIV. pool_len (ps_bins st j)) + pool_len m"
    by (rule sum_kind_update)
  then show ?thesis using evict_one_len [OF e] by (simp add: pool_count_def sum_POOL_KINDS st')
qed

function enforce_retention_limit :: "'a pool_state \<Rightarrow> 'a pool_state" where
  "enforce_retention_limit st =
    (if ps_max st < ps_retained st then
       (case evict_smallest_retained_buffer st of
          None \<Rightarrow> st\<lparr>ps_retained := 0\<rparr>
        | Some (evicted, st') \<Rightarrow>
            if evicted = 0 then
              (if ps_retained st' = 0 then st'\<lparr>ps_retained := 0\<rparr> else enforce_retention_limit st')
            else enforce_retention_limit (st'\<lparr>ps_retained := saturating_sub (ps_retained st') evicted\<rparr>))
     else st)"
  by pat_completeness auto
termination
proof (relation "measure pool_count")
  show "wf (measure pool_count)" by simp
  show "(st', st) \<in> measure pool_count" if "evict_smallest_retained_buffer st = Some x" "(n, st') = x" for st x n st'
    using evict_smallest_count [of st n st'] that by simp
  show "(st'\<lparr>ps_retained := saturating_sub (ps_retained st') n\<rparr>, st) \<in> measure pool_count"
    if "evict_smallest_retained_buffer st = Some x" "(n, st') = x" for st x n st'
    using evict_smallest_count [of st n st'] that by (simp add: pool_count_def)
qed

declare enforce_retention_limit.simps [simp del]

section \<open>Operations of the pool\<close>

text \<open>\<open>recycle\<close>, \<open>pool_release\<close>, \<open>pool_acquire_zeroed\<close>, \<open>pool_acquire_uninit_tracked\<close>,
  \<open>pool_finish_recycled\<close> and \<open>pool_discard_uninit\<close>, for one scalar kind.  An unwritten element is
  \<open>None\<close>.\<close>

definition recycle :: "pool_kind \<Rightarrow> 'a buf \<Rightarrow> 'a pool_state \<Rightarrow> 'a pool_state" where
  "recycle k b st =
    (let cap = b_capacity b in
     if 0 < cap then
       enforce_retention_limit
         (st\<lparr>ps_retained := saturating_add (ps_retained st) (saturating_mul cap (elem_size k)),
             ps_bins := (ps_bins st)(k := push_buf cap b (ps_bins st k))\<rparr>)
     else st)"

definition pool_release :: "pool_kind \<Rightarrow> 'a buf \<Rightarrow> 'a pool_state \<Rightarrow> 'a pool_state" where
  "pool_release k b st =
    recycle k b
      (st\<lparr>ps_in_flight := (ps_in_flight st)(k := decrement_in_flight (b_capacity b) (ps_in_flight st k))\<rparr>)"

definition pool_acquire_zeroed ::
  "(nat \<Rightarrow> nat option) \<Rightarrow> 'a \<Rightarrow> pool_kind \<Rightarrow> nat \<Rightarrow> 'a pool_state \<Rightarrow> ('a buf \<times> 'a pool_state) option" where
  "pool_acquire_zeroed alloc zero k len st =
    (case take_best_fit (ps_bins st k) len of
       Some (b, m) \<Rightarrow>
         Some (\<lparr>b_elems = replicate len zero, b_capacity = b_capacity b\<rparr>,
           st\<lparr>ps_bins := (ps_bins st)(k := m),
              ps_retained := saturating_sub (ps_retained st) (saturating_mul (b_capacity b) (elem_size k)),
              ps_in_flight := (ps_in_flight st)(k := increment_in_flight (b_capacity b) (ps_in_flight st k))\<rparr>)
     | None \<Rightarrow>
         map_option (\<lambda>cap. (\<lparr>b_elems = replicate len zero, b_capacity = cap\<rparr>, st)) (alloc len))"

text \<open>The reuse branch takes the buffer out of its bin before the byte count is checked, so the error
  leaves the pool without it; \<open>-=\<close> is the wrapping subtraction of a release build.\<close>

definition pool_acquire_uninit_tracked ::
  "(nat \<Rightarrow> nat option) \<Rightarrow> pool_kind \<Rightarrow> nat \<Rightarrow> 'a pool_state \<Rightarrow>
   (pool_error + 'a option buf \<times> checkout_token) \<times> 'a pool_state" where
  "pool_acquire_uninit_tracked alloc k len st =
    (case take_best_fit (ps_bins st k) len of
       Some (b, m) \<Rightarrow>
         (let taken = st\<lparr>ps_bins := (ps_bins st)(k := m)\<rparr>; cap = b_capacity b in
          case checked_mul cap (elem_size k) of
            None \<Rightarrow> (Err CapacityBytesOverflow, taken)
          | Some bytes \<Rightarrow>
              (Ok (\<lparr>b_elems = replicate len None, b_capacity = cap\<rparr>, Reused cap),
               taken\<lparr>ps_retained := wrapping_sub (ps_retained st) bytes,
                     ps_in_flight := (ps_in_flight st)(k := increment_in_flight cap (ps_in_flight st k))\<rparr>))
     | None \<Rightarrow>
         (case alloc len of
            None \<Rightarrow> (Err AllocationFailed, st)
          | Some cap \<Rightarrow> (Ok (\<lparr>b_elems = replicate len None, b_capacity = cap\<rparr>, Fresh cap), st)))"

definition return_checkout :: "pool_kind \<Rightarrow> checkout_token \<Rightarrow> 'a pool_state \<Rightarrow> 'a pool_state" where
  "return_checkout k token st =
    (case token of
       Reused cap \<Rightarrow> st\<lparr>ps_in_flight := (ps_in_flight st)(k := decrement_in_flight cap (ps_in_flight st k))\<rparr>
     | Fresh _ \<Rightarrow> st)"

definition pool_finish_recycled :: "pool_kind \<Rightarrow> checkout_token \<Rightarrow> 'a pool_state \<Rightarrow> 'a pool_state" where
  "pool_finish_recycled k token st = return_checkout k token st"

definition pool_discard_uninit ::
  "pool_kind \<Rightarrow> 'a option buf \<Rightarrow> checkout_token \<Rightarrow> 'a pool_state \<Rightarrow> 'a pool_state" where
  "pool_discard_uninit k data token st = return_checkout k token st"

definition acquire_with_capacity ::
  "(nat \<Rightarrow> nat option) \<Rightarrow> pool_kind \<Rightarrow> nat \<Rightarrow> 'a pool_state \<Rightarrow> ('a option buf \<times> 'a pool_state) option" where
  "acquire_with_capacity alloc k cap st =
    (if cap = 0 then Some (\<lparr>b_elems = [], b_capacity = 0\<rparr>, st)
     else case pool_acquire_uninit_tracked alloc k cap st of
            (Inl _, _) \<Rightarrow> None
          | (Inr (b, _), st') \<Rightarrow> Some (b\<lparr>b_elems := []\<rparr>, st'))"

definition clear_in_flight_retained :: "'a pool_state \<Rightarrow> 'a pool_state" where
  "clear_in_flight_retained st = st\<lparr>ps_in_flight := (\<lambda>_. [])\<rparr>"

definition clear :: "'a pool_state \<Rightarrow> 'a pool_state" where
  "clear st = (clear_in_flight_retained (st\<lparr>ps_bins := (\<lambda>_. [])\<rparr>))\<lparr>ps_retained := 0\<rparr>"

definition replenish_kind :: "(nat \<Rightarrow> nat option) \<Rightarrow> 'a pool_state \<Rightarrow> pool_kind \<Rightarrow> 'a pool_state" where
  "replenish_kind alloc st k =
    (case replenish_in_flight_for alloc (elem_size k) (ps_bins st k) (ps_in_flight st k) (ps_retained st) of
       (m, retained) \<Rightarrow>
         st\<lparr>ps_bins := (ps_bins st)(k := m), ps_in_flight := (ps_in_flight st)(k := []),
            ps_retained := retained\<rparr>)"

definition replenish_in_flight_retained :: "(nat \<Rightarrow> nat option) \<Rightarrow> 'a pool_state \<Rightarrow> 'a pool_state" where
  "replenish_in_flight_retained alloc st =
    enforce_retention_limit (foldl (replenish_kind alloc) st POOL_KINDS)"

definition set_max_retained_capacity_bytes :: "nat \<Rightarrow> 'a pool_state \<Rightarrow> 'a pool_state" where
  "set_max_retained_capacity_bytes cap st = enforce_retention_limit (st\<lparr>ps_max := cap\<rparr>)"

record buffer_pool_stats =
  st_buffers :: nat
  st_capacity_bytes :: nat

definition stats :: "'a pool_state \<Rightarrow> buffer_pool_stats" where
  "stats st = \<lparr>st_buffers = pool_count st, st_capacity_bytes = ps_retained st\<rparr>"

definition pool_is_empty :: "'a pool_state \<Rightarrow> bool" where
  "pool_is_empty st = (st_buffers (stats st) = 0)"

definition in_flight_is_empty :: "'a pool_state \<Rightarrow> bool" where
  "in_flight_is_empty st = list_all (\<lambda>k. list_all (\<lambda>(_, n). n = 0) (ps_in_flight st k)) POOL_KINDS"

text \<open>\<open>parse_default_max_retained_capacity_bytes\<close>, with \<open>usize::from_str\<close>.\<close>

definition digit :: "char \<Rightarrow> nat option" where
  "digit c = (let n = of_char c :: nat in if 48 \<le> n \<and> n \<le> 57 then Some (n - 48) else None)"

fun parse_digits :: "nat \<Rightarrow> string \<Rightarrow> nat option" where
  "parse_digits acc [] = Some acc"
| "parse_digits acc (c # cs) =
    Option.bind (digit c) (\<lambda>d.
    Option.bind (checked_mul acc 10) (\<lambda>m.
    Option.bind (checked_add m d) (\<lambda>acc'. parse_digits acc' cs)))"

definition parse_usize :: "string \<Rightarrow> nat option" where
  "parse_usize s =
    (case s of
       [] \<Rightarrow> None
     | c # cs \<Rightarrow> (if c = CHR ''+'' then (if cs = [] then None else parse_digits 0 cs) else parse_digits 0 s))"

definition parse_default_max_retained_capacity_bytes :: "string option \<Rightarrow> nat" where
  "parse_default_max_retained_capacity_bytes value =
    (case Option.bind value parse_usize of None \<Rightarrow> DEFAULT_MAX_RETAINED_CAPACITY_BYTES | Some n \<Rightarrow> n)"

end
