(* ===== verification/Buffer_Pool_Correct.thy ===== *)
theory Buffer_Pool_Correct
  imports Buffer_Pool
begin

text \<open>
  Correctness of the buffer pool: the accounting invariant (every buffer lies in the bin of its
  capacity and the retained-bytes counter is the total of all retained capacities), which every
  operation preserves; the retention cap; best fit; eviction of a smallest buffer; the checkout
  counters.
\<close>

section \<open>The accounting invariant\<close>

definition bins_ok :: "'a bins \<Rightarrow> bool" where
  "bins_ok m \<longleftrightarrow> bt_invar m \<and> (\<forall>cap vecs. (cap, vecs) \<in> set m \<longrightarrow> (\<forall>b \<in> set vecs. b_capacity b = cap))"

definition bins_bytes :: "nat \<Rightarrow> 'a bins \<Rightarrow> nat" where
  "bins_bytes sz m = (\<Sum>(cap, vecs) \<leftarrow> m. cap * sz * length vecs)"

definition total_bytes :: "'a pool_state \<Rightarrow> nat" where
  "total_bytes st = (\<Sum>k \<in> UNIV. bins_bytes (elem_size k) (ps_bins st k))"

definition pool_inv :: "'a pool_state \<Rightarrow> bool" where
  "pool_inv st \<longleftrightarrow> (\<forall>k. bins_ok (ps_bins st k)) \<and> (\<forall>k. bt_invar (ps_in_flight st k)) \<and>
    ps_retained st = total_bytes st \<and> total_bytes st \<le> usize_max"

text \<open>How many buffers of a capacity are checked out, and retained.\<close>

definition checked_out :: "'a pool_state \<Rightarrow> pool_kind \<Rightarrow> nat \<Rightarrow> nat" where
  "checked_out st k cap = (case bt_get (ps_in_flight st k) cap of None \<Rightarrow> 0 | Some n \<Rightarrow> n)"

lemma elem_size_pos [simp]: "0 < elem_size k"
  by (cases k) simp_all

lemma bins_ok_Nil [simp]: "bins_ok []"
  by (simp add: bins_ok_def)

lemma bins_bytes_Nil [simp]: "bins_bytes sz [] = 0"
  by (simp add: bins_bytes_def)

lemma bins_bytes_Cons [simp]: "bins_bytes sz ((cap, vecs) # m) = cap * sz * length vecs + bins_bytes sz m"
  by (simp add: bins_bytes_def)

lemma bins_ok_Cons [simp]:
  "bins_ok ((cap, vecs) # m) \<longleftrightarrow>
    bins_ok m \<and> (\<forall>e \<in> set m. cap < fst e) \<and> (\<forall>b \<in> set vecs. b_capacity b = cap)"
  by (auto simp: bins_ok_def bt_invar_def)

lemma bins_bytes_member: "(cap, vecs) \<in> set m \<Longrightarrow> cap * sz * length vecs \<le> bins_bytes sz m"
  by (induction m) auto

lemma total_bytes_update:
  "total_bytes (st\<lparr>ps_bins := (ps_bins st)(k := m)\<rparr>) + bins_bytes (elem_size k) (ps_bins st k) =
    total_bytes st + bins_bytes (elem_size k) m"
  using sum_kind_update [where f = "\<lambda>j. bins_bytes (elem_size j)" and g = "ps_bins st" and k = k and x = m]
  by (simp add: total_bytes_def)

lemma total_bytes_frame [simp]:
  "total_bytes (st\<lparr>ps_retained := n\<rparr>) = total_bytes st"
  "total_bytes (st\<lparr>ps_in_flight := g\<rparr>) = total_bytes st"
  "total_bytes (st\<lparr>ps_max := n\<rparr>) = total_bytes st"
  by (simp_all add: total_bytes_def)

lemma bins_bytes_empty: "\<forall>(cap, vecs) \<in> set m. vecs = [] \<Longrightarrow> bins_bytes sz m = 0"
  by (induction m) auto

lemma kind_bytes_le: "bins_bytes (elem_size k) (ps_bins st k) \<le> total_bytes st"
  unfolding total_bytes_def by (rule member_le_sum) simp_all

lemma saturating_mul_small: "a * b \<le> usize_max \<Longrightarrow> saturating_mul a b = a * b"
  by (simp add: saturating_mul_def)

section \<open>Taking and pushing a buffer\<close>


text \<open>What \<open>take_best_fit\<close> promises, as one relation.\<close>

definition best_fit :: "'a bins \<Rightarrow> nat \<Rightarrow> 'a buf \<Rightarrow> 'a bins \<Rightarrow> bool" where
  "best_fit m len b m' \<longleftrightarrow>
    bins_ok m' \<and> len \<le> b_capacity b \<and> fst ` set m' = fst ` set m \<and>
    (\<forall>sz. bins_bytes sz m = bins_bytes sz m' + b_capacity b * sz) \<and>
    (\<exists>vecs. (b_capacity b, vecs) \<in> set m \<and> b \<in> set vecs) \<and>
    (\<forall>cap vecs. (cap, vecs) \<in> set m \<longrightarrow> vecs \<noteq> [] \<longrightarrow> len \<le> cap \<longrightarrow> b_capacity b \<le> cap)"

lemma take_best_fit_Some:
  "take_best_fit m len = Some (b, m') \<Longrightarrow> bins_ok m \<Longrightarrow> best_fit m len b m'"
proof (induction m len arbitrary: m' rule: take_best_fit.induct)
  case (1 len)
  then show ?case by simp
next
  case (2 cap vecs rest len)
  have ok: "bins_ok rest" "\<forall>e \<in> set rest. cap < fst e" "\<forall>b \<in> set vecs. b_capacity b = cap"
    using "2.prems"(2) by simp_all
  show ?case
  proof (cases "len \<le> cap \<and> vecs \<noteq> []")
    case True
    then obtain ys where vs: "vecs = ys @ [b]" and m': "m' = (cap, ys) # rest"
      using "2.prems"(1) by (cases vecs rule: rev_cases) auto
    have cap: "b_capacity b = cap" using ok(3) vs by simp
    have ok': "bins_ok m'" using ok vs m' by auto
    have bytes: "bins_bytes sz ((cap, vecs) # rest) = bins_bytes sz m' + b_capacity b * sz" for sz
      by (simp add: vs m' cap algebra_simps)
    have least: "b_capacity b \<le> c" if "(c, vs) \<in> set ((cap, vecs) # rest)" for c vs
      using that ok(2) cap by (auto dest!: bspec)
    show ?thesis
      unfolding best_fit_def
      using ok' bytes least cap True by (auto simp: m' vs)
  next
    case False
    with "2.prems"(1) obtain m1 where m1: "take_best_fit rest len = Some (b, m1)" "m' = (cap, vecs) # m1"
      by (auto split: if_splits)
    have IH: "best_fit rest len b m1" using "2.IH" [OF False m1(1) ok(1)] .
    have "\<forall>e \<in> set m1. cap < fst e"
    proof
      fix e assume "e \<in> set m1"
      then have "fst e \<in> fst ` set rest" using IH unfolding best_fit_def by (metis imageI)
      then show "cap < fst e" using ok(2) by auto
    qed
    then show ?thesis using IH ok False unfolding best_fit_def m1(2) by auto
  qed
qed

lemma take_best_fit_None:
  "take_best_fit m len = None \<longleftrightarrow> (\<forall>cap vecs. (cap, vecs) \<in> set m \<longrightarrow> len \<le> cap \<longrightarrow> vecs = [])"
  by (induction m len rule: take_best_fit.induct) auto

lemma push_buf_ok:
  assumes "bins_ok m" and "b_capacity b = cap"
  shows "bins_ok (push_buf cap b m)"
proof -
  have inv: "bt_invar m" using assms(1) by (simp add: bins_ok_def)
  have "\<forall>x \<in> set vecs. b_capacity x = c" if c: "(c, vecs) \<in> set (push_buf cap b m)" for c vecs
  proof -
    have "bt_get (push_buf cap b m) c = Some vecs"
      using c btree.in_ents_iff [of "push_buf cap b m" c vecs] inv by (simp add: push_buf_def)
    then have "c = cap \<and> vecs = (case bt_get m cap of None \<Rightarrow> [] | Some w \<Rightarrow> w) @ [b] \<or>
        bt_get m c = Some vecs"
      by (auto simp: push_buf_def bt_get_update [OF inv] split: if_splits)
    moreover have "\<forall>x \<in> set w. b_capacity x = j" if "bt_get m j = Some w" for j w
      using assms(1) that btree.in_ents_iff [OF inv, of j w] by (simp add: bins_ok_def)
    ultimately show ?thesis using assms(2) by (auto split: option.splits)
  qed
  moreover have "bt_invar (push_buf cap b m)" using inv by (simp add: push_buf_def)
  ultimately show ?thesis by (simp add: bins_ok_def)
qed

lemma push_buf_bytes:
  assumes "bins_ok m"
  shows "bins_bytes sz (push_buf cap b m) = bins_bytes sz m + cap * sz"
proof -
  have inv: "bt_invar m" using assms by (simp add: bins_ok_def)
  show ?thesis
    using btree.total_ins [OF inv, of "\<lambda>c vecs. c * sz * length vecs" cap
        "(case bt_get m cap of None \<Rightarrow> [] | Some w \<Rightarrow> w) @ [b]"]
    by (simp add: bins_bytes_def push_buf_def bt_update_def algebra_simps split: option.splits)
qed


section \<open>Eviction\<close>

text \<open>The bytes of every retained buffer.\<close>

definition retained_buffers :: "'a pool_state \<Rightarrow> (pool_kind \<times> nat) set" where
  "retained_buffers st = {(k, cap). \<exists>vecs. (cap, vecs) \<in> set (ps_bins st k) \<and> vecs \<noteq> []}"

lemma evict_one_Some:
  assumes "evict_one_from_pool sz m = Some (n, m')" and "bins_ok m"
  shows "bins_ok m' \<and> fst ` set m' \<subseteq> fst ` set m \<and>
    (\<exists>cap vecs. (cap, vecs) \<in> set m \<and> vecs \<noteq> [] \<and> n = saturating_mul cap sz \<and>
      (\<forall>s. bins_bytes s m = bins_bytes s m' + cap * s))"
  using assms
proof (induction sz m arbitrary: m' rule: evict_one_from_pool.induct)
  case (1 sz)
  then show ?case by simp
next
  case (2 sz cap vecs rest)
  show ?case
  proof (cases "vecs = []")
    case False
    then obtain ys y where vs: "vecs = ys @ [y]" by (cases vecs rule: rev_cases) auto
    have m': "m' = (if ys = [] then rest else (cap, ys) # rest)" and n: "n = saturating_mul cap sz"
      using "2.prems"(1) vs by (auto split: if_splits)
    have "bins_bytes s ((cap, vecs) # rest) = bins_bytes s m' + cap * s" for s
      by (simp add: m' vs algebra_simps)
    moreover have "bins_ok m'" "fst ` set m' \<subseteq> fst ` set ((cap, vecs) # rest)"
      using "2.prems"(2) by (auto simp: m' vs)
    ultimately show ?thesis using False n by auto
  next
    case True
    with "2.prems"(1) obtain m1 where m1: "evict_one_from_pool sz rest = Some (n, m1)"
      "m' = (cap, vecs) # m1" by auto
    from "2.IH" [of m1] True m1 "2.prems"(2)
    have IH: "bins_ok m1 \<and> fst ` set m1 \<subseteq> fst ` set rest \<and>
      (\<exists>cap vecs. (cap, vecs) \<in> set rest \<and> vecs \<noteq> [] \<and> n = saturating_mul cap sz \<and>
        (\<forall>s. bins_bytes s rest = bins_bytes s m1 + cap * s))" by simp
    have "\<forall>e \<in> set m1. cap < fst e"
    proof
      fix e assume "e \<in> set m1"
      then have "fst e \<in> fst ` set rest" using IH by blast
      then show "cap < fst e" using "2.prems"(2) by auto
    qed
    then show ?thesis using IH True m1(2) by (auto simp: fun_eq_iff)
  qed
qed

lemma evict_one_None: "evict_one_from_pool sz m = None \<longleftrightarrow> (\<forall>(cap, vecs) \<in> set m. vecs = [])"
  by (induction sz m rule: evict_one_from_pool.induct) auto

text \<open>The candidate of a kind is its smallest buffer, and the chosen one is the smallest of all.\<close>

lemma smallest_pool_candidate_least:
  assumes "smallest_pool_candidate m k = Some (n, k')" and "bins_ok m"
    and "(cap, vecs) \<in> set m" and "vecs \<noteq> []"
  shows "k' = k \<and> n \<le> saturating_mul cap (elem_size k)"
  using assms
proof (induction m)
  case Nil
  then show ?case by simp
next
  case (Cons e m)
  obtain c vs where e: "e = (c, vs)" by (cases e)
  show ?case
  proof (cases "vs = []")
    case True
    then show ?thesis using Cons by (auto simp: e smallest_pool_candidate_def)
  next
    case False
    have "c \<le> cap" using Cons.prems(2,3) by (auto simp: e dest!: bspec)
    then have "saturating_mul c (elem_size k) \<le> saturating_mul cap (elem_size k)"
      unfolding saturating_mul_def by (intro min.mono mult_right_mono) simp_all
    then show ?thesis using False Cons.prems(1) by (auto simp: e smallest_pool_candidate_def)
  qed
qed

lemma smallest_pool_candidate_None:
  "smallest_pool_candidate m k = None \<longleftrightarrow> (\<forall>(cap, vecs) \<in> set m. vecs = [])"
  by (auto simp: smallest_pool_candidate_def find_None_iff)

lemma min_candidate_Some:
  "min_candidate cs = Some c \<Longrightarrow> c \<in> set cs \<and> (\<forall>d \<in> set cs. fst c \<le> fst d)"
proof (induction cs arbitrary: c)
  case Nil
  then show ?case by simp
next
  case (Cons a cs)
  show ?case
  proof (cases "min_candidate cs")
    case None
    then have "cs = []" by (cases cs) (auto split: option.splits if_splits)
    then show ?thesis using Cons.prems by simp
  next
    case (Some d)
    then show ?thesis using Cons.IH [OF Some] Cons.prems by (auto split: if_splits)
  qed
qed

lemma min_candidate_None: "min_candidate cs = None \<longleftrightarrow> cs = []"
  by (cases cs) (auto split: option.splits)

lemma set_map_filter: "set (List.map_filter f xs) = {y. \<exists>x \<in> set xs. f x = Some y}"
  by (induction xs) (auto simp: List.map_filter_simps split: option.splits)

lemma in_candidates: "c \<in> set (candidates st) \<longleftrightarrow> (\<exists>k. smallest_pool_candidate (ps_bins st k) k = Some c)"
  by (simp add: candidates_def set_map_filter set_POOL_KINDS)


lemma candidate_evicted:
  "smallest_pool_candidate m k = Some (n, k') \<Longrightarrow> \<exists>m'. evict_one_from_pool (elem_size k) m = Some (n, m')"
proof (induction m)
  case Nil
  then show ?case by (simp add: smallest_pool_candidate_def)
next
  case (Cons e m)
  then show ?case by (cases e) (auto simp: smallest_pool_candidate_def)
qed

definition bins_invar :: "'a pool_state \<Rightarrow> bool" where
  "bins_invar st \<longleftrightarrow> (\<forall>k. bins_ok (ps_bins st k)) \<and> (\<forall>k. bt_invar (ps_in_flight st k))"

lemma evict_smallest_Some:
  assumes "evict_smallest_retained_buffer st = Some (n, st')" and inv: "bins_invar st"
  shows "\<exists>k cap. (k, cap) \<in> retained_buffers st \<and> n = saturating_mul cap (elem_size k) \<and>
      (\<forall>(k', cap') \<in> retained_buffers st. n \<le> saturating_mul cap' (elem_size k')) \<and>
      total_bytes st = total_bytes st' + cap * elem_size k"
    and "bins_invar st' \<and> ps_retained st' = ps_retained st \<and> ps_max st' = ps_max st \<and>
      ps_in_flight st' = ps_in_flight st"
proof -
  from assms(1) obtain b k m where c: "min_candidate (candidates st) = Some (b, k)"
    and e: "evict_one_from_pool (elem_size k) (ps_bins st k) = Some (n, m)"
    and st': "st' = st\<lparr>ps_bins := (ps_bins st)(k := m)\<rparr>"
    by (auto simp: evict_smallest_retained_buffer_def bind_eq_Some_conv)
  have ok: "bins_ok (ps_bins st j)" for j using inv by (simp add: bins_invar_def)
  from evict_one_Some [OF e ok] obtain cap vecs where o: "bins_ok m" "(cap, vecs) \<in> set (ps_bins st k)"
    "vecs \<noteq> []" "n = saturating_mul cap (elem_size k)"
    "\<forall>s. bins_bytes s (ps_bins st k) = bins_bytes s m + cap * s" by blast
  have tot: "total_bytes st = total_bytes st' + cap * elem_size k"
    using total_bytes_update [of st k m] o(5) by (simp add: st')
  have c': "(b, k) \<in> set (candidates st)" "\<forall>d \<in> set (candidates st). b \<le> fst d"
    using min_candidate_Some [OF c] by auto
  then obtain j where j: "smallest_pool_candidate (ps_bins st j) j = Some (b, k)"
    by (auto simp: in_candidates)
  then have "j = k" by (auto simp: smallest_pool_candidate_def)
  with candidate_evicted j e have nb: "n = b" by fastforce
  have least: "n \<le> saturating_mul cap' (elem_size k')"
    if mem: "(cap', vs) \<in> set (ps_bins st k')" and ne: "vs \<noteq> []" for k' cap' vs
  proof -
    from mem ne obtain n' where n': "smallest_pool_candidate (ps_bins st k') k' = Some (n', k')"
      using smallest_pool_candidate_None [of "ps_bins st k'" k']
      by (cases "smallest_pool_candidate (ps_bins st k') k'") (auto simp: smallest_pool_candidate_def)
    then have "(n', k') \<in> set (candidates st)" by (auto simp: in_candidates)
    then have "b \<le> n'" using c'(2) by auto
    then show ?thesis using smallest_pool_candidate_least [OF n' ok mem ne] nb by simp
  qed
  show "\<exists>k cap. (k, cap) \<in> retained_buffers st \<and> n = saturating_mul cap (elem_size k) \<and>
      (\<forall>(k', cap') \<in> retained_buffers st. n \<le> saturating_mul cap' (elem_size k')) \<and>
      total_bytes st = total_bytes st' + cap * elem_size k"
    using o tot least by (intro exI [of _ k] exI [of _ cap]) (auto simp: retained_buffers_def)
  show "bins_invar st' \<and> ps_retained st' = ps_retained st \<and> ps_max st' = ps_max st \<and>
      ps_in_flight st' = ps_in_flight st"
    using inv o(1) by (simp add: st' bins_invar_def)
qed

lemma evict_smallest_None:
  assumes "evict_smallest_retained_buffer st = None"
  shows "total_bytes st = 0"
proof -
  have "candidates st = []"
  proof (rule ccontr)
    assume "candidates st \<noteq> []"
    then obtain b k where c: "min_candidate (candidates st) = Some (b, k)"
      using min_candidate_None [of "candidates st"] by fastforce
    then obtain j where j: "smallest_pool_candidate (ps_bins st j) j = Some (b, k)"
      using min_candidate_Some [OF c] by (auto simp: in_candidates)
    then have "j = k" by (auto simp: smallest_pool_candidate_def)
    with candidate_evicted j c assms show False
      by (fastforce simp: evict_smallest_retained_buffer_def)
  qed
  then have "smallest_pool_candidate (ps_bins st k) k = None" for k
    using in_candidates [of _ st] by (metis list.set(1) empty_iff option.exhaust)
  then have "\<forall>(cap, vecs) \<in> set (ps_bins st k). vecs = []" for k
    using smallest_pool_candidate_None by blast
  then have "bins_bytes (elem_size k) (ps_bins st k) = 0" for k
    by (rule bins_bytes_empty)
  then show ?thesis by (simp add: total_bytes_def)
qed

section \<open>The retention limit\<close>

lemma enforce_bound: "ps_retained (enforce_retention_limit st) \<le> ps_max st"
proof (induction st rule: enforce_retention_limit.induct)
  case (1 st)
  have frame: "ps_max st' = ps_max st" if "evict_smallest_retained_buffer st = Some (n, st')" for n st'
    using that by (auto simp: evict_smallest_retained_buffer_def bind_eq_Some_conv)
  show ?case
    using 1 frame by (subst enforce_retention_limit.simps) (auto split: option.splits prod.splits)
qed

lemma enforce_id: "ps_retained st \<le> ps_max st \<Longrightarrow> enforce_retention_limit st = st"
  by (subst enforce_retention_limit.simps) simp

lemma pool_inv_alt: "pool_inv st \<longleftrightarrow> bins_invar st \<and> ps_retained st = total_bytes st \<and> total_bytes st \<le> usize_max"
  by (auto simp: pool_inv_def bins_invar_def)

lemma enforce_inv:
  "pool_inv st \<Longrightarrow> pool_inv (enforce_retention_limit st) \<and>
    total_bytes (enforce_retention_limit st) \<le> total_bytes st \<and>
    ps_max (enforce_retention_limit st) = ps_max st \<and>
    ps_in_flight (enforce_retention_limit st) = ps_in_flight st"
proof (induction st rule: enforce_retention_limit.induct)
  case (1 st)
  show ?case
  proof (cases "ps_max st < ps_retained st")
    case False
    then have "enforce_retention_limit st = st" by (intro enforce_id) simp
    then show ?thesis using "1.prems" by simp
  next
    case over: True
    show ?thesis
    proof (cases "evict_smallest_retained_buffer st")
      case None
      then have "total_bytes st = 0" by (rule evict_smallest_None)
      with over "1.prems" show ?thesis by (simp add: pool_inv_alt)
    next
      case (Some p)
      obtain n st' where p: "p = (n, st')" by (cases p)
      have ev: "evict_smallest_retained_buffer st = Some (n, st')" using Some p by simp
      have inv: "bins_invar st" using "1.prems" by (simp add: pool_inv_alt)
      from evict_smallest_Some [OF ev inv] obtain k cap
        where e: "n = saturating_mul cap (elem_size k)" "total_bytes st = total_bytes st' + cap * elem_size k"
          "bins_invar st'" "ps_retained st' = ps_retained st" "ps_max st' = ps_max st"
          "ps_in_flight st' = ps_in_flight st" by blast
      have le: "cap * elem_size k \<le> usize_max" using "1.prems" e(2) by (simp add: pool_inv_alt)
      then have n: "n = cap * elem_size k" using e(1) saturating_mul_small by simp
      show ?thesis
      proof (cases "n = 0")
        case True
        have ne: "ps_retained st' \<noteq> 0" using over e(4) by simp
        have step: "enforce_retention_limit st = enforce_retention_limit st'"
          by (subst enforce_retention_limit.simps) (simp add: over ev True ne)
        have "pool_inv st'" using "1.prems" e n True by (simp add: pool_inv_alt)
        then show ?thesis
          using "1.IH"(1) [OF over ev _ True ne] e n True step by auto
      next
        case False
        let ?s = "st'\<lparr>ps_retained := saturating_sub (ps_retained st') n\<rparr>"
        have step: "enforce_retention_limit st = enforce_retention_limit ?s"
          by (subst enforce_retention_limit.simps) (simp add: over ev False)
        have "pool_inv ?s"
          using "1.prems" e n by (simp add: pool_inv_alt bins_invar_def saturating_sub_def)
        then show ?thesis
          using "1.IH"(2) [OF over ev _ False] e n step by auto
      qed
    qed
  qed
qed


section \<open>Every operation keeps the accounting\<close>

definition pool_ok :: "'a pool_state \<Rightarrow> bool" where
  "pool_ok st \<longleftrightarrow> pool_inv st \<and> ps_retained st \<le> ps_max st"

lemma enforce_ok: "pool_inv st \<Longrightarrow> pool_ok (enforce_retention_limit st)"
  using enforce_inv [of st] enforce_bound [of st] by (simp add: pool_ok_def)

lemma new_pool_ok: "pool_ok (new_pool cap)"
  by (simp add: pool_ok_def pool_inv_def new_pool_def total_bytes_def)

lemma pool_inv_in_flight:
  "pool_inv st \<Longrightarrow> bt_invar g \<Longrightarrow> pool_inv (st\<lparr>ps_in_flight := (ps_in_flight st)(k := g)\<rparr>)"
  by (simp add: pool_inv_def)

lemma in_flight_ops_invar [simp]:
  "bt_invar g \<Longrightarrow> bt_invar (increment_in_flight cap g)"
  "bt_invar g \<Longrightarrow> bt_invar (decrement_in_flight cap g)"
  by (simp_all add: increment_in_flight_def decrement_in_flight_def split: option.splits)

lemma set_max_ok: "pool_inv st \<Longrightarrow> pool_ok (set_max_retained_capacity_bytes cap st)"
  unfolding set_max_retained_capacity_bytes_def
  by (rule enforce_ok) (simp add: pool_inv_def)

lemma recycle_ok:
  assumes ok: "pool_ok st" and fits: "total_bytes st + b_capacity b * elem_size k \<le> usize_max"
  shows "pool_ok (recycle k b st)"
proof (cases "0 < b_capacity b")
  case False
  then show ?thesis using ok by (simp add: recycle_def)
next
  case True
  let ?st = "st\<lparr>ps_retained := saturating_add (ps_retained st) (saturating_mul (b_capacity b) (elem_size k)),
             ps_bins := (ps_bins st)(k := push_buf (b_capacity b) b (ps_bins st k))\<rparr>"
  have inv: "pool_inv st" using ok by (simp add: pool_ok_def)
  then have bins: "bins_ok (ps_bins st j)" for j by (simp add: pool_inv_def)
  have "total_bytes ?st = total_bytes st + b_capacity b * elem_size k"
    using total_bytes_update [of st k "push_buf (b_capacity b) b (ps_bins st k)"]
    by (simp add: push_buf_bytes [OF bins] total_bytes_def)
  moreover have "ps_retained ?st = total_bytes st + b_capacity b * elem_size k"
    using inv fits by (simp add: pool_inv_def saturating_add_def saturating_mul_def)
  ultimately have "pool_inv ?st"
    using inv fits by (simp add: pool_inv_def push_buf_ok)
  from enforce_ok [OF this] True show ?thesis by (simp add: recycle_def Let_def)
qed

lemma pool_release_ok:
  assumes ok: "pool_ok st" and fits: "total_bytes st + b_capacity b * elem_size k \<le> usize_max"
  shows "pool_ok (pool_release k b st)"
  unfolding pool_release_def
proof (rule recycle_ok)
  show "pool_ok (st\<lparr>ps_in_flight := (ps_in_flight st)(k := decrement_in_flight (b_capacity b) (ps_in_flight st k))\<rparr>)"
    using ok by (simp add: pool_ok_def pool_inv_in_flight pool_inv_def)
qed (use fits in simp)

text \<open>Taking a buffer out of a bin: the state after a successful reuse.\<close>

definition taken :: "pool_kind \<Rightarrow> 'a buf \<Rightarrow> 'a bins \<Rightarrow> 'a pool_state \<Rightarrow> 'a pool_state" where
  "taken k b m st =
    st\<lparr>ps_bins := (ps_bins st)(k := m),
       ps_retained := ps_retained st - b_capacity b * elem_size k,
       ps_in_flight := (ps_in_flight st)(k := increment_in_flight (b_capacity b) (ps_in_flight st k))\<rparr>"

lemma taken_facts:
  assumes "pool_inv st" and "take_best_fit (ps_bins st k) len = Some (b, m)"
  shows "best_fit (ps_bins st k) len b m" and "b_capacity b * elem_size k \<le> ps_retained st"
    and "pool_inv (taken k b m st)"
    and "ps_retained st = ps_retained (taken k b m st) + b_capacity b * elem_size k"
proof -
  have ok: "bins_ok (ps_bins st j)" for j using assms(1) by (simp add: pool_inv_def)
  show fit: "best_fit (ps_bins st k) len b m" by (rule take_best_fit_Some [OF assms(2) ok])
  then have bytes: "bins_bytes (elem_size k) (ps_bins st k) = bins_bytes (elem_size k) m + b_capacity b * elem_size k"
    by (simp add: best_fit_def)
  show le: "b_capacity b * elem_size k \<le> ps_retained st"
    using bytes kind_bytes_le [of k st] assms(1) by (simp add: pool_inv_def)
  have "total_bytes (taken k b m st) + b_capacity b * elem_size k = total_bytes st"
    using total_bytes_update [of st k m] bytes by (simp add: taken_def total_bytes_def)
  then show "pool_inv (taken k b m st)"
    using assms(1) fit by (auto simp: pool_inv_def taken_def best_fit_def)
  show "ps_retained st = ps_retained (taken k b m st) + b_capacity b * elem_size k"
    using le by (simp add: taken_def)
qed

lemma taken_ok:
  assumes "pool_ok st" and "take_best_fit (ps_bins st k) len = Some (b, m)"
  shows "pool_ok (taken k b m st)"
proof -
  have "pool_inv st" using assms(1) by (simp add: pool_ok_def)
  from taken_facts(3) [OF this assms(2)] have "pool_inv (taken k b m st)" .
  moreover have "ps_retained (taken k b m st) \<le> ps_retained st" "ps_max (taken k b m st) = ps_max st"
    by (simp_all add: taken_def)
  ultimately show ?thesis using assms(1) by (simp add: pool_ok_def)
qed

lemma acquire_zeroed_taken:
  assumes "pool_inv st" and "take_best_fit (ps_bins st k) len = Some (b, m)"
  shows "pool_acquire_zeroed alloc zero k len st =
    Some (\<lparr>b_elems = replicate len zero, b_capacity = b_capacity b\<rparr>, taken k b m st)"
proof -
  have "b_capacity b * elem_size k \<le> ps_retained st" by (rule taken_facts(2) [OF assms])
  moreover have "ps_retained st \<le> usize_max" using assms(1) by (simp add: pool_inv_def)
  ultimately show ?thesis
    by (simp add: pool_acquire_zeroed_def assms(2) taken_def saturating_sub_def saturating_mul_def)
qed

lemma wrapping_sub_small: "b \<le> a \<Longrightarrow> a \<le> usize_max \<Longrightarrow> wrapping_sub a b = a - b"
proof -
  assume le: "b \<le> a" "a \<le> usize_max"
  then have "a + (usize_max + 1) - b = (a - b) + (usize_max + 1)" by simp
  moreover have "a - b < usize_max + 1" using le by simp
  ultimately show ?thesis unfolding wrapping_sub_def by (metis mod_add_self2 mod_less)
qed

lemma acquire_uninit_taken:
  assumes "pool_inv st" and "take_best_fit (ps_bins st k) len = Some (b, m)"
  shows "pool_acquire_uninit_tracked alloc k len st =
    (Ok (\<lparr>b_elems = replicate len None, b_capacity = b_capacity b\<rparr>, Reused (b_capacity b)), taken k b m st)"
proof -
  have le: "b_capacity b * elem_size k \<le> ps_retained st" by (rule taken_facts(2) [OF assms])
  moreover have r: "ps_retained st \<le> usize_max" using assms(1) by (simp add: pool_inv_def)
  ultimately have chk: "checked_mul (b_capacity b) (elem_size k) = Some (b_capacity b * elem_size k)" by simp
  show ?thesis
    by (simp add: chk pool_acquire_uninit_tracked_def assms(2) taken_def wrapping_sub_small [OF le r] Let_def)
qed

lemma acquire_zeroed_ok:
  assumes "pool_ok st" and "pool_acquire_zeroed alloc zero k len st = Some (b, st')"
  shows "pool_ok st'"
proof (cases "take_best_fit (ps_bins st k) len")
  case None
  then show ?thesis using assms by (auto simp: pool_acquire_zeroed_def)
next
  case (Some p)
  obtain c m where p: "take_best_fit (ps_bins st k) len = Some (c, m)" using Some by (cases p) simp
  have inv: "pool_inv st" using assms(1) by (simp add: pool_ok_def)
  have "st' = taken k c m st" using assms(2) acquire_zeroed_taken [OF inv p] by simp
  then show ?thesis using taken_ok [OF assms(1) p] by simp
qed

lemma acquire_uninit_ok:
  assumes "pool_ok st"
  shows "pool_ok (snd (pool_acquire_uninit_tracked alloc k len st))"
proof (cases "take_best_fit (ps_bins st k) len")
  case None
  then show ?thesis using assms by (auto simp: pool_acquire_uninit_tracked_def split: option.splits)
next
  case (Some p)
  obtain c m where p: "take_best_fit (ps_bins st k) len = Some (c, m)" using Some by (cases p) simp
  have inv: "pool_inv st" using assms(1) by (simp add: pool_ok_def)
  show ?thesis using taken_ok [OF assms p] by (simp add: acquire_uninit_taken [OF inv p])
qed

lemma return_checkout_ok: "pool_ok st \<Longrightarrow> pool_ok (return_checkout k token st)"
  by (simp add: return_checkout_def pool_ok_def pool_inv_in_flight pool_inv_def split: checkout_token.splits)

lemma clear_ok: "pool_ok (clear st)"
  by (simp add: clear_def clear_in_flight_retained_def pool_ok_def pool_inv_def total_bytes_def)

lemma clear_in_flight_ok: "pool_ok st \<Longrightarrow> pool_ok (clear_in_flight_retained st)"
  by (simp add: clear_in_flight_retained_def pool_ok_def pool_inv_def)


section \<open>Replenishing\<close>

definition granted :: "(nat \<Rightarrow> nat option) \<Rightarrow> nat \<Rightarrow> nat" where
  "granted alloc cap = (case alloc cap of None \<Rightarrow> 0 | Some a \<Rightarrow> a)"

definition replenish_bytes :: "(nat \<Rightarrow> nat option) \<Rightarrow> nat \<Rightarrow> (nat, nat) btree_map \<Rightarrow> nat" where
  "replenish_bytes alloc sz f = (\<Sum>(cap, n) \<leftarrow> f. n * (granted alloc cap * sz))"

lemma replenish_count_spec:
  assumes "bins_ok m" and "r + n * (granted alloc cap * sz) \<le> usize_max"
  shows "\<exists>m'. replenish_count alloc sz cap n (m, r) = (m', r + n * (granted alloc cap * sz)) \<and> bins_ok m' \<and>
    bins_bytes sz m' = bins_bytes sz m + n * (granted alloc cap * sz)"
  using assms
proof (induction n arbitrary: m r)
  case 0
  then show ?case by simp
next
  case (Suc n)
  show ?case
  proof (cases "alloc cap")
    case None
    then show ?thesis using Suc by (simp add: granted_def)
  next
    case (Some a)
    let ?m = "push_buf a \<lparr>b_elems = [], b_capacity = a\<rparr> m"
    have ok: "bins_ok ?m" by (rule push_buf_ok) (use Suc.prems in simp_all)
    have le: "r + a * sz + n * (granted alloc cap * sz) \<le> usize_max"
      using Suc.prems(2) Some by (simp add: granted_def algebra_simps)
    then have "saturating_add r (saturating_mul a sz) = r + a * sz"
      by (simp add: saturating_add_def saturating_mul_def)
    then show ?thesis
      using Suc.IH [OF ok le] Some
      by (simp add: push_buf_bytes [OF Suc.prems(1)] granted_def algebra_simps)
  qed
qed

lemma replenish_for_spec:
  assumes "bins_ok m" and "r + replenish_bytes alloc sz f \<le> usize_max"
  shows "\<exists>m'. replenish_in_flight_for alloc sz m f r = (m', r + replenish_bytes alloc sz f) \<and> bins_ok m' \<and>
    bins_bytes sz m' = bins_bytes sz m + replenish_bytes alloc sz f"
  using assms
proof (induction f arbitrary: m r)
  case Nil
  then show ?case by (simp add: replenish_in_flight_for_def replenish_bytes_def)
next
  case (Cons e f)
  obtain cap n where e: "e = (cap, n)" by (cases e)
  let ?g = "n * (granted alloc cap * sz)"
  have b: "replenish_bytes alloc sz (e # f) = ?g + replenish_bytes alloc sz f"
    by (simp add: replenish_bytes_def e)
  from Cons.prems b have "r + ?g \<le> usize_max" by simp
  from replenish_count_spec [OF Cons.prems(1) this] obtain m1
    where m1: "replenish_count alloc sz cap n (m, r) = (m1, r + ?g)" "bins_ok m1"
      "bins_bytes sz m1 = bins_bytes sz m + ?g" by blast
  have "r + ?g + replenish_bytes alloc sz f \<le> usize_max" using Cons.prems(2) b by simp
  from Cons.IH [OF m1(2) this] obtain m2
    where m2: "replenish_in_flight_for alloc sz m1 f (r + ?g) = (m2, r + ?g + replenish_bytes alloc sz f)"
      "bins_ok m2" "bins_bytes sz m2 = bins_bytes sz m1 + replenish_bytes alloc sz f" by blast
  have "replenish_in_flight_for alloc sz m (e # f) r = replenish_in_flight_for alloc sz m1 f (r + ?g)"
    by (simp add: replenish_in_flight_for_def e m1(1))
  then show ?case using m1 m2 by (simp add: b)
qed

definition in_flight_bytes :: "(nat \<Rightarrow> nat option) \<Rightarrow> 'a pool_state \<Rightarrow> nat" where
  "in_flight_bytes alloc st = (\<Sum>k \<in> UNIV. replenish_bytes alloc (elem_size k) (ps_in_flight st k))"

lemma replenish_kind_spec:
  assumes inv: "pool_inv st"
    and fits: "total_bytes st + replenish_bytes alloc (elem_size k) (ps_in_flight st k) \<le> usize_max"
  shows "pool_inv (replenish_kind alloc st k) \<and>
    total_bytes (replenish_kind alloc st k) = total_bytes st + replenish_bytes alloc (elem_size k) (ps_in_flight st k) \<and>
    ps_in_flight (replenish_kind alloc st k) = (ps_in_flight st)(k := []) \<and>
    ps_max (replenish_kind alloc st k) = ps_max st"
proof -
  let ?g = "replenish_bytes alloc (elem_size k) (ps_in_flight st k)"
  have ok: "bins_ok (ps_bins st k)" and r: "ps_retained st = total_bytes st"
    using inv by (simp_all add: pool_inv_def)
  have "ps_retained st + ?g \<le> usize_max" using fits r by simp
  from replenish_for_spec [OF ok this] obtain m
    where m: "replenish_in_flight_for alloc (elem_size k) (ps_bins st k) (ps_in_flight st k) (ps_retained st) =
        (m, ps_retained st + ?g)" "bins_ok m"
      "bins_bytes (elem_size k) m = bins_bytes (elem_size k) (ps_bins st k) + ?g" by blast
  have st': "replenish_kind alloc st k = st\<lparr>ps_bins := (ps_bins st)(k := m),
      ps_in_flight := (ps_in_flight st)(k := []), ps_retained := ps_retained st + ?g\<rparr>"
    by (simp add: replenish_kind_def m(1))
  have "total_bytes (replenish_kind alloc st k) = total_bytes st + ?g"
    using total_bytes_update [of st k m] m(3) by (simp add: st' total_bytes_def)
  then show ?thesis using inv m(2) fits r by (simp add: st' pool_inv_def)
qed

lemma replenish_kinds_inv:
  assumes "pool_inv st" and "distinct ks"
    and "total_bytes st + (\<Sum>k \<leftarrow> ks. replenish_bytes alloc (elem_size k) (ps_in_flight st k)) \<le> usize_max"
  shows "pool_inv (foldl (replenish_kind alloc) st ks) \<and>
    (\<forall>k \<in> set ks. ps_in_flight (foldl (replenish_kind alloc) st ks) k = [])"
  using assms
proof (induction ks arbitrary: st)
  case Nil
  then show ?case by simp
next
  case (Cons k ks)
  let ?s = "replenish_kind alloc st k"
  have s: "pool_inv ?s" "total_bytes ?s = total_bytes st + replenish_bytes alloc (elem_size k) (ps_in_flight st k)"
    "ps_in_flight ?s = (ps_in_flight st)(k := [])"
    using replenish_kind_spec [OF Cons.prems(1), of alloc k] Cons.prems(3) by simp_all
  have eq: "(\<Sum>j \<leftarrow> ks. replenish_bytes alloc (elem_size j) (ps_in_flight ?s j)) =
      (\<Sum>j \<leftarrow> ks. replenish_bytes alloc (elem_size j) (ps_in_flight st j))"
    using Cons.prems(2) s(3) by (intro arg_cong [where f = sum_list] map_cong) auto
  have IH: "pool_inv (foldl (replenish_kind alloc) ?s ks) \<and>
      (\<forall>j \<in> set ks. ps_in_flight (foldl (replenish_kind alloc) ?s ks) j = [])"
    by (rule Cons.IH [OF s(1)]) (use Cons.prems s(2) eq in simp_all)
  have keep: "ps_in_flight (foldl (replenish_kind alloc) t js) k = []"
    if "ps_in_flight t k = []" for t :: "'a pool_state" and js
    using that
    by (induction js arbitrary: t) (simp_all add: replenish_kind_def split: prod.splits)
  show ?case using IH keep [of ?s ks] s(3) by simp
qed

lemma replenish_ok:
  assumes "pool_inv st" and "total_bytes st + in_flight_bytes alloc st \<le> usize_max"
  shows "pool_ok (replenish_in_flight_retained alloc st)"
    and "ps_in_flight (replenish_in_flight_retained alloc st) = (\<lambda>_. [])"
proof -
  have d: "distinct POOL_KINDS" by (simp add: POOL_KINDS_def)
  have b: "in_flight_bytes alloc st = (\<Sum>k \<leftarrow> POOL_KINDS. replenish_bytes alloc (elem_size k) (ps_in_flight st k))"
    by (simp add: in_flight_bytes_def sum_POOL_KINDS)
  have R: "pool_inv (foldl (replenish_kind alloc) st POOL_KINDS)"
    "\<forall>k. ps_in_flight (foldl (replenish_kind alloc) st POOL_KINDS) k = []"
    using replenish_kinds_inv [OF assms(1) d] assms(2) b by (simp_all add: set_POOL_KINDS)
  show "pool_ok (replenish_in_flight_retained alloc st)"
    unfolding replenish_in_flight_retained_def by (rule enforce_ok [OF R(1)])
  show "ps_in_flight (replenish_in_flight_retained alloc st) = (\<lambda>_. [])"
    unfolding replenish_in_flight_retained_def using enforce_inv [OF R(1)] R(2) by auto
qed

section \<open>Checkout counters\<close>

lemma checked_out_increment:
  assumes "bt_invar f" and "0 < cap"
  shows "(case bt_get (increment_in_flight cap f) c of None \<Rightarrow> 0 | Some n \<Rightarrow> n) =
    (case bt_get f c of None \<Rightarrow> 0 | Some n \<Rightarrow> n) + (if c = cap then 1 else 0 :: nat)"
  using assms by (auto simp: increment_in_flight_def bt_get_update split: option.splits)

lemma checked_out_decrement:
  assumes "bt_invar f" and "0 < cap"
  shows "(case bt_get (decrement_in_flight cap f) c of None \<Rightarrow> 0 | Some n \<Rightarrow> n) =
    (case bt_get f c of None \<Rightarrow> 0 | Some n \<Rightarrow> n) - (if c = cap then 1 else 0 :: nat)"
  using assms by (auto simp: decrement_in_flight_def saturating_sub_def split: option.splits)

text \<open>Settling a reuse token gives back exactly the checkout it stands for.\<close>

lemma finish_restores:
  assumes "pool_inv st" and "take_best_fit (ps_bins st k) len = Some (b, m)"
  shows "checked_out (return_checkout k (Reused (b_capacity b)) (taken k b m st)) = checked_out st"
proof (cases "0 < b_capacity b")
  case True
  have f: "bt_invar (ps_in_flight st k)" using assms(1) by (simp add: pool_inv_def)
  show ?thesis
    by (intro ext)
      (simp add: checked_out_def return_checkout_def taken_def checked_out_increment [OF f True]
        checked_out_decrement [OF _ True] f)
next
  case False
  then show ?thesis
    by (intro ext)
      (simp add: checked_out_def return_checkout_def taken_def increment_in_flight_def decrement_in_flight_def)
qed

section \<open>Reachable pools\<close>

text \<open>One step of a pool's life.  A released buffer is any buffer the process can hold beside the
  retained ones; \<open>alloc\<close> grants at least the requested capacity within the address space.\<close>

inductive pool_step :: "(nat \<Rightarrow> nat option) \<Rightarrow> 'a \<Rightarrow> 'a pool_state \<Rightarrow> 'a pool_state \<Rightarrow> bool"
  for alloc zero where
  Acquire_Zeroed: "pool_acquire_zeroed alloc zero k len st = Some (b, st') \<Longrightarrow> pool_step alloc zero st st'"
| Acquire_Uninit: "pool_acquire_uninit_tracked alloc k len st = (r, st') \<Longrightarrow> pool_step alloc zero st st'"
| Acquire_Capacity: "acquire_with_capacity alloc k cap st = Some (b, st') \<Longrightarrow> pool_step alloc zero st st'"
| Release: "total_bytes st + b_capacity b * elem_size k \<le> usize_max \<Longrightarrow>
    pool_step alloc zero st (pool_release k b st)"
| Recycle: "total_bytes st + b_capacity b * elem_size k \<le> usize_max \<Longrightarrow>
    pool_step alloc zero st (recycle k b st)"
| Finish: "pool_step alloc zero st (pool_finish_recycled k token st)"
| Discard: "pool_step alloc zero st (pool_discard_uninit k data token st)"
| Set_Max: "pool_step alloc zero st (set_max_retained_capacity_bytes cap st)"
| Clear: "pool_step alloc zero st (clear st)"
| Clear_In_Flight: "pool_step alloc zero st (clear_in_flight_retained st)"
| Replenish: "total_bytes st + in_flight_bytes alloc st \<le> usize_max \<Longrightarrow>
    pool_step alloc zero st (replenish_in_flight_retained alloc st)"

inductive pool_reachable :: "(nat \<Rightarrow> nat option) \<Rightarrow> 'a \<Rightarrow> 'a pool_state \<Rightarrow> bool" for alloc zero where
  New: "pool_reachable alloc zero (new_pool cap)"
| Step: "pool_reachable alloc zero st \<Longrightarrow> pool_step alloc zero st st' \<Longrightarrow> pool_reachable alloc zero st'"

lemma pool_step_ok: "pool_step alloc zero st st' \<Longrightarrow> pool_ok st \<Longrightarrow> pool_ok st'"
proof (induction rule: pool_step.induct)
  case (Acquire_Capacity k cap st b st')
  then show ?case
    using acquire_uninit_ok [of st alloc k cap]
    by (auto simp: acquire_with_capacity_def split: if_splits prod.splits sum.splits)
next
  case (Acquire_Uninit k len st r st')
  then show ?case using acquire_uninit_ok [of st alloc k len] by simp
next
  case (Replenish st)
  have "pool_inv st" using Replenish.prems by (simp add: pool_ok_def)
  then show ?case by (rule replenish_ok(1)) (rule Replenish.hyps)
next
  case (Set_Max st cap)
  have "pool_inv st" using Set_Max.prems by (simp add: pool_ok_def)
  then show ?case by (rule set_max_ok)
qed (simp_all add: acquire_zeroed_ok pool_release_ok recycle_ok return_checkout_ok
    pool_finish_recycled_def pool_discard_uninit_def clear_ok clear_in_flight_ok)

lemma pool_reachable_ok: "pool_reachable alloc zero st \<Longrightarrow> pool_ok st"
  by (induction rule: pool_reachable.induct) (simp_all add: new_pool_ok pool_step_ok)

end
