(* ===== verification/Pool_Theorems.thy ===== *)
theory Pool_Theorems
  imports Buffer_Pool_Correct
begin

text \<open>
  What the buffer pool of \<open>tenferro-cpu-basic\<close> promises over any history of operations: exact
  byte accounting under the retention cap, best-fit reuse with zeroed contents, eviction of a
  smallest buffer, and balanced checkouts.
\<close>

section \<open>All reachable pools\<close>

text \<open>C4: In every pool reachable from a new one, each retained buffer lies in the bin of its own
  capacity, the retained-bytes counter is exactly the total capacity retained, and it never exceeds
  the configured maximum.\<close>

theorem reachable_pool_accounting:
  assumes "pool_reachable alloc zero st"
  shows "ps_retained st = total_bytes st \<and> ps_retained st \<le> ps_max st \<and>
    (\<forall>k cap vecs b. (cap, vecs) \<in> set (ps_bins st k) \<longrightarrow> b \<in> set vecs \<longrightarrow> b_capacity b = cap)"
  using pool_reachable_ok [OF assms] by (auto simp: pool_ok_def pool_inv_def bins_ok_def)

lemma sample_reachable:
  "pool_reachable Some 0 (pool_release PF64 \<lparr>b_elems = [7 :: nat], b_capacity = 2\<rparr> (new_pool 64))"
proof (rule pool_reachable.Step [OF pool_reachable.New])
  show "pool_step Some 0 (new_pool 64) (pool_release PF64 \<lparr>b_elems = [7 :: nat], b_capacity = 2\<rparr> (new_pool 64))"
    by (rule pool_step.Release) (simp add: total_bytes_def new_pool_def usize_max_def)
qed

theorem reachable_pool_accounting_witness:
  "ps_retained (pool_release PF64 \<lparr>b_elems = [7 :: nat], b_capacity = 2\<rparr> (new_pool 64)) \<le>
    ps_max (pool_release PF64 \<lparr>b_elems = [7 :: nat], b_capacity = 2\<rparr> (new_pool 64))"
  using reachable_pool_accounting [OF sample_reachable] by blast

text \<open>C26: An eviction removes one buffer, no retained buffer of any scalar type is smaller, and the
  bytes it reports are the ones that left the pool.\<close>

theorem eviction_takes_a_smallest_buffer:
  assumes "pool_inv st" and "evict_smallest_retained_buffer st = Some (n, st')"
  shows "total_bytes st = total_bytes st' + n \<and> pool_count st = Suc (pool_count st') \<and>
    (\<forall>(k, cap) \<in> retained_buffers st. n \<le> cap * elem_size k)"
proof -
  have inv: "bins_invar st" and u: "total_bytes st \<le> usize_max"
    using assms(1) by (simp_all add: pool_inv_alt)
  from evict_smallest_Some(1) [OF assms(2) inv] obtain k cap
    where e: "n = saturating_mul cap (elem_size k)"
      "\<forall>(k', cap') \<in> retained_buffers st. n \<le> saturating_mul cap' (elem_size k')"
      "total_bytes st = total_bytes st' + cap * elem_size k" by blast
  have "n = cap * elem_size k" using e(1,3) u saturating_mul_small by simp
  moreover have "\<forall>(k, cap) \<in> retained_buffers st. n \<le> cap * elem_size k"
    using e(2) by (auto simp: saturating_mul_def)
  ultimately show ?thesis using e(3) evict_smallest_count [OF assms(2)] by simp
qed

definition sample_pool :: "nat pool_state" where
  "sample_pool =
    \<lparr>ps_bins = (\<lambda>_. [])(PF64 := [(2, [\<lparr>b_elems = [7], b_capacity = 2\<rparr>]), (5, [\<lparr>b_elems = [], b_capacity = 5\<rparr>])]),
     ps_in_flight = (\<lambda>_. []), ps_retained = 56, ps_max = 64\<rparr>"

lemma sum_kinds:
  "(\<Sum>k \<in> UNIV. f k) = f PF64 + f PF32 + f PI32 + f PI64 + f PBool + f PC64 + f PC32" for f :: "pool_kind \<Rightarrow> nat"
  unfolding sum_POOL_KINDS [symmetric] by (simp add: POOL_KINDS_def)

lemma sample_pool_inv: "pool_inv sample_pool"
  by (simp add: sample_pool_def pool_inv_def total_bytes_def sum_kinds usize_max_def)

theorem eviction_takes_a_smallest_buffer_witness:
  "\<exists>st'. evict_smallest_retained_buffer sample_pool = Some (16, st') \<and> total_bytes sample_pool = total_bytes st' + 16"
proof -
  have "evict_smallest_retained_buffer sample_pool =
      Some (16, sample_pool\<lparr>ps_bins := (\<lambda>_. [])(PF64 := [(5, [\<lparr>b_elems = [], b_capacity = 5\<rparr>])])\<rparr>)"
    by (simp add: evict_smallest_retained_buffer_def candidates_def POOL_KINDS_def List.map_filter_simps
        smallest_pool_candidate_def sample_pool_def saturating_mul_def usize_max_def)
  from eviction_takes_a_smallest_buffer [OF sample_pool_inv this] this show ?thesis by blast
qed

section \<open>Acquiring\<close>

text \<open>C38: \<open>pool_acquire_zeroed\<close> returns exactly \<open>len\<close> zeros in a buffer with room for them, and when
  retained buffers fit it takes a smallest fitting one.\<close>

theorem acquire_zeroed_best_fit:
  assumes "pool_inv st" and "pool_acquire_zeroed alloc zero k len st = Some (b, st')"
    and "\<forall>n c. alloc n = Some c \<longrightarrow> n \<le> c"
  shows "b_elems b = replicate len zero \<and> len \<le> b_capacity b \<and>
    (\<forall>cap vecs. (cap, vecs) \<in> set (ps_bins st k) \<longrightarrow> vecs \<noteq> [] \<longrightarrow> len \<le> cap \<longrightarrow> b_capacity b \<le> cap)"
proof (cases "take_best_fit (ps_bins st k) len")
  case None
  then show ?thesis
    using assms(2,3) take_best_fit_None [of "ps_bins st k" len] by (auto simp: pool_acquire_zeroed_def)
next
  case (Some p)
  obtain c m where p: "take_best_fit (ps_bins st k) len = Some (c, m)" using Some by (cases p) simp
  have b: "b = \<lparr>b_elems = replicate len zero, b_capacity = b_capacity c\<rparr>"
    using acquire_zeroed_taken [OF assms(1) p, of alloc zero] assms(2) by simp
  have "best_fit (ps_bins st k) len c m" by (rule taken_facts(1) [OF assms(1) p])
  then show ?thesis unfolding b best_fit_def by auto
qed

lemma sample_acquire:
  "\<exists>st'. pool_acquire_zeroed Some 0 PF64 3 sample_pool =
    Some (\<lparr>b_elems = [0, 0, 0], b_capacity = 5\<rparr>, st')"
  by (simp add: pool_acquire_zeroed_def sample_pool_def eval_nat_numeral)

theorem acquire_zeroed_best_fit_witness:
  "3 \<le> b_capacity \<lparr>b_elems = [0, 0, 0 :: nat], b_capacity = 5\<rparr>"
proof -
  from sample_acquire obtain st' where a: "pool_acquire_zeroed Some 0 PF64 3 sample_pool =
    Some (\<lparr>b_elems = [0, 0, 0], b_capacity = 5\<rparr>, st')" by blast
  have "\<forall>n c. Some n = Some c \<longrightarrow> n \<le> (c :: nat)" by simp
  from acquire_zeroed_best_fit [OF sample_pool_inv a this] show ?thesis by blast
qed

text \<open>C37: A tracked checkout balances: settling its token, by finishing or discarding, gives every
  in-flight counter the value it had before the checkout, whether the buffer was reused or fresh,
  and the bytes of a reused buffer leave the retained total exactly once.\<close>

theorem checkout_balances:
  assumes "pool_inv st" and "pool_acquire_uninit_tracked alloc k len st = (Ok (b, token), st')"
  shows "checked_out (pool_finish_recycled k token st') = checked_out st \<and>
    checked_out (pool_discard_uninit k b token st') = checked_out st \<and>
    (\<forall>cap. token = Reused cap \<longrightarrow> ps_retained st = ps_retained st' + cap * elem_size k)"
proof (cases "take_best_fit (ps_bins st k) len")
  case None
  then show ?thesis
    using assms(2)
    by (auto simp: pool_acquire_uninit_tracked_def pool_finish_recycled_def pool_discard_uninit_def
        return_checkout_def split: option.splits)
next
  case (Some p)
  obtain c m where p: "take_best_fit (ps_bins st k) len = Some (c, m)" using Some by (cases p) simp
  have r: "token = Reused (b_capacity c)" "st' = taken k c m st"
    using acquire_uninit_taken [OF assms(1) p, of alloc] assms(2) by simp_all
  show ?thesis
    using finish_restores [OF assms(1) p] taken_facts(4) [OF assms(1) p]
    by (simp add: r pool_finish_recycled_def pool_discard_uninit_def)
qed

theorem checkout_balances_witness:
  "\<exists>b st'. pool_acquire_uninit_tracked Some PF64 3 sample_pool = (Ok (b, Reused 5), st') \<and>
    checked_out (pool_finish_recycled PF64 (Reused 5) st') = checked_out sample_pool"
proof -
  have "\<exists>b st'. pool_acquire_uninit_tracked Some PF64 3 sample_pool = (Ok (b, Reused 5), st')"
    by (simp add: pool_acquire_uninit_tracked_def sample_pool_def checked_mul_def usize_max_def)
  then obtain b st' where a: "pool_acquire_uninit_tracked Some PF64 3 sample_pool = (Ok (b, Reused 5), st')"
    by blast
  from checkout_balances [OF sample_pool_inv a] a show ?thesis by blast
qed

text \<open>Releasing a reused buffer restores the pool's accounting: the retained bytes and every
  in-flight counter are what they were before it was acquired, and nothing is evicted.\<close>

theorem release_undoes_reuse:
  assumes "pool_ok st" and "take_best_fit (ps_bins st k) len \<noteq> None"
    and "pool_acquire_zeroed alloc zero k len st = Some (b, st')" and "0 < b_capacity b"
  shows "ps_retained (pool_release k b st') = ps_retained st \<and>
    checked_out (pool_release k b st') = checked_out st \<and>
    pool_count (pool_release k b st') = Suc (pool_count st')"
proof -
  obtain c m where p: "take_best_fit (ps_bins st k) len = Some (c, m)" using assms(2) by auto
  have inv: "pool_inv st" and le: "ps_retained st \<le> ps_max st" using assms(1) by (simp_all add: pool_ok_def)
  have cb: "b_capacity c = b_capacity b" and st': "st' = taken k c m st"
    using acquire_zeroed_taken [OF inv p, of alloc zero] assms(3) by simp_all
  note T = taken_facts [OF inv p, unfolded cb, folded st']
  have u: "ps_retained st' + b_capacity b * elem_size k \<le> usize_max"
    using T(4) inv by (simp add: pool_inv_def)
  define st1 where "st1 = st'\<lparr>ps_in_flight := (ps_in_flight st')(k := decrement_in_flight (b_capacity b) (ps_in_flight st' k)),
      ps_retained := ps_retained st,
      ps_bins := (ps_bins st')(k := push_buf (b_capacity b) b (ps_bins st' k))\<rparr>"
  have sat: "saturating_add (ps_retained st') (saturating_mul (b_capacity b) (elem_size k)) = ps_retained st"
    using T(4) u by (simp add: saturating_add_def saturating_mul_def)
  have "ps_retained st1 \<le> ps_max st1" using le by (simp add: st1_def st' taken_def)
  from enforce_id [OF this] have rel: "pool_release k b st' = st1"
    using assms(4) sat by (simp add: pool_release_def recycle_def Let_def st1_def)
  have co: "checked_out st1 = checked_out (return_checkout k (Reused (b_capacity b)) st')"
    by (intro ext) (simp add: checked_out_def st1_def return_checkout_def)
  have "checked_out st1 = checked_out st"
    using finish_restores [OF inv p] cb st' co by simp
  moreover have "pool_count st1 = Suc (pool_count st')"
  proof -
    have bt: "bt_invar (ps_bins st' k)" using T(3) by (simp add: pool_inv_def bins_ok_def)
    have "pool_len (push_buf (b_capacity b) b (ps_bins st' k)) = Suc (pool_len (ps_bins st' k))"
      using btree.total_ins [OF bt, of "\<lambda>_. length" "b_capacity b"
          "(case bt_get (ps_bins st' k) (b_capacity b) of None \<Rightarrow> [] | Some w \<Rightarrow> w) @ [b]"]
      by (simp add: pool_len_def push_buf_def bt_update_def split: option.splits)
    then show ?thesis
      using sum_kind_update [of "\<lambda>_. pool_len" "ps_bins st'" k "push_buf (b_capacity b) b (ps_bins st' k)"]
      by (simp add: pool_count_def sum_POOL_KINDS st1_def)
  qed
  ultimately show ?thesis by (simp add: rel st1_def)
qed

theorem release_undoes_reuse_witness:
  "\<exists>st'. ps_retained (pool_release PF64 \<lparr>b_elems = [0, 0, 0], b_capacity = 5\<rparr> st') = 56 \<and>
    pool_acquire_zeroed Some 0 PF64 3 sample_pool = Some (\<lparr>b_elems = [0, 0, 0], b_capacity = 5\<rparr>, st')"
proof -
  from sample_acquire obtain st' where a: "pool_acquire_zeroed Some 0 PF64 3 sample_pool =
    Some (\<lparr>b_elems = [0, 0, 0], b_capacity = 5\<rparr>, st')" by blast
  have ok: "pool_ok sample_pool" using sample_pool_inv by (simp add: pool_ok_def) (simp add: sample_pool_def)
  have t: "take_best_fit (ps_bins sample_pool PF64) 3 \<noteq> None" by (simp add: sample_pool_def)
  have r: "ps_retained sample_pool = 56" by (simp add: sample_pool_def)
  show ?thesis using release_undoes_reuse [OF ok t a] a r by auto
qed

text \<open>Replenishing gives the pool a fresh buffer for each one in flight and clears the counters:
  whenever the replacements fit in the address space, the accounting stays exact and the cap is
  respected.\<close>

theorem replenish_keeps_accounting:
  assumes "pool_inv st" and "total_bytes st + in_flight_bytes alloc st \<le> usize_max"
  shows "ps_retained (replenish_in_flight_retained alloc st) = total_bytes (replenish_in_flight_retained alloc st) \<and>
    ps_retained (replenish_in_flight_retained alloc st) \<le> ps_max (replenish_in_flight_retained alloc st) \<and>
    in_flight_is_empty (replenish_in_flight_retained alloc st)"
  using replenish_ok [OF assms] by (simp add: pool_ok_def pool_inv_def in_flight_is_empty_def list_all_iff)

theorem replenish_keeps_accounting_witness:
  "in_flight_is_empty (replenish_in_flight_retained Some sample_pool)"
proof -
  have "total_bytes sample_pool + in_flight_bytes Some sample_pool \<le> usize_max"
    by (simp add: sample_pool_def total_bytes_def in_flight_bytes_def replenish_bytes_def sum_kinds usize_max_def)
  from replenish_keeps_accounting [OF sample_pool_inv this] show ?thesis by blast
qed

text \<open>A fresh buffer has no counter of its own, so releasing it settles the counter of a reused buffer
  of the same capacity that is still checked out.\<close>

lemma fresh_release_settles_other_checkout:
  "\<exists>b1 st1 b2 st2. pool_acquire_zeroed Some 0 PF64 5 sample_pool = Some (b1, st1) \<and>
    pool_acquire_zeroed Some 0 PF64 5 st1 = Some (b2, st2) \<and>
    checked_out st2 PF64 5 = 1 \<and> checked_out (pool_release PF64 b2 st2) PF64 5 = 0"
proof -
  let ?b = "\<lparr>b_elems = replicate 5 0, b_capacity = 5\<rparr>"
  let ?st = "\<lparr>ps_bins = (\<lambda>_. [])(PF64 := [(2, [\<lparr>b_elems = [7 :: nat], b_capacity = 2\<rparr>]), (5, [])]),
     ps_in_flight = (\<lambda>_. [])(PF64 := [(5, 1)]), ps_retained = 16, ps_max = 64\<rparr>"
  have 1: "pool_acquire_zeroed Some 0 PF64 5 sample_pool = Some (?b, ?st)"
    by (simp add: pool_acquire_zeroed_def sample_pool_def increment_in_flight_def bt_update_def fun_eq_iff
        saturating_sub_def saturating_mul_def usize_max_def)
  have 2: "pool_acquire_zeroed Some 0 PF64 5 ?st = Some (?b, ?st)"
    by (simp add: pool_acquire_zeroed_def)
  have 3: "checked_out (pool_release PF64 ?b ?st) PF64 5 = 0"
    by (simp add: pool_release_def recycle_def enforce_id saturating_add_def saturating_mul_def usize_max_def
        checked_out_def decrement_in_flight_def saturating_sub_def bt_get_def)
  show ?thesis using 1 2 3 by (intro exI conjI) (assumption | simp add: checked_out_def bt_get_def)+
qed

end
