(* ===== verification/Einsum_Syntax.thy ===== *)
theory Einsum_Syntax
  imports Tensor_Core
begin

text \<open>
  The flat syntax of \<open>crates/tenferro-einsum\<close>: the error type (\<open>error.rs\<close>), the notation scanner
  (\<open>syntax/notation.rs\<close>), \<open>Subscripts\<close> (\<open>syntax/subscripts.rs\<close>) and the rank-unresolved
  \<open>EinsumNotation\<close> (\<open>subscripts.rs\<close>).  A \<open>char\<close> is its Unicode scalar value, a \<open>&str\<close> the list
  of them, and a label the \<open>u32\<close> the code makes of a character.  The printers at the end are the
  reference the parsers are compared with: each parser accepts exactly the printed well-formed
  values.
\<close>

type_synonym uchar = nat
type_synonym label = nat

section \<open>Errors\<close>

datatype subscript_message =
    Reserved_Character uchar
  | Arrow_Count
  | Unmatched_Close
  | Unmatched_Open
  | Parentheses_In_Flat
  | Ellipsis_Needs_Rank
  | Exactly_Three_Dots
  | Two_Ellipses
  | Unmatched_Close_In_Group
  | Nested_Ellipsis
  | No_Input_Term
  | Output_Ellipsis_Without_Input
  | Ellipsis_Axes_Without_Output
  | Not_Enough_Labels
  | Output_Label_Missing label

datatype planning_message =
    Input_Shape_Count nat nat
  | Input_Rank nat nat nat
  | Unknown_Size label
  | Product_Overflow "nat list"
  | Strict_Missing_Dimension label
  | Strict_Missing_Output label
  | Step_Count nat nat nat
  | Same_Operand_Twice nat nat
  | Operand_Not_Existent nat nat
  | Operand_Not_Live nat nat
  | Live_Results nat
  | Non_Binary_Node nat
  | Position_Twice nat nat
  | Position_Out_Of_Range nat nat nat nat
  | Leaf_Out_Of_Range nat nat
  | Node_Without_Children
  | No_Root_Operand
  | Optimizer_Option string
  | Tree_Needs_Shapes
  | Builder_Invalid string

datatype einsum_error =
    Validation string validation_error
  | InvalidSubscripts subscript_message
  | Planning planning_message
  | Panicked

text \<open>\<open>Panicked\<close> stands for an index panic, where the code indexes a map with a missing key.\<close>

definition einsum_rank_mismatch :: "nat \<Rightarrow> nat \<Rightarrow> einsum_error" where
  "einsum_rank_mismatch expected actual = Validation ''einsum'' (RankMismatch expected actual)"

definition einsum_shape_mismatch :: "shape \<Rightarrow> shape \<Rightarrow> einsum_error" where
  "einsum_shape_mismatch expected actual =
    Validation ''einsum'' (ShapeMismatch (ExpectedActual expected actual))"

type_synonym 'a eres = "einsum_error + 'a"

section \<open>Characters\<close>

abbreviation comma :: uchar where "comma \<equiv> 44"
abbreviation dash :: uchar where "dash \<equiv> 45"
abbreviation dot :: uchar where "dot \<equiv> 46"
abbreviation arrowhead :: uchar where "arrowhead \<equiv> 62"
abbreviation lparen :: uchar where "lparen \<equiv> 40"
abbreviation rparen :: uchar where "rparen \<equiv> 41"
abbreviation space :: uchar where "space \<equiv> 32"

definition chars :: "string \<Rightarrow> uchar list" where
  "chars s = map of_char s"

definition RESERVED_CHARS :: "uchar list" where
  "RESERVED_CHARS = [comma, dash, arrowhead, lparen, rparen, space]"

definition char_to_label :: "uchar \<Rightarrow> label eres" where
  "char_to_label c =
    (if c \<in> set RESERVED_CHARS then Err (InvalidSubscripts (Reserved_Character c)) else Ok c)"

text \<open>\<open>str::split\<close> on a character and on the two-character arrow.\<close>

fun cons_first :: "'a \<Rightarrow> 'a list list \<Rightarrow> 'a list list" where
  "cons_first a [] = [[a]]"
| "cons_first a (p # ps) = (a # p) # ps"

fun split_char :: "uchar \<Rightarrow> uchar list \<Rightarrow> uchar list list" where
  "split_char c [] = [[]]"
| "split_char c (a # s) = (if a = c then [] # split_char c s else cons_first a (split_char c s))"

fun split_arrow :: "uchar list \<Rightarrow> uchar list list" where
  "split_arrow [] = [[]]"
| "split_arrow [a] = [[a]]"
| "split_arrow (a # b # s) =
    (if a = dash \<and> b = arrowhead then [] # split_arrow s else cons_first a (split_arrow (b # s)))"

section \<open>The scanner\<close>

definition depth_step :: "int \<Rightarrow> uchar \<Rightarrow> int eres" where
  "depth_step depth c =
    (if c = lparen then Ok (depth + 1)
     else if c = rparen then
       (let depth = depth - 1 in
        if depth < 0 then Err (InvalidSubscripts Unmatched_Close) else Ok depth)
     else Ok depth)"

definition split_and_validate_notation :: "uchar list \<Rightarrow> (uchar list \<times> uchar list) eres" where
  "split_and_validate_notation notation =
    (let parts = split_arrow notation in
     if length parts \<noteq> 2 then Err (InvalidSubscripts Arrow_Count)
     else
       let lhs = parts ! 0; rhs = parts ! 1 in
       and_then (try_fold depth_step 0 lhs) (\<lambda>depth.
         if depth \<noteq> 0 then Err (InvalidSubscripts Unmatched_Open) else Ok (lhs, rhs)))"

section \<open>Flat subscripts\<close>

record subscripts =
  sb_inputs :: "label list list"
  sb_output :: "label list"

definition subscripts_parse :: "uchar list \<Rightarrow> subscripts eres" where
  "subscripts_parse notation =
    and_then (split_and_validate_notation notation) (\<lambda>(inputs_str, output_str).
      if lparen \<in> set inputs_str \<or> rparen \<in> set inputs_str
      then Err (InvalidSubscripts Parentheses_In_Flat)
      else if dot \<in> set notation then Err (InvalidSubscripts Ellipsis_Needs_Rank)
      else
        and_then (traverse char_to_label output_str) (\<lambda>output.
        and_then (traverse (\<lambda>s. traverse char_to_label s) (split_char comma inputs_str)) (\<lambda>inputs.
          Ok \<lparr>sb_inputs = inputs, sb_output = output\<rparr>)))"

section \<open>Rank-unresolved notation\<close>

datatype einsum_axis = Label label | Ellipsis

record einsum_notation =
  en_inputs :: "einsum_axis list list"
  en_output :: "einsum_axis list"

fun parse_axis_loop :: "einsum_axis list \<Rightarrow> uchar list \<Rightarrow> einsum_axis list eres" where
  "parse_axis_loop axes [] = Ok axes"
| "parse_axis_loop axes (c # cs) =
    (if c = dot then
       (case cs of
          a # b # rest \<Rightarrow>
            if a \<noteq> dot \<or> b \<noteq> dot then Err (InvalidSubscripts Exactly_Three_Dots)
            else if Ellipsis \<in> set axes then Err (InvalidSubscripts Two_Ellipses)
            else parse_axis_loop (axes @ [Ellipsis]) rest
        | _ \<Rightarrow> Err (InvalidSubscripts Exactly_Three_Dots))
     else and_then (char_to_label c) (\<lambda>l. parse_axis_loop (axes @ [Label l]) cs))"

definition parse_axis_term :: "uchar list \<Rightarrow> einsum_axis list eres" where
  "parse_axis_term s = parse_axis_loop [] s"

definition notation_parse :: "uchar list \<Rightarrow> einsum_notation eres" where
  "notation_parse notation =
    and_then (split_and_validate_notation notation) (\<lambda>(inputs_str, output_str).
      if lparen \<in> set inputs_str \<or> rparen \<in> set inputs_str \<or>
         lparen \<in> set output_str \<or> rparen \<in> set output_str
      then Err (InvalidSubscripts Parentheses_In_Flat)
      else
        and_then (traverse parse_axis_term (split_char comma inputs_str)) (\<lambda>inputs.
        and_then (parse_axis_term output_str) (\<lambda>output.
          Ok \<lparr>en_inputs = inputs, en_output = output\<rparr>)))"

section \<open>The printed form\<close>

fun join :: "'a \<Rightarrow> 'a list list \<Rightarrow> 'a list" where
  "join c [] = []"
| "join c [p] = p"
| "join c (p # ps) = p @ c # join c ps"

definition label_char :: "label \<Rightarrow> bool" where
  "label_char l \<longleftrightarrow> l \<notin> set RESERVED_CHARS \<and> l \<noteq> dot"

definition print_subscripts :: "subscripts \<Rightarrow> uchar list" where
  "print_subscripts s = join comma (sb_inputs s) @ [dash, arrowhead] @ sb_output s"

definition printable_subscripts :: "subscripts \<Rightarrow> bool" where
  "printable_subscripts s \<longleftrightarrow>
    sb_inputs s \<noteq> [] \<and> list_all (list_all label_char) (sb_inputs s) \<and> list_all label_char (sb_output s)"

fun print_axis :: "einsum_axis \<Rightarrow> uchar list" where
  "print_axis (Label l) = [l]"
| "print_axis Ellipsis = [dot, dot, dot]"

definition print_term :: "einsum_axis list \<Rightarrow> uchar list" where
  "print_term t = concat (map print_axis t)"

definition print_notation :: "einsum_notation \<Rightarrow> uchar list" where
  "print_notation n = join comma (map print_term (en_inputs n)) @ [dash, arrowhead] @ print_term (en_output n)"

fun axis_printable :: "einsum_axis \<Rightarrow> bool" where
  "axis_printable (Label l) = label_char l"
| "axis_printable Ellipsis = True"

definition term_printable :: "einsum_axis list \<Rightarrow> bool" where
  "term_printable t \<longleftrightarrow> list_all axis_printable t \<and> count_list t Ellipsis \<le> 1"

definition printable_notation :: "einsum_notation \<Rightarrow> bool" where
  "printable_notation n \<longleftrightarrow>
    en_inputs n \<noteq> [] \<and> list_all term_printable (en_inputs n) \<and> term_printable (en_output n)"

section \<open>Splitting\<close>

lemma split_char_not_Nil [simp]: "split_char c s \<noteq> []"
proof (induction s)
  case (Cons a s)
  then show ?case by (cases "split_char c s") auto
qed simp

lemma join_Cons: "ps \<noteq> [] \<Longrightarrow> join c (p # ps) = p @ c # join c ps"
  by (cases ps) auto

lemma join_cons_first: "ps \<noteq> [] \<Longrightarrow> join c (cons_first a ps) = a # join c ps"
  by (cases ps; cases "tl ps") auto

lemma join_split_char: "join c (split_char c s) = s"
  by (induction s) (simp_all add: join_Cons join_cons_first)

lemma set_cons_first: "ps \<noteq> [] \<Longrightarrow> (\<forall>p \<in> set (cons_first a ps). c \<notin> set p) \<longleftrightarrow> c \<noteq> a \<and> (\<forall>p \<in> set ps. c \<notin> set p)"
  by (cases ps) auto

lemma split_char_parts: "\<forall>p \<in> set (split_char c s). c \<notin> set p"
  by (induction s) (simp_all add: set_cons_first del: set_append)

lemma split_char_none: "c \<notin> set p \<Longrightarrow> split_char c p = [p]"
  by (induction p) auto

lemma split_char_append: "c \<notin> set p \<Longrightarrow> split_char c (p @ c # s) = p # split_char c s"
  by (induction p) auto

lemma split_char_join:
  "ps \<noteq> [] \<Longrightarrow> \<forall>p \<in> set ps. c \<notin> set p \<Longrightarrow> split_char c (join c ps) = ps"
  by (induction c ps rule: join.induct) (auto simp: split_char_none split_char_append)

lemma split_char_iff:
  "split_char c s = ps \<longleftrightarrow> ps \<noteq> [] \<and> s = join c ps \<and> (\<forall>p \<in> set ps. c \<notin> set p)"
  by (metis join_split_char split_char_join split_char_not_Nil split_char_parts)

lemma split_arrow_not_Nil [simp]: "split_arrow s \<noteq> []"
proof (induction s rule: split_arrow.induct)
  case (3 a b s)
  then show ?case by (cases "split_arrow (b # s)") auto
qed auto

lemma split_arrow_none: "arrowhead \<notin> set s \<Longrightarrow> split_arrow s = [s]"
  by (induction s rule: split_arrow.induct) auto

lemma split_arrow_append:
  "arrowhead \<notin> set l \<Longrightarrow> split_arrow (l @ dash # arrowhead # r) = l # split_arrow r"
proof (induction l)
  case (Cons a l)
  then show ?case by (cases l) auto
qed simp

text \<open>Joining the parts with the arrow gives the string back.\<close>

fun join_arrow :: "uchar list list \<Rightarrow> uchar list" where
  "join_arrow [] = []"
| "join_arrow [p] = p"
| "join_arrow (p # ps) = p @ dash # arrowhead # join_arrow ps"

lemma join_arrow_Cons: "ps \<noteq> [] \<Longrightarrow> join_arrow (p # ps) = p @ dash # arrowhead # join_arrow ps"
  by (cases ps) auto

lemma join_arrow_cons_first: "ps \<noteq> [] \<Longrightarrow> join_arrow (cons_first a ps) = a # join_arrow ps"
  by (cases ps; cases "tl ps") auto

lemma join_split_arrow: "join_arrow (split_arrow s) = s"
  by (induction s rule: split_arrow.induct) (simp_all add: join_arrow_Cons join_arrow_cons_first)

lemma split_arrow_two: "split_arrow s = [l, r] \<Longrightarrow> s = l @ dash # arrowhead # r"
  using join_split_arrow [of s] by simp

section \<open>The scanner accepts exactly balanced notation\<close>

lemma depth_step_plain: "c \<noteq> lparen \<Longrightarrow> c \<noteq> rparen \<Longrightarrow> depth_step d c = Ok d"
  by (simp add: depth_step_def)

lemma depth_plain: "lparen \<notin> set s \<Longrightarrow> rparen \<notin> set s \<Longrightarrow> try_fold depth_step d s = Ok d"
  by (induction s) (auto simp: depth_step_plain)

lemma split_and_validate_notation_parts:
  "split_and_validate_notation n = Ok (l, r) \<Longrightarrow> n = l @ dash # arrowhead # r"
proof -
  assume "split_and_validate_notation n = Ok (l, r)"
  then have "length (split_arrow n) = 2" "l = split_arrow n ! 0" "r = split_arrow n ! 1"
    by (auto simp: split_and_validate_notation_def Let_def split: if_splits)
  then have "split_arrow n = [l, r]" by (auto simp: length_Suc_conv numeral_2_eq_2)
  then show ?thesis by (rule split_arrow_two)
qed

lemma split_and_validate_notation_flat:
  assumes "arrowhead \<notin> set l" "arrowhead \<notin> set r" "lparen \<notin> set l" "rparen \<notin> set l"
  shows "split_and_validate_notation (l @ dash # arrowhead # r) = Ok (l, r)"
  using assms by (simp add: split_and_validate_notation_def split_arrow_append split_arrow_none depth_plain)

section \<open>Parsing inverts printing\<close>

lemma char_to_label_eq_Inr [simp]: "char_to_label c = Ok l \<longleftrightarrow> c = l \<and> l \<notin> set RESERVED_CHARS"
  by (auto simp: char_to_label_def)

lemma traverse_labels:
  "traverse char_to_label s = Ok ls \<longleftrightarrow> s = ls \<and> list_all (\<lambda>l. l \<notin> set RESERVED_CHARS) ls"
  using traverse_inverse [of char_to_label "\<lambda>l. l" "\<lambda>l. l \<notin> set RESERVED_CHARS"] by simp

lemma traverse_label_terms:
  "traverse (\<lambda>s. traverse char_to_label s) ts = Ok ls \<longleftrightarrow>
    ts = ls \<and> list_all (list_all (\<lambda>l. l \<notin> set RESERVED_CHARS)) ls"
  using traverse_inverse [of "\<lambda>s. traverse char_to_label s" "\<lambda>l. l"
    "list_all (\<lambda>l. l \<notin> set RESERVED_CHARS)"] by (simp add: traverse_labels)

lemma set_join: "set (join c ps) \<subseteq> insert c (\<Union> (set ` set ps))"
  by (induction c ps rule: join.induct) auto

lemma set_join_parts: "p \<in> set ps \<Longrightarrow> set p \<subseteq> set (join c ps)"
  by (induction c ps rule: join.induct) auto

lemma label_char_iff:
  "label_char l \<longleftrightarrow> l \<noteq> comma \<and> l \<noteq> dash \<and> l \<noteq> dot \<and> l \<noteq> arrowhead \<and> l \<noteq> lparen \<and> l \<noteq> rparen \<and> l \<noteq> space"
  by (auto simp: label_char_def RESERVED_CHARS_def)

lemma reserved_list_all:
  "list_all (\<lambda>l. l \<notin> set RESERVED_CHARS) s \<and> dot \<notin> set s \<longleftrightarrow> list_all label_char s"
  by (auto simp: list_all_iff label_char_def)

lemma plain_parts:
  assumes "list_all (list_all label_char) ps"
  shows "\<forall>c \<in> {dash, dot, arrowhead, lparen, rparen}. c \<notin> set (join comma ps)"
    and "\<forall>p \<in> set ps. comma \<notin> set p"
proof -
  have "c \<noteq> comma \<Longrightarrow> c \<in> set (join comma ps) \<Longrightarrow> \<exists>p \<in> set ps. c \<in> set p" for c
    using set_join [of comma ps] by auto
  then show "\<forall>c \<in> {dash, dot, arrowhead, lparen, rparen}. c \<notin> set (join comma ps)"
    using assms by (fastforce simp: list_all_iff label_char_iff)
  show "\<forall>p \<in> set ps. comma \<notin> set p" using assms by (auto simp: list_all_iff label_char_iff)
qed

lemma subscripts_parse_iff:
  "subscripts_parse n = Ok s \<longleftrightarrow> n = print_subscripts s \<and> printable_subscripts s"
proof
  assume "subscripts_parse n = Ok s"
  then obtain l r where p: "split_and_validate_notation n = Ok (l, r)"
    and d: "dot \<notin> set n" and out: "traverse char_to_label r = Ok (sb_output s)"
    and inp: "traverse (\<lambda>s. traverse char_to_label s) (split_char comma l) = Ok (sb_inputs s)"
    by (auto simp: subscripts_parse_def split: if_splits prod.splits)
  note n = split_and_validate_notation_parts [OF p]
  from inp have l: "split_char comma l = sb_inputs s"
    and v: "list_all (list_all (\<lambda>l. l \<notin> set RESERVED_CHARS)) (sb_inputs s)"
    by (simp_all add: traverse_label_terms)
  from l have lj: "l = join comma (sb_inputs s)" and ne: "sb_inputs s \<noteq> []"
    by (simp_all add: split_char_iff)
  have "\<forall>p \<in> set (sb_inputs s). dot \<notin> set p"
    using d set_join_parts [of _ "sb_inputs s" comma] by (auto simp: n lj)
  with v have "list_all (list_all label_char) (sb_inputs s)"
    by (auto simp: list_all_iff label_char_def)
  moreover from out d have "list_all label_char (sb_output s)" and "r = sb_output s"
    by (auto simp: traverse_labels n reserved_list_all [symmetric])
  ultimately show "n = print_subscripts s \<and> printable_subscripts s"
    using n ne lj by (simp add: print_subscripts_def printable_subscripts_def)
next
  assume a: "n = print_subscripts s \<and> printable_subscripts s"
  then have v: "list_all (list_all label_char) (sb_inputs s)" "list_all label_char (sb_output s)"
    and ne: "sb_inputs s \<noteq> []" by (simp_all add: printable_subscripts_def)
  note pp = plain_parts [OF v(1)]
  have o: "\<forall>c \<in> {dash, dot, arrowhead, lparen, rparen}. c \<notin> set (sb_output s)"
    using v(2) by (auto simp: list_all_iff label_char_iff)
  have "split_and_validate_notation n = Ok (join comma (sb_inputs s), sb_output s)"
    using a pp(1) o by (simp add: print_subscripts_def split_and_validate_notation_flat)
  moreover have "dot \<notin> set n" using a pp(1) o by (auto simp: print_subscripts_def)
  moreover have "traverse char_to_label (sb_output s) = Ok (sb_output s)"
    using v(2) by (simp add: traverse_labels reserved_list_all [symmetric])
  moreover have "traverse (\<lambda>s. traverse char_to_label s) (split_char comma (join comma (sb_inputs s))) =
      Ok (sb_inputs s)"
    using v(1) by (simp add: split_char_join [OF ne pp(2)] traverse_label_terms list_all_iff
        reserved_list_all [symmetric] label_char_def)
  ultimately show "subscripts_parse n = Ok s"
    using pp(1) by (simp add: subscripts_parse_def)
qed

section \<open>Terms with an ellipsis\<close>

lemma print_term_Nil [simp]: "print_term [] = []"
  by (simp add: print_term_def)

lemma print_term_Cons [simp]: "print_term (a # t) = print_axis a @ print_term t"
  by (simp add: print_term_def)

lemma print_term_eq_Nil [simp]: "[] = print_term t \<longleftrightarrow> t = []"
proof (cases t)
  case (Cons a u)
  then show ?thesis by (cases a) auto
qed simp

lemma print_term_eq_Cons:
  "c # cs = print_term u \<longleftrightarrow>
    (\<exists>u'. u = Label c # u' \<and> cs = print_term u') \<or>
    (\<exists>u'. u = Ellipsis # u' \<and> c = dot \<and> cs = dot # dot # print_term u')"
proof (cases u)
  case (Cons a v)
  then show ?thesis by (cases a) auto
qed simp

lemma parse_axis_loop_iff:
  "count_list axes Ellipsis \<le> 1 \<Longrightarrow>
    parse_axis_loop axes s = Ok t \<longleftrightarrow>
    (\<exists>u. t = axes @ u \<and> s = print_term u \<and> list_all axis_printable u \<and> count_list t Ellipsis \<le> 1)"
proof (induction axes s rule: parse_axis_loop.induct)
  case (1 axes)
  then show ?case by auto
next
  case (2 axes c cs)
  show ?case
  proof (cases "c = dot")
    case False
    then have "parse_axis_loop axes (c # cs) = Ok t \<longleftrightarrow>
        c \<notin> set RESERVED_CHARS \<and> parse_axis_loop (axes @ [Label c]) cs = Ok t"
      by auto
    also have "\<dots> \<longleftrightarrow> c \<notin> set RESERVED_CHARS \<and> (\<exists>u. t = (axes @ [Label c]) @ u \<and> cs = print_term u \<and>
        list_all axis_printable u \<and> count_list t Ellipsis \<le> 1)"
      using "2.IH"(2) [OF False] 2(3) by auto
    also have "\<dots> \<longleftrightarrow> (\<exists>u. t = axes @ u \<and> c # cs = print_term u \<and>
        list_all axis_printable u \<and> count_list t Ellipsis \<le> 1)"
      using False by (auto simp: print_term_eq_Cons label_char_def)
    finally show ?thesis .
  next
    case dot: True
    show ?thesis
    proof (cases "\<exists>rest. cs = dot # dot # rest")
      case False
      then have "parse_axis_loop axes (c # cs) \<noteq> Ok t"
        using dot by (auto split: list.splits)
      moreover from False have "\<not> (\<exists>u. t = axes @ u \<and> c # cs = print_term u \<and> list_all axis_printable u)"
        using dot by (auto simp: print_term_eq_Cons label_char_def)
      ultimately show ?thesis by blast
    next
      case True
      then obtain rest where cs: "cs = dot # dot # rest" by blast
      show ?thesis
      proof (cases "Ellipsis \<in> set axes")
        case True
        then have "1 \<le> count_list axes Ellipsis" by (metis count_list_0_iff not_one_le_zero less_one not_le)
        then show ?thesis using dot cs True
          by (auto simp: print_term_eq_Cons label_char_def)
      next
        case False
        then have c0: "count_list axes Ellipsis = 0" by (simp add: count_list_0_iff)
        have "parse_axis_loop axes (c # cs) = Ok t \<longleftrightarrow> parse_axis_loop (axes @ [Ellipsis]) rest = Ok t"
          using dot cs False by simp
        also have "\<dots> \<longleftrightarrow> (\<exists>u. t = (axes @ [Ellipsis]) @ u \<and> rest = print_term u \<and>
            list_all axis_printable u \<and> count_list t Ellipsis \<le> 1)"
          using "2.IH"(1) dot cs False c0 by simp
        also have "\<dots> \<longleftrightarrow> (\<exists>u. t = axes @ u \<and> c # cs = print_term u \<and>
            list_all axis_printable u \<and> count_list t Ellipsis \<le> 1)"
          using dot cs by (auto simp: print_term_eq_Cons label_char_def)
        finally show ?thesis .
      qed
    qed
  qed
qed

lemma parse_axis_term_iff: "parse_axis_term s = Ok t \<longleftrightarrow> s = print_term t \<and> term_printable t"
  by (auto simp: parse_axis_term_def parse_axis_loop_iff term_printable_def)

lemma print_term_chars:
  "list_all axis_printable t \<Longrightarrow>
    \<forall>c \<in> {comma, dash, arrowhead, lparen, rparen}. c \<notin> set (print_term t)"
proof (induction t)
  case (Cons a t)
  then show ?case by (cases a) (auto simp: label_char_iff)
qed simp

lemma notation_parse_iff:
  "notation_parse n = Ok m \<longleftrightarrow> n = print_notation m \<and> printable_notation m"
proof
  assume "notation_parse n = Ok m"
  then obtain l r where p: "split_and_validate_notation n = Ok (l, r)"
    and out: "parse_axis_term r = Ok (en_output m)"
    and inp: "traverse parse_axis_term (split_char comma l) = Ok (en_inputs m)"
    by (auto simp: notation_parse_def split: if_splits prod.splits)
  from inp have "split_char comma l = map print_term (en_inputs m)"
    and "list_all term_printable (en_inputs m)"
    by (simp_all add: traverse_inverse [OF parse_axis_term_iff])
  then show "n = print_notation m \<and> printable_notation m"
    using out split_and_validate_notation_parts [OF p]
    by (simp add: split_char_iff print_notation_def printable_notation_def parse_axis_term_iff)
next
  assume a: "n = print_notation m \<and> printable_notation m"
  then have v: "\<forall>t \<in> set (en_inputs m). term_printable t" "term_printable (en_output m)"
    and ne: "en_inputs m \<noteq> []" by (simp_all add: printable_notation_def list_all_iff)
  let ?ps = "map print_term (en_inputs m)"
  have parts: "\<forall>p \<in> set ?ps. \<forall>c \<in> {comma, dash, arrowhead, lparen, rparen}. c \<notin> set p"
    using v(1) print_term_chars by (auto simp: term_printable_def)
  then have j: "\<forall>c \<in> {dash, arrowhead, lparen, rparen}. c \<notin> set (join comma ?ps)"
    using set_join [of comma ?ps] by auto
  have o: "\<forall>c \<in> {comma, dash, arrowhead, lparen, rparen}. c \<notin> set (print_term (en_output m))"
    using v(2) print_term_chars by (simp add: term_printable_def)
  have "split_and_validate_notation n = Ok (join comma ?ps, print_term (en_output m))"
    using a j o by (simp add: print_notation_def split_and_validate_notation_flat)
  moreover have "split_char comma (join comma ?ps) = ?ps"
    using parts ne by (intro split_char_join) auto
  moreover have "traverse parse_axis_term ?ps = Ok (en_inputs m)"
    using v(1) by (simp add: traverse_inverse [OF parse_axis_term_iff] list_all_iff)
  ultimately show "notation_parse n = Ok m"
    using j o v(2) by (auto simp: notation_parse_def parse_axis_term_iff intro: exI [of _ "en_output m"])
qed

end
