(* ===== verification/Einsum_Ellipsis.thy ===== *)
theory Einsum_Ellipsis
  imports Einsum_Syntax
begin

text \<open>
  Rank-aware resolution of notation with an ellipsis (\<open>ellipsis.rs\<close>): explicit labels are
  renamed to small numbers, the axes an ellipsis covers get fresh labels taken from the top of
  \<open>u32\<close>, and the sizes of equal labels are merged by equal-or-one broadcasting.  A \<open>HashMap\<close> is
  a partial function, since the code only looks keys up.
\<close>

section \<open>Notation without ellipses\<close>

definition axis_label :: "einsum_axis \<Rightarrow> label eres" where
  "axis_label axis =
    (case axis of Label l \<Rightarrow> Ok l | Ellipsis \<Rightarrow> Err (InvalidSubscripts Ellipsis_Needs_Rank))"

definition notation_without_ellipsis :: "einsum_notation \<Rightarrow> subscripts eres" where
  "notation_without_ellipsis notation =
    and_then (traverse (\<lambda>t. traverse axis_label t) (en_inputs notation)) (\<lambda>inputs.
    and_then (traverse axis_label (en_output notation)) (\<lambda>output.
      Ok \<lparr>sb_inputs = inputs, sb_output = output\<rparr>))"

section \<open>Canonical labels\<close>

definition saturating_add32 :: "nat \<Rightarrow> nat \<Rightarrow> nat" where
  "saturating_add32 a b = min (a + b) u32_max"

fun map_state :: "('s \<Rightarrow> 'a \<Rightarrow> 's \<times> 'b) \<Rightarrow> 's \<Rightarrow> 'a list \<Rightarrow> 's \<times> 'b list" where
  "map_state f s [] = (s, [])"
| "map_state f s (x # xs) =
    (case f s x of (s, y) \<Rightarrow> case map_state f s xs of (s, ys) \<Rightarrow> (s, y # ys))"

type_synonym renaming = "(label \<rightharpoonup> label) \<times> label"

fun remap :: "renaming \<Rightarrow> einsum_axis \<Rightarrow> renaming \<times> einsum_axis" where
  "remap st Ellipsis = (st, Ellipsis)"
| "remap (labels, next) (Label l) =
    (case labels l of
       Some c \<Rightarrow> ((labels, next), Label c)
     | None \<Rightarrow> ((labels(l \<mapsto> next), saturating_add32 next 1), Label next))"

definition canonicalize_ellipsis_labels :: "einsum_notation \<Rightarrow> einsum_notation" where
  "canonicalize_ellipsis_labels notation =
    (if \<not> list_ex (\<lambda>t. Ellipsis \<in> set t) (en_inputs notation @ [en_output notation]) then notation
     else
       case map_state (map_state remap) (Map.empty, 0) (en_inputs notation) of (st, inputs) \<Rightarrow>
       case map_state remap st (en_output notation) of (_, output) \<Rightarrow>
         \<lparr>en_inputs = inputs, en_output = output\<rparr>)"

section \<open>Fresh labels and expansion\<close>

function fresh_loop :: "label set \<Rightarrow> nat \<Rightarrow> label list \<Rightarrow> label \<Rightarrow> label list eres" where
  "fresh_loop used wanted labels candidate =
    (if length labels < wanted then
       let labels = (if candidate \<notin> used then labels @ [candidate] else labels) in
       if candidate \<notin> used \<and> length labels = wanted then Ok labels
       else if candidate = 0 then Err (InvalidSubscripts Not_Enough_Labels)
       else fresh_loop used wanted labels (candidate - 1)
     else Ok labels)"
  by pat_completeness auto
termination by (relation "measure (\<lambda>(_, _, _, c). c)") auto

declare fresh_loop.simps [simp del]

definition fresh_labels :: "label set \<Rightarrow> nat \<Rightarrow> label list eres" where
  "fresh_labels used wanted =
    and_then (fresh_loop used wanted [] u32_max) (\<lambda>labels. Ok (rev labels))"

fun expand_axis :: "label list \<Rightarrow> einsum_axis \<Rightarrow> label list" where
  "expand_axis block (Label l) = [l]"
| "expand_axis block Ellipsis = block"

definition expand_term :: "einsum_axis list \<Rightarrow> nat \<Rightarrow> label list \<Rightarrow> label list" where
  "expand_term axes rank ellipsis_labels =
    (let offset = saturating_sub (length ellipsis_labels) rank in
     foldl (\<lambda>labels axis. labels @ expand_axis (drop offset ellipsis_labels) axis) [] axes)"

definition expand_output :: "einsum_axis list \<Rightarrow> label list \<Rightarrow> label list" where
  "expand_output axes ellipsis_labels =
    foldl (\<lambda>labels axis. labels @ expand_axis ellipsis_labels axis) [] axes"

section \<open>Sizes\<close>

type_synonym size_dict = "label \<rightharpoonup> nat"

definition merge_broadcast_size :: "size_dict \<Rightarrow> label \<Rightarrow> nat \<Rightarrow> size_dict eres" where
  "merge_broadcast_size sizes l n =
    (case sizes l of
       None \<Rightarrow> Ok (sizes(l \<mapsto> n))
     | Some existing \<Rightarrow>
         if existing = n \<or> existing = 1 then Ok (sizes(l \<mapsto> n))
         else if n \<noteq> 1 then Err (einsum_shape_mismatch [existing] [n])
         else Ok sizes)"

definition axis_size_step :: "size_dict \<times> size_dict \<Rightarrow> label \<times> nat \<Rightarrow> (size_dict \<times> size_dict) eres" where
  "axis_size_step st e = (case st of (local_sizes, label_sizes) \<Rightarrow> case e of (l, n) \<Rightarrow>
    (case local_sizes l of
       Some previous \<Rightarrow>
         if previous \<noteq> n then Err (einsum_shape_mismatch [previous] [n])
         else and_then (merge_broadcast_size label_sizes l n) (\<lambda>m. Ok (local_sizes(l \<mapsto> n), m))
     | None \<Rightarrow>
         and_then (merge_broadcast_size label_sizes l n) (\<lambda>m. Ok (local_sizes(l \<mapsto> n), m))))"

definition term_size_step :: "size_dict \<Rightarrow> label list \<times> shape \<Rightarrow> size_dict eres" where
  "term_size_step label_sizes e = (case e of (labels, sh) \<Rightarrow>
    and_then (try_fold axis_size_step (Map.empty, label_sizes) (zip labels sh)) (\<lambda>(_, m). Ok m))"

section \<open>Resolution\<close>

fun is_label :: "einsum_axis \<Rightarrow> bool" where
  "is_label (Label _) = True"
| "is_label Ellipsis = False"

definition explicit_count :: "einsum_axis list \<Rightarrow> nat" where
  "explicit_count axes = length (filter is_label axes)"

definition explicit_labels :: "einsum_axis list \<Rightarrow> label set" where
  "explicit_labels axes = set (concat (map (\<lambda>a. case a of Label l \<Rightarrow> [l] | Ellipsis \<Rightarrow> []) axes))"

definition rank_step ::
  "label set \<times> nat list \<times> bool \<Rightarrow> einsum_axis list \<times> shape \<Rightarrow> (label set \<times> nat list \<times> bool) eres" where
  "rank_step st e = (case st of (used, ranks, covers) \<Rightarrow> case e of (axes, sh) \<Rightarrow>
    let n = explicit_count axes; has = Ellipsis \<in> set axes in
    if \<not> has \<and> n \<noteq> length sh then Err (einsum_rank_mismatch n (length sh))
    else if has \<and> length sh < n then Err (einsum_rank_mismatch n (length sh))
    else
      let r = saturating_sub (length sh) n in
      Ok (used \<union> explicit_labels axes, ranks @ [r], covers \<or> has \<and> 0 < r))"

definition expand_step ::
  "label list \<Rightarrow> label list list \<Rightarrow> nat \<times> einsum_axis list \<times> shape \<Rightarrow> label list list eres" where
  "expand_step ellipsis_labels inputs e = (case e of (rank, axes, sh) \<Rightarrow>
    let labels = expand_term axes rank ellipsis_labels in
    if length labels \<noteq> length sh then Err (einsum_rank_mismatch (length labels) (length sh))
    else Ok (inputs @ [labels]))"

definition inputs_message :: string where
  "inputs_message = ''einsum notation expects another number of inputs''"

definition resolve_einsum_notation :: "einsum_notation \<Rightarrow> shape list \<Rightarrow> subscripts eres" where
  "resolve_einsum_notation original shapes =
    (let notation = canonicalize_ellipsis_labels original in
     if en_inputs notation = [] then Err (InvalidSubscripts No_Input_Term)
     else if length (en_inputs notation) \<noteq> length shapes then
       Err (Validation ''einsum'' (InvalidArgument ''inputs'' inputs_message))
     else
       and_then (try_fold rank_step ({}, [], False) (zip (en_inputs notation) shapes))
         (\<lambda>(used_labels, ellipsis_ranks, has_input_ellipsis_with_axes).
       let ellipsis_rank = foldr max ellipsis_ranks 0 in
       and_then (fresh_labels used_labels ellipsis_rank) (\<lambda>ellipsis_labels.
       let input_has_ellipsis = list_ex (\<lambda>t. Ellipsis \<in> set t) (en_inputs notation);
           output_has_ellipsis = (Ellipsis \<in> set (en_output notation)) in
       if output_has_ellipsis \<and> \<not> input_has_ellipsis
       then Err (InvalidSubscripts Output_Ellipsis_Without_Input)
       else if has_input_ellipsis_with_axes \<and> \<not> output_has_ellipsis
       then Err (InvalidSubscripts Ellipsis_Axes_Without_Output)
       else
         and_then (try_fold (expand_step ellipsis_labels) []
             (zip ellipsis_ranks (zip (en_inputs notation) shapes))) (\<lambda>inputs.
         let output = expand_output (en_output notation) ellipsis_labels in
         and_then (try_fold term_size_step Map.empty (zip inputs shapes)) (\<lambda>label_sizes.
           case find (\<lambda>l. label_sizes l = None) output of
             Some l \<Rightarrow> Err (InvalidSubscripts (Output_Label_Missing l))
           | None \<Rightarrow> Ok \<lparr>sb_inputs = inputs, sb_output = output\<rparr>)))))"

section \<open>Sizes: equal or one\<close>

text \<open>
  The reference: the sizes seen for one label agree up to ones, and the merged size is the one
  that is not one, if there is any.
\<close>

type_synonym occurrences = "(label \<times> nat) set"

definition sizes_agree :: "occurrences \<Rightarrow> bool" where
  "sizes_agree occ \<longleftrightarrow> (\<forall>l s t. (l, s) \<in> occ \<longrightarrow> (l, t) \<in> occ \<longrightarrow> s = t \<or> s = 1 \<or> t = 1)"

definition merged_sizes :: "occurrences \<Rightarrow> size_dict \<Rightarrow> bool" where
  "merged_sizes occ m \<longleftrightarrow>
    (\<forall>l s. m l = Some s \<longleftrightarrow> (l, s) \<in> occ \<and> (\<forall>t. (l, t) \<in> occ \<longrightarrow> t = s \<or> t = 1))"

definition functional :: "('a \<times> 'b) set \<Rightarrow> bool" where
  "functional R \<longleftrightarrow> (\<forall>a b c. (a, b) \<in> R \<longrightarrow> (a, c) \<in> R \<longrightarrow> b = c)"

lemma merged_sizes_empty [simp]: "merged_sizes {} Map.empty"
  by (simp add: merged_sizes_def)

lemma sizes_agree_empty [simp]: "sizes_agree {}"
  by (simp add: sizes_agree_def)

lemma sizes_agree_subset: "sizes_agree B \<Longrightarrow> A \<subseteq> B \<Longrightarrow> sizes_agree A"
  by (meson sizes_agree_def subsetD)

lemma merged_sizes_SomeD:
  "merged_sizes occ m \<Longrightarrow> m l = Some s \<Longrightarrow> (l, s) \<in> occ \<and> (\<forall>t. (l, t) \<in> occ \<longrightarrow> t = s \<or> t = 1)"
  by (simp add: merged_sizes_def)

lemma merged_sizes_None:
  assumes "merged_sizes occ m" "sizes_agree occ"
  shows "m l = None \<longleftrightarrow> (\<forall>s. (l, s) \<notin> occ)"
proof
  assume n: "m l = None"
  then have all: "\<not> ((l, s) \<in> occ \<and> (\<forall>t. (l, t) \<in> occ \<longrightarrow> t = s \<or> t = 1))" for s
    using assms(1) by (metis merged_sizes_def option.distinct(1))
  show "\<forall>s. (l, s) \<notin> occ"
  proof (rule ccontr)
    assume "\<not> ?thesis"
    then obtain s where s: "(l, s) \<in> occ" by blast
    from all [of s] s obtain t where t: "(l, t) \<in> occ" "t \<noteq> 1" by auto
    from all [of t] t obtain u where u: "(l, u) \<in> occ" "u \<noteq> t" "u \<noteq> 1" by auto
    have "t = u \<or> t = 1 \<or> u = 1" using assms(2) t(1) u(1) unfolding sizes_agree_def by blast
    with t u show False by blast
  qed
next
  assume "\<forall>s. (l, s) \<notin> occ"
  then show "m l = None" using assms(1) by (metis merged_sizes_def not_Some_eq)
qed

lemma merge_broadcast_size_correct:
  assumes m: "merged_sizes occ m" and c: "sizes_agree occ"
  shows "(\<exists>m'. merge_broadcast_size m l n = Ok m') \<longleftrightarrow> sizes_agree (insert (l, n) occ)"
    and "merge_broadcast_size m l n = Ok m' \<Longrightarrow> merged_sizes (insert (l, n) occ) m'"
proof -
  show "(\<exists>m'. merge_broadcast_size m l n = Ok m') \<longleftrightarrow> sizes_agree (insert (l, n) occ)"
  proof (cases "m l")
    case None
    then have "\<forall>s. (l, s) \<notin> occ" by (simp add: merged_sizes_None [OF m c])
    with None c show ?thesis by (auto simp: merge_broadcast_size_def sizes_agree_def)
  next
    case (Some e)
    note e = merged_sizes_SomeD [OF m Some]
    have "sizes_agree (insert (l, n) occ) \<longleftrightarrow> e = n \<or> e = 1 \<or> n = 1"
    proof
      assume "sizes_agree (insert (l, n) occ)"
      with e show "e = n \<or> e = 1 \<or> n = 1" unfolding sizes_agree_def by blast
    next
      assume "e = n \<or> e = 1 \<or> n = 1"
      with e c show "sizes_agree (insert (l, n) occ)" unfolding sizes_agree_def by blast
    qed
    with Some show ?thesis by (auto simp: merge_broadcast_size_def)
  qed
  have other: "merged_sizes (insert (l, n) occ) m'"
    if "\<And>k. k \<noteq> l \<Longrightarrow> m' k = m k" and "\<And>s. m' l = Some s \<longleftrightarrow>
      (l, s) \<in> insert (l, n) occ \<and> (\<forall>t. (l, t) \<in> insert (l, n) occ \<longrightarrow> t = s \<or> t = 1)" for m'
    unfolding merged_sizes_def
  proof (intro allI)
    fix k s
    show "m' k = Some s \<longleftrightarrow> (k, s) \<in> insert (l, n) occ \<and> (\<forall>t. (k, t) \<in> insert (l, n) occ \<longrightarrow> t = s \<or> t = 1)"
      using that m by (cases "k = l") (auto simp: merged_sizes_def)
  qed
  assume ok: "merge_broadcast_size m l n = Ok m'"
  show "merged_sizes (insert (l, n) occ) m'"
  proof (cases "m l")
    case None
    then have "\<forall>s. (l, s) \<notin> occ" by (simp add: merged_sizes_None [OF m c])
    with None ok show ?thesis by (intro other) (auto simp: merge_broadcast_size_def)
  next
    case (Some e)
    note e = merged_sizes_SomeD [OF m Some]
    show ?thesis
    proof (rule other)
      show "m' k = m k" if "k \<noteq> l" for k
        using ok Some that by (auto simp: merge_broadcast_size_def split: if_splits)
      show "m' l = Some s \<longleftrightarrow> (l, s) \<in> insert (l, n) occ \<and>
          (\<forall>t. (l, t) \<in> insert (l, n) occ \<longrightarrow> t = s \<or> t = 1)" for s
      proof (cases "e = n \<or> e = 1")
        case True
        then have "m' = m(l \<mapsto> n)" using ok Some by (auto simp: merge_broadcast_size_def)
        then have "m' l = Some s \<longleftrightarrow> s = n" by auto
        then show ?thesis using e True by blast
      next
        case False
        then have "m' = m" and "n = 1"
          using ok Some by (auto simp: merge_broadcast_size_def split: if_splits)
        then have "m' l = Some s \<longleftrightarrow> s = e" using Some by auto
        then show ?thesis using e False \<open>n = 1\<close> by blast
      qed
    qed
  qed
qed

lemma axis_size_step_correct:
  assumes m: "merged_sizes occ m" and c: "sizes_agree occ"
  shows "(\<exists>st'. axis_size_step (loc, m) (l, n) = Ok st') \<longleftrightarrow>
      (\<forall>k. loc l = Some k \<longrightarrow> k = n) \<and> sizes_agree (insert (l, n) occ)"
    and "axis_size_step (loc, m) (l, n) = Ok (loc', m') \<Longrightarrow>
      loc' = loc(l \<mapsto> n) \<and> merged_sizes (insert (l, n) occ) m'"
  using merge_broadcast_size_correct [OF m c, of l n]
  by (auto simp: axis_size_step_def split: option.splits if_splits)

lemma functional_insert: "functional (insert (l, n) R) \<longleftrightarrow> functional R \<and> (\<forall>k. (l, k) \<in> R \<longrightarrow> k = n)"
  unfolding functional_def by blast

lemma axis_size_fold_correct:
  assumes "merged_sizes occ m" and "sizes_agree occ"
    and "functional L" and "\<And>k s. loc k = Some s \<longleftrightarrow> (k, s) \<in> L"
  shows "(\<exists>st'. try_fold axis_size_step (loc, m) es = Ok st') \<longleftrightarrow>
      functional (L \<union> set es) \<and> sizes_agree (occ \<union> set es)"
    and "try_fold axis_size_step (loc, m) es = Ok (loc', m') \<Longrightarrow> merged_sizes (occ \<union> set es) m'"
  using assms
proof (induction es arbitrary: loc m occ L)
  case Nil
  { case 1 then show ?case by simp }
  { case 2 then show ?case by simp }
next
  case (Cons e es)
  obtain l n where e: "e = (l, n)" by (cases e)
  note step = axis_size_step_correct
  { case 1
    show ?case
    proof (cases "\<exists>st'. axis_size_step (loc, m) e = Ok st'")
      case False
      then have "\<not> (functional (insert (l, n) L) \<and> sizes_agree (insert (l, n) occ))"
        using step(1) [OF 1(1,2), of loc l n] 1(4) by (auto simp: e functional_insert)
      then have "\<not> (functional (L \<union> set (e # es)) \<and> sizes_agree (occ \<union> set (e # es)))"
        using sizes_agree_subset [of "occ \<union> set (e # es)" "insert (l, n) occ"]
        by (auto simp: e functional_def)
      with False show ?thesis by auto
    next
      case True
      then obtain loc1 m1 where s: "axis_size_step (loc, m) (l, n) = Ok (loc1, m1)" by (auto simp: e)
      with step [OF 1(1,2), of loc l n] 1(4) have
        c: "sizes_agree (insert (l, n) occ)" and f: "\<forall>k. (l, k) \<in> L \<longrightarrow> k = n"
        and loc: "loc1 = loc(l \<mapsto> n)" and m: "merged_sizes (insert (l, n) occ) m1" by auto
      have "functional (insert (l, n) L)" using 1(3) f by (simp add: functional_insert)
      moreover have "\<And>k s. loc1 k = Some s \<longleftrightarrow> (k, s) \<in> insert (l, n) L"
        using 1(4) f by (auto simp: loc split: if_splits)
      ultimately show ?thesis
        using Cons.IH(1) [OF m c, of "insert (l, n) L" loc1] s by (simp add: e)
    qed
  }
  { case 2
    from 2(1) obtain loc1 m1 where s: "axis_size_step (loc, m) (l, n) = Ok (loc1, m1)"
      and r: "try_fold axis_size_step (loc1, m1) es = Ok (loc', m')" by (auto simp: e)
    with step [OF 2(2,3), of loc l n] 2(5) have
      c: "sizes_agree (insert (l, n) occ)" and f: "\<forall>k. (l, k) \<in> L \<longrightarrow> k = n"
      and loc: "loc1 = loc(l \<mapsto> n)" and m: "merged_sizes (insert (l, n) occ) m1" by auto
    have "functional (insert (l, n) L)" using 2(4) f by (simp add: functional_insert)
    moreover have "\<And>k s. loc1 k = Some s \<longleftrightarrow> (k, s) \<in> insert (l, n) L"
      using 2(5) f by (auto simp: loc split: if_splits)
    ultimately show ?case
      using Cons.IH(2) [OF r m c, of "insert (l, n) L"] by (simp add: e)
  }
qed

definition term_sizes :: "label list \<times> shape \<Rightarrow> occurrences" where
  "term_sizes e = set (zip (fst e) (snd e))"

lemma term_size_step_correct:
  assumes "merged_sizes occ m" and "sizes_agree occ"
  shows "(\<exists>m'. term_size_step m e = Ok m') \<longleftrightarrow>
      functional (term_sizes e) \<and> sizes_agree (occ \<union> term_sizes e)"
    and "term_size_step m e = Ok m' \<Longrightarrow> merged_sizes (occ \<union> term_sizes e) m'"
  using axis_size_fold_correct [OF assms, of "{}" Map.empty "zip (fst e) (snd e)"]
  by (auto simp: term_size_step_def term_sizes_def functional_def split: prod.splits)

lemma term_size_fold_correct:
  assumes "merged_sizes occ m" and "sizes_agree occ"
  shows "(\<exists>m'. try_fold term_size_step m es = Ok m') \<longleftrightarrow>
      list_all (\<lambda>e. functional (term_sizes e)) es \<and> sizes_agree (occ \<union> \<Union> (term_sizes ` set es))"
    and "try_fold term_size_step m es = Ok m' \<Longrightarrow> merged_sizes (occ \<union> \<Union> (term_sizes ` set es)) m'"
  using assms
proof (induction es arbitrary: m occ)
  case Nil
  { case 1 then show ?case by simp }
  { case 2 then show ?case by simp }
next
  case (Cons e es)
  { case 1
    note step = term_size_step_correct [OF 1, of e]
    show ?case
    proof (cases "\<exists>m1. term_size_step m e = Ok m1")
      case False
      then show ?thesis
        using step(1) sizes_agree_subset [of "occ \<union> \<Union> (term_sizes ` set (e # es))" "occ \<union> term_sizes e"]
        by auto
    next
      case True
      then obtain m1 where m1: "term_size_step m e = Ok m1" by blast
      with step have "functional (term_sizes e)" "sizes_agree (occ \<union> term_sizes e)"
        "merged_sizes (occ \<union> term_sizes e) m1" by auto
      then show ?thesis using Cons.IH(1) [of "occ \<union> term_sizes e" m1] m1 by (simp add: Un_assoc)
    qed
  }
  { case 2
    from 2(1) obtain m1 where m1: "term_size_step m e = Ok m1" "try_fold term_size_step m1 es = Ok m'" by auto
    with term_size_step_correct [OF 2(2,3), of e]
    have "sizes_agree (occ \<union> term_sizes e)" "merged_sizes (occ \<union> term_sizes e) m1" by auto
    then show ?case using Cons.IH(2) [OF m1(2), of "occ \<union> term_sizes e"] by (simp add: Un_assoc)
  }
qed

section \<open>Fresh labels\<close>

lemma fresh_loop_correct:
  assumes "fresh_loop used wanted labels c = Ok out"
    and "sorted_wrt (>) labels" "\<forall>l \<in> set labels. c < l \<and> l \<notin> used \<and> l \<le> b" "c \<le> b"
    and "length labels \<le> wanted"
  shows "sorted_wrt (>) out \<and> (\<forall>l \<in> set out. l \<notin> used \<and> l \<le> b) \<and> length out = wanted"
  using assms
proof (induction used wanted labels c rule: fresh_loop.induct)
  case (1 used wanted labels c)
  let ?ls = "if c \<notin> used then labels @ [c] else labels"
  have ls: "sorted_wrt (>) ?ls" "\<forall>l \<in> set ?ls. l \<notin> used \<and> l \<le> b \<and> c \<le> l"
    using "1.prems"(2-4) by (auto simp: sorted_wrt_append)
  show ?case
  proof (cases "length labels < wanted")
    case False
    with "1.prems" show ?thesis by (subst (asm) fresh_loop.simps) auto
  next
    case lt: True
    show ?thesis
    proof (cases "c \<notin> used \<and> length ?ls = wanted")
      case True
      with "1.prems"(1) lt have "out = ?ls" by (subst (asm) fresh_loop.simps) (auto simp: Let_def)
      with ls True show ?thesis by (auto split: if_splits)
    next
      case False
      with "1.prems"(1) lt have c: "c \<noteq> 0" and r: "fresh_loop used wanted ?ls (c - 1) = Ok out"
        by (subst (asm) fresh_loop.simps, simp add: Let_def split: if_splits)+
      have len: "length ?ls \<le> wanted" using lt by simp
      have "\<forall>l \<in> set ?ls. c - 1 < l \<and> l \<notin> used \<and> l \<le> b" using ls(2) c by fastforce
      moreover have "c - 1 \<le> b" using "1.prems"(4) by simp
      ultimately show ?thesis
        by (rule "1.IH" [OF lt refl False c r ls(1) _ _ len])
    qed
  qed
qed

lemma fresh_labels_correct:
  assumes "fresh_labels used wanted = Ok F"
  shows "length F = wanted" and "distinct F" and "set F \<inter> used = {}" and "\<forall>l \<in> set F. l \<le> u32_max"
proof -
  from assms obtain ls where l: "fresh_loop used wanted [] u32_max = Ok ls" and F: "F = rev ls"
    by (auto simp: fresh_labels_def)
  have "sorted_wrt (>) ls \<and> (\<forall>l \<in> set ls. l \<notin> used \<and> l \<le> u32_max) \<and> length ls = wanted"
    using fresh_loop_correct [OF l, where b = u32_max] by simp
  moreover from this have "distinct F"
    by (simp add: F) (metis distinct_rev sorted_wrt_rev strict_sorted_iff)
  ultimately show "length F = wanted" and "distinct F" and "set F \<inter> used = {}" and "\<forall>l \<in> set F. l \<le> u32_max"
    by (auto simp: F)
qed

lemma fresh_loop_total:
  assumes "finite used" and "wanted \<le> length labels + card ({..c} - used)"
  shows "\<exists>out. fresh_loop used wanted labels c = Ok out"
  using assms
proof (induction used wanted labels c rule: fresh_loop.induct)
  case (1 used wanted labels c)
  let ?ls = "if c \<notin> used then labels @ [c] else labels"
  show ?case
  proof (cases "length labels < wanted \<and> \<not> (c \<notin> used \<and> length ?ls = wanted)")
    case False
    then show ?thesis by (subst fresh_loop.simps) (auto simp: Let_def)
  next
    case True
    have c0: "c \<noteq> 0"
    proof
      assume "c = 0"
      then have "{..c} - used = (if c \<notin> used then {0} else {})" by auto
      with "1.prems"(2) True show False by (auto split: if_splits)
    qed
    then have "{..c} = insert c {..c - 1}" by auto
    then have "card ({..c} - used) = (if c \<notin> used then 1 else 0) + card ({..c - 1} - used)"
      using c0 by (auto simp: insert_Diff_if)
    with "1.prems"(2) have "wanted \<le> length ?ls + card ({..c - 1} - used)" by (auto split: if_splits)
    then have "\<exists>out. fresh_loop used wanted ?ls (c - 1) = Ok out"
      using "1.IH" [OF _ refl _ c0 "1.prems"(1)] True by simp
    with True c0 show ?thesis by (subst fresh_loop.simps) (simp add: Let_def)
  qed
qed

lemma fresh_labels_total:
  assumes "finite used" and "card used + wanted \<le> u32_max + 1"
  shows "\<exists>F. fresh_labels used wanted = Ok F"
proof -
  have "card ({..u32_max} - used) \<ge> u32_max + 1 - card used"
    using diff_card_le_card_Diff [OF assms(1), of "{..u32_max}"] by simp
  with assms(2) have "wanted \<le> length [] + card ({..u32_max} - used)" by simp
  from fresh_loop_total [OF assms(1) this] show ?thesis by (auto simp: fresh_labels_def)
qed

section \<open>Expansion\<close>

lemma foldl_append_concat: "foldl (\<lambda>acc x. acc @ f x) acc xs = acc @ concat (map f xs)"
  by (induction xs arbitrary: acc) auto

lemma expand_term_concat:
  "expand_term axes r F = concat (map (expand_axis (drop (length F - r) F)) axes)"
  by (simp add: expand_term_def Let_def foldl_append_concat saturating_sub_def)

lemma expand_output_concat: "expand_output axes F = concat (map (expand_axis F) axes)"
  by (simp add: expand_output_def foldl_append_concat)

lemma explicit_labels_iff [simp]: "l \<in> explicit_labels axes \<longleftrightarrow> Label l \<in> set axes"
  by (force simp: explicit_labels_def split: einsum_axis.splits)

definition covered_rank :: "einsum_axis list \<Rightarrow> shape \<Rightarrow> nat" where
  "covered_rank axes sh = length sh - explicit_count axes"

definition rank_fits :: "einsum_axis list \<Rightarrow> shape \<Rightarrow> bool" where
  "rank_fits axes sh \<longleftrightarrow>
    (if Ellipsis \<in> set axes then explicit_count axes \<le> length sh else explicit_count axes = length sh)"

lemma rank_fold_iff:
  "try_fold rank_step (used, ranks, covers) es = Ok (used', ranks', covers') \<longleftrightarrow>
    list_all (\<lambda>(axes, sh). rank_fits axes sh) es \<and>
    used' = used \<union> (\<Union>(axes, sh) \<in> set es. explicit_labels axes) \<and>
    ranks' = ranks @ map (\<lambda>(axes, sh). covered_rank axes sh) es \<and>
    covers' = (covers \<or> (\<exists>(axes, sh) \<in> set es. Ellipsis \<in> set axes \<and> 0 < covered_rank axes sh))"
proof (induction es arbitrary: used ranks covers)
  case (Cons e es)
  obtain axes sh where e: "e = (axes, sh)" by (cases e)
  show ?case
  proof (cases "rank_fits axes sh")
    case True
    then have "rank_step (used, ranks, covers) e =
        Ok (used \<union> explicit_labels axes, ranks @ [covered_rank axes sh],
          covers \<or> Ellipsis \<in> set axes \<and> 0 < covered_rank axes sh)"
      by (auto simp: e rank_step_def rank_fits_def Let_def saturating_sub_def covered_rank_def split: if_splits)
    with True show ?thesis by (simp add: Cons.IH e Un_assoc disj_assoc)
  next
    case False
    then have "\<exists>err. rank_step (used, ranks, covers) e = Err err"
      by (auto simp: e rank_step_def rank_fits_def Let_def split: if_splits)
    with False show ?thesis by (auto simp: e)
  qed
qed auto

lemma expand_fold_iff:
  "try_fold (expand_step F) acc es = Ok out \<longleftrightarrow>
    list_all (\<lambda>(r, axes, sh). length (expand_term axes r F) = length sh) es \<and>
    out = acc @ map (\<lambda>(r, axes, sh). expand_term axes r F) es"
proof (induction es arbitrary: acc)
  case (Cons e es)
  obtain r axes sh where e: "e = (r, axes, sh)" by (cases e)
  have "expand_step F acc e =
      (if length (expand_term axes r F) \<noteq> length sh
       then Err (einsum_rank_mismatch (length (expand_term axes r F)) (length sh))
       else Ok (acc @ [expand_term axes r F]))"
    by (simp add: e expand_step_def Let_def)
  then show ?case by (simp add: e Cons.IH)
qed auto

section \<open>What resolution accepts and returns\<close>

definition largest_covered_rank :: "einsum_axis list list \<Rightarrow> shape list \<Rightarrow> nat" where
  "largest_covered_rank inputs shapes =
    foldr max (map (\<lambda>(axes, sh). covered_rank axes sh) (zip inputs shapes)) 0"

definition expanded_inputs :: "label list \<Rightarrow> einsum_axis list list \<Rightarrow> shape list \<Rightarrow> label list list" where
  "expanded_inputs F inputs shapes =
    map (\<lambda>(axes, sh). concat (map (expand_axis (drop (length F - covered_rank axes sh) F)) axes))
      (zip inputs shapes)"

definition resolvable :: "einsum_notation \<Rightarrow> shape list \<Rightarrow> label list \<Rightarrow> bool" where
  "resolvable n shapes F \<longleftrightarrow>
    en_inputs n \<noteq> [] \<and> length (en_inputs n) = length shapes \<and>
    list_all (\<lambda>(axes, sh). rank_fits axes sh) (zip (en_inputs n) shapes) \<and>
    (Ellipsis \<in> set (en_output n) \<longrightarrow> (\<exists>axes \<in> set (en_inputs n). Ellipsis \<in> set axes)) \<and>
    ((\<exists>(axes, sh) \<in> set (zip (en_inputs n) shapes). Ellipsis \<in> set axes \<and> 0 < covered_rank axes sh) \<longrightarrow>
      Ellipsis \<in> set (en_output n)) \<and>
    (let inputs = expanded_inputs F (en_inputs n) shapes in
      list_all2 (\<lambda>labels sh. length labels = length sh) inputs shapes \<and>
      list_all (\<lambda>e. functional (term_sizes e)) (zip inputs shapes) \<and>
      sizes_agree (\<Union> (term_sizes ` set (zip inputs shapes))) \<and>
      set (expand_output (en_output n) F) \<subseteq> \<Union> (set ` set inputs))"

lemma zip_map_expand:
  "map (\<lambda>(r, axes, sh). expand_term axes r F) (zip (map (\<lambda>(axes, sh). covered_rank axes sh) es) es) =
    map (\<lambda>(axes, sh). concat (map (expand_axis (drop (length F - covered_rank axes sh) F)) axes)) es"
  by (induction es) (auto simp: expand_term_concat)

lemma list_all_zip_expand:
  "list_all (\<lambda>(r, axes, sh). length (expand_term axes r F) = length sh)
      (zip (map (\<lambda>(axes, sh). covered_rank axes sh) es) es) \<longleftrightarrow>
    list_all2 (\<lambda>labels sh. length labels = length sh)
      (map (\<lambda>(axes, sh). concat (map (expand_axis (drop (length F - covered_rank axes sh) F)) axes)) es)
      (map snd es)"
  by (induction es) (auto simp: expand_term_concat)

lemma dom_merged_sizes:
  assumes "list_all2 (\<lambda>labels sh. length labels = length sh) inputs shapes"
    and "merged_sizes (\<Union> (term_sizes ` set (zip inputs shapes))) m"
    and "sizes_agree (\<Union> (term_sizes ` set (zip inputs shapes)))"
  shows "dom m = \<Union> (set ` set inputs)"
proof -
  let ?occ = "\<Union> (term_sizes ` set (zip inputs shapes))"
  have "dom m = fst ` ?occ"
  proof -
    have "l \<in> dom m \<longleftrightarrow> l \<in> fst ` ?occ" for l
      using merged_sizes_None [OF assms(2,3), of l]
      by (auto simp: domIff image_iff simp del: UN_iff) (metis fst_conv)+
    then show ?thesis by blast
  qed
  also have "fst ` ?occ = \<Union> (set ` set inputs)"
    using assms(1)
    by (induction rule: list_all2_induct)
       (auto simp: term_sizes_def image_Un simp flip: set_map)
  finally show ?thesis .
qed

lemma find_None_subset: "find (\<lambda>l. m l = None) xs = None \<longleftrightarrow> set xs \<subseteq> dom m"
  by (auto simp: find_None_iff)

lemma resolve_einsum_notation_iff:
  fixes n0 :: einsum_notation
  defines "n \<equiv> canonicalize_ellipsis_labels n0"
  shows "resolve_einsum_notation n0 shapes = Ok r \<longleftrightarrow>
    (\<exists>F. fresh_labels (\<Union> (explicit_labels ` set (en_inputs n))) (largest_covered_rank (en_inputs n) shapes) = Ok F \<and>
      resolvable n shapes F \<and>
      r = \<lparr>sb_inputs = expanded_inputs F (en_inputs n) shapes, sb_output = expand_output (en_output n) F\<rparr>)"
proof (cases "en_inputs n \<noteq> [] \<and> length (en_inputs n) = length shapes")
  case False
  then show ?thesis by (auto simp: resolve_einsum_notation_def resolvable_def n_def Let_def)
next
  case len: True
  let ?es = "zip (en_inputs n) shapes"
  let ?used = "\<Union> (explicit_labels ` set (en_inputs n))"
  let ?in = "\<lambda>F. expanded_inputs F (en_inputs n) shapes"
  have es: "(\<Union>(axes, sh) \<in> set ?es. explicit_labels axes) = ?used"
    using len by (simp add: split_def image_image [of explicit_labels fst, symmetric] flip: set_map)
  have inp: "list_ex (\<lambda>t. Ellipsis \<in> set t) (en_inputs n) \<longleftrightarrow> (\<exists>axes \<in> set (en_inputs n). Ellipsis \<in> set axes)"
    by (simp add: list_ex_iff)
  have expand: "try_fold (expand_step F) [] (zip (map (\<lambda>(axes, sh). covered_rank axes sh) ?es) ?es) = Ok out \<longleftrightarrow>
      list_all2 (\<lambda>labels sh. length labels = length sh) (?in F) shapes \<and> out = ?in F" for F out
    using len by (simp add: expand_fold_iff zip_map_expand list_all_zip_expand expanded_inputs_def)
  have sizes: "(\<exists>m. try_fold term_size_step Map.empty (zip (?in F) shapes) = Ok m \<and>
        find (\<lambda>l. m l = None) out = None) \<longleftrightarrow>
      list_all (\<lambda>e. functional (term_sizes e)) (zip (?in F) shapes) \<and>
      sizes_agree (\<Union> (term_sizes ` set (zip (?in F) shapes))) \<and> set out \<subseteq> \<Union> (set ` set (?in F))"
    if "list_all2 (\<lambda>labels sh. length labels = length sh) (?in F) shapes" for F out
    using term_size_fold_correct [of "{}" Map.empty "zip (?in F) shapes"] dom_merged_sizes [OF that]
    by (auto simp: find_None_subset) blast+
  let ?out = "\<lambda>F. expand_output (en_output n) F"
  have find: "(case x of Some l \<Rightarrow> Err (e l) | None \<Rightarrow> Ok s) = Ok r \<longleftrightarrow> x = None \<and> s = r"
    for x :: "label option" and e s
    by (cases x) auto
  let ?fits = "list_all (\<lambda>(axes, sh). rank_fits axes sh) ?es"
  let ?ranks = "map (\<lambda>(axes, sh). covered_rank axes sh) ?es"
  let ?covers = "\<exists>(axes, sh) \<in> set ?es. Ellipsis \<in> set axes \<and> 0 < covered_rank axes sh"
  have rf: "?fits \<Longrightarrow> try_fold rank_step ({}, [], False) ?es = Ok (?used, ?ranks, ?covers)"
    by (simp add: rank_fold_iff es)
  have rn: "\<not> ?fits \<Longrightarrow> \<exists>e. try_fold rank_step ({}, [], False) ?es = Err e"
    by (rule ccontr) (auto simp: rank_fold_iff simp flip: not_Inr_iff)
  have "resolve_einsum_notation n0 shapes = Ok r \<longleftrightarrow>
    ?fits \<and>
    (\<exists>F. fresh_labels ?used (largest_covered_rank (en_inputs n) shapes) = Ok F \<and>
      (Ellipsis \<in> set (en_output n) \<longrightarrow> (\<exists>axes \<in> set (en_inputs n). Ellipsis \<in> set axes)) \<and>
      (?covers \<longrightarrow> Ellipsis \<in> set (en_output n)) \<and>
      list_all2 (\<lambda>labels sh. length labels = length sh) (?in F) shapes \<and>
      (\<exists>m. try_fold term_size_step Map.empty (zip (?in F) shapes) = Ok m \<and>
        find (\<lambda>l. m l = None) (?out F) = None) \<and>
      \<lparr>sb_inputs = ?in F, sb_output = ?out F\<rparr> = r)"
  proof (cases ?fits)
    case False
    with rn len show ?thesis by (auto simp: resolve_einsum_notation_def Let_def n_def [symmetric])
  next
    case True
    have err: "(if b then Err e else x) = Ok r \<longleftrightarrow> \<not> b \<and> x = Ok r" for b e and x :: "subscripts eres"
      by simp
    show ?thesis
      unfolding resolve_einsum_notation_def Let_def n_def [symmetric] rf [OF True] and_then_Inr
        split_conv and_then_eq_Inr err find expand inp largest_covered_rank_def [symmetric]
      using len True by blast
  qed
  moreover have "resolvable n shapes F \<longleftrightarrow> ?fits \<and>
      (Ellipsis \<in> set (en_output n) \<longrightarrow> (\<exists>axes \<in> set (en_inputs n). Ellipsis \<in> set axes)) \<and>
      (?covers \<longrightarrow> Ellipsis \<in> set (en_output n)) \<and>
      list_all2 (\<lambda>labels sh. length labels = length sh) (?in F) shapes \<and>
      (\<exists>m. try_fold term_size_step Map.empty (zip (?in F) shapes) = Ok m \<and>
        find (\<lambda>l. m l = None) (?out F) = None)" for F
  proof (cases "list_all2 (\<lambda>labels sh. length labels = length sh) (?in F) shapes")
    case True
    show ?thesis using len unfolding resolvable_def Let_def sizes [OF True] by blast
  next
    case False
    then show ?thesis unfolding resolvable_def Let_def by blast
  qed
  ultimately show ?thesis by blast
qed

section \<open>Canonical labels are an injective renaming\<close>

fun rename_axis :: "(label \<Rightarrow> label) \<Rightarrow> einsum_axis \<Rightarrow> einsum_axis" where
  "rename_axis \<rho> (Label l) = Label (\<rho> l)"
| "rename_axis \<rho> Ellipsis = Ellipsis"

definition rename_notation :: "(label \<Rightarrow> label) \<Rightarrow> einsum_notation \<Rightarrow> einsum_notation" where
  "rename_notation \<rho> n =
    \<lparr>en_inputs = map (map (rename_axis \<rho>)) (en_inputs n), en_output = map (rename_axis \<rho>) (en_output n)\<rparr>"

definition notation_labels :: "einsum_notation \<Rightarrow> label set" where
  "notation_labels n = \<Union> (explicit_labels ` set (en_inputs n)) \<union> explicit_labels (en_output n)"

fun renaming_ok :: "renaming \<Rightarrow> bool" where
  "renaming_ok (m, next) \<longleftrightarrow>
    dom m \<subseteq> {..u32_max} \<and> inj_on m (dom m) \<and> (\<forall>l c. m l = Some c \<longrightarrow> c < card (dom m)) \<and>
    next = min (card (dom m)) u32_max"

definition agrees :: "(label \<Rightarrow> label) \<Rightarrow> renaming \<Rightarrow> bool" where
  "agrees \<rho> st \<longleftrightarrow> (\<forall>l c. fst st l = Some c \<longrightarrow> \<rho> l = c)"

fun axis_labels :: "einsum_axis \<Rightarrow> label set" where
  "axis_labels (Label l) = {l}"
| "axis_labels Ellipsis = {}"

lemma explicit_labels_Cons: "explicit_labels (a # axes) = axis_labels a \<union> explicit_labels axes"
  by (cases a) (auto simp: explicit_labels_def)

lemma explicit_labels_Nil [simp]: "explicit_labels [] = {}"
  by (simp add: explicit_labels_def)

lemma remap_correct:
  assumes ok: "renaming_ok st" and l: "axis_labels axis \<subseteq> {..u32_max}" and r: "remap st axis = (st', axis')"
  shows "renaming_ok st'" and "dom (fst st') = dom (fst st) \<union> axis_labels axis"
    and "fst st \<subseteq>\<^sub>m fst st'" and "agrees \<rho> st' \<Longrightarrow> axis' = rename_axis \<rho> axis"
proof -
  obtain m nx where st: "st = (m, nx)" by (cases st)
  have "renaming_ok st' \<and> dom (fst st') = dom (fst st) \<union> axis_labels axis \<and> fst st \<subseteq>\<^sub>m fst st' \<and>
    (agrees \<rho> st' \<longrightarrow> axis' = rename_axis \<rho> axis)"
  proof (cases axis)
    case Ellipsis
    with ok r show ?thesis by (auto simp: map_le_def)
  next
    case (Label k)
    show ?thesis
    proof (cases "m k")
      case (Some c)
      with ok r Label st show ?thesis by (auto simp: map_le_def agrees_def)
    next
      case None
      have sub: "dom m \<subseteq> {..u32_max}" and inj: "inj_on m (dom m)"
        and lt: "\<And>l c. m l = Some c \<Longrightarrow> c < card (dom m)" and nx: "nx = min (card (dom m)) u32_max"
        using ok by (auto simp: st)
      have fin: "finite (dom m)" using sub finite_subset by blast
      have k: "k \<notin> dom m" "k \<le> u32_max" using None l Label by auto
      then have "dom m \<subset> {..u32_max}" using sub by auto
      then have "card (dom m) < card {..u32_max}" by (intro psubset_card_mono) auto
      then have nx': "nx = card (dom m)" using nx by simp
      have res: "st' = (m(k \<mapsto> nx), saturating_add32 nx 1)" "axis' = Label nx"
        using r None by (auto simp: st Label)
      have card: "card (dom (m(k \<mapsto> nx))) = Suc (card (dom m))" using k fin by simp
      have "inj_on (m(k \<mapsto> nx)) (dom (m(k \<mapsto> nx)))"
        using inj k(1) lt by (auto simp: inj_on_def nx' domI split: if_splits) (metis less_irrefl)+
      moreover have "\<forall>l c. (m(k \<mapsto> nx)) l = Some c \<longrightarrow> c < card (dom (m(k \<mapsto> nx)))"
        unfolding card using lt by (auto simp: nx' less_Suc_eq)
      ultimately have "renaming_ok st'"
        using sub k by (simp add: res card_insert_disjoint [OF fin k(1)] nx' saturating_add32_def)
      then show ?thesis
        using None by (auto simp: res st Label map_le_def agrees_def)
    qed
  qed
  then show "renaming_ok st'" and "dom (fst st') = dom (fst st) \<union> axis_labels axis"
    and "fst st \<subseteq>\<^sub>m fst st'" and "agrees \<rho> st' \<Longrightarrow> axis' = rename_axis \<rho> axis" by blast+
qed

lemma agrees_mono: "agrees \<rho> st' \<Longrightarrow> fst st \<subseteq>\<^sub>m fst st' \<Longrightarrow> agrees \<rho> st"
  unfolding agrees_def map_le_def by (metis domI)

lemma remap_axes_correct:
  assumes "renaming_ok st" and "explicit_labels axes \<subseteq> {..u32_max}" and "map_state remap st axes = (st', axes')"
  shows "renaming_ok st' \<and> dom (fst st') = dom (fst st) \<union> explicit_labels axes \<and> fst st \<subseteq>\<^sub>m fst st' \<and>
    (agrees \<rho> st' \<longrightarrow> axes' = map (rename_axis \<rho>) axes)"
  using assms
proof (induction axes arbitrary: st st' axes')
  case (Cons a axes)
  obtain st1 a' where 1: "remap st a = (st1, a')" by (cases "remap st a")
  obtain st2 as' where 2: "map_state remap st1 axes = (st2, as')" by (cases "map_state remap st1 axes")
  have res: "st' = st2" "axes' = a' # as'" using Cons.prems(3) 1 2 by auto
  note step = remap_correct [OF Cons.prems(1) _ 1]
  have sub: "axis_labels a \<subseteq> {..u32_max}" "explicit_labels axes \<subseteq> {..u32_max}"
    using Cons.prems(2) by (auto simp: explicit_labels_Cons)
  note IH = Cons.IH [OF step(1) [OF sub(1)] sub(2) 2]
  show ?case
    using IH step [OF sub(1)] agrees_mono [of \<rho> st2 st1] map_le_trans [of "fst st" "fst st1" "fst st2"]
    by (auto simp: res explicit_labels_Cons)
qed (auto simp: map_le_def)

lemma remap_terms_correct:
  assumes "renaming_ok st" and "\<Union> (explicit_labels ` set ts) \<subseteq> {..u32_max}"
    and "map_state (map_state remap) st ts = (st', ts')"
  shows "renaming_ok st' \<and> dom (fst st') = dom (fst st) \<union> \<Union> (explicit_labels ` set ts) \<and> fst st \<subseteq>\<^sub>m fst st' \<and>
    (agrees \<rho> st' \<longrightarrow> ts' = map (map (rename_axis \<rho>)) ts)"
  using assms
proof (induction ts arbitrary: st st' ts')
  case (Cons t ts)
  obtain st1 t' where 1: "map_state remap st t = (st1, t')" by (cases "map_state remap st t")
  obtain st2 us where 2: "map_state (map_state remap) st1 ts = (st2, us)"
    by (cases "map_state (map_state remap) st1 ts")
  have res: "st' = st2" "ts' = t' # us" using Cons.prems(3) 1 2 by auto
  have sub: "explicit_labels t \<subseteq> {..u32_max}" "\<Union> (explicit_labels ` set ts) \<subseteq> {..u32_max}"
    using Cons.prems(2) by auto
  note step = remap_axes_correct [OF Cons.prems(1) sub(1) 1]
  have IH: "renaming_ok st' \<and> dom (fst st') = dom (fst st1) \<union> \<Union> (explicit_labels ` set ts) \<and>
      fst st1 \<subseteq>\<^sub>m fst st' \<and> (agrees \<rho> st' \<longrightarrow> us = map (map (rename_axis \<rho>)) ts)"
    using Cons.IH [OF _ sub(2) 2] step res by blast
  show ?case
    using IH step agrees_mono [of \<rho> st' st1] map_le_trans [of "fst st" "fst st1" "fst st'"]
    by (auto simp: res)
qed (auto simp: map_le_def)

lemma rename_axis_id: "map (rename_axis (\<lambda>l. l)) axes = axes"
proof (induction axes)
  case (Cons a axes)
  then show ?case by (cases a) auto
qed simp

lemma canonicalize_is_renaming:
  assumes "notation_labels n \<subseteq> {..u32_max}"
  shows "\<exists>\<rho>. inj_on \<rho> (notation_labels n) \<and> canonicalize_ellipsis_labels n = rename_notation \<rho> n"
proof (cases "list_ex (\<lambda>t. Ellipsis \<in> set t) (en_inputs n @ [en_output n])")
  case False
  then have "canonicalize_ellipsis_labels n = rename_notation (\<lambda>l. l) n"
    by (simp add: canonicalize_ellipsis_labels_def rename_notation_def rename_axis_id map_idI)
  then show ?thesis by (metis inj_on_id2)
next
  case True
  obtain st ins where 1: "map_state (map_state remap) (Map.empty, 0) (en_inputs n) = (st, ins)"
    by (cases "map_state (map_state remap) (Map.empty, 0) (en_inputs n)")
  obtain st' out where 2: "map_state remap st (en_output n) = (st', out)"
    by (cases "map_state remap st (en_output n)")
  define \<rho> where "\<rho> = (\<lambda>l. the (fst st' l))"
  have sub: "\<Union> (explicit_labels ` set (en_inputs n)) \<subseteq> {..u32_max}" "explicit_labels (en_output n) \<subseteq> {..u32_max}"
    using assms by (auto simp: notation_labels_def)
  have "renaming_ok (Map.empty, 0)" by simp
  note r1 = remap_terms_correct [OF this sub(1) 1, of \<rho>]
  note r2 = remap_axes_correct [OF r1 [THEN conjunct1] sub(2) 2, of \<rho>]
  have ag: "agrees \<rho> st'" by (simp add: agrees_def \<rho>_def)
  have dom: "dom (fst st') = notation_labels n" using r1 r2 by (simp add: notation_labels_def)
  have "inj_on (fst st') (dom (fst st'))" using r2 by (metis prod.collapse renaming_ok.simps)
  then have "inj_on \<rho> (notation_labels n)"
    unfolding dom [symmetric] \<rho>_def inj_on_def by (metis domIff option.expand)
  moreover have "canonicalize_ellipsis_labels n = rename_notation \<rho> n"
    using True 1 2 r1 r2 ag agrees_mono [OF ag]
    by (simp add: canonicalize_ellipsis_labels_def rename_notation_def)
  ultimately show ?thesis by blast
qed

end
