(* ===== verification/Einsum_Util.thy ===== *)
theory Einsum_Util
  imports Einsum_Ellipsis
begin

text \<open>
  The helpers of \<open>util.rs\<close> shared by planning and lowering: the size dictionary, the output
  shape, the labels of an intermediate result, and the occurrence-sensitive label mapping.
\<close>

section \<open>Operations\<close>

definition size_dict_step :: "size_dict \<Rightarrow> nat \<times> label list \<times> shape \<Rightarrow> size_dict eres" where
  "size_dict_step size_dict e = (case e of (i, input_subs, sh) \<Rightarrow>
    if length input_subs \<noteq> length sh then Err (Planning (Input_Rank i (length input_subs) (length sh)))
    else term_size_step size_dict (input_subs, sh))"

definition build_size_dict :: "subscripts \<Rightarrow> shape list \<Rightarrow> size_dict option \<Rightarrow> size_dict eres" where
  "build_size_dict subs shapes extra =
    (if length (sb_inputs subs) \<noteq> length shapes
     then Err (Planning (Input_Shape_Count (length (sb_inputs subs)) (length shapes)))
     else
       and_then (try_fold size_dict_step Map.empty
           (zip [0..<length shapes] (zip (sb_inputs subs) shapes))) (\<lambda>size_dict.
         Ok (case extra of None \<Rightarrow> size_dict | Some sd \<Rightarrow> sd ++ size_dict)))"

definition compute_output_shape :: "label list \<Rightarrow> size_dict \<Rightarrow> shape eres" where
  "compute_output_shape output_subs size_dict =
    traverse (\<lambda>l. ok_or (size_dict l) (Planning (Unknown_Size l))) output_subs"

definition keep_step :: "label set \<Rightarrow> label set \<times> label list \<Rightarrow> label \<Rightarrow> label set \<times> label list" where
  "keep_step needed st l = (case st of (seen, output) \<Rightarrow>
    if l \<in> needed \<and> l \<notin> seen then (insert l seen, output @ [l]) else (seen, output))"

definition intermediate_subs :: "label list \<Rightarrow> label list \<Rightarrow> label set \<Rightarrow> label list" where
  "intermediate_subs subs_left subs_right needed =
    snd (foldl (keep_step needed) ({}, []) (subs_left @ subs_right))"

fun map_occurrences_loop :: "bool list \<Rightarrow> label list \<Rightarrow> label list \<Rightarrow> nat list option" where
  "map_occurrences_loop used target [] = Some []"
| "map_occurrences_loop used target (l # ls) =
    (case find (\<lambda>axis. \<not> used ! axis \<and> target ! axis = l) [0..<length target] of
       None \<Rightarrow> None
     | Some axis \<Rightarrow> map_option (\<lambda>axes. axis # axes) (map_occurrences_loop (used[axis := True]) target ls))"

definition map_label_occurrences :: "label list \<Rightarrow> label list \<Rightarrow> nat list option" where
  "map_label_occurrences source_labels target_labels =
    map_occurrences_loop (replicate (length target_labels) False) target_labels source_labels"

section \<open>The size dictionary\<close>

lemma size_dict_fold_eq:
  assumes "list_all2 (\<lambda>labels sh. length labels = length sh) inputs shapes" and "length is = length shapes"
  shows "try_fold size_dict_step d (zip is (zip inputs shapes)) = try_fold term_size_step d (zip inputs shapes)"
  using assms
proof (induction arbitrary: d "is" rule: list_all2_induct)
  case (Cons labels inputs sh shapes)
  then obtain i is' where "is = i # is'" "length is' = length shapes" by (cases "is") auto
  with Cons show ?case by (simp add: size_dict_step_def)
qed simp

lemma size_dict_fold_ranks:
  "try_fold size_dict_step d (zip is (zip inputs shapes)) = Ok d' \<Longrightarrow>
    length is = length shapes \<Longrightarrow> length shapes = length inputs \<Longrightarrow>
    list_all2 (\<lambda>labels sh. length labels = length sh) inputs shapes"
proof (induction inputs arbitrary: d "is" shapes)
  case (Cons labels inputs)
  then obtain i is' sh shapes' where "is = i # is'" "shapes = sh # shapes'"
    by (metis length_Suc_conv length_Cons)
  with Cons show ?case by (auto simp: size_dict_step_def split: if_splits)
qed simp

definition shape_occurrences :: "label list list \<Rightarrow> shape list \<Rightarrow> occurrences" where
  "shape_occurrences inputs shapes = \<Union> (term_sizes ` set (zip inputs shapes))"

text \<open>
  The dictionary exists exactly when the ranks fit, repeated labels of one operand have one
  size, and the sizes agree up to ones across the operands; it then holds the merged sizes.
\<close>

definition shapes_fit :: "label list list \<Rightarrow> shape list \<Rightarrow> bool" where
  "shapes_fit inputs shapes \<longleftrightarrow>
    list_all2 (\<lambda>labels sh. length labels = length sh) inputs shapes \<and>
    list_all (\<lambda>e. functional (term_sizes e)) (zip inputs shapes) \<and>
    sizes_agree (shape_occurrences inputs shapes)"

lemma build_size_dict_Ok:
  assumes "build_size_dict subs shapes None = Ok d"
  shows "shapes_fit (sb_inputs subs) shapes" and "merged_sizes (shape_occurrences (sb_inputs subs) shapes) d"
    and "dom d = \<Union> (set ` set (sb_inputs subs))"
proof -
  let ?in = "sb_inputs subs"
  from assms have len: "length ?in = length shapes"
    and f: "try_fold size_dict_step Map.empty (zip [0..<length shapes] (zip ?in shapes)) = Ok d"
    by (auto simp: build_size_dict_def split: if_splits)
  have r: "list_all2 (\<lambda>labels sh. length labels = length sh) ?in shapes"
    by (rule size_dict_fold_ranks [OF f]) (simp_all add: len)
  have t: "try_fold term_size_step Map.empty (zip ?in shapes) = Ok d"
    using f size_dict_fold_eq [OF r, of "[0..<length shapes]" Map.empty] by simp
  note fold = term_size_fold_correct [OF merged_sizes_empty sizes_agree_empty, of "zip ?in shapes"]
  show fit: "shapes_fit ?in shapes"
    using fold(1) [THEN iffD1, OF exI, OF t] r
    by (simp add: shapes_fit_def shape_occurrences_def)
  show m: "merged_sizes (shape_occurrences ?in shapes) d"
    using fold(2) [OF t] by (simp add: shape_occurrences_def)
  show "dom d = \<Union> (set ` set ?in)"
    using dom_merged_sizes [OF r] m fit by (simp add: shape_occurrences_def shapes_fit_def)
qed

lemma build_size_dict_total:
  assumes "shapes_fit (sb_inputs subs) shapes"
  shows "\<exists>d. build_size_dict subs shapes None = Ok d"
proof -
  let ?in = "sb_inputs subs"
  have r: "list_all2 (\<lambda>labels sh. length labels = length sh) ?in shapes" and len: "length ?in = length shapes"
    using assms by (auto simp: shapes_fit_def list_all2_lengthD)
  note fold = term_size_fold_correct(1) [OF merged_sizes_empty sizes_agree_empty, of "zip ?in shapes"]
  have "\<exists>d. try_fold term_size_step Map.empty (zip ?in shapes) = Ok d"
    unfolding fold using assms by (simp add: shapes_fit_def shape_occurrences_def)
  then obtain d where "try_fold term_size_step Map.empty (zip ?in shapes) = Ok d" by blast
  then show ?thesis
    using size_dict_fold_eq [OF r, of "[0..<length shapes]" Map.empty] len by (simp add: build_size_dict_def)
qed

lemma compute_output_shape_iff:
  "compute_output_shape out d = Ok sh \<longleftrightarrow> set out \<subseteq> dom d \<and> sh = map (\<lambda>l. the (d l)) out"
proof (induction out arbitrary: sh)
  case (Cons l out)
  then show ?case by (auto simp: compute_output_shape_def)
qed (auto simp: compute_output_shape_def)

section \<open>Intermediate labels\<close>

lemma keep_fold:
  "set out = seen \<Longrightarrow> distinct out \<Longrightarrow> foldl (keep_step needed) (seen, out) ls = (seen', out') \<Longrightarrow>
    set out' = set out \<union> (set ls \<inter> needed) \<and> distinct out' \<and> seen' = set out'"
proof (induction ls arbitrary: seen out)
  case (Cons l ls)
  then show ?case
    by (cases "l \<in> needed \<and> l \<notin> seen")
      (use Cons.IH [of "out @ [l]" "insert l seen"] Cons.IH [of out seen] in
        \<open>auto simp: keep_step_def\<close>)
qed auto

lemma intermediate_subs_set: "set (intermediate_subs l r needed) = (set l \<union> set r) \<inter> needed"
  using keep_fold [of "[]" "{}" needed "l @ r"]
  by (cases "foldl (keep_step needed) ({}, []) (l @ r)") (simp add: intermediate_subs_def)

lemma distinct_intermediate_subs: "distinct (intermediate_subs l r needed)"
  using keep_fold [of "[]" "{}" needed "l @ r"]
  by (cases "foldl (keep_step needed) ({}, []) (l @ r)") (simp add: intermediate_subs_def)

section \<open>Mapping label occurrences\<close>

lemma find_upt_SomeD: "find P [0..<n] = Some i \<Longrightarrow> i < n \<and> P i"
  by (auto simp: find_Some_iff)

lemma map_occurrences_loop_sound:
  "map_occurrences_loop used target source = Some axes \<Longrightarrow> length used = length target \<Longrightarrow>
    length axes = length source \<and> distinct axes \<and>
    (\<forall>a \<in> set axes. a < length target \<and> \<not> used ! a) \<and> map ((!) target) axes = source"
proof (induction used target source arbitrary: axes rule: map_occurrences_loop.induct)
  case (2 used target l ls)
  from "2.prems"(1) obtain a as where
    a: "find (\<lambda>axis. \<not> used ! axis \<and> target ! axis = l) [0..<length target] = Some a"
    and as: "map_occurrences_loop (used[a := True]) target ls = Some as" and axes: "axes = a # as"
    by (auto split: option.splits)
  from find_upt_SomeD [OF a] have a': "a < length target" "\<not> used ! a" "target ! a = l" by auto
  have IH: "length as = length ls \<and> distinct as \<and>
      (\<forall>b \<in> set as. b < length target \<and> \<not> used[a := True] ! b) \<and> map ((!) target) as = ls"
    using "2.IH" [OF a as] "2.prems"(2) by simp
  then have "a \<notin> set as" "\<forall>b \<in> set as. \<not> used ! b"
    using a'(1) "2.prems"(2) by (auto simp: nth_list_update split: if_splits)
  then show ?case using IH a' axes by simp
qed simp

lemma map_label_occurrences_sound:
  assumes "map_label_occurrences source target = Some axes"
  shows "length axes = length source" and "distinct axes" and "\<forall>a \<in> set axes. a < length target"
    and "map ((!) target) axes = source"
  using map_occurrences_loop_sound [OF assms [unfolded map_label_occurrences_def]] by simp_all

definition free_axes :: "bool list \<Rightarrow> label list \<Rightarrow> label \<Rightarrow> nat set" where
  "free_axes used target l = {a. a < length target \<and> \<not> used ! a \<and> target ! a = l}"

lemma finite_free_axes [simp]: "finite (free_axes used target l)"
  by (rule finite_subset [of _ "{..<length target}"]) (auto simp: free_axes_def)

lemma map_occurrences_loop_complete:
  "length used = length target \<Longrightarrow> (\<And>l. count_list source l \<le> card (free_axes used target l)) \<Longrightarrow>
    \<exists>axes. map_occurrences_loop used target source = Some axes"
proof (induction used target source rule: map_occurrences_loop.induct)
  case (2 used target l ls)
  from "2.prems"(2) [of l] have "free_axes used target l \<noteq> {}" by auto
  then obtain b where "b < length target" "\<not> used ! b" "target ! b = l" by (auto simp: free_axes_def)
  then have "find (\<lambda>axis. \<not> used ! axis \<and> target ! axis = l) [0..<length target] \<noteq> None"
    by (auto simp: find_None_iff)
  then obtain a where a: "find (\<lambda>axis. \<not> used ! axis \<and> target ! axis = l) [0..<length target] = Some a"
    by blast
  from find_upt_SomeD [OF a] have a': "a < length target" "\<not> used ! a" "target ! a = l" by auto
  have free: "free_axes (used[a := True]) target k = free_axes used target k - {a}" for k
    using a'(1) "2.prems"(1) by (auto simp: free_axes_def nth_list_update split: if_splits)
  have "count_list ls k \<le> card (free_axes (used[a := True]) target k)" for k
  proof (cases "k = l")
    case True
    have "a \<in> free_axes used target l" using a' by (simp add: free_axes_def)
    then show ?thesis using "2.prems"(2) [of l] True by (simp add: free)
  next
    case False
    then have "a \<notin> free_axes used target k" using a' by (simp add: free_axes_def)
    then show ?thesis using "2.prems"(2) [of k] False by (simp add: free)
  qed
  then show ?case using "2.IH" [OF a] "2.prems"(1) a by fastforce
qed simp

lemma free_axes_initial: "card (free_axes (replicate (length target) False) target l) = count_list target l"
proof -
  have "free_axes (replicate (length target) False) target l = {a. a < length target \<and> target ! a = l}"
    by (auto simp: free_axes_def)
  then show ?thesis by (simp add: count_list_eq_length_filter length_filter_conv_card eq_commute)
qed

lemma map_label_occurrences_complete:
  assumes "\<And>l. count_list source l \<le> count_list target l"
  shows "\<exists>axes. map_label_occurrences source target = Some axes"
  unfolding map_label_occurrences_def
  by (rule map_occurrences_loop_complete) (simp_all add: free_axes_initial assms)

lemma count_list_distinct: "distinct xs \<Longrightarrow> count_list xs x = (if x \<in> set xs then 1 else 0)"
  by (induction xs) auto

lemma map_label_occurrences_distinct:
  assumes "distinct source" and "set source \<subseteq> set target"
  shows "\<exists>axes. map_label_occurrences source target = Some axes"
proof (rule map_label_occurrences_complete)
  fix l
  have "l \<in> set target \<Longrightarrow> 1 \<le> count_list target l"
    by (metis count_list_0_iff less_one not_le)
  then show "count_list source l \<le> count_list target l"
    using assms by (auto simp: count_list_distinct)
qed

end
