(* ===== verification/Einsum_Plan.thy ===== *)
theory Einsum_Plan
  imports Einsum_Util
begin

text \<open>
  Lowering plans of one pairwise contraction: mode classification (\<open>planning/classify.rs\<close>), the
  strict binary GEMM plan (\<open>planning/strict_binary.rs\<close>), and diagonal, reduction and GEMM plans
  (\<open>planning/plan.rs\<close>).  Indexing a \<open>HashMap\<close> with a missing key panics, which is the error
  \<open>Panicked\<close> here.
\<close>

definition index_map :: "('k \<rightharpoonup> 'v) \<Rightarrow> 'k \<Rightarrow> 'v eres" where
  "index_map m k = (case m k of Some v \<Rightarrow> Ok v | None \<Rightarrow> Err Panicked)"

section \<open>Mode classification\<close>

definition classify_a_step ::
  "label set \<Rightarrow> label set \<Rightarrow> label set \<times> label list \<times> label list \<times> label list \<Rightarrow> label \<Rightarrow>
    label set \<times> label list \<times> label list \<times> label list" where
  "classify_a_step set_b set_c st m = (case st of (seen, batch, lo, sums) \<Rightarrow>
    if m \<in> seen then (seen, batch, lo, sums)
    else if m \<in> set_b \<and> m \<in> set_c then (insert m seen, batch @ [m], lo, sums)
    else if m \<in> set_c \<and> m \<notin> set_b then (insert m seen, batch, lo @ [m], sums)
    else if m \<in> set_b \<and> m \<notin> set_c then (insert m seen, batch, lo, sums @ [m])
    else (insert m seen, batch, lo, sums))"

definition classify_b_step ::
  "label set \<Rightarrow> label set \<Rightarrow> label set \<times> label list \<Rightarrow> label \<Rightarrow> label set \<times> label list" where
  "classify_b_step set_a set_c st m = (case st of (seen, ro) \<Rightarrow>
    if m \<in> seen then (seen, ro)
    else if m \<in> set_c \<and> m \<notin> set_a then (insert m seen, ro @ [m])
    else (insert m seen, ro))"

definition classify_modes ::
  "label list \<Rightarrow> label list \<Rightarrow> label list \<Rightarrow> label list \<times> label list \<times> label list \<times> label list" where
  "classify_modes subs_a subs_b subs_c =
    (case foldl (classify_a_step (set subs_b) (set subs_c)) ({}, [], [], []) subs_a of
       (_, batch, lo, sums) \<Rightarrow>
     case foldl (classify_b_step (set subs_a) (set subs_c)) ({}, []) subs_b of
       (_, ro) \<Rightarrow> (batch, lo, ro, sums))"

section \<open>The strict binary plan\<close>

record strict_plan =
  sp_size_dict :: size_dict
  sp_output_shape :: shape
  sp_lhs_free_labels :: "label list"
  sp_rhs_free_labels :: "label list"
  sp_contract_labels :: "label list"
  sp_lhs_perm :: "nat list"
  sp_rhs_perm :: "nat list"
  sp_lhs_matrix_dims :: shape
  sp_rhs_matrix_dims :: shape
  sp_canonical_output_dims :: shape
  sp_output_perm :: "nat list"
  sp_m :: nat
  sp_n :: nat
  sp_k :: nat

definition product_step :: "nat list \<Rightarrow> nat \<Rightarrow> nat \<Rightarrow> nat eres" where
  "product_step dims acc dim = ok_or (checked_mul acc dim) (Planning (Product_Overflow dims))"

definition strict_product :: "nat list \<Rightarrow> nat eres" where
  "strict_product dims = (if dims = [] then Ok 1 else try_fold (product_step dims) 1 dims)"

definition position_step :: "(label \<rightharpoonup> nat) \<Rightarrow> nat \<times> label \<Rightarrow> (label \<rightharpoonup> nat) option" where
  "position_step positions e = (case e of (axis, l) \<Rightarrow>
    if positions l = None then Some (positions(l \<mapsto> axis)) else None)"

fun try_fold_option :: "('s \<Rightarrow> 'a \<Rightarrow> 's option) \<Rightarrow> 's \<Rightarrow> 'a list \<Rightarrow> 's option" where
  "try_fold_option f s [] = Some s"
| "try_fold_option f s (x # xs) = (case f s x of None \<Rightarrow> None | Some s' \<Rightarrow> try_fold_option f s' xs)"

definition positions_if_unique :: "label list \<Rightarrow> (label \<rightharpoonup> nat) option" where
  "positions_if_unique labels = try_fold_option position_step Map.empty (zip [0..<length labels] labels)"

fun position :: "'a list \<Rightarrow> 'a \<Rightarrow> nat option" where
  "position [] x = None"
| "position (y # ys) x = (if y = x then Some 0 else map_option Suc (position ys x))"

definition strict_from_parts ::
  "label list \<Rightarrow> label list \<Rightarrow> label list \<Rightarrow> shape \<Rightarrow> shape \<Rightarrow> size_dict \<Rightarrow> strict_plan option eres" where
  "strict_from_parts lhs_labels rhs_labels out_labels lhs_dims rhs_dims size_dict =
    and_then (compute_output_shape out_labels size_dict) (\<lambda>output_shape.
    case positions_if_unique lhs_labels of None \<Rightarrow> Ok None | Some lhs_positions \<Rightarrow>
    case positions_if_unique rhs_labels of None \<Rightarrow> Ok None | Some rhs_positions \<Rightarrow>
    if positions_if_unique out_labels = None then Ok None
    else
      let lhs_free_labels = filter (\<lambda>l. rhs_positions l = None) lhs_labels;
          rhs_free_labels = filter (\<lambda>l. lhs_positions l = None) rhs_labels;
          contract_labels = filter (\<lambda>l. rhs_positions l \<noteq> None) lhs_labels in
      if list_ex (\<lambda>l. l \<in> set out_labels) contract_labels then Ok None
      else
        let canonical_output_labels = lhs_free_labels @ rhs_free_labels in
        if length out_labels \<noteq> length canonical_output_labels then Ok None
        else if \<not> list_all (\<lambda>l. l \<in> set canonical_output_labels) out_labels then Ok None
        else
          and_then (traverse (index_map lhs_positions) lhs_free_labels) (\<lambda>lhs_free_axes.
          and_then (traverse (index_map rhs_positions) rhs_free_labels) (\<lambda>rhs_free_axes.
          and_then (traverse (index_map lhs_positions) contract_labels) (\<lambda>contract_axes_lhs.
          and_then (traverse (index_map rhs_positions) contract_labels) (\<lambda>contract_axes_rhs.
          let lhs_perm = lhs_free_axes @ contract_axes_lhs;
              rhs_perm = contract_axes_rhs @ rhs_free_axes;
              lhs_free_dims = map (\<lambda>axis. lhs_dims ! axis) lhs_free_axes;
              rhs_free_dims = map (\<lambda>axis. rhs_dims ! axis) rhs_free_axes;
              contract_dims = map (\<lambda>axis. lhs_dims ! axis) contract_axes_lhs in
          if 0 \<in> set lhs_free_dims \<or> 0 \<in> set rhs_free_dims \<or> 0 \<in> set contract_dims then Ok None
          else
            and_then (strict_product lhs_free_dims) (\<lambda>m.
            and_then (strict_product contract_dims) (\<lambda>k.
            and_then (strict_product rhs_free_dims) (\<lambda>n.
            and_then (traverse (\<lambda>l. ok_or (position canonical_output_labels l)
                (Planning (Strict_Missing_Output l))) out_labels) (\<lambda>output_perm.
              Ok (Some \<lparr>sp_size_dict = size_dict, sp_output_shape = output_shape,
                sp_lhs_free_labels = lhs_free_labels, sp_rhs_free_labels = rhs_free_labels,
                sp_contract_labels = contract_labels, sp_lhs_perm = lhs_perm, sp_rhs_perm = rhs_perm,
                sp_lhs_matrix_dims = [m, k], sp_rhs_matrix_dims = [k, n],
                sp_canonical_output_dims = lhs_free_dims @ rhs_free_dims,
                sp_output_perm = output_perm, sp_m = m, sp_n = n, sp_k = k\<rparr>))))))))))"

definition shape_from_subs :: "size_dict \<Rightarrow> label list \<Rightarrow> shape eres" where
  "shape_from_subs size_dict subs =
    traverse (\<lambda>l. ok_or (size_dict l) (Planning (Strict_Missing_Dimension l))) subs"

definition strict_step_plan ::
  "label list \<Rightarrow> label list \<Rightarrow> label list \<Rightarrow> size_dict \<Rightarrow> strict_plan option eres" where
  "strict_step_plan subs_a subs_b subs_c size_dict =
    and_then (shape_from_subs size_dict subs_a) (\<lambda>lhs_dims.
    and_then (shape_from_subs size_dict subs_b) (\<lambda>rhs_dims.
      strict_from_parts subs_a subs_b subs_c lhs_dims rhs_dims size_dict))"

section \<open>Reduction of labels one operand has alone\<close>

record reduce_plan =
  rp_original_subs :: "label list"
  rp_kept_subs :: "label list"
  rp_out_shape :: shape

definition compute_reduce_plan ::
  "label list \<Rightarrow> label list \<Rightarrow> label list \<Rightarrow> size_dict \<Rightarrow> reduce_plan option eres" where
  "compute_reduce_plan subs_self subs_other subs_out size_dict =
    (let kept_subs = filter (\<lambda>l. l \<in> set subs_other \<or> l \<in> set subs_out) subs_self;
         has_reduction = list_ex (\<lambda>l. l \<notin> set subs_other \<and> l \<notin> set subs_out) subs_self in
     if \<not> has_reduction then Ok None
     else
       and_then (traverse (index_map size_dict) kept_subs) (\<lambda>out_shape.
         Ok (Some \<lparr>rp_original_subs = subs_self, rp_kept_subs = kept_subs, rp_out_shape = out_shape\<rparr>)))"

section \<open>Diagonal extraction\<close>

record diag_stage =
  ds_axis_pairs :: "(nat \<times> nat) list"
  ds_result_subs :: "label list"

record diag_plan =
  dp_stages :: "diag_stage list"
  dp_result_subs :: "label list"

definition push_position :: "(label \<Rightarrow> nat list) \<Rightarrow> nat \<times> label \<Rightarrow> label \<Rightarrow> nat list" where
  "push_position positions e = (case e of (i, l) \<Rightarrow> positions(l := positions l @ [i]))"

definition label_positions :: "label list \<Rightarrow> label \<Rightarrow> nat list" where
  "label_positions subs = foldl push_position (\<lambda>_. []) (zip [0..<length subs] subs)"

text \<open>An absent entry of the map of positions is the empty list of positions.\<close>

definition repeated_step ::
  "(label \<Rightarrow> nat list) \<Rightarrow> label set \<Rightarrow> label set \<times> label list \<Rightarrow> label \<Rightarrow> label set \<times> label list" where
  "repeated_step positions labels_to_extract st l = (case st of (seen, out) \<Rightarrow>
    if l \<in> labels_to_extract \<and> 1 < length (positions l) \<and> l \<notin> seen
    then (insert l seen, out @ [l]) else (seen, out))"

fun chunk_pairs :: "nat list \<Rightarrow> (nat \<times> nat) list" where
  "chunk_pairs (a # b # rest) = (a, b) # chunk_pairs rest"
| "chunk_pairs _ = []"

definition pair_step ::
  "label \<Rightarrow> (nat \<times> nat) list \<times> bool list \<times> label list \<Rightarrow> nat \<times> nat \<Rightarrow>
    (nat \<times> nat) list \<times> bool list \<times> label list" where
  "pair_step l st p = (case st of (axis_pairs, used, diag_labels) \<Rightarrow> case p of (a, b) \<Rightarrow>
    (axis_pairs @ [(a, b)], used[a := True, b := True], diag_labels @ [l]))"

definition build_diag_stage :: "label list \<Rightarrow> label set \<Rightarrow> diag_stage option" where
  "build_diag_stage subs labels_to_extract =
    (let positions = label_positions subs;
         repeated_labels = snd (foldl (repeated_step positions labels_to_extract) ({}, []) subs) in
     if repeated_labels = [] then None
     else
       case foldl (\<lambda>st l. foldl (pair_step l) st (chunk_pairs (positions l)))
         ([], replicate (length subs) False, []) repeated_labels of
         (axis_pairs, used, diag_labels) \<Rightarrow>
           if axis_pairs = [] then None
           else Some \<lparr>ds_axis_pairs = axis_pairs,
             ds_result_subs = map (\<lambda>i. subs ! i) (filter (\<lambda>i. \<not> used ! i) [0..<length subs]) @ diag_labels\<rparr>)"

section \<open>One stage halves the multiplicity of every extracted label\<close>

lemma label_positions_fold:
  "foldl push_position f (zip [k..<k + length subs] subs) l =
    f l @ map (\<lambda>i. i + k) (filter (\<lambda>i. subs ! i = l) [0..<length subs])"
proof (induction subs arbitrary: f k)
  case (Cons a subs)
  have e: "[k..<k + length (a # subs)] = k # [Suc k..<Suc k + length subs]"
    using upt_conv_Cons [of k "k + length (a # subs)"] by simp
  have u: "[0..<length (a # subs)] = 0 # map Suc [0..<length subs]"
    by (simp add: map_Suc_upt upt_conv_Cons del: upt_Suc)
  show ?case
    unfolding e zip_Cons_Cons foldl_Cons Cons.IH u
    by (simp add: push_position_def filter_map o_def)
qed simp

lemma label_positions_eq: "label_positions subs l = filter (\<lambda>i. subs ! i = l) [0..<length subs]"
  using label_positions_fold [of "\<lambda>_. []" 0 subs l] by (simp add: label_positions_def)

lemma length_label_positions: "length (label_positions subs l) = count_list subs l"
  by (simp add: label_positions_eq count_list_eq_length_filter length_filter_conv_card
      eq_commute [of l] cong: conj_cong)

lemma distinct_label_positions: "distinct (label_positions subs l)"
  by (simp add: label_positions_eq)

lemma repeated_fold:
  "set out = seen \<Longrightarrow> distinct out \<Longrightarrow> foldl (repeated_step P X) (seen, out) ls = (seen', out') \<Longrightarrow>
    set out' = set out \<union> {l \<in> set ls. l \<in> X \<and> 1 < length (P l)} \<and> distinct out' \<and> seen' = set out'"
proof (induction ls arbitrary: seen out)
  case (Cons l ls)
  then show ?case
    by (cases "l \<in> X \<and> 1 < length (P l) \<and> l \<notin> seen")
      (use Cons.IH [of "out @ [l]" "insert l seen"] Cons.IH [of out seen] in
        \<open>auto simp: repeated_step_def\<close>)
qed auto

definition pair_axes :: "(nat \<times> nat) list \<Rightarrow> nat list" where
  "pair_axes ps = concat (map (\<lambda>(a, b). [a, b]) ps)"

lemma pair_axes_simps [simp]:
  "pair_axes [] = []" "pair_axes ((a, b) # ps) = a # b # pair_axes ps"
  "pair_axes (ps @ qs) = pair_axes ps @ pair_axes qs"
  by (simp_all add: pair_axes_def)

lemma pair_axes_chunks: "pair_axes (chunk_pairs xs) = take (2 * (length xs div 2)) xs"
  by (induction xs rule: chunk_pairs.induct) auto

lemma length_chunk_pairs: "length (chunk_pairs xs) = length xs div 2"
  by (induction xs rule: chunk_pairs.induct) auto

definition mark :: "bool list \<Rightarrow> nat list \<Rightarrow> bool list" where
  "mark used axes = foldl (\<lambda>u a. u[a := True]) used axes"

lemma mark_simps [simp]: "mark used [] = used" "mark used (a # axes) = mark (used[a := True]) axes"
  "mark used (axes @ bxes) = mark (mark used axes) bxes"
  by (simp_all add: mark_def)

lemma length_mark [simp]: "length (mark used axes) = length used"
  by (induction axes arbitrary: used) auto

lemma nth_mark: "i < length used \<Longrightarrow> mark used axes ! i \<longleftrightarrow> used ! i \<or> i \<in> set axes"
proof (induction axes arbitrary: used)
  case (Cons a axes)
  then show ?case by (cases "i = a") simp_all
qed simp

lemma count_list_map: "count_list (map f xs) l = length (filter (\<lambda>i. f i = l) xs)"
  by (induction xs) auto

lemma half_rounded_up: "(c :: nat) - 2 * (c div 2) + c div 2 = (c + 1) div 2"
  by presburger

lemma pair_step_fold:
  "foldl (pair_step l) (ps, used, dl) qs = (ps @ qs, mark used (pair_axes qs), dl @ replicate (length qs) l)"
  by (induction qs arbitrary: ps used dl)
    (auto simp: pair_step_def replicate_append_same)

definition stage_pairs :: "label list \<Rightarrow> label list \<Rightarrow> (nat \<times> nat) list" where
  "stage_pairs subs ls = concat (map (\<lambda>l. chunk_pairs (label_positions subs l)) ls)"

lemma stage_fold:
  "foldl (\<lambda>st l. foldl (pair_step l) st (chunk_pairs (label_positions subs l))) (ps, used, dl) ls =
    (ps @ stage_pairs subs ls, mark used (pair_axes (stage_pairs subs ls)),
      dl @ concat (map (\<lambda>l. replicate (length (chunk_pairs (label_positions subs l))) l) ls))"
  by (induction ls arbitrary: ps used dl) (auto simp: pair_step_fold stage_pairs_def)

lemma count_list_replicate: "count_list (replicate n x) l = (if x = l then n else 0)"
  by (induction n) auto

lemma count_concat_replicate:
  "distinct ls \<Longrightarrow> count_list (concat (map (\<lambda>l. replicate (g l) l) ls)) l = (if l \<in> set ls then g l else 0)"
  by (induction ls) (auto simp: count_list_replicate)

lemma set_stage_pairs:
  "set (pair_axes (stage_pairs subs ls)) =
    (\<Union>l \<in> set ls. set (take (2 * (count_list subs l div 2)) (label_positions subs l)))"
  by (induction ls) (auto simp: stage_pairs_def pair_axes_chunks length_label_positions)

lemma used_of_label:
  assumes "i < length subs" "subs ! i = l"
  shows "i \<in> set (pair_axes (stage_pairs subs ls)) \<longleftrightarrow>
    l \<in> set ls \<and> i \<in> set (take (2 * (count_list subs l div 2)) (label_positions subs l))"
proof -
  have pos: "subs ! j = k" if "j \<in> set (take n (label_positions subs k))" for j k n
    using in_set_takeD [OF that] by (simp add: label_positions_eq)
  show ?thesis
    unfolding set_stage_pairs using assms(2) pos by blast
qed

lemma count_unused:
  assumes "\<And>i. i < length subs \<Longrightarrow> subs ! i = l \<Longrightarrow> used ! i \<longleftrightarrow> i \<in> set (take n (label_positions subs l))"
    and "n \<le> count_list subs l"
  shows "count_list (map (\<lambda>i. subs ! i) (filter (\<lambda>i. \<not> used ! i) [0..<length subs])) l = count_list subs l - n"
proof -
  let ?P = "label_positions subs l"
  have "count_list (map (\<lambda>i. subs ! i) (filter (\<lambda>i. \<not> used ! i) [0..<length subs])) l =
      length (filter (\<lambda>i. subs ! i = l) (filter (\<lambda>i. \<not> used ! i) [0..<length subs]))"
    by (rule count_list_map)
  also have "\<dots> = length (filter (\<lambda>i. \<not> used ! i) ?P)"
    unfolding label_positions_eq filter_filter by (rule arg_cong [of _ _ length], rule filter_cong) auto
  also have "filter (\<lambda>i. \<not> used ! i) ?P = filter (\<lambda>i. i \<notin> set (take n ?P)) ?P"
    using assms(1) by (intro filter_cong) (auto simp: label_positions_eq)
  also have "\<dots> = drop n ?P"
  proof -
    have "filter (\<lambda>i. i \<notin> set (take n ?P)) (take n ?P @ drop n ?P) = drop n ?P"
      using set_take_disj_set_drop_if_distinct [OF distinct_label_positions, of n n subs l]
      unfolding filter_append
      by (subst filter_False, simp, subst filter_True) auto
    then show ?thesis by simp
  qed
  finally show ?thesis by (simp add: length_label_positions)
qed

definition stage_labels :: "label list \<Rightarrow> label set \<Rightarrow> label set" where
  "stage_labels subs X = {l \<in> set subs. l \<in> X \<and> 1 < count_list subs l}"

lemma build_diag_stage_None: "build_diag_stage subs X = None \<longleftrightarrow> stage_labels subs X = {}"
  and build_diag_stage_Some: "build_diag_stage subs X = Some stage \<Longrightarrow>
    count_list (ds_result_subs stage) l =
      (if l \<in> stage_labels subs X then (count_list subs l + 1) div 2 else count_list subs l)"
proof -
  obtain seen ls where r: "foldl (repeated_step (label_positions subs) X) ({}, []) subs = (seen, ls)"
    by fastforce
  have ls: "set ls = stage_labels subs X" "distinct ls"
    using repeated_fold [OF _ _ r] by (auto simp: stage_labels_def length_label_positions)
  let ?pairs = "stage_pairs subs ls"
  let ?used = "mark (replicate (length subs) False) (pair_axes ?pairs)"
  let ?dl = "concat (map (\<lambda>l. replicate (length (chunk_pairs (label_positions subs l))) l) ls)"
  let ?res = "map (\<lambda>i. subs ! i) (filter (\<lambda>i. \<not> ?used ! i) [0..<length subs]) @ ?dl"
  have eq: "build_diag_stage subs X = (if ls = [] then None
      else if ?pairs = [] then None else Some \<lparr>ds_axis_pairs = ?pairs, ds_result_subs = ?res\<rparr>)"
    by (simp add: build_diag_stage_def Let_def r stage_fold)
  have ne: "ls \<noteq> [] \<Longrightarrow> ?pairs \<noteq> []"
  proof -
    assume "ls \<noteq> []"
    then obtain l where l: "l \<in> set ls" by (cases ls) auto
    then have "1 < count_list subs l" using ls by (auto simp: stage_labels_def)
    then have "chunk_pairs (label_positions subs l) \<noteq> []"
      by (metis length_chunk_pairs length_label_positions list.size(3) div_greater_zero_iff
          Suc_1 Suc_leI less_not_refl zero_less_numeral One_nat_def)
    with l show ?thesis by (auto simp: stage_pairs_def)
  qed
  with eq have eq2: "build_diag_stage subs X = (if ls = [] then None
      else Some \<lparr>ds_axis_pairs = ?pairs, ds_result_subs = ?res\<rparr>)" by simp
  then show "build_diag_stage subs X = None \<longleftrightarrow> stage_labels subs X = {}"
    using ls(1) by auto
  assume "build_diag_stage subs X = Some stage"
  with eq2 have res: "ds_result_subs stage = ?res" by (auto split: if_splits)
  define n where "n = (if l \<in> set ls then 2 * (count_list subs l div 2) else 0)"
  have "count_list (map (\<lambda>i. subs ! i) (filter (\<lambda>i. \<not> ?used ! i) [0..<length subs])) l = count_list subs l - n"
    by (rule count_unused) (auto simp: nth_mark used_of_label n_def)
  then have "count_list (ds_result_subs stage) l =
      count_list subs l - n + (if l \<in> set ls then count_list subs l div 2 else 0)"
    by (simp add: res count_concat_replicate [OF ls(2)] length_chunk_pairs length_label_positions)
  also have "\<dots> = (if l \<in> stage_labels subs X then (count_list subs l + 1) div 2 else count_list subs l)"
    unfolding n_def ls(1) using half_rounded_up [of "count_list subs l"] by simp
  finally show "count_list (ds_result_subs stage) l =
      (if l \<in> stage_labels subs X then (count_list subs l + 1) div 2 else count_list subs l)" .
qed

text \<open>The axis pairs of a stage are disjoint, in range and join axes of one label.\<close>

definition diag_stage_ok :: "label list \<Rightarrow> diag_stage \<Rightarrow> bool" where
  "diag_stage_ok subs stage \<longleftrightarrow>
    distinct (pair_axes (ds_axis_pairs stage)) \<and>
    (\<forall>a \<in> set (pair_axes (ds_axis_pairs stage)). a < length subs) \<and>
    (\<forall>(a, b) \<in> set (ds_axis_pairs stage). subs ! a = subs ! b) \<and>
    ds_result_subs stage =
      map (\<lambda>i. subs ! i) (filter (\<lambda>i. i \<notin> set (pair_axes (ds_axis_pairs stage))) [0..<length subs]) @
      map (\<lambda>(a, b). subs ! a) (ds_axis_pairs stage)"

lemma chunk_pairs_axes: "(a, b) \<in> set (chunk_pairs xs) \<Longrightarrow> a \<in> set xs \<and> b \<in> set xs"
  by (induction xs rule: chunk_pairs.induct) auto

lemma in_stage_pairs:
  "(a, b) \<in> set (stage_pairs subs ls) \<Longrightarrow> a < length subs \<and> b < length subs \<and> subs ! a = subs ! b"
  by (auto simp: stage_pairs_def label_positions_eq dest!: chunk_pairs_axes)

lemma distinct_stage_pairs: "distinct ls \<Longrightarrow> distinct (pair_axes (stage_pairs subs ls))"
proof (induction ls)
  case (Cons l ls)
  have "stage_pairs subs (l # ls) = chunk_pairs (label_positions subs l) @ stage_pairs subs ls"
    by (simp add: stage_pairs_def)
  moreover have "set (pair_axes (chunk_pairs (label_positions subs l))) \<inter>
      set (pair_axes (stage_pairs subs ls)) = {}"
  proof -
    have "i < length subs \<and> subs ! i = l" if "i \<in> set (pair_axes (chunk_pairs (label_positions subs l)))" for i
      using in_set_takeD [OF that [unfolded pair_axes_chunks]] by (simp add: label_positions_eq)
    then show ?thesis using Cons.prems used_of_label [of _ subs l ls] by auto
  qed
  ultimately show ?case using Cons distinct_label_positions by (simp add: pair_axes_chunks)
qed (simp add: stage_pairs_def)

lemma stage_diag_labels:
  "concat (map (\<lambda>l. replicate (length (chunk_pairs (label_positions subs l))) l) ls) =
    map (\<lambda>(a, b). subs ! a) (stage_pairs subs ls)"
proof (induction ls)
  case (Cons l ls)
  have "map (\<lambda>(a, b). subs ! a) (chunk_pairs (label_positions subs l)) =
      replicate (length (chunk_pairs (label_positions subs l))) l"
  proof -
    have "map (\<lambda>(a, b). subs ! a) (chunk_pairs (label_positions subs l)) =
        map (\<lambda>_. l) (chunk_pairs (label_positions subs l))"
      by (rule map_cong) (auto simp: label_positions_eq dest!: chunk_pairs_axes)
    then show ?thesis by (simp add: map_replicate_const)
  qed
  then show ?case using Cons.IH by (simp add: stage_pairs_def)
qed (simp add: stage_pairs_def)

lemma build_diag_stage_ok:
  assumes "build_diag_stage subs X = Some stage"
  shows "diag_stage_ok subs stage"
proof -
  obtain seen ls where r: "foldl (repeated_step (label_positions subs) X) ({}, []) subs = (seen, ls)"
    by fastforce
  have d: "distinct ls" using repeated_fold [OF _ _ r] by simp
  let ?pairs = "stage_pairs subs ls"
  let ?used = "mark (replicate (length subs) False) (pair_axes ?pairs)"
  have res: "ds_axis_pairs stage = ?pairs"
    "ds_result_subs stage = map (\<lambda>i. subs ! i) (filter (\<lambda>i. \<not> ?used ! i) [0..<length subs]) @
      map (\<lambda>(a, b). subs ! a) ?pairs"
    using assms by (auto simp: build_diag_stage_def Let_def r stage_fold stage_diag_labels split: if_splits)
  have f: "filter (\<lambda>i. \<not> ?used ! i) [0..<length subs] =
      filter (\<lambda>i. i \<notin> set (pair_axes ?pairs)) [0..<length subs]"
    by (rule filter_cong) (auto simp: nth_mark)
  have "\<forall>a \<in> set (pair_axes ?pairs). a < length subs"
    using in_stage_pairs by (fastforce simp: pair_axes_def)
  then show ?thesis
    using distinct_stage_pairs [OF d, of subs] in_stage_pairs [of _ _ subs ls]
    by (auto simp: diag_stage_ok_def res f)
qed

lemma sum_counts:
  assumes "finite X" "set xs \<subseteq> X"
  shows "length xs = (\<Sum>x \<in> X. count_list xs x)"
  using sum_count_set [OF assms(2,1)] by simp

lemma build_diag_stage_set: "build_diag_stage subs X = Some stage \<Longrightarrow> set (ds_result_subs stage) = set subs"
proof -
  assume s: "build_diag_stage subs X = Some stage"
  have "count_list (ds_result_subs stage) l = 0 \<longleftrightarrow> count_list subs l = 0" for l
    using build_diag_stage_Some [OF s, of l] by (auto simp: stage_labels_def)
  then show ?thesis by (simp add: count_list_0_iff set_eq_iff)
qed

lemma build_diag_stage_shrinks:
  assumes s: "build_diag_stage subs X = Some stage"
  shows "length (ds_result_subs stage) < length subs"
proof -
  have set: "set (ds_result_subs stage) = set subs" by (rule build_diag_stage_set [OF s])
  from s build_diag_stage_None [of subs X] obtain l where l: "l \<in> stage_labels subs X" by auto
  have le: "count_list (ds_result_subs stage) k \<le> count_list subs k" for k
    using build_diag_stage_Some [OF s, of k] by (auto simp: stage_labels_def)
  have "(\<Sum>k \<in> set subs. count_list (ds_result_subs stage) k) < (\<Sum>k \<in> set subs. count_list subs k)"
  proof (rule sum_strict_mono_ex1)
    show "\<exists>k \<in> set subs. count_list (ds_result_subs stage) k < count_list subs k"
      using l build_diag_stage_Some [OF s, of l] by (intro bexI [of _ l]) (auto simp: stage_labels_def)
  qed (use le in auto)
  then show ?thesis using sum_counts [of "set subs"] set by simp
qed

function diag_loop :: "label list \<Rightarrow> label set \<Rightarrow> diag_stage list \<Rightarrow> diag_stage list \<times> label list" where
  "diag_loop current_subs labels_to_extract stages =
    (case build_diag_stage current_subs labels_to_extract of
       Some stage \<Rightarrow> diag_loop (ds_result_subs stage) labels_to_extract (stages @ [stage])
     | None \<Rightarrow> (stages, current_subs))"
  by pat_completeness auto
termination
  by (relation "measure (\<lambda>(subs, _, _). length subs)") (auto dest: build_diag_stage_shrinks)

declare diag_loop.simps [simp del]

definition compute_diag_plan_for_labels :: "label list \<Rightarrow> label set \<Rightarrow> diag_plan option" where
  "compute_diag_plan_for_labels subs labels_to_extract =
    (case diag_loop subs labels_to_extract [] of (stages, current_subs) \<Rightarrow>
       if stages = [] then None
       else Some \<lparr>dp_stages = stages, dp_result_subs = current_subs\<rparr>)"

definition compute_diag_plan :: "label list \<Rightarrow> diag_plan option" where
  "compute_diag_plan subs =
    (let positions = label_positions subs;
         repeated_labels = set (filter (\<lambda>l. 1 < length (positions l)) subs) in
     compute_diag_plan_for_labels subs repeated_labels)"

section \<open>The plan of a pairwise step\<close>

record gemm_plan =
  gp_reduce_a :: "reduce_plan option"
  gp_reduce_b :: "reduce_plan option"
  gp_subs_a :: "label list"
  gp_subs_b :: "label list"
  gp_lo_modes :: "label list"
  gp_ro_modes :: "label list"
  gp_sum_modes :: "label list"
  gp_lo_sizes :: shape
  gp_ro_sizes :: shape
  gp_sum_sizes :: shape
  gp_batch_sizes :: shape
  gp_m :: nat
  gp_n :: nat
  gp_k :: nat
  gp_target_a :: "label list"
  gp_target_b :: "label list"
  gp_c_gemm_shape :: shape
  gp_expanded_shape :: shape
  gp_canonical_modes :: "label list"
  gp_needs_final_permute :: bool
  gp_a_gemm_shape :: shape
  gp_b_gemm_shape :: shape

record step_plan =
  st_diag_a :: "diag_plan option"
  st_diag_b :: "diag_plan option"
  st_strict_binary :: "strict_plan option"
  st_gemm :: gemm_plan

definition plan_product :: "nat list \<Rightarrow> nat eres" where
  "plan_product sizes = try_fold (product_step sizes) 1 sizes"

definition product_or_one_for_empty :: "nat list \<Rightarrow> nat eres" where
  "product_or_one_for_empty sizes = (if sizes = [] then Ok 1 else plan_product sizes)"

definition gemm_plan_of ::
  "reduce_plan option \<Rightarrow> reduce_plan option \<Rightarrow> label list \<Rightarrow> label list \<Rightarrow> label list \<Rightarrow>
    label list \<Rightarrow> label list \<Rightarrow> label list \<Rightarrow> label list \<Rightarrow> shape \<Rightarrow> shape \<Rightarrow> shape \<Rightarrow> shape \<Rightarrow>
    nat \<Rightarrow> nat \<Rightarrow> nat \<Rightarrow> gemm_plan" where
  "gemm_plan_of reduce_a reduce_b effective_a effective_b subs_c
     batch_modes lo_modes ro_modes sum_modes batch_sizes lo_sizes ro_sizes sum_sizes m n k =
    (let target_a = lo_modes @ sum_modes @ batch_modes;
         target_b = sum_modes @ ro_modes @ batch_modes;
         canonical_modes = lo_modes @ ro_modes @ batch_modes in
     \<lparr>gp_reduce_a = reduce_a, gp_reduce_b = reduce_b,
      gp_subs_a = effective_a, gp_subs_b = effective_b,
      gp_lo_modes = lo_modes, gp_ro_modes = ro_modes, gp_sum_modes = sum_modes,
      gp_lo_sizes = lo_sizes, gp_ro_sizes = ro_sizes, gp_sum_sizes = sum_sizes,
      gp_batch_sizes = batch_sizes, gp_m = m, gp_n = n, gp_k = k,
      gp_target_a = target_a, gp_target_b = target_b,
      gp_c_gemm_shape = [m, n] @ batch_sizes,
      gp_expanded_shape = lo_sizes @ ro_sizes @ batch_sizes,
      gp_canonical_modes = canonical_modes,
      gp_needs_final_permute = (canonical_modes \<noteq> subs_c),
      gp_a_gemm_shape = [m, k] @ batch_sizes,
      gp_b_gemm_shape = [k, n] @ batch_sizes\<rparr>)"

definition compile_pairwise_step_plan ::
  "label list \<Rightarrow> label list \<Rightarrow> label list \<Rightarrow> size_dict \<Rightarrow> step_plan eres" where
  "compile_pairwise_step_plan subs_a subs_b subs_c size_dict =
    (let diag_a = compute_diag_plan subs_a;
         diag_b = compute_diag_plan subs_b;
         eff_subs_a = (case diag_a of Some d \<Rightarrow> dp_result_subs d | None \<Rightarrow> subs_a);
         eff_subs_b = (case diag_b of Some d \<Rightarrow> dp_result_subs d | None \<Rightarrow> subs_b) in
     and_then (compute_reduce_plan eff_subs_a eff_subs_b subs_c size_dict) (\<lambda>reduce_a.
     and_then (compute_reduce_plan eff_subs_b eff_subs_a subs_c size_dict) (\<lambda>reduce_b.
     let effective_a = (case reduce_a of Some r \<Rightarrow> rp_kept_subs r | None \<Rightarrow> eff_subs_a);
         effective_b = (case reduce_b of Some r \<Rightarrow> rp_kept_subs r | None \<Rightarrow> eff_subs_b) in
     case classify_modes effective_a effective_b subs_c of
       (batch_modes, lo_modes, ro_modes, sum_modes) \<Rightarrow>
     and_then (traverse (index_map size_dict) batch_modes) (\<lambda>batch_sizes.
     and_then (traverse (index_map size_dict) lo_modes) (\<lambda>lo_sizes.
     and_then (traverse (index_map size_dict) ro_modes) (\<lambda>ro_sizes.
     and_then (traverse (index_map size_dict) sum_modes) (\<lambda>sum_sizes.
     and_then (product_or_one_for_empty lo_sizes) (\<lambda>m.
     and_then (product_or_one_for_empty ro_sizes) (\<lambda>n.
     and_then (product_or_one_for_empty sum_sizes) (\<lambda>k.
     and_then (strict_step_plan subs_a subs_b subs_c size_dict) (\<lambda>strict_binary.
       Ok \<lparr>st_diag_a = diag_a, st_diag_b = diag_b, st_strict_binary = strict_binary,
         st_gemm = gemm_plan_of reduce_a reduce_b effective_a effective_b subs_c
           batch_modes lo_modes ro_modes sum_modes batch_sizes lo_sizes ro_sizes sum_sizes m n k\<rparr>)))))))))))"

definition plan_batch_modes :: "gemm_plan \<Rightarrow> label list" where
  "plan_batch_modes p = drop (length (gp_lo_modes p) + length (gp_ro_modes p)) (gp_canonical_modes p)"

end
