(* ===== verification/Einsum_Plan_Correct.thy ===== *)
theory Einsum_Plan_Correct
  imports Einsum_Plan
begin

text \<open>
  What the lowering plans promise: diagonal stages leave every label once, the modes of a GEMM
  partition the labels of the reduced operands, and the permutations of the strict plan are
  permutations that bring free, contracted and output labels into their blocks.
\<close>

section \<open>Diagonal plans\<close>

fun stage_chain :: "label list \<Rightarrow> diag_stage list \<Rightarrow> label list \<Rightarrow> bool" where
  "stage_chain subs [] final \<longleftrightarrow> subs = final"
| "stage_chain subs (stage # stages) final \<longleftrightarrow>
    diag_stage_ok subs stage \<and> stage_chain (ds_result_subs stage) stages final"

lemma diag_loop_correct:
  "diag_loop subs X acc = (stages, final) \<Longrightarrow>
    \<exists>new. stages = acc @ new \<and> stage_chain subs new final \<and> set final = set subs \<and>
      stage_labels final X = {} \<and> (\<forall>l. l \<notin> X \<longrightarrow> count_list final l = count_list subs l) \<and>
      (new = [] \<longleftrightarrow> stage_labels subs X = {})"
proof (induction subs X acc rule: diag_loop.induct)
  case (1 subs X acc)
  show ?case
  proof (cases "build_diag_stage subs X")
    case None
    then have "stages = acc" "final = subs" using "1.prems" by (simp_all add: diag_loop.simps)
    with None show ?thesis by (simp add: build_diag_stage_None)
  next
    case (Some stage)
    then have "diag_loop (ds_result_subs stage) X (acc @ [stage]) = (stages, final)"
      using "1.prems" by (simp add: diag_loop.simps [of subs])
    from "1.IH" [OF Some this] obtain new where
      new: "stages = (acc @ [stage]) @ new" "stage_chain (ds_result_subs stage) new final"
        "set final = set (ds_result_subs stage)" "stage_labels final X = {}"
        "\<forall>l. l \<notin> X \<longrightarrow> count_list final l = count_list (ds_result_subs stage) l" by blast
    have "\<forall>l. l \<notin> X \<longrightarrow> count_list (ds_result_subs stage) l = count_list subs l"
      using build_diag_stage_Some [OF Some] by (simp add: stage_labels_def)
    moreover have "stage_labels subs X \<noteq> {}"
      using Some build_diag_stage_None [of subs X] by auto
    ultimately show ?thesis
      using new build_diag_stage_ok [OF Some] build_diag_stage_set [OF Some]
      by (intro exI [of _ "stage # new"]) simp
  qed
qed

lemma distinct_iff_counts: "distinct xs \<longleftrightarrow> (\<forall>x. count_list xs x \<le> 1)"
proof (induction xs)
  case (Cons a xs)
  show ?case
  proof
    assume d: "distinct (a # xs)"
    then show "\<forall>x. count_list (a # xs) x \<le> 1"
      using Cons.IH by (auto simp: count_list_0_iff)
  next
    assume c: "\<forall>x. count_list (a # xs) x \<le> 1"
    have "count_list xs x \<le> 1" for x using c [rule_format, of x] by (auto split: if_splits)
    moreover have "count_list xs a = 0" using c [rule_format, of a] by simp
    ultimately show "distinct (a # xs)" using Cons.IH by (simp add: count_list_0_iff)
  qed
qed simp

definition repeated_labels :: "label list \<Rightarrow> label set" where
  "repeated_labels subs = {l \<in> set subs. 1 < count_list subs l}"

lemma compute_diag_plan_correct:
  shows "compute_diag_plan subs = None \<longleftrightarrow> distinct subs"
    and "compute_diag_plan subs = Some d \<Longrightarrow> distinct (dp_result_subs d) \<and> set (dp_result_subs d) = set subs \<and>
      stage_chain subs (dp_stages d) (dp_result_subs d)"
proof -
  have X: "set (filter (\<lambda>l. 1 < length (label_positions subs l)) subs) = repeated_labels subs"
    by (auto simp: repeated_labels_def length_label_positions)
  obtain stages final where l: "diag_loop subs (repeated_labels subs) [] = (stages, final)" by fastforce
  then have eq: "compute_diag_plan subs =
      (if stages = [] then None else Some \<lparr>dp_stages = stages, dp_result_subs = final\<rparr>)"
    unfolding compute_diag_plan_def Let_def X compute_diag_plan_for_labels_def by simp
  from diag_loop_correct [OF l] have
    r: "stage_chain subs stages final" "set final = set subs" "stage_labels final (repeated_labels subs) = {}"
      "\<forall>l. l \<notin> repeated_labels subs \<longrightarrow> count_list final l = count_list subs l"
      "stages = [] \<longleftrightarrow> stage_labels subs (repeated_labels subs) = {}" by auto
  have "stage_labels subs (repeated_labels subs) = repeated_labels subs"
    by (auto simp: stage_labels_def repeated_labels_def)
  moreover have "repeated_labels subs = {} \<longleftrightarrow> distinct subs"
    unfolding distinct_iff_counts repeated_labels_def
    by (auto simp: not_less [symmetric]) (metis count_list_0_iff not_less_zero)
  ultimately show "compute_diag_plan subs = None \<longleftrightarrow> distinct subs" using eq r(5) by simp
  assume "compute_diag_plan subs = Some d"
  with eq have d: "dp_stages d = stages" "dp_result_subs d = final" by (auto split: if_splits)
  have "count_list final l \<le> 1" for l
  proof (cases "l \<in> repeated_labels subs")
    case True
    then have "l \<in> set final" by (simp add: r(2) repeated_labels_def)
    with True r(3) show ?thesis by (auto simp: stage_labels_def not_less)
  next
    case False
    with r(4) have "count_list final l = count_list subs l" by simp
    also have "\<dots> \<le> 1" using False by (auto simp: repeated_labels_def not_less count_list_0_iff)
    finally show ?thesis .
  qed
  then show "distinct (dp_result_subs d) \<and> set (dp_result_subs d) = set subs \<and>
      stage_chain subs (dp_stages d) (dp_result_subs d)"
    using r d by (simp add: distinct_iff_counts)
qed

section \<open>Mode classes\<close>

lemma classify_a_fold:
  "distinct ls \<Longrightarrow> set ls \<inter> seen = {} \<Longrightarrow>
    foldl (classify_a_step B C) (seen, batch, lo, sums) ls =
      (seen \<union> set ls, batch @ filter (\<lambda>m. m \<in> B \<and> m \<in> C) ls, lo @ filter (\<lambda>m. m \<notin> B \<and> m \<in> C) ls,
        sums @ filter (\<lambda>m. m \<in> B \<and> m \<notin> C) ls)"
  by (induction ls arbitrary: seen batch lo sums) (auto simp: classify_a_step_def)

lemma classify_b_fold:
  "distinct ls \<Longrightarrow> set ls \<inter> seen = {} \<Longrightarrow>
    foldl (classify_b_step A C) (seen, ro) ls = (seen \<union> set ls, ro @ filter (\<lambda>m. m \<in> C \<and> m \<notin> A) ls)"
  by (induction ls arbitrary: seen ro) (auto simp: classify_b_step_def)

lemma classify_modes_distinct:
  assumes "distinct a" "distinct b"
  shows "classify_modes a b c =
    (filter (\<lambda>m. m \<in> set b \<and> m \<in> set c) a, filter (\<lambda>m. m \<notin> set b \<and> m \<in> set c) a,
     filter (\<lambda>m. m \<in> set c \<and> m \<notin> set a) b, filter (\<lambda>m. m \<in> set b \<and> m \<notin> set c) a)"
  using assms by (simp add: classify_modes_def classify_a_fold classify_b_fold)

section \<open>Products and shapes\<close>

lemma product_fold:
  "try_fold (product_step dims) acc ds = Ok p \<Longrightarrow> p = acc * prod_list ds"
proof (induction ds arbitrary: acc)
  case (Cons a ds)
  from Cons.prems obtain acc' where a: "product_step dims acc a = Ok acc'"
    and r: "try_fold (product_step dims) acc' ds = Ok p" by auto
  from a have "acc' = acc * a" by (simp add: product_step_def)
  with r have "try_fold (product_step dims) (acc * a) ds = Ok p" by simp
  from Cons.IH [OF this] show ?case by (simp add: mult.assoc)
qed simp

lemma plan_product_Ok: "product_or_one_for_empty ds = Ok p \<Longrightarrow> p = prod_list ds"
  by (auto simp: product_or_one_for_empty_def plan_product_def dest: product_fold split: if_splits)

lemma strict_product_Ok: "strict_product ds = Ok p \<Longrightarrow> p = prod_list ds"
  by (auto simp: strict_product_def dest: product_fold split: if_splits)

lemma product_step_no_panic: "try_fold (product_step dims) acc ds \<noteq> Err Panicked"
  by (induction ds arbitrary: acc) (auto simp: product_step_def)

lemma index_map_Ok [simp]: "index_map m k = Ok v \<longleftrightarrow> m k = Some v"
  by (simp add: index_map_def split: option.splits)

lemma traverse_index_Ok: "traverse (index_map m) ks = Ok vs \<longleftrightarrow> set ks \<subseteq> dom m \<and> vs = map (\<lambda>k. the (m k)) ks"
  by (induction ks arbitrary: vs) auto

lemma traverse_index_total: "set ks \<subseteq> dom m \<Longrightarrow> traverse (index_map m) ks = Ok (map (\<lambda>k. the (m k)) ks)"
  by (simp add: traverse_index_Ok)

section \<open>The GEMM plan\<close>

lemma compute_reduce_plan_kept:
  assumes "compute_reduce_plan self other out d = Ok r"
  shows "(case r of Some p \<Rightarrow> rp_kept_subs p | None \<Rightarrow> self) = filter (\<lambda>l. l \<in> set other \<or> l \<in> set out) self"
    and "r = Some p \<Longrightarrow> rp_original_subs p = self \<and>
      rp_out_shape p = map (\<lambda>l. the (d l)) (filter (\<lambda>l. l \<in> set other \<or> l \<in> set out) self)"
    and "r = None \<longleftrightarrow> set self \<subseteq> set other \<union> set out"
proof -
  let ?kept = "filter (\<lambda>l. l \<in> set other \<or> l \<in> set out) self"
  have n: "list_ex (\<lambda>l. l \<notin> set other \<and> l \<notin> set out) self \<longleftrightarrow> \<not> set self \<subseteq> set other \<union> set out"
    by (auto simp: list_ex_iff)
  from assms have r: "(set self \<subseteq> set other \<union> set out \<and> r = None) \<or>
    (\<not> set self \<subseteq> set other \<union> set out \<and>
      r = Some \<lparr>rp_original_subs = self, rp_kept_subs = ?kept, rp_out_shape = map (\<lambda>l. the (d l)) ?kept\<rparr>)"
    unfolding compute_reduce_plan_def Let_def n by (auto simp: traverse_index_Ok split: if_splits)
  then show "(case r of Some p \<Rightarrow> rp_kept_subs p | None \<Rightarrow> self) = ?kept"
    by (elim disjE conjE) (auto intro!: filter_True [symmetric])
  show "r = None \<longleftrightarrow> set self \<subseteq> set other \<union> set out" using r by auto
  show "r = Some p \<Longrightarrow> rp_original_subs p = self \<and> rp_out_shape p = map (\<lambda>l. the (d l)) ?kept"
    using r by auto
qed

definition effective_subs :: "label list \<Rightarrow> label list" where
  "effective_subs subs = (case compute_diag_plan subs of Some d \<Rightarrow> dp_result_subs d | None \<Rightarrow> subs)"

lemma effective_subs_correct: "distinct (effective_subs subs)" "set (effective_subs subs) = set subs"
  using compute_diag_plan_correct [of subs] by (auto simp: effective_subs_def split: option.splits)

lemma compile_pairwise_step_plan_Ok:
  assumes "compile_pairwise_step_plan a b c d = Ok p"
  defines "g \<equiv> st_gemm p"
  defines "ea \<equiv> filter (\<lambda>l. l \<in> set b \<or> l \<in> set c) (effective_subs a)"
    and "eb \<equiv> filter (\<lambda>l. l \<in> set a \<or> l \<in> set c) (effective_subs b)"
  shows "gp_subs_a g = ea" and "gp_subs_b g = eb"
    and "gp_lo_modes g = filter (\<lambda>m. m \<notin> set b \<and> m \<in> set c) ea"
    and "gp_ro_modes g = filter (\<lambda>m. m \<in> set c \<and> m \<notin> set a) eb"
    and "gp_sum_modes g = filter (\<lambda>m. m \<in> set b \<and> m \<notin> set c) ea"
    and "plan_batch_modes g = filter (\<lambda>m. m \<in> set b \<and> m \<in> set c) ea"
    and "gp_target_a g = gp_lo_modes g @ gp_sum_modes g @ plan_batch_modes g"
    and "gp_target_b g = gp_sum_modes g @ gp_ro_modes g @ plan_batch_modes g"
    and "gp_canonical_modes g = gp_lo_modes g @ gp_ro_modes g @ plan_batch_modes g"
    and "gp_m g = prod_list (map (\<lambda>l. the (d l)) (gp_lo_modes g))"
    and "gp_n g = prod_list (map (\<lambda>l. the (d l)) (gp_ro_modes g))"
    and "gp_k g = prod_list (map (\<lambda>l. the (d l)) (gp_sum_modes g))"
    and "gp_a_gemm_shape g = [gp_m g, gp_k g] @ map (\<lambda>l. the (d l)) (plan_batch_modes g)"
    and "gp_b_gemm_shape g = [gp_k g, gp_n g] @ map (\<lambda>l. the (d l)) (plan_batch_modes g)"
    and "gp_c_gemm_shape g = [gp_m g, gp_n g] @ map (\<lambda>l. the (d l)) (plan_batch_modes g)"
    and "gp_expanded_shape g = map (\<lambda>l. the (d l)) (gp_canonical_modes g)"
    and "gp_needs_final_permute g \<longleftrightarrow> gp_canonical_modes g \<noteq> c"
    and "st_diag_a p = compute_diag_plan a" and "st_diag_b p = compute_diag_plan b"
    and "strict_step_plan a b c d = Ok (st_strict_binary p)"
proof -
  note eff = effective_subs_correct
  obtain ra rb where
    ra: "compute_reduce_plan (effective_subs a) (effective_subs b) c d = Ok ra" and
    rb: "compute_reduce_plan (effective_subs b) (effective_subs a) c d = Ok rb"
    using assms(1) by (auto simp: compile_pairwise_step_plan_def Let_def effective_subs_def)
  have ka: "(case ra of Some r \<Rightarrow> rp_kept_subs r | None \<Rightarrow> effective_subs a) = ea"
    using compute_reduce_plan_kept(1) [OF ra] by (simp add: ea_def eff)
  have kb: "(case rb of Some r \<Rightarrow> rp_kept_subs r | None \<Rightarrow> effective_subs b) = eb"
    using compute_reduce_plan_kept(1) [OF rb] by (simp add: eb_def eff)
  have dist: "distinct ea" "distinct eb" by (simp_all add: ea_def eb_def eff)
  have sets: "m \<in> set ea \<Longrightarrow> m \<in> set eb \<longleftrightarrow> m \<in> set b" "m \<in> set eb \<Longrightarrow> m \<in> set ea \<longleftrightarrow> m \<in> set a" for m
    by (auto simp: ea_def eb_def eff)
  have cl: "classify_modes ea eb c =
      (filter (\<lambda>m. m \<in> set b \<and> m \<in> set c) ea, filter (\<lambda>m. m \<notin> set b \<and> m \<in> set c) ea,
       filter (\<lambda>m. m \<in> set c \<and> m \<notin> set a) eb, filter (\<lambda>m. m \<in> set b \<and> m \<notin> set c) ea)"
    unfolding classify_modes_distinct [OF dist] using sets by (auto intro!: filter_cong)
  from assms(1) obtain bs los ros ss m n k strict where
    sizes: "traverse (index_map d) (filter (\<lambda>m. m \<in> set b \<and> m \<in> set c) ea) = Ok bs"
      "traverse (index_map d) (filter (\<lambda>m. m \<notin> set b \<and> m \<in> set c) ea) = Ok los"
      "traverse (index_map d) (filter (\<lambda>m. m \<in> set c \<and> m \<notin> set a) eb) = Ok ros"
      "traverse (index_map d) (filter (\<lambda>m. m \<in> set b \<and> m \<notin> set c) ea) = Ok ss"
    and prods: "product_or_one_for_empty los = Ok m" "product_or_one_for_empty ros = Ok n"
      "product_or_one_for_empty ss = Ok k"
    and strict: "strict_step_plan a b c d = Ok strict"
    and p: "\<lparr>st_diag_a = compute_diag_plan a, st_diag_b = compute_diag_plan b, st_strict_binary = strict,
      st_gemm = gemm_plan_of ra rb ea eb c
        (filter (\<lambda>m. m \<in> set b \<and> m \<in> set c) ea) (filter (\<lambda>m. m \<notin> set b \<and> m \<in> set c) ea)
        (filter (\<lambda>m. m \<in> set c \<and> m \<notin> set a) eb) (filter (\<lambda>m. m \<in> set b \<and> m \<notin> set c) ea)
        bs los ros ss m n k\<rparr> = p"
    unfolding compile_pairwise_step_plan_def Let_def effective_subs_def [symmetric] ra rb and_then_Inr ka kb cl
      split_conv and_then_eq_Inr sum.inject by blast
  have g: "g = gemm_plan_of ra rb ea eb c
        (filter (\<lambda>m. m \<in> set b \<and> m \<in> set c) ea) (filter (\<lambda>m. m \<notin> set b \<and> m \<in> set c) ea)
        (filter (\<lambda>m. m \<in> set c \<and> m \<notin> set a) eb) (filter (\<lambda>m. m \<in> set b \<and> m \<notin> set c) ea)
        bs los ros ss m n k"
    unfolding g_def p [symmetric] by (rule step_plan.select_convs(4))
  note g = g [unfolded gemm_plan_of_def Let_def]
  show "gp_subs_a g = ea" "gp_subs_b g = eb"
    "gp_lo_modes g = filter (\<lambda>m. m \<notin> set b \<and> m \<in> set c) ea"
    "gp_ro_modes g = filter (\<lambda>m. m \<in> set c \<and> m \<notin> set a) eb"
    "gp_sum_modes g = filter (\<lambda>m. m \<in> set b \<and> m \<notin> set c) ea"
    "plan_batch_modes g = filter (\<lambda>m. m \<in> set b \<and> m \<in> set c) ea"
    "gp_target_a g = gp_lo_modes g @ gp_sum_modes g @ plan_batch_modes g"
    "gp_target_b g = gp_sum_modes g @ gp_ro_modes g @ plan_batch_modes g"
    "gp_canonical_modes g = gp_lo_modes g @ gp_ro_modes g @ plan_batch_modes g"
    "gp_needs_final_permute g \<longleftrightarrow> gp_canonical_modes g \<noteq> c"
    by (simp_all add: g plan_batch_modes_def)
  show "gp_m g = prod_list (map (\<lambda>l. the (d l)) (gp_lo_modes g))"
    "gp_n g = prod_list (map (\<lambda>l. the (d l)) (gp_ro_modes g))"
    "gp_k g = prod_list (map (\<lambda>l. the (d l)) (gp_sum_modes g))"
    using prods [THEN plan_product_Ok] sizes by (simp_all add: g traverse_index_Ok)
  show "gp_a_gemm_shape g = [gp_m g, gp_k g] @ map (\<lambda>l. the (d l)) (plan_batch_modes g)"
    "gp_b_gemm_shape g = [gp_k g, gp_n g] @ map (\<lambda>l. the (d l)) (plan_batch_modes g)"
    "gp_c_gemm_shape g = [gp_m g, gp_n g] @ map (\<lambda>l. the (d l)) (plan_batch_modes g)"
    "gp_expanded_shape g = map (\<lambda>l. the (d l)) (gp_canonical_modes g)"
    using sizes by (simp_all add: g traverse_index_Ok plan_batch_modes_def)
  show "st_diag_a p = compute_diag_plan a" "st_diag_b p = compute_diag_plan b"
    "strict_step_plan a b c d = Ok (st_strict_binary p)"
    using p strict by auto
qed

text \<open>The mode classes partition the labels of the reduced operands and of the result.\<close>

lemma plan_modes_partition:
  assumes "compile_pairwise_step_plan a b c d = Ok p"
  shows "mset (gp_target_a (st_gemm p)) = mset (gp_subs_a (st_gemm p))"
    and "mset (gp_target_b (st_gemm p)) = mset (gp_subs_b (st_gemm p))"
    and "distinct (gp_subs_a (st_gemm p))" "distinct (gp_subs_b (st_gemm p))"
    and "distinct (gp_canonical_modes (st_gemm p))"
    and "set (gp_canonical_modes (st_gemm p)) = set c \<inter> (set a \<union> set b)"
    and "set (gp_subs_a (st_gemm p)) = set a \<inter> (set b \<union> set c)"
    and "set (gp_subs_b (st_gemm p)) = set b \<inter> (set a \<union> set c)"
proof -
  note P = compile_pairwise_step_plan_Ok [OF assms]
  note eff = effective_subs_correct
  show d: "distinct (gp_subs_a (st_gemm p))" "distinct (gp_subs_b (st_gemm p))"
    and "set (gp_subs_a (st_gemm p)) = set a \<inter> (set b \<union> set c)"
    and "set (gp_subs_b (st_gemm p)) = set b \<inter> (set a \<union> set c)"
    by (auto simp: P(1,2) eff)
  show "mset (gp_target_a (st_gemm p)) = mset (gp_subs_a (st_gemm p))"
    using d by (subst set_eq_iff_mset_eq_distinct [symmetric]) (auto simp: P(1-7) eff)
  show "mset (gp_target_b (st_gemm p)) = mset (gp_subs_b (st_gemm p))"
    using d by (subst set_eq_iff_mset_eq_distinct [symmetric]) (auto simp: P(1-6,8) eff)
  show "distinct (gp_canonical_modes (st_gemm p))"
    by (auto simp: P(3-6,9) eff)
  show "set (gp_canonical_modes (st_gemm p)) = set c \<inter> (set a \<union> set b)"
    by (auto simp: P(3-6,9) eff)
qed

section \<open>The strict binary plan\<close>

lemma position_step_simp [simp]:
  "position_step m (k, l) = (if m l = None then Some (m(l \<mapsto> k)) else None)"
  by (simp add: position_step_def)

lemma positions_fold:
  "try_fold_option position_step m (zip ks ls) = Some P \<Longrightarrow> length ks = length ls \<Longrightarrow>
    distinct ls \<and> set ls \<inter> dom m = {} \<and>
    (\<forall>l i. P l = Some i \<longleftrightarrow> m l = Some i \<or> (\<exists>j < length ls. ls ! j = l \<and> i = ks ! j))"
proof (induction ls arbitrary: m ks)
  case (Cons l ls)
  from Cons.prems(2) obtain k ks' where ks: "ks = k # ks'" "length ks' = length ls" by (cases ks) auto
  with Cons.prems(1) have m: "m l = None"
    and r: "try_fold_option position_step (m(l \<mapsto> k)) (zip ks' ls) = Some P"
    by (auto split: if_splits)
  have ex: "(\<exists>j < length (l # ls). (l # ls) ! j = x \<and> i = ks ! j) \<longleftrightarrow>
      (l = x \<and> i = k) \<or> (\<exists>j < length ls. ls ! j = x \<and> i = ks' ! j)" for x i
    by (auto simp: ks(1) less_Suc_eq_0_disj)
  from Cons.IH [OF r ks(2)] show ?case
    unfolding ex using m by (auto split: if_splits)
qed auto

lemma positions_total: "distinct ls \<Longrightarrow> set ls \<inter> dom m = {} \<Longrightarrow> length ks = length ls \<Longrightarrow>
    \<exists>P. try_fold_option position_step m (zip ks ls) = Some P"
proof (induction ls arbitrary: m ks)
  case (Cons l ls)
  then obtain k ks' where ks: "ks = k # ks'" "length ks' = length ls" by (cases ks) auto
  have "m l = None" using Cons.prems(2) by auto
  moreover have "\<exists>P. try_fold_option position_step (m(l \<mapsto> k)) (zip ks' ls) = Some P"
    using Cons.prems ks(2) by (intro Cons.IH) (auto split: if_splits)
  ultimately show ?case by (simp add: ks(1))
qed simp

lemma positions_if_unique_None: "positions_if_unique ls = None \<longleftrightarrow> \<not> distinct ls"
proof
  show "\<not> distinct ls" if "positions_if_unique ls = None"
    using that positions_total [of ls Map.empty "[0..<length ls]"] by (auto simp: positions_if_unique_def)
  show "positions_if_unique ls = None" if "\<not> distinct ls"
    using that positions_fold [of Map.empty "[0..<length ls]" ls]
    by (cases "positions_if_unique ls") (auto simp: positions_if_unique_def)
qed

lemma positions_if_unique_Some:
  assumes "positions_if_unique ls = Some P"
  shows "distinct ls" and "P l = Some i \<longleftrightarrow> i < length ls \<and> ls ! i = l" and "dom P = set ls"
proof -
  note f = positions_fold [OF assms [unfolded positions_if_unique_def]]
  show "distinct ls" using f by simp
  show P: "P l = Some i \<longleftrightarrow> i < length ls \<and> ls ! i = l" for l i using f by auto
  show "dom P = set ls" by (auto simp: dom_def P in_set_conv_nth)
qed

lemma position_Some: "position ys x = Some i \<Longrightarrow> i < length ys \<and> ys ! i = x"
  by (induction ys arbitrary: i) (auto split: if_splits)

lemma the_positions:
  assumes "positions_if_unique ls = Some P" and "set xs \<subseteq> set ls"
  shows "map (\<lambda>i. ls ! i) (map (\<lambda>k. the (P k)) xs) = xs"
    and "set (map (\<lambda>k. the (P k)) xs) \<subseteq> {..<length ls}"
    and "distinct xs \<Longrightarrow> distinct (map (\<lambda>k. the (P k)) xs)"
proof -
  note P = positions_if_unique_Some [OF assms(1)]
  have p: "\<exists>i. P k = Some i \<and> i < length ls \<and> ls ! i = k" if "k \<in> set xs" for k
    using that assms(2) P(2) by (auto simp: in_set_conv_nth dest!: subsetD)
  have p': "the (P k) < length ls \<and> ls ! the (P k) = k" if "k \<in> set xs" for k
    using p [OF that] by auto
  show "map (\<lambda>i. ls ! i) (map (\<lambda>k. the (P k)) xs) = xs" using p' by (simp add: map_idI)
  show "set (map (\<lambda>k. the (P k)) xs) \<subseteq> {..<length ls}" using p' by auto
  show "distinct xs \<Longrightarrow> distinct (map (\<lambda>k. the (P k)) xs)"
    using inj_on_inverseI [of "set xs" "\<lambda>i. ls ! i" "\<lambda>k. the (P k)"] p' by (simp add: distinct_map)
qed

lemma perm_of_range:
  assumes "distinct xs" "set xs \<subseteq> {..<n}" "length xs = n"
  shows "mset xs = mset [0..<n]"
proof -
  have "card (set xs) = n" using assms by (simp add: distinct_card)
  then have "set xs = {..<n}" using assms(2) by (intro card_subset_eq) auto
  then have "set xs = set [0..<n]" by (simp add: atLeast0LessThan)
  then show ?thesis using assms(1) by (subst set_eq_iff_mset_eq_distinct [symmetric]) auto
qed

definition strict_plan_ok ::
  "label list \<Rightarrow> label list \<Rightarrow> label list \<Rightarrow> size_dict \<Rightarrow> strict_plan \<Rightarrow> bool" where
  "strict_plan_ok a b c d p \<longleftrightarrow>
    distinct a \<and> distinct b \<and> distinct c \<and> set a \<inter> set b \<inter> set c = {} \<and>
    sp_lhs_free_labels p = filter (\<lambda>l. l \<notin> set b) a \<and>
    sp_rhs_free_labels p = filter (\<lambda>l. l \<notin> set a) b \<and>
    sp_contract_labels p = filter (\<lambda>l. l \<in> set b) a \<and>
    mset (sp_lhs_perm p) = mset [0..<length a] \<and>
    map (\<lambda>i. a ! i) (sp_lhs_perm p) = sp_lhs_free_labels p @ sp_contract_labels p \<and>
    mset (sp_rhs_perm p) = mset [0..<length b] \<and>
    map (\<lambda>i. b ! i) (sp_rhs_perm p) = sp_contract_labels p @ sp_rhs_free_labels p \<and>
    mset (sp_output_perm p) = mset [0..<length c] \<and>
    map (\<lambda>i. (sp_lhs_free_labels p @ sp_rhs_free_labels p) ! i) (sp_output_perm p) = c \<and>
    sp_m p = prod_list (map (\<lambda>l. the (d l)) (sp_lhs_free_labels p)) \<and>
    sp_n p = prod_list (map (\<lambda>l. the (d l)) (sp_rhs_free_labels p)) \<and>
    sp_k p = prod_list (map (\<lambda>l. the (d l)) (sp_contract_labels p)) \<and>
    0 < sp_m p \<and> 0 < sp_n p \<and> 0 < sp_k p \<and>
    sp_output_shape p = map (\<lambda>l. the (d l)) c"

lemma strict_from_parts_Some:
  assumes "strict_from_parts a b c ld rd d = Ok (Some p)"
  obtains LP RP where "positions_if_unique a = Some LP" "positions_if_unique b = Some RP"
    and "positions_if_unique c \<noteq> None" "compute_output_shape c d = Ok (sp_output_shape p)"
    and "sp_lhs_free_labels p = filter (\<lambda>l. RP l = None) a"
    and "sp_rhs_free_labels p = filter (\<lambda>l. LP l = None) b"
    and "sp_contract_labels p = filter (\<lambda>l. RP l \<noteq> None) a"
    and "list_all (\<lambda>l. l \<notin> set c) (sp_contract_labels p)"
    and "length c = length (sp_lhs_free_labels p @ sp_rhs_free_labels p)"
    and "set c \<subseteq> set (sp_lhs_free_labels p @ sp_rhs_free_labels p)"
    and "sp_lhs_perm p = map (\<lambda>k. the (LP k)) (sp_lhs_free_labels p @ sp_contract_labels p)"
    and "sp_rhs_perm p = map (\<lambda>k. the (RP k)) (sp_contract_labels p @ sp_rhs_free_labels p)"
    and "0 \<notin> set (map (\<lambda>k. ld ! the (LP k)) (sp_lhs_free_labels p))"
    and "0 \<notin> set (map (\<lambda>k. rd ! the (RP k)) (sp_rhs_free_labels p))"
    and "0 \<notin> set (map (\<lambda>k. ld ! the (LP k)) (sp_contract_labels p))"
    and "sp_m p = prod_list (map (\<lambda>k. ld ! the (LP k)) (sp_lhs_free_labels p))"
    and "sp_n p = prod_list (map (\<lambda>k. rd ! the (RP k)) (sp_rhs_free_labels p))"
    and "sp_k p = prod_list (map (\<lambda>k. ld ! the (LP k)) (sp_contract_labels p))"
    and "list_all2 (\<lambda>l i. position (sp_lhs_free_labels p @ sp_rhs_free_labels p) l = Some i) c (sp_output_perm p)"
proof -
  from assms [unfolded strict_from_parts_def] obtain os where os: "compute_output_shape c d = Ok os"
    by (cases "compute_output_shape c d") simp_all
  note r = assms [unfolded strict_from_parts_def os and_then_Inr]
  from r obtain LP where LP: "positions_if_unique a = Some LP"
    by (cases "positions_if_unique a") simp_all
  note r = r [unfolded LP option.case]
  from r obtain RP where RP: "positions_if_unique b = Some RP"
    by (cases "positions_if_unique b") simp_all
  note r = r [unfolded RP option.case]
  from r have c: "positions_if_unique c \<noteq> None"
    by (cases "positions_if_unique c = None") simp_all
  define fl where "fl = filter (\<lambda>l. RP l = None) a"
  define fr where "fr = filter (\<lambda>l. LP l = None) b"
  define ct where "ct = filter (\<lambda>l. RP l \<noteq> None) a"
  note r = r [unfolded if_not_P [OF c] Let_def fl_def [symmetric] fr_def [symmetric] ct_def [symmetric]]
  from r have c1: "\<not> list_ex (\<lambda>l. l \<in> set c) ct"
    by (cases "list_ex (\<lambda>l. l \<in> set c) ct") simp_all
  note r = r [unfolded if_not_P [OF c1]]
  from r have c2: "\<not> length c \<noteq> length (fl @ fr)"
    by (cases "length c \<noteq> length (fl @ fr)") simp_all
  note r = r [unfolded if_not_P [OF c2]]
  from r have c3: "\<not> \<not> list_all (\<lambda>l. l \<in> set (fl @ fr)) c"
    by (cases "\<not> list_all (\<lambda>l. l \<in> set (fl @ fr)) c") simp_all
  note r = r [unfolded if_not_P [OF c3]]
  from r obtain fla fra cla cra where
    tr: "traverse (index_map LP) fl = Ok fla" "traverse (index_map RP) fr = Ok fra"
      "traverse (index_map LP) ct = Ok cla" "traverse (index_map RP) ct = Ok cra"
    unfolding and_then_eq_Inr by blast
  note r = r [unfolded tr and_then_Inr]
  from r have z: "\<not> (0 \<in> set (map (\<lambda>axis. ld ! axis) fla) \<or> 0 \<in> set (map (\<lambda>axis. rd ! axis) fra) \<or>
      0 \<in> set (map (\<lambda>axis. ld ! axis) cla))"
    by (cases "0 \<in> set (map (\<lambda>axis. ld ! axis) fla) \<or> 0 \<in> set (map (\<lambda>axis. rd ! axis) fra) \<or>
      0 \<in> set (map (\<lambda>axis. ld ! axis) cla)") simp_all
  note r = r [unfolded if_not_P [OF z]]
  from r obtain m k n op where
    pr: "strict_product (map (\<lambda>axis. ld ! axis) fla) = Ok m" "strict_product (map (\<lambda>axis. ld ! axis) cla) = Ok k"
      "strict_product (map (\<lambda>axis. rd ! axis) fra) = Ok n"
    and op: "traverse (\<lambda>l. ok_or (position (fl @ fr) l) (Planning (Strict_Missing_Output l))) c = Ok op"
    and p: "\<lparr>sp_size_dict = d, sp_output_shape = os, sp_lhs_free_labels = fl, sp_rhs_free_labels = fr,
      sp_contract_labels = ct, sp_lhs_perm = fla @ cla, sp_rhs_perm = cra @ fra,
      sp_lhs_matrix_dims = [m, k], sp_rhs_matrix_dims = [k, n],
      sp_canonical_output_dims = map (\<lambda>axis. ld ! axis) fla @ map (\<lambda>axis. rd ! axis) fra,
      sp_output_perm = op, sp_m = m, sp_n = n, sp_k = k\<rparr> = p"
    unfolding and_then_eq_Inr sum.inject option.inject by blast
  note p = p [symmetric]
  have ax: "fla = map (\<lambda>k. the (LP k)) fl" "fra = map (\<lambda>k. the (RP k)) fr"
    "cla = map (\<lambda>k. the (LP k)) ct" "cra = map (\<lambda>k. the (RP k)) ct"
    using tr by (simp_all add: traverse_index_Ok)
  show ?thesis
  proof (rule that [OF LP RP c])
    show "list_all2 (\<lambda>l i. position (sp_lhs_free_labels p @ sp_rhs_free_labels p) l = Some i) c (sp_output_perm p)"
      using op by (simp add: p traverse_eq_Inr list_all2_conv_all_nth)
  qed (use c1 c2 c3 z pr [THEN strict_product_Ok] in
      \<open>auto simp: p os fl_def fr_def ct_def ax o_def list_ex_iff list_all_iff\<close>)
qed

lemma shape_from_subs_Ok: "shape_from_subs d subs = Ok sh \<longleftrightarrow> set subs \<subseteq> dom d \<and> sh = map (\<lambda>l. the (d l)) subs"
  by (induction subs arbitrary: sh) (auto simp: shape_from_subs_def)

lemma dims_at_positions:
  assumes "positions_if_unique ls = Some P" and "set xs \<subseteq> set ls"
  shows "map (\<lambda>k. map g ls ! the (P k)) xs = map g xs"
proof (rule map_cong [OF refl])
  fix k assume "k \<in> set xs"
  then have "k \<in> dom P" using assms(2) positions_if_unique_Some(3) [OF assms(1)] by blast
  then obtain i where "P k = Some i" by blast
  with positions_if_unique_Some(2) [OF assms(1), of k i]
  have "the (P k) < length ls \<and> ls ! the (P k) = k" by simp
  then show "map g ls ! the (P k) = g k" by simp
qed

lemma prod_list_pos: "0 \<notin> set (ds :: nat list) \<Longrightarrow> 0 < prod_list ds"
  by (simp add: prod_list_pos_iff)

lemma strict_step_plan_correct:
  assumes "strict_step_plan a b c d = Ok (Some p)"
  shows "strict_plan_ok a b c d p"
proof -
  let ?d = "\<lambda>l. the (d l)"
  from assms have dom: "set a \<subseteq> dom d" "set b \<subseteq> dom d"
    and s: "strict_from_parts a b c (map ?d a) (map ?d b) d = Ok (Some p)"
    by (auto simp: strict_step_plan_def shape_from_subs_Ok)
  from s obtain LP RP where
    LP: "positions_if_unique a = Some LP" and RP: "positions_if_unique b = Some RP"
    and c: "positions_if_unique c \<noteq> None" and os: "compute_output_shape c d = Ok (sp_output_shape p)"
    and fl: "sp_lhs_free_labels p = filter (\<lambda>l. RP l = None) a"
    and fr: "sp_rhs_free_labels p = filter (\<lambda>l. LP l = None) b"
    and ct: "sp_contract_labels p = filter (\<lambda>l. RP l \<noteq> None) a"
    and nc: "list_all (\<lambda>l. l \<notin> set c) (sp_contract_labels p)"
    and len: "length c = length (sp_lhs_free_labels p @ sp_rhs_free_labels p)"
    and sub: "set c \<subseteq> set (sp_lhs_free_labels p @ sp_rhs_free_labels p)"
    and lp: "sp_lhs_perm p = map (\<lambda>k. the (LP k)) (sp_lhs_free_labels p @ sp_contract_labels p)"
    and rp: "sp_rhs_perm p = map (\<lambda>k. the (RP k)) (sp_contract_labels p @ sp_rhs_free_labels p)"
    and z: "0 \<notin> set (map (\<lambda>k. map ?d a ! the (LP k)) (sp_lhs_free_labels p))"
      "0 \<notin> set (map (\<lambda>k. map ?d b ! the (RP k)) (sp_rhs_free_labels p))"
      "0 \<notin> set (map (\<lambda>k. map ?d a ! the (LP k)) (sp_contract_labels p))"
    and mnk: "sp_m p = prod_list (map (\<lambda>k. map ?d a ! the (LP k)) (sp_lhs_free_labels p))"
      "sp_n p = prod_list (map (\<lambda>k. map ?d b ! the (RP k)) (sp_rhs_free_labels p))"
      "sp_k p = prod_list (map (\<lambda>k. map ?d a ! the (LP k)) (sp_contract_labels p))"
    and op: "list_all2 (\<lambda>l i. position (sp_lhs_free_labels p @ sp_rhs_free_labels p) l = Some i) c (sp_output_perm p)"
    by (rule strict_from_parts_Some)
  note PL = positions_if_unique_Some [OF LP] and PR = positions_if_unique_Some [OF RP]
  have dist: "distinct a" "distinct b" "distinct c"
    using PL(1) PR(1) c positions_if_unique_None by auto
  have fl': "sp_lhs_free_labels p = filter (\<lambda>l. l \<notin> set b) a"
    unfolding fl PR(3) [symmetric] by (simp add: domIff)
  have fr': "sp_rhs_free_labels p = filter (\<lambda>l. l \<notin> set a) b"
    unfolding fr PL(3) [symmetric] by (simp add: domIff)
  have ct': "sp_contract_labels p = filter (\<lambda>l. l \<in> set b) a"
    unfolding ct PR(3) [symmetric] by (simp add: domIff)
  have lsub: "set (sp_lhs_free_labels p @ sp_contract_labels p) \<subseteq> set a"
    and rsub: "set (sp_contract_labels p @ sp_rhs_free_labels p) \<subseteq> set b"
    and ldis: "distinct (sp_lhs_free_labels p @ sp_contract_labels p)"
    and rdis: "distinct (sp_contract_labels p @ sp_rhs_free_labels p)"
    using dist by (auto simp: fl' fr' ct')
  have llen: "length (sp_lhs_free_labels p @ sp_contract_labels p) = length a"
    using sum_length_filter_compl [of "\<lambda>l. l \<in> set b" a] by (simp add: fl' ct')
  have rlen: "length (sp_contract_labels p @ sp_rhs_free_labels p) = length b"
  proof -
    have "length (sp_contract_labels p) = length (filter (\<lambda>l. l \<in> set a) b)"
      using dist by (simp add: ct' distinct_length_filter Int_commute)
    then show ?thesis using sum_length_filter_compl [of "\<lambda>l. l \<in> set a" b] by (simp add: fr')
  qed
  have lperm: "mset (sp_lhs_perm p) = mset [0..<length a]"
    unfolding lp by (rule perm_of_range [OF the_positions(3) [OF LP lsub ldis] the_positions(2) [OF LP lsub]])
      (use llen in simp)
  have rperm: "mset (sp_rhs_perm p) = mset [0..<length b]"
    unfolding rp by (rule perm_of_range [OF the_positions(3) [OF RP rsub rdis] the_positions(2) [OF RP rsub]])
      (use rlen in simp)
  let ?can = "sp_lhs_free_labels p @ sp_rhs_free_labels p"
  have ol: "length (sp_output_perm p) = length c" using op by (simp add: list_all2_lengthD)
  have oi: "\<And>i. i < length c \<Longrightarrow> sp_output_perm p ! i < length ?can \<and> ?can ! (sp_output_perm p ! i) = c ! i"
    using op position_Some by (fastforce simp: list_all2_conv_all_nth)
  have om: "map (\<lambda>i. ?can ! i) (sp_output_perm p) = c"
    using ol oi by (intro nth_equalityI) auto
  have "distinct (sp_output_perm p)" using om dist(3) by (metis distinct_map)
  then have operm: "mset (sp_output_perm p) = mset [0..<length c]"
    by (rule perm_of_range) (use ol oi len in \<open>auto simp: in_set_conv_nth\<close>)
  have sizes: "map (\<lambda>k. map ?d a ! the (LP k)) (sp_lhs_free_labels p) = map ?d (sp_lhs_free_labels p)"
    "map (\<lambda>k. map ?d b ! the (RP k)) (sp_rhs_free_labels p) = map ?d (sp_rhs_free_labels p)"
    "map (\<lambda>k. map ?d a ! the (LP k)) (sp_contract_labels p) = map ?d (sp_contract_labels p)"
    using lsub rsub by (intro dims_at_positions [OF LP] dims_at_positions [OF RP]; simp)+
  note mnk = mnk [unfolded sizes] and z = z [unfolded sizes]
  have "set a \<inter> set b \<inter> set c = {}" using nc by (auto simp: ct' list_all_iff)
  moreover have "sp_output_shape p = map ?d c" using os by (simp add: compute_output_shape_iff)
  moreover have "map (\<lambda>i. a ! i) (sp_lhs_perm p) = sp_lhs_free_labels p @ sp_contract_labels p"
    unfolding lp by (rule the_positions(1) [OF LP lsub])
  moreover have "map (\<lambda>i. b ! i) (sp_rhs_perm p) = sp_contract_labels p @ sp_rhs_free_labels p"
    unfolding rp by (rule the_positions(1) [OF RP rsub])
  moreover have "0 < sp_m p" "0 < sp_n p" "0 < sp_k p"
    unfolding mnk using z by (blast intro: prod_list_pos)+
  ultimately show ?thesis
    unfolding strict_plan_ok_def using dist fl' fr' ct' lperm rperm operm om mnk by blast
qed

section \<open>Planning fails only on overflow\<close>

lemma product_fold_error:
  "try_fold (product_step dims) acc ds = Err e \<Longrightarrow> e = Planning (Product_Overflow dims)"
  by (induction ds arbitrary: acc) (auto simp: product_step_def)

lemma strict_step_plan_error:
  assumes "set a \<union> set b \<union> set c \<subseteq> dom d" and "strict_step_plan a b c d = Err e"
  shows "\<exists>ds. e = Planning (Product_Overflow ds)"
proof -
  let ?d = "\<lambda>l. the (d l)"
  have "shape_from_subs d a = Ok (map ?d a)" "shape_from_subs d b = Ok (map ?d b)"
    and os: "compute_output_shape c d = Ok (map ?d c)"
    using assms(1) by (simp_all add: shape_from_subs_Ok compute_output_shape_iff)
  with assms(2) have r: "strict_from_parts a b c (map ?d a) (map ?d b) d = Err e"
    by (simp add: strict_step_plan_def)
  note r = r [unfolded strict_from_parts_def os and_then_Inr]
  from r obtain LP where LP: "positions_if_unique a = Some LP"
    by (cases "positions_if_unique a") simp_all
  note r = r [unfolded LP option.case]
  from r obtain RP where RP: "positions_if_unique b = Some RP"
    by (cases "positions_if_unique b") simp_all
  note r = r [unfolded RP option.case]
  note PL = positions_if_unique_Some [OF LP] and PR = positions_if_unique_Some [OF RP]
  define fl where "fl = filter (\<lambda>l. RP l = None) a"
  define fr where "fr = filter (\<lambda>l. LP l = None) b"
  define ct where "ct = filter (\<lambda>l. RP l \<noteq> None) a"
  have tr: "traverse (index_map LP) fl = Ok (map (\<lambda>k. the (LP k)) fl)"
    "traverse (index_map RP) fr = Ok (map (\<lambda>k. the (RP k)) fr)"
    "traverse (index_map LP) ct = Ok (map (\<lambda>k. the (LP k)) ct)"
    "traverse (index_map RP) ct = Ok (map (\<lambda>k. the (RP k)) ct)"
    using PL(3) PR(3) by (intro traverse_index_total; auto simp: fl_def fr_def ct_def domI; fail)+
  have pos: "\<exists>op. traverse (\<lambda>l. ok_or (position (fl @ fr) l) (Planning (Strict_Missing_Output l))) c = Ok op"
    if "list_all (\<lambda>l. l \<in> set (fl @ fr)) c"
    using that
  proof (induction c)
    case (Cons l c)
    have "x \<in> set ys \<Longrightarrow> \<exists>i. position ys x = Some i" for x :: label and ys by (induction ys) auto
    with Cons show ?case by auto
  qed simp
  note r = r [unfolded Let_def fl_def [symmetric] fr_def [symmetric] ct_def [symmetric] tr and_then_Inr]
  from r pos show ?thesis
    by (auto simp: strict_product_def dest: product_fold_error split: if_splits)
qed

lemma compile_pairwise_step_plan_error:
  assumes dom: "set a \<union> set b \<union> set c \<subseteq> dom d" and e: "compile_pairwise_step_plan a b c d = Err e"
  shows "\<exists>ds. e = Planning (Product_Overflow ds)"
proof -
  note eff = effective_subs_correct
  have kept: "traverse (index_map d) (filter P (effective_subs a)) = Ok (map (\<lambda>k. the (d k)) (filter P (effective_subs a)))"
    "traverse (index_map d) (filter P (effective_subs b)) = Ok (map (\<lambda>k. the (d k)) (filter P (effective_subs b)))" for P
    using dom eff by (auto intro!: traverse_index_total)
  have if_Ok: "\<exists>x. (if q then Ok y else Ok z) = (Ok x :: reduce_plan option eres)" for q y z
    by (cases q) simp_all
  obtain ra where ra: "compute_reduce_plan (effective_subs a) (effective_subs b) c d = Ok ra"
    unfolding compute_reduce_plan_def Let_def kept and_then_Inr using if_Ok by blast
  obtain rb where rb: "compute_reduce_plan (effective_subs b) (effective_subs a) c d = Ok rb"
    unfolding compute_reduce_plan_def Let_def kept and_then_Inr using if_Ok by blast
  define ea where "ea = (case ra of Some r \<Rightarrow> rp_kept_subs r | None \<Rightarrow> effective_subs a)"
  define eb where "eb = (case rb of Some r \<Rightarrow> rp_kept_subs r | None \<Rightarrow> effective_subs b)"
  have ka: "ea = filter (\<lambda>l. l \<in> set b \<or> l \<in> set c) (effective_subs a)"
    using compute_reduce_plan_kept(1) [OF ra] by (simp add: ea_def eff)
  have kb: "eb = filter (\<lambda>l. l \<in> set a \<or> l \<in> set c) (effective_subs b)"
    using compute_reduce_plan_kept(1) [OF rb] by (simp add: eb_def eff)
  have dist: "distinct ea" "distinct eb" by (simp_all add: ka kb eff)
  note cl = classify_modes_distinct [OF dist, of c]
  have tr: "traverse (index_map d) (filter P ea) = Ok (map (\<lambda>k. the (d k)) (filter P ea))"
    "traverse (index_map d) (filter P eb) = Ok (map (\<lambda>k. the (d k)) (filter P eb))" for P
    unfolding ka kb filter_filter by (rule kept)+
  note r = e [unfolded compile_pairwise_step_plan_def Let_def effective_subs_def [symmetric] ra rb and_then_Inr
      ea_def [symmetric] eb_def [symmetric] cl split_conv tr]
  have "product_or_one_for_empty ds = Err e' \<Longrightarrow> \<exists>ds. e' = Planning (Product_Overflow ds)" for ds e'
    by (auto simp: product_or_one_for_empty_def plan_product_def dest: product_fold_error split: if_splits)
  moreover have "strict_step_plan a b c d = Err e' \<Longrightarrow> \<exists>ds. e' = Planning (Product_Overflow ds)" for e'
    using strict_step_plan_error dom by blast
  ultimately show ?thesis
    using r unfolding and_then_eq_Inl by blast
qed

end
