(* ===== verification/Einsum_Tree.thy ===== *)
theory Einsum_Tree
  imports Einsum_Plan_Correct
begin

text \<open>
  Contraction trees (\<open>planning/tree.rs\<close>): checking a pairwise path and computing the labels of
  every intermediate result, the accessors, the greedy search of the crate with its label
  counters, and the choice of a path.  The optimiser of the external crate \<open>omeco\<close> is an
  argument, with the tree type it returns.
\<close>

type_synonym path = "(nat \<times> nat) list"

record contraction_tree =
  ct_subscripts :: subscripts
  ct_steps :: path
  ct_size_dict :: size_dict
  ct_operand_subs :: "label list list"
  ct_step_plans :: "step_plan list"

section \<open>Checking a path\<close>

definition needed_labels :: "label list \<Rightarrow> label list list \<Rightarrow> bool list \<Rightarrow> nat \<Rightarrow> nat \<Rightarrow> label set" where
  "needed_labels output operand_subs live left right =
    set output \<union>
    \<Union> (set (map (\<lambda>idx. if idx \<noteq> left \<and> idx \<noteq> right \<and> live ! idx then set (operand_subs ! idx) else {})
      [0..<length operand_subs]))"

definition pair_error :: "bool list \<Rightarrow> nat \<Rightarrow> nat \<Rightarrow> nat \<Rightarrow> einsum_error option" where
  "pair_error live next_idx left right =
    (if left = right then Some (Planning (Same_Operand_Twice left right))
     else if next_idx \<le> left \<or> next_idx \<le> right then Some (Planning (Operand_Not_Existent left right))
     else if \<not> live ! left \<or> \<not> live ! right then Some (Planning (Operand_Not_Live left right))
     else None)"

type_synonym path_state = "label list list \<times> bool list \<times> path"

definition from_pairs_step ::
  "nat \<Rightarrow> label list \<Rightarrow> path_state \<Rightarrow> nat \<times> nat \<times> nat \<Rightarrow> path_state eres" where
  "from_pairs_step input_count output st e =
    (case st of (operand_subs, live, steps) \<Rightarrow> case e of (step_idx, left, right) \<Rightarrow>
     let next_idx = input_count + step_idx in
     case pair_error live next_idx left right of
       Some err \<Rightarrow> Err err
     | None \<Rightarrow>
         let new_subs = intermediate_subs (operand_subs ! left) (operand_subs ! right)
           (needed_labels output operand_subs live left right) in
         Ok (operand_subs @ [new_subs], live[left := False, right := False, next_idx := True],
           steps @ [(left, right)]))"

definition compile_step :: "contraction_tree \<Rightarrow> nat \<times> nat \<times> nat \<Rightarrow> step_plan eres" where
  "compile_step tree e = (case e of (step_idx, left, right) \<Rightarrow>
    let input_count = length (sb_inputs (ct_subscripts tree));
        is_last = (step_idx = length (ct_steps tree) - 1);
        subs_c = (if is_last then sb_output (ct_subscripts tree)
          else ct_operand_subs tree ! (input_count + step_idx)) in
    compile_pairwise_step_plan (ct_operand_subs tree ! left) (ct_operand_subs tree ! right) subs_c
      (ct_size_dict tree))"

definition compile_step_plans :: "contraction_tree \<Rightarrow> step_plan list eres" where
  "compile_step_plans tree = traverse (compile_step tree) (zip [0..<length (ct_steps tree)] (ct_steps tree))"

definition initial_live :: "nat \<Rightarrow> nat \<Rightarrow> bool list" where
  "initial_live input_count steps = replicate input_count True @ replicate steps False"

definition live_count :: "bool list \<Rightarrow> nat" where
  "live_count live = length (filter (\<lambda>b. b) live)"

definition from_pairs :: "subscripts \<Rightarrow> shape list \<Rightarrow> path \<Rightarrow> contraction_tree eres" where
  "from_pairs subs shapes pairs =
    (let input_count = length (sb_inputs subs);
         required_steps = saturating_sub input_count 1 in
     if length pairs \<noteq> required_steps
     then Err (Planning (Step_Count input_count required_steps (length pairs)))
     else
       and_then (build_size_dict subs shapes None) (\<lambda>size_dict.
       and_then (try_fold (from_pairs_step input_count (sb_output subs))
           (sb_inputs subs, initial_live input_count (length pairs), [])
           (zip [0..<length pairs] pairs)) (\<lambda>(operand_subs, live, steps).
         if live_count live \<noteq> 1 then Err (Planning (Live_Results (live_count live)))
         else
           let tree = \<lparr>ct_subscripts = subs, ct_steps = steps, ct_size_dict = size_dict,
             ct_operand_subs = operand_subs, ct_step_plans = []\<rparr> in
           and_then (compile_step_plans tree) (\<lambda>plans. Ok (tree\<lparr>ct_step_plans := plans\<rparr>)))))"

section \<open>Accessors\<close>

definition step_count :: "contraction_tree \<Rightarrow> nat" where
  "step_count tree = length (ct_steps tree)"

definition label_size :: "contraction_tree \<Rightarrow> label \<Rightarrow> nat option" where
  "label_size tree l = ct_size_dict tree l"

definition output_shape :: "contraction_tree \<Rightarrow> shape" where
  "output_shape tree = List.map_filter (label_size tree) (sb_output (ct_subscripts tree))"

definition step_pair :: "contraction_tree \<Rightarrow> nat \<Rightarrow> (nat \<times> nat) option" where
  "step_pair tree step_idx = get (ct_steps tree) step_idx"

definition step_subscripts :: "contraction_tree \<Rightarrow> nat \<Rightarrow> (label list \<times> label list \<times> label list) option" where
  "step_subscripts tree step_idx =
    (let input_count = length (sb_inputs (ct_subscripts tree)) in
     case get (ct_steps tree) step_idx of
       None \<Rightarrow> None
     | Some (left, right) \<Rightarrow>
         let output_subs = (if step_idx + 1 = length (ct_steps tree) then sb_output (ct_subscripts tree)
           else ct_operand_subs tree ! (input_count + step_idx)) in
         Some (ct_operand_subs tree ! left, ct_operand_subs tree ! right, output_subs))"

definition tree_step_plan :: "contraction_tree \<Rightarrow> nat \<Rightarrow> step_plan option" where
  "tree_step_plan tree step_idx = get (ct_step_plans tree) step_idx"

section \<open>The greedy search\<close>

type_synonym counts = "label \<rightharpoonup> nat"

definition add_labels_to_counts :: "label set \<Rightarrow> counts \<Rightarrow> counts" where
  "add_labels_to_counts labels counts =
    (\<lambda>l. if l \<in> labels then Some ((case counts l of None \<Rightarrow> 0 | Some c \<Rightarrow> c) + 1) else counts l)"

definition remove_labels_from_counts :: "label set \<Rightarrow> counts \<Rightarrow> counts" where
  "remove_labels_from_counts labels counts =
    (\<lambda>l. if l \<in> labels then
       (case counts l of None \<Rightarrow> None | Some c \<Rightarrow> if c = 1 then None else Some (c - 1))
     else counts l)"

definition build_operand_label_sets :: "label list list \<Rightarrow> label set list" where
  "build_operand_label_sets operand_subs = map set operand_subs"

definition build_needed_label_counts :: "label list \<Rightarrow> nat list \<Rightarrow> label set list \<Rightarrow> counts" where
  "build_needed_label_counts output_subs available label_sets =
    foldl (\<lambda>counts idx. add_labels_to_counts (label_sets ! idx) counts)
      (\<lambda>l. if l \<in> set output_subs then Some 1 else None) available"

definition candidate_label_is_needed :: "label \<Rightarrow> nat \<Rightarrow> nat \<Rightarrow> label set list \<Rightarrow> counts \<Rightarrow> bool" where
  "candidate_label_is_needed l left right label_sets counts =
    (let selected_count = (if l \<in> label_sets ! left then 1 else 0) + (if l \<in> label_sets ! right then 1 else 0) in
     selected_count < (case counts l of None \<Rightarrow> 0 | Some c \<Rightarrow> c))"

definition collect_candidate_intermediate_subs ::
  "label list \<Rightarrow> label list \<Rightarrow> nat \<Rightarrow> nat \<Rightarrow> label set list \<Rightarrow> counts \<Rightarrow> label list" where
  "collect_candidate_intermediate_subs subs_left subs_right left right label_sets counts =
    foldl (\<lambda>output l.
        if candidate_label_is_needed l left right label_sets counts \<and> l \<notin> set output
        then output @ [l] else output) [] (subs_left @ subs_right)"

definition cost_step :: "size_dict \<Rightarrow> nat \<Rightarrow> label \<Rightarrow> nat eres" where
  "cost_step size_dict cost l =
    and_then (ok_or (size_dict l) (Planning (Unknown_Size l))) (\<lambda>n. Ok (saturating_mul cost n))"

definition candidate_contraction_cost ::
  "label list \<Rightarrow> label list \<Rightarrow> nat \<Rightarrow> nat \<Rightarrow> label set list \<Rightarrow> counts \<Rightarrow> size_dict \<Rightarrow> nat eres" where
  "candidate_contraction_cost subs_left subs_right left right label_sets counts size_dict =
    and_then (try_fold (cost_step size_dict) 1
      (collect_candidate_intermediate_subs subs_left subs_right left right label_sets counts))
      (\<lambda>cost. Ok (max cost 1))"

definition best_step ::
  "nat list \<Rightarrow> label list list \<Rightarrow> label set list \<Rightarrow> counts \<Rightarrow> size_dict \<Rightarrow>
    nat \<times> nat \<times> nat \<Rightarrow> nat \<times> nat \<Rightarrow> (nat \<times> nat \<times> nat) eres" where
  "best_step available operand_subs label_sets counts size_dict st e =
    (case st of (best_i, best_j, best_cost) \<Rightarrow> case e of (i, j) \<Rightarrow>
     let li = available ! i; lj = available ! j in
     and_then (candidate_contraction_cost (operand_subs ! li) (operand_subs ! lj) li lj label_sets counts size_dict)
       (\<lambda>cost. if cost < best_cost then Ok (i, j, cost) else Ok (best_i, best_j, best_cost)))"

definition candidate_pairs :: "nat \<Rightarrow> (nat \<times> nat) list" where
  "candidate_pairs n = concat (map (\<lambda>i. map (\<lambda>j. (i, j)) [i + 1..<n]) [0..<n])"

definition best_pair ::
  "nat list \<Rightarrow> label list list \<Rightarrow> label set list \<Rightarrow> counts \<Rightarrow> size_dict \<Rightarrow> (nat \<times> nat \<times> nat) eres" where
  "best_pair available operand_subs label_sets counts size_dict =
    try_fold (best_step available operand_subs label_sets counts size_dict) (0, 1, usize_max)
      (candidate_pairs (length available))"

lemma in_candidate_pairs: "(i, j) \<in> set (candidate_pairs n) \<longleftrightarrow> i < j \<and> j < n"
  by (force simp: candidate_pairs_def image_iff)

lemma best_pair_range:
  assumes "best_pair available operand_subs label_sets counts size_dict = Ok (i, j, c)" and "1 < length available"
  shows "i < j \<and> j < length available"
proof -
  have "case (i, j, c) of (i, j, c) \<Rightarrow> i < j \<and> j < length available"
    by (rule try_fold_inv [OF assms(1) [unfolded best_pair_def]])
      (use assms(2) in \<open>auto simp: best_step_def Let_def in_candidate_pairs split: if_splits\<close>)
  then show ?thesis by simp
qed

function greedy_loop ::
  "nat list \<Rightarrow> label list list \<Rightarrow> label set list \<Rightarrow> counts \<Rightarrow> size_dict \<Rightarrow> path \<Rightarrow> path eres" where
  "greedy_loop available operand_subs label_sets counts size_dict pairs =
    (if 1 < length available then
       (case best_pair available operand_subs label_sets counts size_dict of
          Inl err \<Rightarrow> Err err
        | Inr (best_i, best_j, best_cost) \<Rightarrow>
            let left = available ! best_i; right = available ! best_j;
                new_subs = collect_candidate_intermediate_subs (operand_subs ! left) (operand_subs ! right)
                  left right label_sets counts;
                new_idx = length operand_subs;
                counts = remove_labels_from_counts (label_sets ! left) counts;
                counts = remove_labels_from_counts (label_sets ! right) counts;
                counts = add_labels_to_counts (set new_subs) counts in
            greedy_loop (remove_at best_i (remove_at best_j available) @ [new_idx])
              (operand_subs @ [new_subs]) (label_sets @ [set new_subs]) counts size_dict
              (pairs @ [(left, right)]))
     else Ok pairs)"
  by pat_completeness auto
termination
proof (relation "measure (\<lambda>(available, _). length available)", goal_cases)
  case (2 available operand_subs label_sets counts size_dict pairs r i y j c)
  then show ?case
    using best_pair_range [of available operand_subs label_sets counts size_dict i j c]
    by (auto simp: length_remove_at)
qed simp

declare greedy_loop.simps [simp del]

definition optimize_self_greedy_pairs :: "subscripts \<Rightarrow> size_dict \<Rightarrow> path eres" where
  "optimize_self_greedy_pairs subs size_dict =
    (let available = [0..<length (sb_inputs subs)];
         label_sets = build_operand_label_sets (sb_inputs subs) in
     greedy_loop available (sb_inputs subs) label_sets
       (build_needed_label_counts (sb_output subs) available label_sets) size_dict [])"

section \<open>The external optimiser and the choice of a path\<close>

datatype omeco_tree = OmecoLeaf nat | OmecoNode "omeco_tree list"

fun nested_to_pairs :: "omeco_tree \<Rightarrow> nat \<Rightarrow> path \<Rightarrow> (nat \<times> nat \<times> path) eres" where
  "nested_to_pairs (OmecoLeaf i) next_operand pairs = Ok (i, next_operand, pairs)"
| "nested_to_pairs (OmecoNode [l, r]) next_operand pairs =
    and_then (nested_to_pairs l next_operand pairs) (\<lambda>(left, next_operand, pairs).
    and_then (nested_to_pairs r next_operand pairs) (\<lambda>(right, next_operand, pairs).
      Ok (next_operand, next_operand + 1, pairs @ [(left, right)])))"
| "nested_to_pairs (OmecoNode args) next_operand pairs = Err (Planning (Non_Binary_Node (length args)))"

type_synonym f64 = "64 word"

definition is_nan :: "f64 \<Rightarrow> bool" where
  "is_nan w \<longleftrightarrow> 2047 * 2 ^ 52 < uint w mod 2 ^ 63"

record score_function =
  sf_tc_weight :: f64
  sf_sc_weight :: f64
  sf_rw_weight :: f64
  sf_sc_target :: f64

record optimizer_options =
  oo_betas :: "f64 list"
  oo_ntrials :: nat
  oo_niters :: nat
  oo_score :: score_function

definition options_validate :: "optimizer_options \<Rightarrow> unit eres" where
  "options_validate opts =
    (if oo_ntrials opts = 0 then Err (Planning (Optimizer_Option ''ntrials''))
     else if list_ex is_nan (oo_betas opts) then Err (Planning (Optimizer_Option ''betas''))
     else if is_nan (sf_tc_weight (oo_score opts)) \<or> is_nan (sf_sc_weight (oo_score opts)) \<or>
       is_nan (sf_rw_weight (oo_score opts)) \<or> is_nan (sf_sc_target (oo_score opts))
     then Err (Planning (Optimizer_Option ''score''))
     else Ok ())"

type_synonym omeco = "subscripts \<Rightarrow> size_dict \<Rightarrow> optimizer_options \<Rightarrow> omeco_tree option"

definition optimize_omeco_pairs :: "omeco \<Rightarrow> subscripts \<Rightarrow> size_dict \<Rightarrow> optimizer_options \<Rightarrow> path option eres" where
  "optimize_omeco_pairs omeco subs size_dict opts =
    (case omeco subs size_dict opts of
       None \<Rightarrow> Ok None
     | Some nested \<Rightarrow>
         and_then (nested_to_pairs nested (length (sb_inputs subs)) []) (\<lambda>(_, _, pairs). Ok (Some pairs)))"

definition optimize_with_options ::
  "omeco \<Rightarrow> subscripts \<Rightarrow> shape list \<Rightarrow> optimizer_options \<Rightarrow> contraction_tree eres" where
  "optimize_with_options omeco subs shapes opts =
    and_then (options_validate opts) (\<lambda>_.
      let input_count = length (sb_inputs subs) in
      if input_count \<le> 1 then from_pairs subs shapes []
      else if input_count = 2 then from_pairs subs shapes [(0, 1)]
      else
        and_then (build_size_dict subs shapes None) (\<lambda>size_dict.
        and_then (optimize_omeco_pairs omeco subs size_dict opts) (\<lambda>omeco_pairs.
        and_then (case omeco_pairs of Some pairs \<Rightarrow> Ok pairs
            | None \<Rightarrow> optimize_self_greedy_pairs subs size_dict) (\<lambda>pairs.
          from_pairs subs shapes pairs))))"

end
