(* ===== verification/Einsum_Nested.thy ===== *)
theory Einsum_Nested
  imports Einsum_Syntax
begin

text \<open>
  Parenthesised notation (\<open>syntax/nested.rs\<close>).  The recursive descent of the code is a pair of
  mutually recursive functions, one for a group and one for its loop over the items; the
  recursion ends because the text between the parentheses is shorter than the item.  The mutable
  leaf counter is passed and returned.
\<close>

datatype nested_einsum = Leaf nat | Node subscripts "nested_einsum list"

fun count_leaves :: "nested_einsum \<Rightarrow> nat" where
  "count_leaves (Leaf _) = 1"
| "count_leaves (Node _ children) = sum_list (map count_leaves children)"

section \<open>Scanning a group\<close>

fun split_top_loop ::
  "uchar list list \<Rightarrow> nat \<Rightarrow> uchar list \<Rightarrow> uchar list \<Rightarrow> uchar list list eres" where
  "split_top_loop items depth current [] = Ok (items @ [current])"
| "split_top_loop items depth current (c # cs) =
    (if c = lparen then split_top_loop items (depth + 1) (current @ [c]) cs
     else if c = rparen then
       if depth = 0 then Err (InvalidSubscripts Unmatched_Close_In_Group)
       else split_top_loop items (depth - 1) (current @ [c]) cs
     else if c = comma \<and> depth = 0 then split_top_loop (items @ [current]) depth [] cs
     else split_top_loop items depth (current @ [c]) cs)"

definition split_top_level :: "uchar list \<Rightarrow> uchar list list eres" where
  "split_top_level s = split_top_loop [] 0 [] s"

definition collect_label_step :: "label set \<Rightarrow> uchar \<Rightarrow> label set eres" where
  "collect_label_step labels c =
    (if c = lparen \<or> c = rparen \<or> c = comma then Ok labels
     else and_then (char_to_label c) (\<lambda>l. Ok (insert l labels)))"

definition collect_labels :: "uchar list \<Rightarrow> label set eres" where
  "collect_labels s = try_fold collect_label_step {} s"

definition collect_ordered_step :: "label set \<times> label list \<Rightarrow> uchar \<Rightarrow> (label set \<times> label list) eres" where
  "collect_ordered_step st c = (case st of (seen, labels) \<Rightarrow>
    if c = lparen \<or> c = rparen \<or> c = comma then Ok (seen, labels)
    else and_then (char_to_label c) (\<lambda>l.
      if l \<in> seen then Ok (seen, labels) else Ok (insert l seen, labels @ [l])))"

definition collect_labels_in_order :: "uchar list \<Rightarrow> label list eres" where
  "collect_labels_in_order s =
    and_then (try_fold collect_ordered_step ({}, []) s) (\<lambda>(_, labels). Ok labels)"

definition sibling_step :: "nat \<Rightarrow> label set \<Rightarrow> nat \<times> uchar list \<Rightarrow> label set eres" where
  "sibling_step current_idx labels e = (case e of (idx, item) \<Rightarrow>
    if idx = current_idx then Ok labels
    else and_then (collect_labels item) (\<lambda>ls. Ok (labels \<union> ls)))"

definition collect_sibling_labels :: "uchar list list \<Rightarrow> nat \<Rightarrow> label set eres" where
  "collect_sibling_labels items current_idx =
    try_fold (sibling_step current_idx) {} (zip [0..<length items] items)"

definition is_group :: "uchar list \<Rightarrow> bool" where
  "is_group item \<longleftrightarrow> item \<noteq> [] \<and> hd item = lparen \<and> last item = rparen"

definition strip_parens :: "uchar list \<Rightarrow> uchar list" where
  "strip_parens item = butlast (tl item)"

definition group_output :: "label set \<Rightarrow> label set \<Rightarrow> label list \<Rightarrow> label list" where
  "group_output outer_needed sibling_labels group_labels =
    filter (\<lambda>l. l \<in> outer_needed \<or> l \<in> sibling_labels) group_labels"

section \<open>The items of a group are no longer than the group\<close>

lemma split_top_loop_length:
  "split_top_loop items depth current s = Ok out \<Longrightarrow>
    \<forall>i \<in> set items. length i \<le> m \<Longrightarrow> length current + length s \<le> m \<Longrightarrow>
    \<forall>i \<in> set out. length i \<le> m"
  by (induction items depth current s rule: split_top_loop.induct) (auto split: if_splits)

lemma split_top_level_length:
  "split_top_level s = Ok items \<Longrightarrow> i \<in> set items \<Longrightarrow> length i \<le> length s"
  using split_top_loop_length [of "[]" 0 "[]" s items "length s"] by (simp add: split_top_level_def)

lemma is_group_length: "is_group item \<Longrightarrow> 2 \<le> length item"
  by (cases item; cases "tl item") (auto simp: is_group_def)

lemma strip_parens_length: "is_group item \<Longrightarrow> length (strip_parens item) + 2 = length item"
  using is_group_length by (fastforce simp: strip_parens_def)

lemma and_then_cong [fundef_cong]:
  "r = r' \<Longrightarrow> (\<And>a. r' = Inr a \<Longrightarrow> f a = f' a) \<Longrightarrow> and_then r f = and_then r' f'"
  by (simp add: and_then_def split: sum.splits)

definition longest :: "uchar list list \<Rightarrow> nat" where
  "longest items = foldr max (map length items) 0"

lemma longest_Cons [simp]: "longest (i # items) = max (length i) (longest items)"
  by (simp add: longest_def)

lemma longest_le: "\<forall>i \<in> set items. length i \<le> m \<Longrightarrow> longest items \<le> m"
  by (induction items) (auto simp: longest_def)

section \<open>The parser\<close>

function (sequential)
  parse_group :: "uchar list \<Rightarrow> label set \<Rightarrow> label list \<Rightarrow> nat \<Rightarrow> (nested_einsum \<times> nat) eres" and
  parse_items :: "uchar list list \<Rightarrow> label set \<Rightarrow> nat \<Rightarrow> uchar list list \<Rightarrow> nat \<Rightarrow>
    (nested_einsum list \<times> label list list \<times> nat) eres" where
  "parse_group group_str outer_needed final_output leaf_counter =
    and_then (split_top_level group_str) (\<lambda>items.
    and_then (parse_items items outer_needed 0 items leaf_counter) (\<lambda>(children, inputs, counter).
      Ok (Node \<lparr>sb_inputs = inputs, sb_output = final_output\<rparr> children, counter)))"
| "parse_items items outer_needed idx [] leaf_counter = Ok ([], [], leaf_counter)"
| "parse_items items outer_needed idx (item # rest) leaf_counter =
    (if is_group item then
       let inner = strip_parens item in
       and_then (collect_labels_in_order inner) (\<lambda>group_labels.
       and_then (collect_sibling_labels items idx) (\<lambda>sibling_labels.
       let sub_output = group_output outer_needed sibling_labels group_labels in
       and_then (parse_group inner (set sub_output) sub_output leaf_counter) (\<lambda>(child, counter).
       and_then (parse_items items outer_needed (idx + 1) rest counter) (\<lambda>(children, inputs, counter).
         Ok (child # children, sub_output # inputs, counter)))))
     else
       and_then (traverse char_to_label item) (\<lambda>labels.
       and_then (parse_items items outer_needed (idx + 1) rest (leaf_counter + 1))
         (\<lambda>(children, inputs, counter).
           Ok (Leaf leaf_counter # children, labels # inputs, counter))))"
  by pat_completeness auto
termination
proof (relation "measures [\<lambda>x. case x of Inl (s, _) \<Rightarrow> 2 * length s + 1
    | Inr (_, _, _, rest, _) \<Rightarrow> 2 * longest rest,
    \<lambda>x. case x of Inl _ \<Rightarrow> 0 | Inr (_, _, _, rest, _) \<Rightarrow> length rest]", goal_cases)
  case (2 s outer out k items)
  have "longest items \<le> length s"
    using split_top_level_length [OF 2] by (intro longest_le) blast
  then show ?case by simp
next
  case (3 items outer idx item rest k)
  then show ?case using strip_parens_length [of item] by auto
qed auto

definition nested_parse :: "uchar list \<Rightarrow> nested_einsum eres" where
  "nested_parse notation =
    and_then (split_and_validate_notation notation) (\<lambda>(lhs, output_str).
      if dot \<in> set notation then Err (InvalidSubscripts Nested_Ellipsis)
      else
        and_then (traverse char_to_label output_str) (\<lambda>output.
        and_then (parse_group lhs (set output) output 0) (\<lambda>(tree, _). Ok tree)))"

section \<open>Reference: the printed tree, its leaves and labels\<close>

fun leaves :: "nested_einsum \<Rightarrow> nat list" where
  "leaves (Leaf i) = [i]"
| "leaves (Node _ children) = concat (map leaves children)"

fun print_child :: "label list \<Rightarrow> nested_einsum \<Rightarrow> uchar list"
  and print_children :: "label list list \<Rightarrow> nested_einsum list \<Rightarrow> uchar list list" where
  "print_child labels (Leaf _) = labels"
| "print_child labels (Node sb children) =
    lparen # join comma (print_children (sb_inputs sb) children) @ [rparen]"
| "print_children (i # inputs) (c # children) = print_child i c # print_children inputs children"
| "print_children _ _ = []"

fun print_nested :: "nested_einsum \<Rightarrow> uchar list" where
  "print_nested (Leaf _) = []"
| "print_nested (Node sb children) =
    join comma (print_children (sb_inputs sb) children) @ [dash, arrowhead] @ sb_output sb"

definition plain_labels :: "uchar list \<Rightarrow> label set" where
  "plain_labels s = set s - {lparen, rparen, comma}"

text \<open>
  A group keeps exactly the labels below it that its siblings or the enclosing output need.
\<close>

inductive keeps_needed :: "label set \<Rightarrow> nested_einsum \<Rightarrow> bool" where
  leaf: "keeps_needed needed (Leaf i)"
| node: "(\<And>i sb' cs'. i < length cs \<Longrightarrow> cs ! i = Node sb' cs' \<Longrightarrow>
      sb_output sb' = sb_inputs sb ! i \<and> distinct (sb_output sb') \<and>
      set (sb_output sb') = plain_labels (print_child [] (cs ! i)) \<inter>
        (needed \<union> (\<Union>j \<in> {..<length cs} - {i}. plain_labels (print_child (sb_inputs sb ! j) (cs ! j)))) \<and>
      keeps_needed (set (sb_output sb')) (cs ! i)) \<Longrightarrow>
    length (sb_inputs sb) = length cs \<Longrightarrow> keeps_needed needed (Node sb cs)"

section \<open>The scanner of a group\<close>

lemma join_snoc: "join c (ps @ [p @ s]) = join c (ps @ [p]) @ s"
  by (induction c ps rule: join.induct) auto

lemma join_snoc2: "join c ((ps @ [p]) @ [s]) = join c (ps @ [p]) @ c # s"
  by (induction c ps rule: join.induct) auto

lemma split_top_loop_join:
  "split_top_loop items depth current s = Ok out \<Longrightarrow> join comma out = join comma (items @ [current]) @ s"
proof (induction items depth current s rule: split_top_loop.induct)
  case (2 items depth current c cs)
  then show ?case
    using join_snoc [of comma items current "[c]"] join_snoc2 [of comma items current "[]"]
    by (auto split: if_splits)
qed auto

lemma split_top_level_join: "split_top_level s = Ok items \<Longrightarrow> join comma items = s"
  using split_top_loop_join [of "[]" 0 "[]" s items] by (simp add: split_top_level_def)

lemma split_top_loop_not_Nil: "split_top_loop items depth current s = Ok out \<Longrightarrow> out \<noteq> []"
  by (induction items depth current s rule: split_top_loop.induct) (auto split: if_splits)

lemma split_top_level_not_Nil: "split_top_level s = Ok items \<Longrightarrow> items \<noteq> []"
  by (simp add: split_top_level_def split_top_loop_not_Nil)

lemma group_item: "is_group item \<Longrightarrow> lparen # strip_parens item @ [rparen] = item"
proof -
  assume g: "is_group item"
  then obtain a r where item: "item = a # r" and r: "r \<noteq> []"
    using is_group_length by (cases item; cases "tl item") fastforce+
  with g show ?thesis by (simp add: is_group_def strip_parens_def) (metis append_butlast_last_id)
qed

section \<open>Collecting labels\<close>

lemma collect_label_step_iff:
  "collect_label_step L c = Ok M \<longleftrightarrow>
    M = L \<union> plain_labels [c] \<and> (\<forall>l \<in> plain_labels [c]. l \<notin> set RESERVED_CHARS)"
  by (auto simp: collect_label_step_def plain_labels_def)

lemma plain_labels_Cons: "plain_labels (c # s) = plain_labels [c] \<union> plain_labels s"
  by (auto simp: plain_labels_def)

lemma plain_labels_Nil [simp]: "plain_labels [] = {}"
  by (simp add: plain_labels_def)

lemma collect_fold_iff:
  "try_fold collect_label_step L s = Ok M \<longleftrightarrow>
    M = L \<union> plain_labels s \<and> (\<forall>l \<in> plain_labels s. l \<notin> set RESERVED_CHARS)"
proof (induction s arbitrary: L)
  case (Cons c s)
  show ?case
    by (auto simp: Cons.IH collect_label_step_iff plain_labels_Cons [of c s])
qed auto

lemma collect_labels_iff:
  "collect_labels s = Ok M \<longleftrightarrow> M = plain_labels s \<and> (\<forall>l \<in> plain_labels s. l \<notin> set RESERVED_CHARS)"
  by (simp add: collect_labels_def collect_fold_iff)

lemma collect_ordered_fold:
  "try_fold collect_ordered_step (seen, ls) s = Ok (seen', ls') \<Longrightarrow> set ls = seen \<Longrightarrow> distinct ls \<Longrightarrow>
    set ls' = set ls \<union> plain_labels s \<and> distinct ls' \<and> (\<forall>l \<in> plain_labels s. l \<notin> set RESERVED_CHARS)"
proof (induction s arbitrary: seen ls)
  case (Cons c s)
  from Cons.prems(1) obtain seen1 ls1 where
    1: "collect_ordered_step (seen, ls) c = Ok (seen1, ls1)"
    and 2: "try_fold collect_ordered_step (seen1, ls1) s = Ok (seen', ls')" by auto
  from 1 Cons.prems(2,3) have "set ls1 = seen1" "distinct ls1" "set ls1 = set ls \<union> plain_labels [c]"
    "\<forall>l \<in> plain_labels [c]. l \<notin> set RESERVED_CHARS"
    by (auto simp: collect_ordered_step_def plain_labels_def split: if_splits)
  with Cons.IH [OF 2] show ?case by (subst (1 2) plain_labels_Cons) auto
qed auto

lemma collect_labels_in_order_Ok:
  assumes "collect_labels_in_order s = Ok ls"
  shows "set ls = plain_labels s" and "distinct ls"
  using assms collect_ordered_fold [of "{}" "[]" s]
  by (auto simp: collect_labels_in_order_def split: prod.splits)

lemma sibling_fold:
  "try_fold (sibling_step idx) L es = Ok M \<Longrightarrow>
    M = L \<union> (\<Union>(j, item) \<in> {e \<in> set es. fst e \<noteq> idx}. plain_labels item)"
proof (induction es arbitrary: L)
  case (Cons e es)
  then obtain L1 where 1: "sibling_step idx L e = Ok L1" and 2: "try_fold (sibling_step idx) L1 es = Ok M"
    by auto
  obtain j item where e: "e = (j, item)" by (cases e)
  from 1 have "L1 = (if j = idx then L else L \<union> plain_labels item)"
    by (auto simp: e sibling_step_def collect_labels_iff split: if_splits)
  with Cons.IH [OF 2] e show ?case by (auto split: if_splits)
qed simp

lemma collect_sibling_labels_Ok:
  assumes "collect_sibling_labels items idx = Ok M"
  shows "M = (\<Union>j \<in> {..<length items} - {idx}. plain_labels (items ! j))"
proof -
  have "M = (\<Union>(j, item) \<in> {e \<in> set (zip [0..<length items] items). fst e \<noteq> idx}. plain_labels item)"
    using assms sibling_fold [of idx "{}"] by (simp add: collect_sibling_labels_def)
  also have "{e \<in> set (zip [0..<length items] items). fst e \<noteq> idx} =
      (\<lambda>j. (j, items ! j)) ` ({..<length items} - {idx})"
    by (auto simp: in_set_zip_upt)
  finally show ?thesis by simp
qed

section \<open>The parser keeps the text, numbers the leaves and keeps the needed labels\<close>

lemma print_children_length:
  "length ins = length cs \<Longrightarrow> length (print_children ins cs) = length cs"
  by (induction ins cs rule: list_induct2) auto

lemma print_children_nth:
  "length ins = length cs \<Longrightarrow> i < length cs \<Longrightarrow> print_children ins cs ! i = print_child (ins ! i) (cs ! i)"
  by (induction ins cs arbitrary: i rule: list_induct2) (auto simp: nth_Cons split: nat.splits)

lemma plain_labels_group: "is_group item \<Longrightarrow> plain_labels (strip_parens item) = plain_labels item"
proof -
  assume "is_group item"
  then have "plain_labels item = plain_labels (lparen # strip_parens item @ [rparen])"
    by (simp add: group_item)
  then show ?thesis by (auto simp: plain_labels_def)
qed

lemma group_output_set:
  "set (group_output outer sib ls) = set ls \<inter> (outer \<union> sib)"
  "distinct ls \<Longrightarrow> distinct (group_output outer sib ls)"
  by (auto simp: group_output_def)

definition child_kept ::
  "label set \<Rightarrow> uchar list list \<Rightarrow> nat \<Rightarrow> label list \<Rightarrow> nested_einsum \<Rightarrow> bool" where
  "child_kept outer items p labels c =
    (case c of Leaf _ \<Rightarrow> True
     | Node sb cs \<Rightarrow> sb_output sb = labels \<and> distinct labels \<and>
         set labels = plain_labels (items ! p) \<inter>
           (outer \<union> (\<Union>j \<in> {..<length items} - {p}. plain_labels (items ! j))) \<and>
         keeps_needed (set labels) c)"

lemma keeps_needed_NodeI:
  assumes "length (sb_inputs sb) = length cs"
    and "\<And>i. i < length cs \<Longrightarrow>
      child_kept needed (print_children (sb_inputs sb) cs) i (sb_inputs sb ! i) (cs ! i)"
  shows "keeps_needed needed (Node sb cs)"
proof (rule keeps_needed.node [OF _ assms(1)])
  fix i sb' cs'
  assume i: "i < length cs" and c: "cs ! i = Node sb' cs'"
  let ?items = "print_children (sb_inputs sb) cs"
  have it: "?items ! j = print_child (sb_inputs sb ! j) (cs ! j)" if "j < length cs" for j
    using that by (simp add: print_children_nth assms(1))
  have "(\<Union>j \<in> {..<length ?items} - {i}. plain_labels (?items ! j)) =
      (\<Union>j \<in> {..<length cs} - {i}. plain_labels (print_child (sb_inputs sb ! j) (cs ! j)))"
    by (rule SUP_cong) (auto simp: it print_children_length assms(1))
  with assms(2) [OF i] show "sb_output sb' = sb_inputs sb ! i \<and> distinct (sb_output sb') \<and>
      set (sb_output sb') = plain_labels (print_child [] (cs ! i)) \<inter>
        (needed \<union> (\<Union>j \<in> {..<length cs} - {i}. plain_labels (print_child (sb_inputs sb ! j) (cs ! j)))) \<and>
      keeps_needed (set (sb_output sb')) (cs ! i)"
    by (auto simp: child_kept_def c it [OF i])
qed

lemma upt_split: "k \<le> c \<Longrightarrow> c \<le> k' \<Longrightarrow> [k..<c] @ [c..<k'] = [k..<k']"
  by (metis le_Suc_ex upt_add_eq_append)

lemma parse_group_correct:
  "parse_group s outer out k = Ok (t, k') \<Longrightarrow>
    \<exists>sb cs. t = Node sb cs \<and> sb_output sb = out \<and> length (sb_inputs sb) = length cs \<and>
      join comma (print_children (sb_inputs sb) cs) = s \<and> leaves t = [k..<k'] \<and> k < k' \<and>
      keeps_needed outer t"
  and parse_items_correct:
  "parse_items items outer idx rest k = Ok (cs, ins, k') \<Longrightarrow> rest = drop idx items \<Longrightarrow>
    length cs = length rest \<and> length ins = length rest \<and> print_children ins cs = rest \<and>
    concat (map leaves cs) = [k..<k'] \<and> k + length rest \<le> k' \<and>
    (\<forall>i < length cs. child_kept outer items (idx + i) (ins ! i) (cs ! i))"
proof (induction s outer out k and items outer idx rest k arbitrary: t k' and cs ins k'
    rule: parse_group_parse_items.induct)
  case (1 s outer out k)
  from "1.prems" obtain items cs ins where items: "split_top_level s = Ok items"
    and p: "parse_items items outer 0 items k = Ok (cs, ins, k')"
    and t: "t = Node \<lparr>sb_inputs = ins, sb_output = out\<rparr> cs"
    by (auto split: prod.splits)
  note IH = "1.IH" [OF items p]
  then have len: "length cs = length items" "length ins = length items"
    and pc: "print_children ins cs = items"
    and kept: "\<forall>i < length cs. child_kept outer items i (ins ! i) (cs ! i)" by simp_all
  have "k < k'" using IH split_top_level_not_Nil [OF items] by (cases items) auto
  moreover have "keeps_needed outer t"
    unfolding t using len pc kept by (intro keeps_needed_NodeI) auto
  ultimately show ?case using IH t len split_top_level_join [OF items] by simp
next
  case (2 items outer idx k)
  then show ?case by simp
next
  case (3 items outer idx item rest k)
  from "3.prems"(2) have idx: "idx < length items" and item: "items ! idx = item"
    and rest: "rest = drop (idx + 1) items"
    by (auto simp: drop_Suc [symmetric] nth_via_drop intro: not_less_iff_gr_or_eq [THEN iffD1])
       (metis drop_eq_Nil list.distinct(1) not_le, metis nth_via_drop, metis drop_Suc list.sel(3) tl_drop)
  show ?case
  proof (cases "is_group item")
    case True
    let ?inner = "strip_parens item"
    from "3.prems"(1) True obtain gl sib child c1 cs1 ins1 where
      gl: "collect_labels_in_order ?inner = Ok gl"
      and sib: "collect_sibling_labels items idx = Ok sib"
      and child: "parse_group ?inner (set (group_output outer sib gl)) (group_output outer sib gl) k = Ok (child, c1)"
      and tl: "parse_items items outer (idx + 1) rest c1 = Ok (cs1, ins1, k')"
      and cs: "cs = child # cs1" "ins = group_output outer sib gl # ins1"
      by (auto simp: Let_def split: prod.splits)
    let ?o = "group_output outer sib gl"
    from "3.IH"(1) [OF True refl gl sib refl child] obtain sb ccs where
      c: "child = Node sb ccs" "sb_output sb = ?o"
        "join comma (print_children (sb_inputs sb) ccs) = ?inner"
        "leaves child = [k..<c1]" "k < c1" "keeps_needed (set ?o) child" by blast
    note IH = "3.IH"(2) [OF True refl gl sib refl child refl tl rest]
    have "print_child ?o child = item" using c group_item [OF True] by simp
    moreover have "child_kept outer items idx ?o child"
      unfolding child_kept_def c(1) using c collect_labels_in_order_Ok [OF gl]
        collect_sibling_labels_Ok [OF sib] plain_labels_group [OF True]
      by (simp add: group_output_set item)
    ultimately show ?thesis
      using IH c(4,5) by (auto simp: cs nth_Cons upt_split split: nat.splits)
  next
    case False
    from "3.prems"(1) False obtain labels cs1 ins1 where
      l: "traverse char_to_label item = Ok labels"
      and tl: "parse_items items outer (idx + 1) rest (k + 1) = Ok (cs1, ins1, k')"
      and cs: "cs = Leaf k # cs1" "ins = labels # ins1"
      by (auto split: prod.splits)
    note IH = "3.IH"(3) [OF False l tl rest]
    from l have "labels = item" by (simp add: traverse_labels)
    moreover have "child_kept outer items idx labels (Leaf k)" by (simp add: child_kept_def)
    ultimately show ?thesis
      using IH by (auto simp: cs nth_Cons upt_conv_Cons split: nat.splits)
  qed
qed

lemma count_leaves_leaves: "count_leaves t = length (leaves t)"
  by (induction t rule: leaves.induct) (auto simp: length_concat intro!: arg_cong [of _ _ sum_list])

lemma nested_parse_correct:
  assumes "nested_parse n = Ok t"
  shows "print_nested t = n" and "leaves t = [0..<count_leaves t]" and "0 < count_leaves t"
    and "\<exists>sb cs. t = Node sb cs \<and> keeps_needed (set (sb_output sb)) t"
proof -
  from assms obtain l r k' where n: "split_and_validate_notation n = Ok (l, r)"
    and g: "parse_group l (set r) r 0 = Ok (t, k')"
    by (auto simp: nested_parse_def traverse_labels split: prod.splits if_splits)
  from parse_group_correct [OF g] obtain sb cs where
    t: "t = Node sb cs" "sb_output sb = r" "join comma (print_children (sb_inputs sb) cs) = l"
      "leaves t = [0..<k']" "0 < k'" "keeps_needed (set r) t" by blast
  then have "count_leaves t = k'" by (simp add: count_leaves_leaves)
  then show "print_nested t = n" "leaves t = [0..<count_leaves t]" "0 < count_leaves t"
    "\<exists>sb cs. t = Node sb cs \<and> keeps_needed (set (sb_output sb)) t"
    using t split_and_validate_notation_parts [OF n] by auto
qed

end
