(* ===== verification/Einsum_Path.thy ===== *)
theory Einsum_Path
  imports Einsum_Tree Einsum_Nested
begin

text \<open>
  How a contraction order is chosen (\<open>optimize.rs\<close>): plan specifications, JAX-style shrinking
  paths, parenthesised notation walked into pairs, and the identity of a plan in cache keys.
  The contract between the producers of paths and \<open>from_pairs\<close> is \<open>live_path\<close>: each pair
  contracts two distinct operands that are still live, and one result is left.
\<close>

section \<open>Plan specifications\<close>

datatype einsum_optimize =
    Opt_Auto optimizer_options
  | Opt_False
  | Opt_Nested nested_einsum
  | Opt_Path path
  | Opt_Tree contraction_tree

datatype plan_spec =
    Spec_Auto optimizer_options
  | Left_To_Right
  | Spec_Path path
  | Fixed_Pairs path

definition default_auto_options :: "score_function \<Rightarrow> optimizer_options" where
  "default_auto_options time_optimized =
    \<lparr>oo_betas = [], oo_ntrials = 1, oo_niters = 0, oo_score = time_optimized\<rparr>"

definition validate_step :: "nat \<Rightarrow> bool list \<Rightarrow> nat \<times> nat \<times> nat \<Rightarrow> bool list eres" where
  "validate_step input_count live e = (case e of (step_idx, left, right) \<Rightarrow>
    let next_idx = input_count + step_idx in
    case pair_error live next_idx left right of
      Some err \<Rightarrow> Err err
    | None \<Rightarrow> Ok (live[left := False, right := False, next_idx := True]))"

definition validate_fixed_pairs :: "path \<Rightarrow> nat \<Rightarrow> unit eres" where
  "validate_fixed_pairs pairs input_count =
    (let required_steps = saturating_sub input_count 1 in
     if length pairs \<noteq> required_steps
     then Err (Planning (Step_Count input_count required_steps (length pairs)))
     else
       and_then (try_fold (validate_step input_count) (initial_live input_count (length pairs))
           (zip [0..<length pairs] pairs)) (\<lambda>live.
         if live_count live \<noteq> 1 then Err (Planning (Live_Results (live_count live))) else Ok ()))"

definition jax_step :: "nat \<Rightarrow> nat list \<times> path \<Rightarrow> nat \<times> nat \<times> nat \<Rightarrow> (nat list \<times> path) eres" where
  "jax_step input_count st e = (case st of (positions, v1_pairs) \<Rightarrow> case e of (step, pos_a, pos_b) \<Rightarrow>
    if pos_a = pos_b then Err (Planning (Position_Twice step pos_a))
    else
      let current_len = length positions in
      if current_len \<le> pos_a \<or> current_len \<le> pos_b
      then Err (Planning (Position_Out_Of_Range step pos_a pos_b current_len))
      else
        let (lo, hi) = (if pos_a < pos_b then (pos_a, pos_b) else (pos_b, pos_a)) in
        Ok (remove_at lo (remove_at hi positions) @ [input_count + step],
          v1_pairs @ [(positions ! lo, positions ! hi)]))"

definition jax_path_to_v1_pairs :: "path \<Rightarrow> nat \<Rightarrow> path eres" where
  "jax_path_to_v1_pairs jax_path input_count =
    (let required_steps = saturating_sub input_count 1 in
     if length jax_path \<noteq> required_steps
     then Err (Planning (Step_Count input_count required_steps (length jax_path)))
     else
       and_then (try_fold (jax_step input_count) ([0..<input_count], []) (zip [0..<length jax_path] jax_path))
         (\<lambda>(_, v1_pairs). Ok v1_pairs))"

fun walk_nested :: "nested_einsum \<Rightarrow> nat \<Rightarrow> path \<Rightarrow> nat \<Rightarrow> (nat \<times> path \<times> nat) eres"
  and walk_rest :: "nested_einsum list \<Rightarrow> nat \<Rightarrow> path \<Rightarrow> nat \<Rightarrow> nat \<Rightarrow> (nat \<times> path \<times> nat) eres" where
  "walk_nested (Leaf idx) input_count pairs next_id =
    (if input_count \<le> idx then Err (Planning (Leaf_Out_Of_Range idx input_count)) else Ok (idx, pairs, next_id))"
| "walk_nested (Node sb []) input_count pairs next_id = Err (Planning Node_Without_Children)"
| "walk_nested (Node sb (first # rest)) input_count pairs next_id =
    and_then (walk_nested first input_count pairs next_id) (\<lambda>(result_id, pairs, next_id).
      walk_rest rest input_count pairs next_id result_id)"
| "walk_rest [] input_count pairs next_id result_id = Ok (result_id, pairs, next_id)"
| "walk_rest (child # rest) input_count pairs next_id result_id =
    and_then (walk_nested child input_count pairs next_id) (\<lambda>(child_id, pairs, next_id).
      walk_rest rest input_count (pairs @ [(result_id, child_id)]) (next_id + 1) next_id)"

definition nested_to_v1_pairs :: "nested_einsum \<Rightarrow> nat \<Rightarrow> path eres" where
  "nested_to_v1_pairs nested input_count =
    and_then (walk_nested nested input_count [] input_count) (\<lambda>(root_id, pairs, next_id).
      if input_count = 0 \<or> next_id \<le> root_id then Err (Planning No_Root_Operand) else Ok pairs)"

definition plan_spec_from_optimize :: "einsum_optimize \<Rightarrow> subscripts \<Rightarrow> plan_spec eres" where
  "plan_spec_from_optimize opt subs =
    (case opt of
       Opt_Auto options \<Rightarrow> and_then (options_validate options) (\<lambda>_. Ok (Spec_Auto options))
     | Opt_False \<Rightarrow> Ok Left_To_Right
     | Opt_Nested nested \<Rightarrow>
         and_then (nested_to_v1_pairs nested (length (sb_inputs subs))) (\<lambda>pairs.
         and_then (validate_fixed_pairs pairs (length (sb_inputs subs))) (\<lambda>_. Ok (Fixed_Pairs pairs)))
     | Opt_Path path \<Rightarrow>
         and_then (jax_path_to_v1_pairs path (length (sb_inputs subs))) (\<lambda>_. Ok (Spec_Path path))
     | Opt_Tree _ \<Rightarrow> Err (Planning Tree_Needs_Shapes))"

definition left_to_right_pairs :: "nat \<Rightarrow> path eres" where
  "left_to_right_pairs n =
    (if n \<le> 1 then Ok [] else jax_path_to_v1_pairs (map (\<lambda>_. (0, 1)) [0..<n - 1]) n)"

definition resolve_plan_spec :: "omeco \<Rightarrow> plan_spec \<Rightarrow> subscripts \<Rightarrow> shape list \<Rightarrow> contraction_tree eres" where
  "resolve_plan_spec omeco plan subs shapes =
    (case plan of
       Spec_Auto options \<Rightarrow> optimize_with_options omeco subs shapes options
     | Left_To_Right \<Rightarrow>
         and_then (left_to_right_pairs (length (sb_inputs subs))) (\<lambda>pairs. from_pairs subs shapes pairs)
     | Spec_Path path \<Rightarrow>
         and_then (jax_path_to_v1_pairs path (length (sb_inputs subs))) (\<lambda>pairs. from_pairs subs shapes pairs)
     | Fixed_Pairs pairs \<Rightarrow> from_pairs subs shapes pairs)"

definition tree_pairs :: "contraction_tree \<Rightarrow> path" where
  "tree_pairs tree = List.map_filter (step_pair tree) [0..<step_count tree]"

definition resolve_strategy_with_spec ::
  "omeco \<Rightarrow> einsum_optimize \<Rightarrow> subscripts \<Rightarrow> shape list \<Rightarrow> (plan_spec \<times> contraction_tree) eres" where
  "resolve_strategy_with_spec omeco opt subs shapes =
    (case opt of
       Opt_Tree tree \<Rightarrow>
         let plan = Fixed_Pairs (tree_pairs tree) in
         and_then (resolve_plan_spec omeco plan subs shapes) (\<lambda>tree. Ok (plan, tree))
     | _ \<Rightarrow>
         and_then (plan_spec_from_optimize opt subs) (\<lambda>plan.
         and_then (resolve_plan_spec omeco plan subs shapes) (\<lambda>tree. Ok (plan, tree))))"

section \<open>Plan identity\<close>

datatype hash_write = Write_U8 nat | Write_Usize nat | Write_U64 f64

definition hash_pairs :: "path \<Rightarrow> hash_write list" where
  "hash_pairs pairs =
    Write_Usize (length pairs) # concat (map (\<lambda>(l, r). [Write_Usize l, Write_Usize r]) pairs)"

definition hash_optimizer_options :: "optimizer_options \<Rightarrow> hash_write list" where
  "hash_optimizer_options opts =
    [Write_Usize (oo_ntrials opts), Write_Usize (oo_niters opts), Write_Usize (length (oo_betas opts))] @
    map Write_U64 (oo_betas opts) @
    [Write_U64 (sf_tc_weight (oo_score opts)), Write_U64 (sf_sc_weight (oo_score opts)),
     Write_U64 (sf_rw_weight (oo_score opts)), Write_U64 (sf_sc_target (oo_score opts))]"

fun hash_einsum_plan_spec :: "plan_spec \<Rightarrow> hash_write list" where
  "hash_einsum_plan_spec (Spec_Auto opts) = Write_U8 0 # hash_optimizer_options opts"
| "hash_einsum_plan_spec Left_To_Right = [Write_U8 1]"
| "hash_einsum_plan_spec (Spec_Path path) = Write_U8 2 # hash_pairs path"
| "hash_einsum_plan_spec (Fixed_Pairs pairs) = Write_U8 3 # hash_pairs pairs"

definition f64_slices_equal_by_bits :: "f64 list \<Rightarrow> f64 list \<Rightarrow> bool" where
  "f64_slices_equal_by_bits lhs rhs \<longleftrightarrow>
    length lhs = length rhs \<and> list_all (\<lambda>(l, r). l = r) (zip lhs rhs)"

definition score_functions_equal_by_bits :: "score_function \<Rightarrow> score_function \<Rightarrow> bool" where
  "score_functions_equal_by_bits lhs rhs \<longleftrightarrow>
    sf_tc_weight lhs = sf_tc_weight rhs \<and> sf_sc_weight lhs = sf_sc_weight rhs \<and>
    sf_rw_weight lhs = sf_rw_weight rhs \<and> sf_sc_target lhs = sf_sc_target rhs"

definition optimizer_options_equal_by_bits :: "optimizer_options \<Rightarrow> optimizer_options \<Rightarrow> bool" where
  "optimizer_options_equal_by_bits lhs rhs \<longleftrightarrow>
    oo_ntrials lhs = oo_ntrials rhs \<and> oo_niters lhs = oo_niters rhs \<and>
    f64_slices_equal_by_bits (oo_betas lhs) (oo_betas rhs) \<and>
    score_functions_equal_by_bits (oo_score lhs) (oo_score rhs)"

fun plan_specs_equal :: "plan_spec \<Rightarrow> plan_spec \<Rightarrow> bool" where
  "plan_specs_equal (Spec_Auto lhs) (Spec_Auto rhs) = optimizer_options_equal_by_bits lhs rhs"
| "plan_specs_equal Left_To_Right Left_To_Right = True"
| "plan_specs_equal (Spec_Path lhs) (Spec_Path rhs) = (lhs = rhs)"
| "plan_specs_equal (Fixed_Pairs lhs) (Fixed_Pairs rhs) = (lhs = rhs)"
| "plan_specs_equal _ _ = False"

section \<open>The contract of a path\<close>

fun path_ok :: "nat set \<Rightarrow> nat \<Rightarrow> path \<Rightarrow> bool" where
  "path_ok live next_idx [] = True"
| "path_ok live next_idx ((l, r) # pairs) \<longleftrightarrow>
    l \<noteq> r \<and> l \<in> live \<and> r \<in> live \<and> path_ok (insert next_idx (live - {l, r})) (Suc next_idx) pairs"

definition live_path :: "nat \<Rightarrow> path \<Rightarrow> bool" where
  "live_path n pairs \<longleftrightarrow> 0 < n \<and> Suc (length pairs) = n \<and> path_ok {..<n} n pairs"

definition live_set :: "bool list \<Rightarrow> nat set" where
  "live_set live = {i. i < length live \<and> live ! i}"

lemma live_count_card: "live_count live = card (live_set live)"
  by (simp add: live_count_def live_set_def length_filter_conv_card)

lemma nth_initial_live: "i < n + k \<Longrightarrow> initial_live n k ! i \<longleftrightarrow> i < n"
  by (simp add: initial_live_def nth_append)

lemma length_initial_live: "length (initial_live n k) = n + k"
  by (simp add: initial_live_def)

lemma live_set_initial: "live_set (initial_live n k) = {..<n}"
  by (auto simp: live_set_def nth_initial_live length_initial_live)

lemma pair_error_None:
  assumes "live_set live \<subseteq> {..<next_idx}" and "next_idx \<le> length live"
  shows "pair_error live next_idx l r = None \<longleftrightarrow> l \<noteq> r \<and> l \<in> live_set live \<and> r \<in> live_set live"
  using assms by (auto simp: pair_error_def live_set_def)

lemma nth_update: "i < length xs \<Longrightarrow> xs[j := v] ! i = (if j = i then v else xs ! i)"
  by (cases "j = i") simp_all

lemma live_set_update:
  assumes "next_idx < length live"
  shows "live_set (live[l := False, r := False, next_idx := True]) = insert next_idx (live_set live - {l, r})"
proof (rule set_eqI)
  fix i
  show "i \<in> live_set (live[l := False, r := False, next_idx := True]) \<longleftrightarrow>
      i \<in> insert next_idx (live_set live - {l, r})"
    using assms by (cases "i < length live") (auto simp: live_set_def nth_update)
qed

lemma card_contract:
  assumes "finite L" "l \<noteq> r" "l \<in> L" "r \<in> L" "k \<notin> L"
  shows "card (insert k (L - {l, r})) + 1 = card L"
proof -
  have "card (L - {l, r}) = card L - 2"
    using assms by (subst card_Diff_subset) auto
  moreover have "2 \<le> card L"
    using assms card_mono [of L "{l, r}"] by auto
  ultimately show ?thesis using assms by simp
qed

lemma validate_step_eq [simp]:
  "validate_step n live (k, l, r) =
    (case pair_error live (n + k) l r of
       Some err \<Rightarrow> Err err
     | None \<Rightarrow> Ok (live[l := False, r := False, n + k := True]))"
  by (simp add: validate_step_def Let_def)

lemma validate_fold:
  assumes "live_set live \<subseteq> {..<n + k}" and "length live = n + k + length pairs"
  shows "(\<exists>live'. try_fold (validate_step n) live (enum_from k pairs) = Ok live') \<longleftrightarrow>
      path_ok (live_set live) (n + k) pairs"
    and "try_fold (validate_step n) live (enum_from k pairs) = Ok live' \<Longrightarrow>
      live_count live' + length pairs = live_count live"
  using assms
proof (induction pairs arbitrary: live k)
  case Nil
  { case 1 then show ?case by simp }
  { case 2 then show ?case by simp }
next
  case (Cons p pairs)
  obtain l r where p: "p = (l, r)" by (cases p)
  { case 1
    let ?live = "live[l := False, r := False, n + k := True]"
    have upd: "live_set ?live = insert (n + k) (live_set live - {l, r})"
      by (rule live_set_update) (simp add: 1(2))
    have none: "pair_error live (n + k) l r = None \<longleftrightarrow> l \<noteq> r \<and> l \<in> live_set live \<and> r \<in> live_set live"
      using 1 by (intro pair_error_None) simp_all
    have sub: "live_set ?live \<subseteq> {..<n + Suc k}" using upd 1(1) by auto
    have IH: "(\<exists>live'. try_fold (validate_step n) ?live (enum_from (Suc k) pairs) = Ok live') \<longleftrightarrow>
        path_ok (live_set ?live) (n + Suc k) pairs"
      using 1(2) by (intro Cons.IH(1) [OF sub]) simp
    show ?case
    proof (cases "pair_error live (n + k) l r")
      case (Some e)
      with none have "\<not> (l \<noteq> r \<and> l \<in> live_set live \<and> r \<in> live_set live)" by simp
      with Some show ?thesis by (auto simp: p)
    next
      case None
      with none IH upd show ?thesis by (simp add: p)
    qed
  }
  { case 2
    let ?live = "live[l := False, r := False, n + k := True]"
    have upd: "live_set ?live = insert (n + k) (live_set live - {l, r})"
      by (rule live_set_update) (simp add: 2(3))
    have none: "pair_error live (n + k) l r = None \<longleftrightarrow> l \<noteq> r \<and> l \<in> live_set live \<and> r \<in> live_set live"
      using 2(2,3) by (intro pair_error_None) simp_all
    from 2(1) have e: "pair_error live (n + k) l r = None"
      and r: "try_fold (validate_step n) ?live (enum_from (Suc k) pairs) = Ok live'"
      by (auto simp: p split: option.splits)
    have sub: "live_set ?live \<subseteq> {..<n + Suc k}" using upd 2(2) by auto
    have fin: "finite (live_set live)" using 2(2) finite_subset by blast
    have "n + k \<notin> live_set live" using 2(2) by auto
    with e none fin have "card (live_set ?live) + 1 = card (live_set live)"
      unfolding upd by (intro card_contract) auto
    moreover have "live_count live' + length pairs = live_count ?live"
      using 2(3) by (intro Cons.IH(2) [OF r sub]) simp
    ultimately show ?case by (simp add: live_count_card)
  }
qed

lemma validate_initial:
  "(\<exists>live'. try_fold (validate_step n) (initial_live n (length pairs)) (enum_from 0 pairs) = Ok live') \<longleftrightarrow>
    path_ok {..<n} n pairs"
  "try_fold (validate_step n) (initial_live n (length pairs)) (enum_from 0 pairs) = Ok live' \<Longrightarrow>
    live_count live' + length pairs = n"
proof -
  let ?live = "initial_live n (length pairs)"
  have l: "live_set ?live \<subseteq> {..<n + 0}" "length ?live = n + 0 + length pairs"
    by (simp_all add: live_set_initial length_initial_live)
  show "(\<exists>live'. try_fold (validate_step n) ?live (enum_from 0 pairs) = Ok live') \<longleftrightarrow> path_ok {..<n} n pairs"
    using validate_fold(1) [OF l] by (simp add: live_set_initial)
  assume "try_fold (validate_step n) ?live (enum_from 0 pairs) = Ok live'"
  from validate_fold(2) [OF l this] show "live_count live' + length pairs = n"
    by (simp add: live_set_initial live_count_card)
qed

lemma validate_fixed_pairs_iff: "validate_fixed_pairs pairs n = Ok () \<longleftrightarrow> live_path n pairs"
proof (cases "length pairs = n - 1")
  case False
  then show ?thesis by (auto simp: validate_fixed_pairs_def live_path_def Let_def saturating_sub_def)
next
  case True
  then have len: "\<not> length pairs \<noteq> saturating_sub n 1" by (simp add: saturating_sub_def)
  have "(if c then Err e else Ok ()) = (Ok () :: unit eres) \<longleftrightarrow> \<not> c" for c e by simp
  then have "validate_fixed_pairs pairs n = Ok () \<longleftrightarrow>
      (\<exists>live'. try_fold (validate_step n) (initial_live n (length pairs)) (enum_from 0 pairs) = Ok live' \<and>
        live_count live' = 1)"
    unfolding validate_fixed_pairs_def Let_def if_not_P [OF len] zip_upt_enum and_then_eq_Inr by simp
  also have "\<dots> \<longleftrightarrow> (\<exists>live'. try_fold (validate_step n) (initial_live n (length pairs)) (enum_from 0 pairs) = Ok live') \<and>
      Suc (length pairs) = n"
    using validate_initial(2) [of n pairs] by (metis One_nat_def add.commute add_right_cancel plus_1_eq_Suc)
  finally show ?thesis
    unfolding validate_initial(1) by (auto simp: live_path_def)
qed

end
