(* ===== verification/Einsum_Path_Correct.thy ===== *)
theory Einsum_Path_Correct
  imports Einsum_Path
begin

text \<open>
  What a contraction path computes.  Every operand of a tree stands for a set of inputs
  (\<open>operand_leaves\<close>); the labels \<open>from_pairs\<close> keeps for it are exactly those that occur among
  these inputs and are still needed by the output or by an input outside.  \<open>from_pairs\<close> accepts a
  path exactly when it is live, and every producer of paths gives live ones: shrinking
  positions, the greedy search with its counters, walked notation and the external optimiser.
\<close>

section \<open>Checking while computing labels\<close>

lemma from_pairs_step_eq [simp]:
  "from_pairs_step n out (ops, live, steps) (k, l, r) =
    (case pair_error live (n + k) l r of
       Some err \<Rightarrow> Err err
     | None \<Rightarrow> Ok (ops @ [intermediate_subs (ops ! l) (ops ! r) (needed_labels out ops live l r)],
         live[l := False, r := False, n + k := True], steps @ [(l, r)]))"
  by (simp add: from_pairs_step_def Let_def split: option.split)

text \<open>\<open>from_pairs\<close> and \<open>validate_fixed_pairs\<close> run the same checks: the loop of the first,
  with the labels forgotten, is the loop of the second.\<close>

lemma from_pairs_fold_validates:
  "validate_fold_result = try_fold (validate_step n) live (enum_from k pairs) \<Longrightarrow>
   (case try_fold (from_pairs_step n out) (ops, live, steps) (enum_from k pairs) of
      Inl e \<Rightarrow> validate_fold_result = Err e
    | Inr (ops', live', steps') \<Rightarrow> validate_fold_result = Ok live' \<and> steps' = steps @ pairs)"
proof (induction pairs arbitrary: ops live steps k)
  case (Cons p pairs)
  obtain l r where p: "p = (l, r)" by (cases p)
  show ?case
  proof (cases "pair_error live (n + k) l r")
    case (Some e)
    then show ?thesis using Cons.prems by (simp add: p)
  next
    case None
    then show ?thesis
      using Cons.IH [where live = "live[l := False, r := False, n + k := True]" and k = "Suc k"
          and ops = "ops @ [intermediate_subs (ops ! l) (ops ! r) (needed_labels out ops live l r)]"
          and steps = "steps @ [(l, r)]"] Cons.prems
      by (simp add: p split: sum.splits prod.splits)
  qed
qed simp

section \<open>Inputs below an operand\<close>

fun merge_leaves :: "nat set list \<Rightarrow> path \<Rightarrow> nat set list" where
  "merge_leaves L [] = L"
| "merge_leaves L ((l, r) # pairs) = merge_leaves (L @ [L ! l \<union> L ! r]) pairs"

definition operand_leaves :: "nat \<Rightarrow> path \<Rightarrow> nat set list" where
  "operand_leaves n pairs = merge_leaves (map (\<lambda>i. {i}) [0..<n]) pairs"

definition labels_of :: "label list list \<Rightarrow> nat set \<Rightarrow> label set" where
  "labels_of inputs X = (\<Union>i \<in> X. set (inputs ! i))"

definition kept_labels :: "label list list \<Rightarrow> label list \<Rightarrow> nat set \<Rightarrow> label set" where
  "kept_labels inputs out X = labels_of inputs X \<inter> (set out \<union> labels_of inputs ({..<length inputs} - X))"

definition path_inv :: "label list list \<Rightarrow> label list \<Rightarrow> nat \<Rightarrow> label list list \<Rightarrow> nat set \<Rightarrow> nat set list \<Rightarrow> bool" where
  "path_inv inputs out m ops S L \<longleftrightarrow>
    length inputs \<le> m \<and> length ops = m \<and> length L = m \<and> S \<subseteq> {..<m} \<and>
    (\<Union>x \<in> S. L ! x) = {..<length inputs} \<and>
    (\<forall>x \<in> S. \<forall>y \<in> S. x \<noteq> y \<longrightarrow> L ! x \<inter> L ! y = {}) \<and>
    take (length inputs) ops = inputs \<and> (\<forall>x < length inputs. L ! x = {x}) \<and>
    (\<forall>x < m. length inputs \<le> x \<longrightarrow> set (ops ! x) = kept_labels inputs out (L ! x) \<and> distinct (ops ! x))"

lemma length_merge_leaves [simp]: "length (merge_leaves L pairs) = length L + length pairs"
  by (induction L pairs rule: merge_leaves.induct) auto

lemma labels_of_mono: "X \<subseteq> Y \<Longrightarrow> labels_of inputs X \<subseteq> labels_of inputs Y"
  by (auto simp: labels_of_def)

lemma path_inv_labels:
  assumes "path_inv inputs out m ops S L" and "x < m"
  shows "kept_labels inputs out (L ! x) \<subseteq> set (ops ! x)" and "set (ops ! x) \<subseteq> labels_of inputs (L ! x)"
proof -
  have "set (ops ! x) = labels_of inputs (L ! x)" if "x < length inputs"
    using assms that nth_take [of x "length inputs" ops] by (simp add: path_inv_def labels_of_def)
  moreover have "set (ops ! x) = kept_labels inputs out (L ! x)" if "\<not> x < length inputs"
    using assms that by (simp add: path_inv_def)
  moreover have "kept_labels inputs out (L ! x) \<subseteq> labels_of inputs (L ! x)"
    by (auto simp: kept_labels_def)
  ultimately show "kept_labels inputs out (L ! x) \<subseteq> set (ops ! x)" "set (ops ! x) \<subseteq> labels_of inputs (L ! x)"
    by (cases "x < length inputs"; simp)+
qed

lemma needed_labels_eq:
  assumes "length ops = m" and "live_set live \<subseteq> {..<m}" and len: "m \<le> length live"
  shows "needed_labels out ops live l r = set out \<union> (\<Union>y \<in> live_set live - {l, r}. set (ops ! y))"
proof -
  have "x \<in> live_set live \<Longrightarrow> x < m" for x using assms(2) by blast
  moreover have "x \<in> live_set live \<longleftrightarrow> live ! x" if "x < m" "x < length live" for x
    using that by (simp add: live_set_def)
  ultimately have "(\<Union>x \<in> {..<m}. if x \<noteq> l \<and> x \<noteq> r \<and> live ! x then set (ops ! x) else {}) =
      (\<Union>y \<in> live_set live - {l, r}. set (ops ! y))"
    using assms(2) len by (auto split: if_splits)
  then show ?thesis by (simp add: needed_labels_def assms(1) atLeast0LessThan)
qed

lemma path_inv_contract_labels:
  assumes inv: "path_inv inputs out m ops S L" and l: "l \<in> S" and r: "r \<in> S" and lr: "l \<noteq> r"
  shows "(set (ops ! l) \<union> set (ops ! r)) \<inter> (set out \<union> (\<Union>y \<in> S - {l, r}. set (ops ! y))) =
    kept_labels inputs out (L ! l \<union> L ! r)"
proof (rule set_eqI)
  fix c
  have sub: "S \<subseteq> {..<m}" and all: "(\<Union>x \<in> S. L ! x) = {..<length inputs}"
    and disj: "\<And>x y. x \<in> S \<Longrightarrow> y \<in> S \<Longrightarrow> x \<noteq> y \<Longrightarrow> L ! x \<inter> L ! y = {}"
    using inv by (auto simp: path_inv_def)
  note kept = path_inv_labels [OF inv]
  have m: "x < m" if "x \<in> S" for x using that sub by blast
  have in_ops: "c \<in> set (ops ! x)"
    if "x \<in> S" "i \<in> L ! x" "c \<in> set (inputs ! i)" "c \<in> set out \<or> (\<exists>j \<in> {..<length inputs} - L ! x. c \<in> set (inputs ! j))" for x i
    using that kept(1) [OF m [OF that(1)]] by (auto simp: kept_labels_def labels_of_def)
  show "c \<in> (set (ops ! l) \<union> set (ops ! r)) \<inter> (set out \<union> (\<Union>y \<in> S - {l, r}. set (ops ! y))) \<longleftrightarrow>
      c \<in> kept_labels inputs out (L ! l \<union> L ! r)"
  proof
    assume c: "c \<in> (set (ops ! l) \<union> set (ops ! r)) \<inter> (set out \<union> (\<Union>y \<in> S - {l, r}. set (ops ! y)))"
    then have "c \<in> labels_of inputs (L ! l \<union> L ! r)"
      using kept(2) [OF m [OF l]] kept(2) [OF m [OF r]] by (auto simp: labels_of_def)
    moreover have "c \<in> labels_of inputs ({..<length inputs} - (L ! l \<union> L ! r))" if "c \<notin> set out"
    proof -
      from c that obtain y where y: "y \<in> S" "y \<noteq> l" "y \<noteq> r" "c \<in> set (ops ! y)" by auto
      with kept(2) [OF m [OF y(1)]] have "c \<in> labels_of inputs (L ! y)" by blast
      moreover have "L ! y \<subseteq> {..<length inputs} - (L ! l \<union> L ! r)"
        using disj [of y l] disj [of y r] y l r all by auto
      ultimately show ?thesis using labels_of_mono by blast
    qed
    ultimately show "c \<in> kept_labels inputs out (L ! l \<union> L ! r)" by (auto simp: kept_labels_def)
  next
    assume c: "c \<in> kept_labels inputs out (L ! l \<union> L ! r)"
    then obtain i x where i: "i \<in> L ! x" "c \<in> set (inputs ! i)" and x: "x = l \<or> x = r"
      by (auto simp: kept_labels_def labels_of_def)
    have xS: "x \<in> S" using x l r by blast
    show "c \<in> (set (ops ! l) \<union> set (ops ! r)) \<inter> (set out \<union> (\<Union>y \<in> S - {l, r}. set (ops ! y)))"
    proof (cases "c \<in> set out")
      case True
      then show ?thesis using in_ops [OF xS i] x by auto
    next
      case False
      with c obtain j where j: "j < length inputs" "j \<notin> L ! l" "j \<notin> L ! r" "c \<in> set (inputs ! j)"
        by (auto simp: kept_labels_def labels_of_def)
      from j(1) all obtain y where y: "y \<in> S" "j \<in> L ! y" by blast
      then have ne: "y \<noteq> l" "y \<noteq> r" using j by auto
      then have "x \<noteq> y" using x by blast
      then have "i \<in> {..<length inputs} - L ! y"
        using disj [OF xS y(1)] i(1) xS all by blast
      then have "c \<in> set (ops ! y)" using in_ops [OF y j(4)] i(2) by blast
      moreover have "c \<in> set (ops ! x)"
        using in_ops [OF xS i] j x by blast
      ultimately show ?thesis using y(1) ne x by blast
    qed
  qed
qed

lemma path_inv_step:
  assumes inv: "path_inv inputs out m ops S L" and l: "l \<in> S" and r: "r \<in> S" and lr: "l \<noteq> r"
    and sub: "set new = kept_labels inputs out (L ! l \<union> L ! r)" and new: "distinct new"
  shows "path_inv inputs out (Suc m) (ops @ [new]) (insert m (S - {l, r})) (L @ [L ! l \<union> L ! r])"
proof -
  let ?n = "length inputs"
  have n: "?n \<le> m" and ops: "length ops = m" and L: "length L = m" and S: "S \<subseteq> {..<m}"
    and all: "(\<Union>x \<in> S. L ! x) = {..<?n}"
    and disj: "\<And>x y. x \<in> S \<Longrightarrow> y \<in> S \<Longrightarrow> x \<noteq> y \<Longrightarrow> L ! x \<inter> L ! y = {}"
    and tk: "take ?n ops = inputs" and leaf: "\<And>x. x < ?n \<Longrightarrow> L ! x = {x}"
    and kept: "\<And>x. x < m \<Longrightarrow> ?n \<le> x \<Longrightarrow> set (ops ! x) = kept_labels inputs out (L ! x) \<and> distinct (ops ! x)"
    using inv by (auto simp: path_inv_def)
  have nth: "(L @ [L ! l \<union> L ! r]) ! x = (if x = m then L ! l \<union> L ! r else L ! x)" if "x < Suc m" for x
    using that by (simp add: nth_append L)
  have nthS: "(L @ [L ! l \<union> L ! r]) ! x = L ! x" if "x \<in> S" for x
    using that S L by (auto simp: nth_append)
  have "(\<Union>x \<in> insert m (S - {l, r}). (L @ [L ! l \<union> L ! r]) ! x) = (\<Union>x \<in> S. L ! x)"
    using l r by (auto simp: nthS nth)
  moreover have "(L @ [L ! l \<union> L ! r]) ! x \<inter> (L @ [L ! l \<union> L ! r]) ! y = {}"
    if "x \<in> insert m (S - {l, r})" "y \<in> insert m (S - {l, r})" "x \<noteq> y" for x y
  proof -
    have base: "(L ! l \<union> L ! r) \<inter> L ! z = {}" if "z \<in> S - {l, r}" for z
      using disj [of l z] disj [of r z] that l r by blast
    from that consider "x = m" "y \<in> S - {l, r}" | "y = m" "x \<in> S - {l, r}" | "x \<in> S" "y \<in> S"
      by blast
    then show ?thesis
      using base disj [of x y] \<open>x \<noteq> y\<close> by cases (simp_all add: nth nthS Int_commute)
  qed
  moreover have "take ?n (ops @ [new]) = inputs" using tk n ops by simp
  moreover have "(L @ [L ! l \<union> L ! r]) ! x = {x}" if "x < ?n" for x
    using that n leaf [OF that] by (simp add: nth)
  moreover have "set ((ops @ [new]) ! x) = kept_labels inputs out ((L @ [L ! l \<union> L ! r]) ! x) \<and> distinct ((ops @ [new]) ! x)"
    if "x < Suc m" "?n \<le> x" for x
    using that kept [of x] sub new ops L by (cases "x = m") (simp_all add: nth_append)
  moreover have "insert m (S - {l, r}) \<subseteq> {..<Suc m}" using S by auto
  ultimately show ?thesis using n ops L by (simp add: path_inv_def all)
qed

lemma from_pairs_fold_inv:
  assumes "try_fold (from_pairs_step (length inputs) out) (ops, live, steps) (enum_from k pairs) = Ok (ops', live', steps')"
    and "path_inv inputs out (length inputs + k) ops (live_set live) L"
    and "length live = length inputs + k + length pairs"
  shows "path_inv inputs out (length inputs + k + length pairs) ops' (live_set live') (merge_leaves L pairs)"
  using assms
proof (induction pairs arbitrary: ops live steps k L)
  case (Cons p pairs)
  obtain l r where p: "p = (l, r)" by (cases p)
  let ?n = "length inputs" and ?live = "live[l := False, r := False, length inputs + k := True]"
  let ?new = "intermediate_subs (ops ! l) (ops ! r) (needed_labels out ops live l r)"
  have sub: "live_set live \<subseteq> {..<?n + k}" and ops: "length ops = ?n + k"
    using Cons.prems(2) by (auto simp: path_inv_def)
  from Cons.prems(1) have e: "pair_error live (?n + k) l r = None"
    and f: "try_fold (from_pairs_step ?n out) (ops @ [?new], ?live, steps @ [(l, r)]) (enum_from (Suc k) pairs)
      = Ok (ops', live', steps')"
    by (auto simp: p split: option.splits)
  have lr: "l \<noteq> r" "l \<in> live_set live" "r \<in> live_set live"
    using e pair_error_None [OF sub] Cons.prems(3) by simp_all
  have "set ?new = kept_labels inputs out (L ! l \<union> L ! r)"
    using path_inv_contract_labels [OF Cons.prems(2) lr(2,3,1)] needed_labels_eq [OF ops sub] Cons.prems(3)
    by (simp add: intermediate_subs_set)
  from path_inv_step [OF Cons.prems(2) lr(2,3,1) this distinct_intermediate_subs]
  have "path_inv inputs out (?n + Suc k) (ops @ [?new]) (live_set ?live) (L @ [L ! l \<union> L ! r])"
    using Cons.prems(3) by (simp add: live_set_update)
  from Cons.IH [OF f this] Cons.prems(3) show ?case by (simp add: p)
qed simp

lemma path_inv_initial:
  "path_inv inputs out (length inputs + 0) inputs {..<length inputs} (map (\<lambda>i. {i}) [0..<length inputs])"
  by (auto simp: path_inv_def)

section \<open>The trees \<open>from_pairs\<close> builds\<close>

lemma compile_step_plans_irrelevant:
  "compile_step \<lparr>ct_subscripts = subs, ct_steps = steps, ct_size_dict = d, ct_operand_subs = ops, ct_step_plans = plans\<rparr>
    = compile_step \<lparr>ct_subscripts = subs, ct_steps = steps, ct_size_dict = d, ct_operand_subs = ops, ct_step_plans = []\<rparr>"
  by (rule ext) (auto simp: compile_step_def Let_def)

lemma from_pairs_Ok:
  assumes "from_pairs subs shapes pairs = Ok tree"
  shows "live_path (length (sb_inputs subs)) pairs" and "ct_subscripts tree = subs" and "ct_steps tree = pairs"
    and "build_size_dict subs shapes None = Ok (ct_size_dict tree)"
    and "\<exists>S. path_inv (sb_inputs subs) (sb_output subs) (length (sb_inputs subs) + length pairs)
      (ct_operand_subs tree) S (operand_leaves (length (sb_inputs subs)) pairs) \<and> card S = 1"
    and "compile_step_plans tree = Ok (ct_step_plans tree)"
proof -
  let ?in = "sb_inputs subs" and ?out = "sb_output subs"
  let ?n = "length ?in" and ?st = "(sb_inputs subs, initial_live (length (sb_inputs subs)) (length pairs), [])"
  from assms have len: "length pairs = saturating_sub ?n 1"
    unfolding from_pairs_def Let_def by (cases "length pairs = saturating_sub ?n 1") simp_all
  from assms len obtain d ops live steps where d: "build_size_dict subs shapes None = Ok d"
    and f: "try_fold (from_pairs_step ?n ?out) ?st (enum_from 0 pairs) = Ok (ops, live, steps)"
    and q: "(if live_count live \<noteq> 1 then Err (Planning (Live_Results (live_count live)))
         else
           let tree = \<lparr>ct_subscripts = subs, ct_steps = steps, ct_size_dict = d,
             ct_operand_subs = ops, ct_step_plans = []\<rparr> in
           and_then (compile_step_plans tree) (\<lambda>plans. Ok (tree\<lparr>ct_step_plans := plans\<rparr>))) = Ok tree"
    unfolding from_pairs_def Let_def zip_upt_enum by auto
  from q have live: "live_count live = 1" by (cases "live_count live = 1") simp_all
  with q obtain plans where pl: "compile_step_plans \<lparr>ct_subscripts = subs, ct_steps = steps, ct_size_dict = d,
             ct_operand_subs = ops, ct_step_plans = []\<rparr> = Ok plans"
    and tree: "tree = \<lparr>ct_subscripts = subs, ct_steps = steps, ct_size_dict = d,
             ct_operand_subs = ops, ct_step_plans = plans\<rparr>"
    by (auto simp: Let_def)
  from from_pairs_fold_validates [OF refl, where n = ?n and out = ?out and ops = ?in and steps = "[]" and k = 0
      and pairs = pairs and live = "initial_live ?n (length pairs)"] f
  have v: "try_fold (validate_step ?n) (initial_live ?n (length pairs)) (enum_from 0 pairs) = Ok live"
    and steps: "steps = pairs" by simp_all
  have "path_ok {..<?n} ?n pairs" using v validate_initial(1) by blast
  moreover have "1 + length pairs = ?n" using validate_initial(2) [OF v] live by simp
  ultimately show "live_path ?n pairs" by (cases ?n) (simp_all add: live_path_def)
  show "ct_subscripts tree = subs" "ct_steps tree = pairs" by (simp_all add: tree steps)
  show "build_size_dict subs shapes None = Ok (ct_size_dict tree)" by (simp add: tree d)
  have "path_inv ?in ?out (?n + 0) ?in (live_set (initial_live ?n (length pairs))) (map (\<lambda>i. {i}) [0..<?n])"
    unfolding live_set_initial by (rule path_inv_initial)
  from from_pairs_fold_inv [OF f this] live
  show "\<exists>S. path_inv ?in ?out (?n + length pairs) (ct_operand_subs tree) S (operand_leaves ?n pairs) \<and> card S = 1"
    by (auto simp: tree operand_leaves_def length_initial_live live_count_card)
  show "compile_step_plans tree = Ok (ct_step_plans tree)"
    using pl by (simp add: tree compile_step_plans_def compile_step_plans_irrelevant [of subs steps d ops plans])
qed

section \<open>The steps of a live path\<close>

definition leaf_partition :: "nat \<Rightarrow> nat set \<Rightarrow> nat set list \<Rightarrow> bool" where
  "leaf_partition n S L \<longleftrightarrow> S \<subseteq> {..<length L} \<and> (\<Union>x \<in> S. L ! x) = {..<n} \<and>
    (\<forall>x \<in> S. \<forall>y \<in> S. x \<noteq> y \<longrightarrow> L ! x \<inter> L ! y = {})"

lemma merge_leaves_prefix: "x < length L \<Longrightarrow> merge_leaves L pairs ! x = L ! x"
  by (induction L pairs rule: merge_leaves.induct) (simp_all add: nth_append)

lemma leaf_partition_step:
  assumes "leaf_partition n S L" and l: "l \<in> S" and r: "r \<in> S" and lr: "l \<noteq> r"
  shows "leaf_partition n (insert (length L) (S - {l, r})) (L @ [L ! l \<union> L ! r])"
proof -
  have S: "S \<subseteq> {..<length L}" and all: "(\<Union>x \<in> S. L ! x) = {..<n}"
    and disj: "\<And>x y. x \<in> S \<Longrightarrow> y \<in> S \<Longrightarrow> x \<noteq> y \<Longrightarrow> L ! x \<inter> L ! y = {}"
    using assms(1) by (auto simp: leaf_partition_def)
  have nthS: "(L @ [L ! l \<union> L ! r]) ! x = L ! x" if "x \<in> S" for x
    using that S by (auto simp: nth_append)
  have base: "(L ! l \<union> L ! r) \<inter> L ! z = {}" if "z \<in> S - {l, r}" for z
    using disj [of l z] disj [of r z] that l r by blast
  have "(L @ [L ! l \<union> L ! r]) ! x \<inter> (L @ [L ! l \<union> L ! r]) ! y = {}"
    if "x \<in> insert (length L) (S - {l, r})" "y \<in> insert (length L) (S - {l, r})" "x \<noteq> y" for x y
  proof -
    from that consider "x = length L" "y \<in> S - {l, r}" | "y = length L" "x \<in> S - {l, r}" | "x \<in> S" "y \<in> S"
      by blast
    then show ?thesis
      using base disj [of x y] \<open>x \<noteq> y\<close> by cases (simp_all add: nthS Int_commute)
  qed
  moreover have "(\<Union>x \<in> insert (length L) (S - {l, r}). (L @ [L ! l \<union> L ! r]) ! x) = {..<n}"
    using l r all by (auto simp: nthS)
  ultimately show ?thesis using S by (auto simp: leaf_partition_def)
qed

lemma path_ok_steps:
  assumes "path_ok S (length L) pairs" and "leaf_partition n S L" and "k < length pairs"
    and "pairs ! k = (l, r)"
  shows "l < length L + k \<and> r < length L + k \<and> l \<noteq> r \<and>
    merge_leaves L pairs ! l \<inter> merge_leaves L pairs ! r = {} \<and>
    merge_leaves L pairs ! (length L + k) = merge_leaves L pairs ! l \<union> merge_leaves L pairs ! r"
  using assms
proof (induction pairs arbitrary: S L k)
  case (Cons p pairs)
  obtain a b where p: "p = (a, b)" by (cases p)
  have ab: "a \<noteq> b" "a \<in> S" "b \<in> S"
    and ok: "path_ok (insert (length L) (S - {a, b})) (length (L @ [L ! a \<union> L ! b])) pairs"
    using Cons.prems(1) by (auto simp: p)
  have sub: "S \<subseteq> {..<length L}" using Cons.prems(2) by (simp add: leaf_partition_def)
  then have less: "a < length L" "b < length L" using ab by auto
  show ?case
  proof (cases k)
    case 0
    then have "l = a" "r = b" using Cons.prems(4) by (simp_all add: p)
    moreover have "L ! a \<inter> L ! b = {}" using Cons.prems(2) ab by (simp add: leaf_partition_def)
    ultimately show ?thesis
      using 0 ab(1) less by (simp add: p merge_leaves_prefix nth_append)
  next
    case (Suc k')
    have "length (L @ [L ! a \<union> L ! b]) + k' = length L + k" by (simp add: Suc)
    with Cons.IH [OF ok leaf_partition_step [OF Cons.prems(2) ab(2,3,1)], of k'] Cons.prems(3,4)
    show ?thesis by (simp add: p Suc)
  qed
qed simp

lemma leaf_partition_initial: "leaf_partition n {..<n} (map (\<lambda>i. {i}) [0..<n])"
  by (auto simp: leaf_partition_def)

lemma live_path_steps:
  assumes "live_path n pairs" and "k < length pairs" and "pairs ! k = (l, r)"
  defines "L \<equiv> operand_leaves n pairs"
  shows "l < n + k" "r < n + k" "l \<noteq> r" "L ! l \<inter> L ! r = {}" "L ! (n + k) = L ! l \<union> L ! r"
proof -
  have "path_ok {..<n} (length (map (\<lambda>i. {i}) [0..<n])) pairs" using assms(1) by (simp add: live_path_def)
  from path_ok_steps [OF this leaf_partition_initial assms(2,3)]
  show "l < n + k" "r < n + k" "l \<noteq> r" "L ! l \<inter> L ! r = {}" "L ! (n + k) = L ! l \<union> L ! r"
    by (simp_all add: L_def operand_leaves_def)
qed

lemma operand_leaves_input: "i < n \<Longrightarrow> operand_leaves n pairs ! i = {i}"
  by (simp add: operand_leaves_def merge_leaves_prefix)

text \<open>The last result stands for all inputs.\<close>

lemma path_ok_final:
  "path_ok S (length L) pairs \<Longrightarrow> leaf_partition n S L \<Longrightarrow>
    \<exists>S'. leaf_partition n S' (merge_leaves L pairs) \<and> card S' + length pairs = card S \<and>
      (pairs \<noteq> [] \<longrightarrow> length L + length pairs - 1 \<in> S')"
proof (induction pairs arbitrary: S L)
  case (Cons p pairs)
  obtain a b where p: "p = (a, b)" by (cases p)
  have ab: "a \<noteq> b" "a \<in> S" "b \<in> S"
    and ok: "path_ok (insert (length L) (S - {a, b})) (length (L @ [L ! a \<union> L ! b])) pairs"
    using Cons.prems(1) by (auto simp: p)
  have sub: "S \<subseteq> {..<length L}" using Cons.prems(2) by (simp add: leaf_partition_def)
  then have fin: "finite S" and new: "length L \<notin> S" using finite_subset by auto
  from Cons.IH [OF ok leaf_partition_step [OF Cons.prems(2) ab(2,3,1)]] obtain S' where
    S': "leaf_partition n S' (merge_leaves (L @ [L ! a \<union> L ! b]) pairs)"
      "card S' + length pairs = card (insert (length L) (S - {a, b}))"
      "pairs \<noteq> [] \<longrightarrow> length L + length pairs \<in> S'" by auto
  show ?case
  proof (cases "pairs = []")
    case True
    show ?thesis
      using leaf_partition_step [OF Cons.prems(2) ab(2,3,1)] card_contract [OF fin ab new]
      by (intro exI [of _ "insert (length L) (S - {a, b})"]) (simp add: p True)
  next
    case False
    then show ?thesis
      using S' card_contract [OF fin ab new] by (intro exI [of _ S']) (simp add: p)
  qed
qed auto

lemma live_path_covers:
  assumes "live_path n pairs"
  shows "operand_leaves n pairs ! (n + length pairs - 1) = {..<n}"
proof -
  have ok: "path_ok {..<n} (length (map (\<lambda>i. {i}) [0..<n])) pairs" and n: "Suc (length pairs) = n"
    using assms by (simp_all add: live_path_def)
  from path_ok_final [OF ok leaf_partition_initial] obtain S where
    S: "leaf_partition n S (operand_leaves n pairs)" "card S + length pairs = n"
      "pairs \<noteq> [] \<longrightarrow> n + length pairs - 1 \<in> S"
    by (auto simp: operand_leaves_def)
  show ?thesis
  proof (cases "pairs = []")
    case True
    then show ?thesis using n [symmetric] by (simp add: operand_leaves_def lessThan_Suc)
  next
    case False
    then have "n + length pairs - 1 \<in> S" using S(3) by simp
    moreover have "card S = 1" using S(2) n by linarith
    ultimately have "S = {n + length pairs - 1}" by (metis card_1_singletonE singletonD)
    with S(1) show ?thesis by (simp add: leaf_partition_def)
  qed
qed

section \<open>What \<open>from_pairs\<close> guarantees and accepts\<close>

lemma labels_of_all: "labels_of inputs {..<length inputs} = \<Union> (set ` set inputs)"
  by (auto simp: labels_of_def set_conv_nth)

lemma kept_labels_all: "kept_labels inputs out {..<length inputs} = set out \<inter> \<Union> (set ` set inputs)"
  by (auto simp: kept_labels_def labels_of_all) (auto simp: labels_of_def)

text \<open>The labels of operand \<open>x\<close>: the subscripts of an input, or what is kept of the inputs below.\<close>

definition operand_labels :: "label list list \<Rightarrow> label list \<Rightarrow> path \<Rightarrow> nat \<Rightarrow> label set" where
  "operand_labels inputs out pairs x =
    (if x < length inputs then set (inputs ! x)
     else kept_labels inputs out (operand_leaves (length inputs) pairs ! x))"

lemma ct_operand_labels:
  assumes "from_pairs subs shapes pairs = Ok tree"
    and "x < length (sb_inputs subs) + length pairs"
  shows "set (ct_operand_subs tree ! x) = operand_labels (sb_inputs subs) (sb_output subs) pairs x"
    and "x < length (sb_inputs subs) \<Longrightarrow> ct_operand_subs tree ! x = sb_inputs subs ! x"
    and "length (sb_inputs subs) \<le> x \<Longrightarrow> distinct (ct_operand_subs tree ! x)"
    and "length (ct_operand_subs tree) = length (sb_inputs subs) + length pairs"
proof -
  let ?in = "sb_inputs subs"
  from from_pairs_Ok(5) [OF assms(1)] obtain S where
    inv: "path_inv ?in (sb_output subs) (length ?in + length pairs) (ct_operand_subs tree) S
      (operand_leaves (length ?in) pairs)" by blast
  show eq: "ct_operand_subs tree ! x = ?in ! x" if "x < length ?in"
    using inv nth_take [OF that, of "ct_operand_subs tree"] by (simp add: path_inv_def)
  show "distinct (ct_operand_subs tree ! x)" if "length ?in \<le> x"
    using inv assms(2) that by (simp add: path_inv_def)
  show "set (ct_operand_subs tree ! x) = operand_labels ?in (sb_output subs) pairs x"
    using inv assms(2) eq by (cases "x < length ?in") (simp_all add: operand_labels_def path_inv_def)
  show "length (ct_operand_subs tree) = length ?in + length pairs"
    using inv by (simp add: path_inv_def)
qed

lemma operand_labels_in_dict:
  assumes d: "build_size_dict subs shapes None = Ok d"
    and x: "x < length (sb_inputs subs) + length pairs" and lp: "live_path (length (sb_inputs subs)) pairs"
  shows "operand_labels (sb_inputs subs) out pairs x \<subseteq> dom d"
proof (cases "x < length (sb_inputs subs)")
  case True
  then show ?thesis using build_size_dict_Ok(3) [OF d] nth_mem [OF True] by (auto simp: operand_labels_def)
next
  case False
  let ?n = "length (sb_inputs subs)"
  have "path_ok {..<?n} (length (map (\<lambda>i. {i}) [0..<?n])) pairs" using lp by (simp add: live_path_def)
  have below: "operand_leaves ?n pairs ! y \<subseteq> {..<?n}" if "y < ?n + length pairs" for y
    using that
  proof (induction y rule: less_induct)
    case (less y)
    show ?case
    proof (cases "y < ?n")
      case True
      then show ?thesis by (simp add: operand_leaves_input)
    next
      case False
      obtain l r where p: "pairs ! (y - ?n) = (l, r)" by fastforce
      note st = live_path_steps [OF lp _ p]
      have k: "y - ?n < length pairs" using less.prems False by linarith
      then show ?thesis
        using st(1,2,5) [OF k] less.IH [of l] less.IH [of r] less.prems False by auto
    qed
  qed
  have "kept_labels (sb_inputs subs) out (operand_leaves ?n pairs ! x) \<subseteq> labels_of (sb_inputs subs) {..<?n}"
    using labels_of_mono [OF below [OF x]] by (auto simp: kept_labels_def)
  then show ?thesis
    using False build_size_dict_Ok(3) [OF d] by (simp add: operand_labels_def labels_of_all)
qed

lemma compile_step_eq:
  "compile_step tree (k, l, r) =
    compile_pairwise_step_plan (ct_operand_subs tree ! l) (ct_operand_subs tree ! r)
      (if k = length (ct_steps tree) - 1 then sb_output (ct_subscripts tree)
       else ct_operand_subs tree ! (length (sb_inputs (ct_subscripts tree)) + k)) (ct_size_dict tree)"
  by (simp add: compile_step_def Let_def)

text \<open>A live path over fitting shapes is rejected only when a product of extents overflows.\<close>

lemma traverse_error: "traverse f xs = Err e \<Longrightarrow> \<exists>x \<in> set xs. f x = Err e"
  by (induction xs) auto

lemma compile_step_plans_total:
  assumes ops: "\<And>x. x < n + length pairs \<Longrightarrow> set (ops ! x) \<subseteq> dom d"
    and out: "set (sb_output subs) \<subseteq> dom d" and n: "n = length (sb_inputs subs)"
    and lp: "live_path n pairs"
    and e: "compile_step_plans \<lparr>ct_subscripts = subs, ct_steps = pairs, ct_size_dict = d,
      ct_operand_subs = ops, ct_step_plans = []\<rparr> = Err e"
  shows "\<exists>ds. e = Planning (Product_Overflow ds)"
proof -
  let ?tree = "\<lparr>ct_subscripts = subs, ct_steps = pairs, ct_size_dict = d,
      ct_operand_subs = ops, ct_step_plans = []\<rparr>"
  from traverse_error [OF e [unfolded compile_step_plans_def]] obtain x where
    x: "x \<in> set (zip [0..<length pairs] pairs)" "compile_step ?tree x = Err e" by auto
  obtain k l r where klr: "x = (k, l, r)" by (cases x)
  then have k: "k < length pairs" "pairs ! k = (l, r)" and c: "compile_step ?tree (k, l, r) = Err e"
    using x by (simp_all add: in_set_zip_upt)
  note st = live_path_steps(1,2) [OF lp k]
  let ?c = "if k = length pairs - 1 then sb_output subs else ops ! (n + k)"
  have "set (ops ! l) \<union> set (ops ! r) \<union> set ?c \<subseteq> dom d"
    using ops [of l] ops [of r] ops [of "n + k"] out st k(1) by (cases "k = length pairs - 1") simp_all
  moreover have "compile_pairwise_step_plan (ops ! l) (ops ! r) ?c d = Err e"
    using c by (simp add: compile_step_eq n split: if_splits)
  ultimately show ?thesis by (rule compile_pairwise_step_plan_error)
qed

lemma from_pairs_total:
  assumes lp: "live_path (length (sb_inputs subs)) pairs" and fit: "shapes_fit (sb_inputs subs) shapes"
    and out: "set (sb_output subs) \<subseteq> \<Union> (set ` set (sb_inputs subs))"
  shows "(\<exists>tree. from_pairs subs shapes pairs = Ok tree) \<or>
    (\<exists>ds. from_pairs subs shapes pairs = Err (Planning (Product_Overflow ds)))"
proof -
  let ?in = "sb_inputs subs" and ?out = "sb_output subs"
  let ?n = "length ?in" and ?st = "(sb_inputs subs, initial_live (length (sb_inputs subs)) (length pairs), [])"
  have len: "length pairs = saturating_sub ?n 1" using lp by (auto simp: live_path_def saturating_sub_def)
  obtain d where d: "build_size_dict subs shapes None = Ok d" using build_size_dict_total [OF fit] by blast
  have ok: "path_ok {..<?n} ?n pairs" using lp by (simp add: live_path_def)
  then obtain live where v: "try_fold (validate_step ?n) (initial_live ?n (length pairs)) (enum_from 0 pairs) = Ok live"
    using validate_initial(1) by blast
  from from_pairs_fold_validates [OF refl, where n = ?n and out = ?out and ops = ?in and steps = "[]" and k = 0
      and pairs = pairs and live = "initial_live ?n (length pairs)"] v
  obtain ops where f: "try_fold (from_pairs_step ?n ?out) ?st (enum_from 0 pairs) = Ok (ops, live, pairs)"
    by (auto split: sum.splits prod.splits)
  have "live_count live = 1" using validate_initial(2) [OF v] lp by (simp add: live_path_def)
  then have eq: "from_pairs subs shapes pairs =
      and_then (compile_step_plans \<lparr>ct_subscripts = subs, ct_steps = pairs, ct_size_dict = d,
        ct_operand_subs = ops, ct_step_plans = []\<rparr>)
      (\<lambda>plans. Ok \<lparr>ct_subscripts = subs, ct_steps = pairs, ct_size_dict = d,
        ct_operand_subs = ops, ct_step_plans = plans\<rparr>)"
    unfolding from_pairs_def Let_def zip_upt_enum using len d f by simp
  have "path_inv ?in ?out (?n + 0) ?in (live_set (initial_live ?n (length pairs))) (map (\<lambda>i. {i}) [0..<?n])"
    unfolding live_set_initial by (rule path_inv_initial)
  from from_pairs_fold_inv [OF f this]
  have inv: "path_inv ?in ?out (?n + length pairs) ops (live_set live) (operand_leaves ?n pairs)"
    by (simp add: operand_leaves_def length_initial_live)
  have labels: "set (ops ! x) \<subseteq> dom d" if x: "x < ?n + length pairs" for x
  proof -
    have "set (ops ! x) = operand_labels ?in ?out pairs x"
      using inv x nth_take [of x ?n ops] by (cases "x < ?n") (simp_all add: operand_labels_def path_inv_def)
    then show ?thesis using operand_labels_in_dict [OF d x lp] by blast
  qed
  have outd: "set ?out \<subseteq> dom d" using out build_size_dict_Ok(3) [OF d] by simp
  show ?thesis
  proof (cases "compile_step_plans \<lparr>ct_subscripts = subs, ct_steps = pairs, ct_size_dict = d,
      ct_operand_subs = ops, ct_step_plans = []\<rparr>")
    case (Inl e)
    from compile_step_plans_total [OF _ outd refl lp Inl] labels have "\<exists>ds. e = Planning (Product_Overflow ds)"
      by blast
    with Inl eq show ?thesis by auto
  next
    case (Inr plans)
    with eq show ?thesis by simp
  qed
qed

end
