(* ===== verification/Einsum_Path_Sources.thy ===== *)
theory Einsum_Path_Sources
  imports Einsum_Path_Correct
begin

text \<open>
  The producers of contraction paths and the contract they share with \<open>from_pairs\<close>: shrinking
  positions (\<open>jax_path_to_v1_pairs\<close>), the greedy search, walked notation and the tree of the external
  optimiser.  The locale \<open>path_source\<close> states the contract and what a client may conclude.
\<close>

section \<open>Shrinking a list of live operands\<close>

lemma remove_at_conv: "i < length xs \<Longrightarrow> xs = take i xs @ xs ! i # drop (Suc i) xs"
  by (rule id_take_nth_drop)

lemma set_remove_at:
  assumes "distinct xs" "i < length xs"
  shows "set (remove_at i xs) = set xs - {xs ! i}" and "distinct (remove_at i xs)"
proof -
  have d: "distinct (take i xs @ xs ! i # drop (Suc i) xs)" using assms id_take_nth_drop [of i xs] by simp
  have "set xs = set (take i xs @ xs ! i # drop (Suc i) xs)" using assms id_take_nth_drop [of i xs] by simp
  with d show "set (remove_at i xs) = set xs - {xs ! i}" by (auto simp: remove_at_def)
  from d show "distinct (remove_at i xs)" by (simp add: remove_at_def)
qed

lemma nth_remove_at: "i < j \<Longrightarrow> j < length xs \<Longrightarrow> remove_at j xs ! i = xs ! i"
  by (simp add: remove_at_def nth_append)

lemma shrink:
  assumes "distinct xs" "i < j" "j < length xs" "z \<notin> set xs"
  defines "ys \<equiv> remove_at i (remove_at j xs) @ [z]"
  shows "set ys = insert z (set xs - {xs ! i, xs ! j})" and "distinct ys" and "length ys = length xs - 1"
proof -
  have j: "set (remove_at j xs) = set xs - {xs ! j}" "distinct (remove_at j xs)"
    using set_remove_at [OF assms(1,3)] by auto
  have i: "i < length (remove_at j xs)" using assms(2,3) by (simp add: length_remove_at)
  have "set (remove_at i (remove_at j xs)) = set xs - {xs ! j} - {xs ! i}"
    using set_remove_at(1) [OF j(2) i] nth_remove_at [OF assms(2,3)] j(1) by simp
  then show "set ys = insert z (set xs - {xs ! i, xs ! j})" by (auto simp: ys_def)
  show "distinct ys"
    using set_remove_at [OF j(2) i] j(1) assms(4) by (auto simp: ys_def)
  show "length ys = length xs - 1" using i assms(2,3) by (simp add: ys_def length_remove_at)
qed

lemma distinct_nth_neq: "distinct xs \<Longrightarrow> i < j \<Longrightarrow> j < length xs \<Longrightarrow> xs ! i \<noteq> xs ! j"
  by (simp add: nth_eq_iff_index_eq)

section \<open>Shrinking positions\<close>

lemma jax_step_Ok:
  assumes "jax_step n (positions, acc) (k, a, b) = Ok st"
  obtains i j where "i < j" "j < length positions" "{i, j} = {a, b}"
    "st = (remove_at i (remove_at j positions) @ [n + k], acc @ [(positions ! i, positions ! j)])"
proof (cases "a < b")
  case True
  then show ?thesis using assms that [of a b] by (auto simp: jax_step_def Let_def split: if_splits)
next
  case False
  then show ?thesis using assms that [of b a] by (auto simp: jax_step_def Let_def split: if_splits)
qed

lemma jax_fold_path_ok:
  "try_fold (jax_step n) (positions, acc) (enum_from k jax) = Ok (positions', out) \<Longrightarrow>
    distinct positions \<Longrightarrow> set positions \<subseteq> {..<n + k} \<Longrightarrow>
    \<exists>new. out = acc @ new \<and> length new = length jax \<and> path_ok (set positions) (n + k) new"
proof (induction jax arbitrary: positions acc k)
  case (Cons p jax)
  obtain a b where p: "p = (a, b)" by (cases p)
  from Cons.prems(1) obtain st where
    s: "jax_step n (positions, acc) (k, a, b) = Ok st"
    and f: "try_fold (jax_step n) st (enum_from (Suc k) jax) = Ok (positions', out)" by (auto simp: p)
  from jax_step_Ok [OF s] obtain i j where ij: "i < j" "j < length positions"
    and st: "st = (remove_at i (remove_at j positions) @ [n + k], acc @ [(positions ! i, positions ! j)])"
    by metis
  have "n + k \<notin> set positions" using Cons.prems(3) by auto
  note sh = shrink [OF Cons.prems(2) ij this]
  have "set (remove_at i (remove_at j positions) @ [n + k]) \<subseteq> {..<n + Suc k}"
    unfolding sh(1) using Cons.prems(3) by auto
  from Cons.IH [OF f [unfolded st] sh(2) this] obtain new where
    new: "out = (acc @ [(positions ! i, positions ! j)]) @ new" "length new = length jax"
      "path_ok (set (remove_at i (remove_at j positions) @ [n + k])) (n + Suc k) new" by blast
  have "path_ok (set positions) (n + k) ((positions ! i, positions ! j) # new)"
    using new(3) distinct_nth_neq [OF Cons.prems(2) ij] ij unfolding sh(1) by simp
  then show ?case using new(1,2) by (intro exI [of _ "(positions ! i, positions ! j) # new"]) simp
qed simp

lemma jax_live_path:
  assumes "jax_path_to_v1_pairs jax n = Ok pairs" and "0 < n"
  shows "live_path n pairs"
proof -
  have len: "length jax = saturating_sub n 1"
    using assms(1) by (cases "length jax = saturating_sub n 1") (simp_all add: jax_path_to_v1_pairs_def Let_def)
  with assms(1) obtain pos where
    f: "try_fold (jax_step n) ([0..<n], []) (enum_from 0 jax) = Ok (pos, pairs)"
    unfolding jax_path_to_v1_pairs_def Let_def zip_upt_enum by auto
  have "set [0..<n] \<subseteq> {..<n + 0}" by auto
  from jax_fold_path_ok [OF f distinct_upt this] len assms(2) show ?thesis
    by (auto simp: live_path_def saturating_sub_def atLeast0LessThan)
qed

section \<open>The greedy search\<close>

text \<open>The counters count, for every label, the output and the live operands that mention it.\<close>

definition mentions :: "label list \<Rightarrow> nat set \<Rightarrow> label list list \<Rightarrow> label \<Rightarrow> nat" where
  "mentions out S ops c = (if c \<in> set out then 1 else 0) + card {x \<in> S. c \<in> set (ops ! x)}"

definition counter :: "nat \<Rightarrow> nat option" where
  "counter c = (if c = 0 then None else Some c)"

definition greedy_inv :: "label list \<Rightarrow> nat list \<Rightarrow> label list list \<Rightarrow> label set list \<Rightarrow> counts \<Rightarrow> bool" where
  "greedy_inv out available ops sets counts \<longleftrightarrow>
    distinct available \<and> set available \<subseteq> {..<length ops} \<and> sets = map set ops \<and>
    (\<forall>c. counts c = counter (mentions out (set available) ops c))"

lemma the_counter [simp]: "(case counter c of None \<Rightarrow> 0 | Some n \<Rightarrow> n) = c"
  by (simp add: counter_def)

lemma counter_add: "add_labels_to_counts ls m c = (if c \<in> ls then counter ((case m c of None \<Rightarrow> 0 | Some n \<Rightarrow> n) + 1) else m c)"
  by (simp add: add_labels_to_counts_def counter_def)

lemma counter_remove:
  "m c = counter n \<Longrightarrow> remove_labels_from_counts ls m c = (if c \<in> ls then counter (n - 1) else counter n)"
  by (auto simp: remove_labels_from_counts_def counter_def)

lemma greedy_initial_counts:
  "distinct available \<Longrightarrow> set available \<subseteq> {..<length ops} \<Longrightarrow>
    build_needed_label_counts out available (map set ops) c = counter (mentions out (set available) ops c)"
proof (induction available rule: rev_induct)
  case Nil
  show ?case by (simp add: build_needed_label_counts_def mentions_def counter_def)
next
  case (snoc x available)
  have x: "x < length ops" and new: "x \<notin> set available" using snoc.prems by auto
  have "{y \<in> set (available @ [x]). c \<in> set (ops ! y)} =
      (if c \<in> set (ops ! x) then insert x {y \<in> set available. c \<in> set (ops ! y)}
       else {y \<in> set available. c \<in> set (ops ! y)})"
    by auto
  then have m: "mentions out (set (available @ [x])) ops c =
      (if c \<in> set (ops ! x) then mentions out (set available) ops c + 1 else mentions out (set available) ops c)"
    using new by (simp add: mentions_def)
  have IH: "build_needed_label_counts out available (map set ops) c = counter (mentions out (set available) ops c)"
    using snoc by simp
  have "build_needed_label_counts out (available @ [x]) (map set ops) c =
      add_labels_to_counts (set (ops ! x)) (build_needed_label_counts out available (map set ops)) c"
    using x by (simp add: build_needed_label_counts_def)
  then show ?case unfolding m counter_add IH by simp
qed

lemma mentions_split:
  assumes "finite S" "l \<in> S" "r \<in> S" "l \<noteq> r"
  shows "mentions out S ops c = mentions out (S - {l, r}) ops c +
    (if c \<in> set (ops ! l) then 1 else 0) + (if c \<in> set (ops ! r) then 1 else 0)"
proof -
  let ?R = "{x \<in> S - {l, r}. c \<in> set (ops ! x)}"
  have "{x \<in> S. c \<in> set (ops ! x)} = ?R \<union> (if c \<in> set (ops ! l) then {l} else {}) \<union> (if c \<in> set (ops ! r) then {r} else {})"
    using assms by auto
  moreover have "card (?R \<union> (if c \<in> set (ops ! l) then {l} else {}) \<union> (if c \<in> set (ops ! r) then {r} else {})) =
      card ?R + (if c \<in> set (ops ! l) then 1 else 0) + (if c \<in> set (ops ! r) then 1 else 0)"
    using assms by (auto simp: card_insert_if)
  ultimately show ?thesis by (simp add: mentions_def)
qed

text \<open>A label is needed after a contraction when the output or another live operand mentions it.\<close>

lemma candidate_needed:
  assumes inv: "greedy_inv out available ops sets counts" and l: "l \<in> set available" and r: "r \<in> set available" and lr: "l \<noteq> r"
  shows "candidate_label_is_needed c l r sets counts \<longleftrightarrow>
    c \<in> set out \<union> (\<Union>y \<in> set available - {l, r}. set (ops ! y))"
proof -
  have bounds: "l < length ops" "r < length ops" using inv l r by (auto simp: greedy_inv_def)
  have "candidate_label_is_needed c l r sets counts \<longleftrightarrow> 0 < mentions out (set available - {l, r}) ops c"
    using inv bounds mentions_split [OF finite_set l r lr, of out ops c]
    by (simp add: candidate_label_is_needed_def Let_def greedy_inv_def)
  also have "\<dots> \<longleftrightarrow> c \<in> set out \<or> (\<exists>y \<in> set available - {l, r}. c \<in> set (ops ! y))"
    by (auto simp: mentions_def card_gt_0_iff)
  finally show ?thesis by auto
qed

lemma collect_fold:
  "set o1 = seen \<Longrightarrow>
    foldl (\<lambda>output l. if P l \<and> l \<notin> set output then output @ [l] else output) o1 ls =
      snd (foldl (keep_step {l. P l}) (seen, o1) ls)"
proof (induction ls arbitrary: o1 seen)
  case (Cons x ls)
  then show ?case
    using Cons.IH [of "o1 @ [x]" "insert x seen"] Cons.IH [of o1 seen] by (simp add: keep_step_def)
qed simp

lemma collect_candidate_eq:
  assumes "greedy_inv out available ops sets counts" and "l \<in> set available" "r \<in> set available" "l \<noteq> r"
  shows "collect_candidate_intermediate_subs a b l r sets counts =
    intermediate_subs a b (set out \<union> (\<Union>y \<in> set available - {l, r}. set (ops ! y)))"
proof -
  have "{c. candidate_label_is_needed c l r sets counts} = set out \<union> (\<Union>y \<in> set available - {l, r}. set (ops ! y))"
    using candidate_needed [OF assms] by blast
  then show ?thesis
    using collect_fold [of "[]" "{}" "\<lambda>c. candidate_label_is_needed c l r sets counts" "a @ b"]
    by (simp add: collect_candidate_intermediate_subs_def intermediate_subs_def)
qed

lemma greedy_inv_step:
  assumes inv: "greedy_inv out available ops sets counts" and ij: "i < j" "j < length available"
  defines "l \<equiv> available ! i" and "r \<equiv> available ! j"
  defines "new \<equiv> collect_candidate_intermediate_subs (ops ! l) (ops ! r) l r sets counts"
  shows "greedy_inv out (remove_at i (remove_at j available) @ [length ops]) (ops @ [new]) (sets @ [set new])
    (add_labels_to_counts (set new) (remove_labels_from_counts (sets ! r) (remove_labels_from_counts (sets ! l) counts)))"
proof -
  have d: "distinct available" and S: "set available \<subseteq> {..<length ops}" and sets: "sets = map set ops"
    and counts: "\<And>c. counts c = counter (mentions out (set available) ops c)"
    using inv by (auto simp: greedy_inv_def)
  have "l \<in> set available" "r \<in> set available" using ij by (simp_all add: l_def r_def)
  then have lr: "l \<in> set available" "r \<in> set available" "l \<noteq> r" "l < length ops" "r < length ops"
    using S distinct_nth_neq [OF d ij] by (auto simp: l_def r_def)
  have fresh: "length ops \<notin> set available" using S by auto
  note sh = shrink [OF d ij fresh, folded l_def r_def]
  have removed: "remove_labels_from_counts (sets ! r) (remove_labels_from_counts (sets ! l) counts) c =
      counter (mentions out (set available - {l, r}) ops c)" for c
  proof -
    have "remove_labels_from_counts (sets ! l) counts c =
        counter (mentions out (set available - {l, r}) ops c + (if c \<in> set (ops ! r) then 1 else 0))"
      using counter_remove [where ls = "sets ! l" and m = counts and c = c, OF counts] mentions_split [OF finite_set lr(1-3), of out ops c] lr(4)
      by (simp add: sets)
    from counter_remove [where ls = "sets ! r" and m = "remove_labels_from_counts (sets ! l) counts" and c = c, OF this] lr(5)
    show ?thesis by (simp add: sets)
  qed
  have old: "(ops @ [new]) ! x = ops ! x" if "x \<in> set available" for x
    using that S by (auto simp: nth_append)
  have grown: "mentions out (insert (length ops) (set available - {l, r})) (ops @ [new]) c =
      mentions out (set available - {l, r}) ops c + (if c \<in> set new then 1 else 0)" for c
  proof -
    have "{x \<in> insert (length ops) (set available - {l, r}). c \<in> set ((ops @ [new]) ! x)} =
        (if c \<in> set new then insert (length ops) {x \<in> set available - {l, r}. c \<in> set (ops ! x)}
         else {x \<in> set available - {l, r}. c \<in> set (ops ! x)})"
      using old by auto
    then show ?thesis using fresh by (simp add: mentions_def)
  qed
  show ?thesis
    unfolding greedy_inv_def
  proof (intro conjI allI)
    show "distinct (remove_at i (remove_at j available) @ [length ops])" by (rule sh(2))
    show "set (remove_at i (remove_at j available) @ [length ops]) \<subseteq> {..<length (ops @ [new])}"
      unfolding sh(1) using S by auto
    show "sets @ [set new] = map set (ops @ [new])" by (simp add: sets)
    show "add_labels_to_counts (set new) (remove_labels_from_counts (sets ! r) (remove_labels_from_counts (sets ! l) counts)) c =
        counter (mentions out (set (remove_at i (remove_at j available) @ [length ops])) (ops @ [new]) c)" for c
      unfolding sh(1) grown counter_add removed by simp
  qed
qed

text \<open>One round of the search, and the path it produces.\<close>

lemma greedy_loop_path_ok:
  "greedy_loop available ops sets counts d pairs = Ok out \<Longrightarrow> distinct available \<Longrightarrow>
    set available \<subseteq> {..<length ops} \<Longrightarrow> available \<noteq> [] \<Longrightarrow>
    \<exists>new. out = pairs @ new \<and> Suc (length new) = length available \<and> path_ok (set available) (length ops) new"
proof (induction available ops sets counts d pairs rule: greedy_loop.induct)
  case (1 available ops sets counts d pairs)
  show ?case
  proof (cases "1 < length available")
    case False
    then show ?thesis using "1.prems" by (cases available) (auto simp: greedy_loop.simps)
  next
    case True
    with "1.prems"(1) obtain i j c where b: "best_pair available ops sets counts d = Ok (i, j, c)"
      by (subst (asm) greedy_loop.simps) (auto split: sum.splits)
    let ?new = "collect_candidate_intermediate_subs (ops ! (available ! i)) (ops ! (available ! j))
      (available ! i) (available ! j) sets counts"
    note ij = best_pair_range [OF b True]
    have fresh: "length ops \<notin> set available" using "1.prems"(3) by auto
    note sh = shrink [OF "1.prems"(2) conjunct1 [OF ij] conjunct2 [OF ij] fresh]
    have sub: "set (remove_at i (remove_at j available) @ [length ops]) \<subseteq> {..<length (ops @ [?new])}"
      unfolding sh(1) using "1.prems"(3) by auto
    have "\<exists>new. out = (pairs @ [(available ! i, available ! j)]) @ new \<and>
        Suc (length new) = length (remove_at i (remove_at j available) @ [length ops]) \<and>
        path_ok (set (remove_at i (remove_at j available) @ [length ops])) (length (ops @ [?new])) new"
      by (rule "1.IH" [OF True b refl refl refl refl refl refl refl refl refl _ sh(2) sub])
        (use "1.prems"(1) True b in \<open>subst (asm) greedy_loop.simps, simp add: Let_def\<close>, simp)
    then obtain new where new: "out = pairs @ (available ! i, available ! j) # new"
      "Suc (length new) = length available - 1"
      "path_ok (insert (length ops) (set available - {available ! i, available ! j})) (Suc (length ops)) new"
      unfolding sh(1) sh(3) by auto
    then show ?thesis
      using distinct_nth_neq [OF "1.prems"(2)] ij
      by (intro exI [of _ "(available ! i, available ! j) # new"]) simp
  qed
qed

lemma saturating_product: "foldl saturating_mul (saturating_mul 1 c) ns = saturating_mul 1 (c * prod_list ns)"
proof (induction ns arbitrary: c)
  case (Cons m ns)
  have "saturating_mul (saturating_mul 1 c) m = saturating_mul 1 (c * m)"
  proof (cases "c \<le> usize_max")
    case True
    then show ?thesis by (simp add: saturating_mul_def)
  next
    case False
    show ?thesis
    proof (cases m)
      case (Suc k)
      have "usize_max \<le> c * Suc k" "usize_max \<le> usize_max * Suc k" using False by simp_all
      then show ?thesis using False by (simp add: saturating_mul_def Suc min_def)
    qed (simp add: saturating_mul_def)
  qed
  then show ?case using Cons.IH [of "c * m"] by (simp add: mult.assoc)
qed simp

lemma cost_fold:
  "set ls \<subseteq> dom d \<Longrightarrow> try_fold (cost_step d) c ls = Ok (foldl saturating_mul c (map (\<lambda>l. the (d l)) ls))"
  by (induction ls arbitrary: c) (auto simp: cost_step_def)

lemma candidate_cost_eq:
  assumes "set (collect_candidate_intermediate_subs a b l r sets counts) \<subseteq> dom d"
  shows "candidate_contraction_cost a b l r sets counts d =
    Ok (max (saturating_mul 1 (prod_list (map (\<lambda>l. the (d l)) (collect_candidate_intermediate_subs a b l r sets counts)))) 1)"
  using cost_fold [OF assms, of 1] saturating_product [of 1]
  by (simp add: candidate_contraction_cost_def saturating_mul_def int_range_defs)

text \<open>The chosen pair is a cheapest one.\<close>

lemma best_step_eq [simp]:
  "best_step available ops sets counts d (bi, bj, bc) (i, j) =
    and_then (candidate_contraction_cost (ops ! (available ! i)) (ops ! (available ! j)) (available ! i) (available ! j) sets counts d)
      (\<lambda>cost. if cost < bc then Ok (i, j, cost) else Ok (bi, bj, bc))"
  by (simp add: best_step_def Let_def)

lemma best_fold_least:
  assumes "try_fold (best_step available ops sets counts d) (bi, bj, bc) es = Ok (i, j, c)"
  shows "c \<le> bc \<and> (\<forall>(a, b) \<in> set es. \<exists>c'. candidate_contraction_cost (ops ! (available ! a)) (ops ! (available ! b))
      (available ! a) (available ! b) sets counts d = Ok c' \<and> c \<le> c') \<and>
    ((i, j, c) = (bi, bj, bc) \<or> candidate_contraction_cost (ops ! (available ! i)) (ops ! (available ! j))
      (available ! i) (available ! j) sets counts d = Ok c)"
  using assms(1)
proof (induction es arbitrary: bi bj bc)
  case (Cons e es)
  obtain a b where e: "e = (a, b)" by (cases e)
  let ?cost = "candidate_contraction_cost (ops ! (available ! a)) (ops ! (available ! b))
      (available ! a) (available ! b) sets counts d"
  from Cons.prems obtain c0 where c0: "?cost = Ok c0"
    and f: "try_fold (best_step available ops sets counts d) (if c0 < bc then (a, b, c0) else (bi, bj, bc)) es = Ok (i, j, c)"
    by (auto simp: e split: if_splits)
  show ?case
  proof (cases "c0 < bc")
    case True
    with Cons.IH [of a b c0] f c0 show ?thesis by (auto simp: e)
  next
    case False
    with Cons.IH [of bi bj bc] f c0 show ?thesis by (force simp: e)
  qed
qed simp

lemma best_fold_total:
  assumes "\<And>a b. (a, b) \<in> set es \<Longrightarrow> \<exists>c. candidate_contraction_cost (ops ! (available ! a)) (ops ! (available ! b))
      (available ! a) (available ! b) sets counts d = Ok c"
  shows "\<exists>st'. try_fold (best_step available ops sets counts d) st es = Ok st'"
  using assms
proof (induction es arbitrary: st)
  case (Cons e es)
  obtain a b where e: "e = (a, b)" by (cases e)
  obtain i j bc where st: "st = (i, j, bc)" by (cases st)
  from Cons.prems [of a b] e obtain c where
    "candidate_contraction_cost (ops ! (available ! a)) (ops ! (available ! b)) (available ! a) (available ! b) sets counts d = Ok c"
    by auto
  moreover have "\<exists>st'. try_fold (best_step available ops sets counts d) st es = Ok st'" for st
    using Cons by auto
  ultimately show ?case by (auto simp: e st)
qed auto

text \<open>With every label in the dictionary the search always returns.\<close>

lemma greedy_loop_total:
  "greedy_inv out available ops sets counts \<Longrightarrow> (\<And>x. x \<in> set available \<Longrightarrow> set (ops ! x) \<subseteq> dom d) \<Longrightarrow>
    \<exists>res. greedy_loop available ops sets counts d pairs = Ok res"
proof (induction available ops sets counts d pairs rule: greedy_loop.induct)
  case (1 available ops sets counts d pairs)
  show ?case
  proof (cases "1 < length available")
    case False
    then show ?thesis by (subst greedy_loop.simps) simp
  next
    case True
    have dist: "distinct available" and S: "set available \<subseteq> {..<length ops}"
      using "1.prems"(1) by (auto simp: greedy_inv_def)
    have collect: "set (collect_candidate_intermediate_subs (ops ! (available ! a)) (ops ! (available ! b))
        (available ! a) (available ! b) sets counts) \<subseteq> dom d" if "a < b" "b < length available" for a b
      using that "1.prems"(2) [of "available ! a"] "1.prems"(2) [of "available ! b"]
        collect_candidate_eq [OF "1.prems"(1), of "available ! a" "available ! b"] distinct_nth_neq [OF dist that]
      by (auto simp: intermediate_subs_set)
    have "\<exists>st. best_pair available ops sets counts d = Ok st"
      unfolding best_pair_def
      by (rule best_fold_total) (use candidate_cost_eq [OF collect] in \<open>auto simp: in_candidate_pairs\<close>)
    then obtain i j c where b: "best_pair available ops sets counts d = Ok (i, j, c)" by auto
    note ij = best_pair_range [OF b True]
    let ?new = "collect_candidate_intermediate_subs (ops ! (available ! i)) (ops ! (available ! j))
      (available ! i) (available ! j) sets counts"
    note inv = greedy_inv_step [OF "1.prems"(1) conjunct1 [OF ij] conjunct2 [OF ij]]
    have fresh: "length ops \<notin> set available" using S by auto
    note sh = shrink [OF dist conjunct1 [OF ij] conjunct2 [OF ij] fresh]
    have "set ((ops @ [?new]) ! x) \<subseteq> dom d" if "x \<in> set (remove_at i (remove_at j available) @ [length ops])" for x
    proof (cases "x = length ops")
      case True
      then show ?thesis using collect [of i j] ij by simp
    next
      case False
      with that have "x \<in> set available" unfolding sh(1) by blast
      then show ?thesis using "1.prems"(2) S by (auto simp: nth_append)
    qed
    then have "\<exists>res. greedy_loop (remove_at i (remove_at j available) @ [length ops]) (ops @ [?new]) (sets @ [set ?new])
        (add_labels_to_counts (set ?new) (remove_labels_from_counts (sets ! (available ! j))
          (remove_labels_from_counts (sets ! (available ! i)) counts))) d
        (pairs @ [(available ! i, available ! j)]) = Ok res"
      by (intro "1.IH" [OF True b refl refl refl refl refl refl refl refl refl inv])
    then show ?thesis using True b by (subst greedy_loop.simps) (simp add: Let_def)
  qed
qed

lemma greedy_initial:
  "greedy_inv out [0..<length ops] ops (build_operand_label_sets ops)
    (build_needed_label_counts out [0..<length ops] (build_operand_label_sets ops))"
  unfolding greedy_inv_def build_operand_label_sets_def
  by (intro conjI allI greedy_initial_counts) auto

lemma greedy_live_path:
  assumes "optimize_self_greedy_pairs subs d = Ok pairs" and "0 < length (sb_inputs subs)"
  shows "live_path (length (sb_inputs subs)) pairs"
  using greedy_loop_path_ok [OF assms(1) [unfolded optimize_self_greedy_pairs_def Let_def]] assms(2)
  by (auto simp: live_path_def atLeast0LessThan)

lemma greedy_total:
  assumes "build_size_dict subs shapes None = Ok d"
  shows "\<exists>pairs. optimize_self_greedy_pairs subs d = Ok pairs"
  unfolding optimize_self_greedy_pairs_def Let_def
proof (rule greedy_loop_total [OF greedy_initial])
  fix x assume "x \<in> set [0..<length (sb_inputs subs)]"
  then have "sb_inputs subs ! x \<in> set (sb_inputs subs)" by simp
  then show "set (sb_inputs subs ! x) \<subseteq> dom d" using build_size_dict_Ok(3) [OF assms] by blast
qed

section \<open>Walking a tree\<close>

text \<open>The live operands after a path, and the path of a subtree inside a longer one.\<close>

fun live_after :: "nat set \<Rightarrow> nat \<Rightarrow> path \<Rightarrow> nat set" where
  "live_after live next_idx [] = live"
| "live_after live next_idx ((l, r) # pairs) = live_after (insert next_idx (live - {l, r})) (Suc next_idx) pairs"

lemma path_ok_append:
  "path_ok S m (p @ q) \<longleftrightarrow> path_ok S m p \<and> path_ok (live_after S m p) (m + length p) q"
  by (induction S m p rule: path_ok.induct) auto

lemma live_after_append: "live_after S m (p @ q) = live_after (live_after S m p) (m + length p) q"
  by (induction S m p rule: live_after.induct) auto

text \<open>A subtree whose leaves are live consumes them and leaves its result, a live operand.\<close>

definition consumes :: "nat set \<Rightarrow> nat \<Rightarrow> nat list \<Rightarrow> path \<Rightarrow> nat \<Rightarrow> bool" where
  "consumes S m ls new res \<longleftrightarrow>
    path_ok S m new \<and> Suc (length new) = length ls \<and>
    live_after S m new = insert res (S - set ls) \<and> res \<notin> S - set ls \<and> res < m + length new"

lemma consumes_leaf: "i \<in> S \<Longrightarrow> S \<subseteq> {..<m} \<Longrightarrow> consumes S m [i] [] i"
  by (auto simp: consumes_def)

lemma consumes_join:
  assumes a: "consumes S m ls p l" and b: "consumes (insert l (S - set ls)) (m + length p) rs q r"
    and d: "l \<notin> set rs" "set ls \<inter> set rs = {}" and S: "set rs \<subseteq> S" "S \<subseteq> {..<m}"
  shows "consumes S m (ls @ rs) (p @ q @ [(l, r)]) (m + length (p @ q))"
proof -
  let ?T = "insert r (insert l (S - set ls) - set rs)"
  have T: "live_after S m (p @ q) = ?T" and r: "r \<notin> insert l (S - set ls) - set rs"
    and r_less: "r < m + length p + length q" and l_less: "l < m + length p"
    using a b by (auto simp: consumes_def live_after_append)
  have lT: "l \<in> ?T" "l \<noteq> r" using d(1) r by auto
  have rest: "?T - {l, r} = S - set (ls @ rs)"
    using r d a by (auto simp: consumes_def)
  have "path_ok S m ((p @ q) @ [(l, r)])"
    unfolding path_ok_append T using a b lT by (simp add: consumes_def path_ok_append)
  moreover have "live_after S m ((p @ q) @ [(l, r)]) = insert (m + length (p @ q)) (S - set (ls @ rs))"
    unfolding live_after_append [of S m "p @ q"] T using rest by simp
  moreover have "m + length (p @ q) \<notin> S" using S(2) by auto
  moreover have "Suc (length ((p @ q) @ [(l, r)])) = length (ls @ rs)"
    using a b by (simp add: consumes_def)
  ultimately show ?thesis by (simp add: consumes_def)
qed

lemma consumes_live_path:
  assumes "consumes {..<n} n ls new res" and "mset ls = mset [0..<n]"
  shows "live_path n new"
proof -
  have "length ls = n" using assms(2) mset_eq_length [of ls "[0..<n]"] by simp
  then show ?thesis using assms(1) by (auto simp: consumes_def live_path_def)
qed

lemma perm_upt: "mset ls = mset [0..<n] \<Longrightarrow> distinct ls \<and> set ls = {..<n}"
  by (metis atLeast0LessThan distinct_upt mset_eq_imp_distinct_iff mset_eq_setD set_upt)

fun omeco_leaves :: "omeco_tree \<Rightarrow> nat list" where
  "omeco_leaves (OmecoLeaf i) = [i]"
| "omeco_leaves (OmecoNode args) = concat (map omeco_leaves args)"

lemma consumes_bound: "consumes S m ls p l \<Longrightarrow> S \<subseteq> {..<m} \<Longrightarrow> insert l (S - set ls) \<subseteq> {..<m + length p}"
  by (auto simp: consumes_def)

lemma consumes_fresh: "consumes S m ls p l \<Longrightarrow> set rs \<subseteq> S \<Longrightarrow> set ls \<inter> set rs = {} \<Longrightarrow> l \<notin> set rs"
  by (auto simp: consumes_def)

lemma omeco_walk:
  "nested_to_pairs t m pairs = Ok (res, m', pairs') \<Longrightarrow> distinct (omeco_leaves t) \<Longrightarrow>
    set (omeco_leaves t) \<subseteq> S \<Longrightarrow> S \<subseteq> {..<m} \<Longrightarrow>
    \<exists>new. pairs' = pairs @ new \<and> m' = m + length new \<and> consumes S m (omeco_leaves t) new res"
proof (induction t m pairs arbitrary: res m' pairs' S rule: nested_to_pairs.induct)
  case (1 i m pairs)
  then show ?case using consumes_leaf [of i S m] by auto
next
  case (2 lt rt m pairs)
  from "2.prems"(1) obtain l m1 p1 r m2 p2 where
    lt: "nested_to_pairs lt m pairs = Ok (l, m1, p1)" and rt: "nested_to_pairs rt m1 p1 = Ok (r, m2, p2)"
    and res: "res = m2" "m' = m2 + 1" "pairs' = p2 @ [(l, r)]" by auto
  from "2.IH"(1) [OF lt, of S] "2.prems" obtain p where
    p: "p1 = pairs @ p" "m1 = m + length p" "consumes S m (omeco_leaves lt) p l" by auto
  have sep: "set (omeco_leaves lt) \<inter> set (omeco_leaves rt) = {}" "set (omeco_leaves rt) \<subseteq> S"
    using "2.prems" by auto
  have "set (omeco_leaves rt) \<subseteq> insert l (S - set (omeco_leaves lt))" using sep by blast
  from "2.IH"(2) [OF rt _ this] consumes_bound [OF p(3) "2.prems"(4)] "2.prems"(2) p(2)
  obtain q where q: "p2 = p1 @ q" "m2 = m1 + length q"
    "consumes (insert l (S - set (omeco_leaves lt))) m1 (omeco_leaves rt) q r" by auto
  from consumes_join [OF p(3) q(3) [unfolded p(2)] consumes_fresh [OF p(3) sep(2,1)] sep(1,2) "2.prems"(4)]
  show ?case using p q res by (intro exI [of _ "p @ q @ [(l, r)]"]) (simp add: add.assoc)
qed auto

lemma omeco_live_path:
  assumes "nested_to_pairs t n [] = Ok (res, m', pairs)" and "mset (omeco_leaves t) = mset [0..<n]"
  shows "live_path n pairs"
  using omeco_walk [OF assms(1), of "{..<n}"] perm_upt [OF assms(2)] consumes_live_path assms(2) by force

section \<open>Walking parenthesised notation\<close>

fun no_empty_node :: "nested_einsum \<Rightarrow> bool" where
  "no_empty_node (Leaf i) = True"
| "no_empty_node (Node sb cs) \<longleftrightarrow> cs \<noteq> [] \<and> (\<forall>c \<in> set cs. no_empty_node c)"

lemma nested_walk:
  "walk_nested t n pairs m = Ok (res, pairs', m') \<Longrightarrow> distinct (leaves t) \<Longrightarrow> set (leaves t) \<subseteq> S \<Longrightarrow>
    S \<subseteq> {..<m} \<Longrightarrow>
    \<exists>new. pairs' = pairs @ new \<and> m' = m + length new \<and> consumes S m (leaves t) new res"
  and rest_walk:
  "walk_rest ts n pairs m acc = Ok (res, pairs', m') \<Longrightarrow> distinct (concat (map leaves ts)) \<Longrightarrow>
    set (concat (map leaves ts)) \<subseteq> S \<Longrightarrow> S \<subseteq> {..<m} \<Longrightarrow> acc \<in> S \<Longrightarrow> acc \<notin> set (concat (map leaves ts)) \<Longrightarrow>
    \<exists>new. pairs' = pairs @ new \<and> m' = m + length new \<and> consumes S m (acc # concat (map leaves ts)) new res"
proof (induction t n pairs m and ts n pairs m acc arbitrary: res pairs' m' S and res pairs' m' S
    rule: walk_nested_walk_rest.induct)
  case (1 i n pairs m)
  then show ?case using consumes_leaf [of i S m] by (auto split: if_splits)
next
  case (2 sb n pairs m)
  then show ?case by simp
next
  case (3 sb c cs n pairs m)
  from "3.prems"(1) obtain r p1 m1 where c: "walk_nested c n pairs m = Ok (r, p1, m1)"
    and cs: "walk_rest cs n p1 m1 r = Ok (res, pairs', m')" by auto
  from "3.IH"(1) [OF c, of S] "3.prems" obtain p where
    p: "p1 = pairs @ p" "m1 = m + length p" "consumes S m (leaves c) p r" by auto
  let ?rest = "concat (map leaves cs)"
  have sep: "set (leaves c) \<inter> set ?rest = {}" "set ?rest \<subseteq> S" "distinct ?rest" using "3.prems" by auto
  have sub: "set ?rest \<subseteq> insert r (S - set (leaves c))" using sep by blast
  from "3.IH"(2) [OF c refl refl cs sep(3) sub] consumes_bound [OF p(3) "3.prems"(4)] p(2)
    consumes_fresh [OF p(3) sep(2,1)]
  obtain q where q: "pairs' = p1 @ q" "m' = m1 + length q"
    "consumes (insert r (S - set (leaves c))) m1 (r # ?rest) q res" by auto
  have "consumes S m (leaves c @ ?rest) (p @ q) res"
    using p(3) q(3) p(2) sep consumes_fresh [OF p(3) sep(2,1)]
    by (auto simp: consumes_def path_ok_append live_after_append)
  then show ?case using p q by (intro exI [of _ "p @ q"]) simp
next
  case (4 n pairs m acc)
  then show ?case using consumes_leaf [of acc S m] by auto
next
  case (5 c cs n pairs m acc)
  from "5.prems"(1) obtain ch p1 m1 where c: "walk_nested c n pairs m = Ok (ch, p1, m1)"
    and cs: "walk_rest cs n (p1 @ [(acc, ch)]) (m1 + 1) m1 = Ok (res, pairs', m')" by auto
  let ?rest = "concat (map leaves cs)"
  have sep: "set (leaves c) \<inter> set ?rest = {}" "set ?rest \<subseteq> S" "distinct ?rest" "acc \<notin> set (leaves c)" "acc \<notin> set ?rest"
    "set (leaves c) \<subseteq> S"
    using "5.prems" by auto
  have "insert acc (S - set [acc]) = S" using "5.prems"(5) by auto
  then have here: "consumes S m [acc] [] acc" using consumes_leaf [OF "5.prems"(5,4)] by simp
  from "5.IH"(1) [OF c, of S] "5.prems" obtain p where
    p: "p1 = pairs @ p" "m1 = m + length p" "consumes S m (leaves c) p ch" by auto
  have p': "consumes (insert acc (S - set [acc])) (m + length []) (leaves c) p ch"
    using p(3) \<open>insert acc (S - set [acc]) = S\<close> by simp
  have "consumes S m ([acc] @ leaves c) ([] @ p @ [(acc, ch)]) (m + length ([] @ p))"
    by (rule consumes_join [OF here p']) (use sep "5.prems"(4) in auto)
  then have j: "consumes S m (acc # leaves c) (p @ [(acc, ch)]) m1" by (simp add: p(2))
  have sep': "set (acc # leaves c) \<inter> set ?rest = {}" using sep by auto
  have sub: "set ?rest \<subseteq> insert m1 (S - set (acc # leaves c))" using sep by auto
  from "5.IH"(2) [OF c refl refl cs sep(3) sub] consumes_bound [OF j "5.prems"(4)] p(2)
    consumes_fresh [OF j sep(2) sep']
  obtain q where q: "pairs' = (p1 @ [(acc, ch)]) @ q" "m' = Suc m1 + length q"
    "consumes (insert m1 (S - set (acc # leaves c))) (Suc m1) (m1 # ?rest) q res" by auto
  have "consumes S m ((acc # leaves c) @ ?rest) ((p @ [(acc, ch)]) @ q) res"
    using j q(3) p(2) sep' sep consumes_fresh [OF j sep(2) sep']
    by (auto simp: consumes_def path_ok_append live_after_append)
  then show ?case using p q by (intro exI [of _ "(p @ [(acc, ch)]) @ q"]) simp
qed

lemma walk_total:
  "no_empty_node t \<Longrightarrow> set (leaves t) \<subseteq> {..<n} \<Longrightarrow> \<exists>res. walk_nested t n pairs m = Ok res"
  and walk_rest_total:
  "\<forall>c \<in> set ts. no_empty_node c \<Longrightarrow> set (concat (map leaves ts)) \<subseteq> {..<n} \<Longrightarrow>
    \<exists>res. walk_rest ts n pairs m acc = Ok res"
proof (induction t n pairs m and ts n pairs m acc rule: walk_nested_walk_rest.induct)
  case (3 sb c cs n pairs m)
  from "3.IH"(1) "3.prems" obtain r p1 m1 where c: "walk_nested c n pairs m = Ok (r, p1, m1)" by fastforce
  with "3.IH"(2) [OF c refl refl] "3.prems" show ?case by fastforce
next
  case (5 c cs n pairs m acc)
  from "5.IH"(1) "5.prems" obtain r p1 m1 where c: "walk_nested c n pairs m = Ok (r, p1, m1)" by fastforce
  with "5.IH"(2) [OF c refl refl] "5.prems" show ?case by fastforce
qed auto

lemma nested_live_path:
  assumes "nested_to_v1_pairs t n = Ok pairs" and "mset (leaves t) = mset [0..<n]"
  shows "live_path n pairs"
proof -
  from assms(1) obtain res m' where "walk_nested t n [] n = Ok (res, pairs, m')"
    by (auto simp: nested_to_v1_pairs_def split: if_splits)
  from nested_walk [OF this, of "{..<n}"] perm_upt [OF assms(2)] consumes_live_path assms(2)
  show ?thesis by force
qed

lemma nested_total:
  assumes "mset (leaves t) = mset [0..<n]" and "no_empty_node t" and "0 < n"
  shows "\<exists>pairs. nested_to_v1_pairs t n = Ok pairs \<and> live_path n pairs"
proof -
  note perm = perm_upt [OF assms(1)]
  from walk_total [OF assms(2), of n "[]" n] perm obtain res pairs m' where
    w: "walk_nested t n [] n = Ok (res, pairs, m')" by fastforce
  from nested_walk [OF w, of "{..<n}"] perm have "res < m'" by (auto simp: consumes_def)
  then have "nested_to_v1_pairs t n = Ok pairs" using w assms(3) by (simp add: nested_to_v1_pairs_def)
  with nested_live_path [OF this assms(1)] show ?thesis by blast
qed

text \<open>Parsed notation has no empty group.\<close>

lemma parse_group_no_empty:
  "parse_group s outer out k = Ok (t, k') \<Longrightarrow> no_empty_node t"
  and parse_items_no_empty:
  "parse_items items outer idx rest k = Ok (cs, ins, k') \<Longrightarrow> \<forall>c \<in> set cs. no_empty_node c"
proof (induction s outer out k and items outer idx rest k arbitrary: t k' and cs ins k'
    rule: parse_group_parse_items.induct)
  case (1 s outer out k)
  from "1.prems" obtain items cs ins where items: "split_top_level s = Ok items"
    and p: "parse_items items outer 0 items k = Ok (cs, ins, k')"
    and t: "t = Node \<lparr>sb_inputs = ins, sb_output = out\<rparr> cs"
    by (auto split: prod.splits)
  have "length cs = length items" using parse_items_correct [OF p] by simp
  then have "cs \<noteq> []" using split_top_level_not_Nil [OF items] by auto
  then show ?case using "1.IH" [OF items p] t by auto
next
  case (3 items outer idx item rest k)
  show ?case
  proof (cases "is_group item")
    case True
    let ?inner = "strip_parens item"
    from "3.prems"(1) True obtain gl sib child c1 cs1 ins1 where
      gl: "collect_labels_in_order ?inner = Ok gl"
      and sib: "collect_sibling_labels items idx = Ok sib"
      and child: "parse_group ?inner (set (group_output outer sib gl)) (group_output outer sib gl) k = Ok (child, c1)"
      and tl: "parse_items items outer (idx + 1) rest c1 = Ok (cs1, ins1, k')"
      and cs: "cs = child # cs1" "ins = group_output outer sib gl # ins1"
      by (auto simp: Let_def split: prod.splits)
    have "no_empty_node child" by (rule "3.IH"(1) [OF True refl gl sib refl child])
    moreover have "\<forall>c \<in> set cs1. no_empty_node c"
      by (rule "3.IH"(2) [OF True refl gl sib refl child refl tl])
    ultimately show ?thesis by (simp add: cs)
  next
    case False
    from "3.prems"(1) False obtain labels cs1 ins1 where
      l: "traverse char_to_label item = Ok labels"
      and tl: "parse_items items outer (idx + 1) rest (k + 1) = Ok (cs1, ins1, k')"
      and cs: "cs = Leaf k # cs1" "ins = labels # ins1"
      by (auto split: prod.splits)
    show ?thesis using "3.IH"(3) [OF False l tl] by (auto simp: cs)
  qed
qed simp

lemma nested_parse_no_empty: "nested_parse n = Ok t \<Longrightarrow> no_empty_node t"
  by (auto simp: nested_parse_def simp del: parse_group.simps
      split: prod.splits if_splits dest!: parse_group_no_empty)

section \<open>The contract of a path source\<close>

text \<open>
  A source has some number of inputs and may fail; where its precondition holds, what it returns
  is a live path.  A client may then rely on validation, on \<open>from_pairs\<close> and on the last
  result standing for every input.
\<close>

locale path_source =
  fixes produce :: "'s \<Rightarrow> path eres" and inputs :: "'s \<Rightarrow> nat" and pre :: "'s \<Rightarrow> bool"
  assumes live: "produce s = Ok pairs \<Longrightarrow> pre s \<Longrightarrow> 0 < inputs s \<Longrightarrow> live_path (inputs s) pairs"
begin

lemma validated: "produce s = Ok pairs \<Longrightarrow> pre s \<Longrightarrow> 0 < inputs s \<Longrightarrow> validate_fixed_pairs pairs (inputs s) = Ok ()"
  using live by (simp add: validate_fixed_pairs_iff)

lemma covers: "produce s = Ok pairs \<Longrightarrow> pre s \<Longrightarrow> 0 < inputs s \<Longrightarrow>
    operand_leaves (inputs s) pairs ! (inputs s + length pairs - 1) = {..<inputs s}"
  using live live_path_covers by blast

lemma accepted:
  assumes "produce s = Ok pairs" "pre s" and n: "inputs s = length (sb_inputs subs)" "sb_inputs subs \<noteq> []"
    and "shapes_fit (sb_inputs subs) shapes" "set (sb_output subs) \<subseteq> \<Union> (set ` set (sb_inputs subs))"
  shows "(\<exists>tree. from_pairs subs shapes pairs = Ok tree) \<or>
    (\<exists>ds. from_pairs subs shapes pairs = Err (Planning (Product_Overflow ds)))"
proof -
  have "live_path (length (sb_inputs subs)) pairs" using live [OF assms(1,2)] n by simp
  then show ?thesis using assms by (intro from_pairs_total)
qed

end

interpretation jax: path_source "\<lambda>(path, n). jax_path_to_v1_pairs path n" snd "\<lambda>_. True"
  by unfold_locales (auto intro: jax_live_path)

interpretation greedy: path_source "\<lambda>(subs, d). optimize_self_greedy_pairs subs d"
    "\<lambda>(subs, d). length (sb_inputs subs)" "\<lambda>_. True"
  by unfold_locales (auto intro!: greedy_live_path)

interpretation nested: path_source "\<lambda>(t, n). nested_to_v1_pairs t n" snd "\<lambda>(t, n). mset (leaves t) = mset [0..<n]"
  by unfold_locales (auto intro: nested_live_path)

interpretation omeco: path_source "\<lambda>(t, n). and_then (nested_to_pairs t n []) (\<lambda>(_, _, pairs). Ok pairs)"
    snd "\<lambda>(t, n). mset (omeco_leaves t) = mset [0..<n]"
  by unfold_locales (auto intro: omeco_live_path simp del: mset_upt)

section \<open>Resolving a plan specification\<close>

lemma left_to_right_fold:
  "\<forall>p \<in> set jax. p = (0, 1) \<Longrightarrow> length jax < length positions \<Longrightarrow>
    \<exists>st. try_fold (jax_step n) (positions, acc) (enum_from k jax) = Ok st"
proof (induction jax arbitrary: positions acc k)
  case (Cons p jax)
  have "jax_step n (positions, acc) (k, p) =
      Ok (remove_at 0 (remove_at 1 positions) @ [n + k], acc @ [(positions ! 0, positions ! 1)])"
    using Cons.prems by (auto simp: jax_step_def Let_def)
  moreover have "length jax < length (remove_at 0 (remove_at 1 positions) @ [n + k])"
    using Cons.prems(2) by (simp add: length_remove_at)
  ultimately show ?case using Cons.IH Cons.prems(1) by simp
qed simp

lemma left_to_right_total: "\<exists>pairs. left_to_right_pairs n = Ok pairs"
proof (cases "n \<le> 1")
  case False
  let ?jax = "map (\<lambda>_. (0, 1)) [0..<n - 1]"
  have "\<exists>st. try_fold (jax_step n) ([0..<n], []) (enum_from 0 ?jax) = Ok st"
    using False by (intro left_to_right_fold) auto
  then obtain pos pairs where "try_fold (jax_step n) ([0..<n], []) (enum_from 0 ?jax) = Ok (pos, pairs)" by auto
  moreover have "length ?jax = saturating_sub n 1" using False by (simp add: saturating_sub_def)
  ultimately have "jax_path_to_v1_pairs ?jax n = Ok pairs"
    unfolding jax_path_to_v1_pairs_def Let_def zip_upt_enum by simp
  then show ?thesis using False by (simp add: left_to_right_pairs_def)
qed (simp add: left_to_right_pairs_def)

lemma left_to_right_live: "left_to_right_pairs n = Ok pairs \<Longrightarrow> 0 < n \<Longrightarrow> live_path n pairs"
proof (cases "n \<le> 1")
  case True
  assume "left_to_right_pairs n = Ok pairs" "0 < n"
  then have "pairs = []" "n = 1" using True by (auto simp: left_to_right_pairs_def)
  then show ?thesis by (simp add: live_path_def)
qed (auto simp: left_to_right_pairs_def intro: jax_live_path)

interpretation left_to_right: path_source left_to_right_pairs "\<lambda>n. n" "\<lambda>_. True"
  by unfold_locales (rule left_to_right_live)

text \<open>What the planner relies on of the external optimiser: it returns a binary tree over every input once.\<close>

fun omeco_binary :: "omeco_tree \<Rightarrow> bool" where
  "omeco_binary (OmecoLeaf i) = True"
| "omeco_binary (OmecoNode args) \<longleftrightarrow> length args = 2 \<and> list_all omeco_binary args"

definition omeco_contract :: "omeco \<Rightarrow> bool" where
  "omeco_contract omeco \<longleftrightarrow> (\<forall>subs d opts t. omeco subs d opts = Some t \<longrightarrow>
    omeco_binary t \<and> mset (omeco_leaves t) = mset [0..<length (sb_inputs subs)])"

lemma omeco_total: "omeco_binary t \<Longrightarrow> \<exists>res. nested_to_pairs t m pairs = Ok res"
proof (induction t m pairs rule: nested_to_pairs.induct)
  case (2 l r m pairs)
  then obtain a b c where "nested_to_pairs l m pairs = Ok (a, b, c)" by fastforce
  with 2 show ?case by fastforce
qed auto

lemma optimize_with_options_total:
  assumes "omeco_contract omeco" and opts: "options_validate opts = Ok ()" and n: "sb_inputs subs \<noteq> []"
    and fit: "shapes_fit (sb_inputs subs) shapes" and out: "set (sb_output subs) \<subseteq> \<Union> (set ` set (sb_inputs subs))"
  shows "(\<exists>tree. optimize_with_options omeco subs shapes opts = Ok tree) \<or>
    (\<exists>ds. optimize_with_options omeco subs shapes opts = Err (Planning (Product_Overflow ds)))"
proof -
  let ?n = "length (sb_inputs subs)"
  note total = from_pairs_total [OF _ fit out]
  have "0 < ?n" using n by simp
  then consider "?n = 1" | "?n = 2" | "2 < ?n" by linarith
  then show ?thesis
  proof cases
    case 1
    then have "live_path ?n []" by (simp add: live_path_def)
    from total [OF this] 1 opts show ?thesis by (simp add: optimize_with_options_def Let_def)
  next
    case 2
    then have "live_path ?n [(0, 1)]" by (simp add: live_path_def)
    from total [OF this] 2 opts show ?thesis by (simp add: optimize_with_options_def Let_def)
  next
    case 3
    obtain d where d: "build_size_dict subs shapes None = Ok d" using build_size_dict_total [OF fit] by blast
    obtain pairs where p: "live_path ?n pairs"
      and eq: "and_then (optimize_omeco_pairs omeco subs d opts) (\<lambda>omeco_pairs.
        and_then (case omeco_pairs of Some pairs \<Rightarrow> Ok pairs | None \<Rightarrow> optimize_self_greedy_pairs subs d) (\<lambda>pairs.
          from_pairs subs shapes pairs)) = from_pairs subs shapes pairs"
    proof (cases "omeco subs d opts")
      case None
      obtain pairs where g: "optimize_self_greedy_pairs subs d = Ok pairs" using greedy_total [OF d] by blast
      moreover have "live_path ?n pairs" using greedy_live_path [OF g] n by simp
      ultimately show ?thesis using that None by (simp add: optimize_omeco_pairs_def)
    next
      case (Some t)
      then have t: "omeco_binary t" "mset (omeco_leaves t) = mset [0..<?n]"
        using assms(1) unfolding omeco_contract_def by blast+
      from omeco_total [OF t(1), of ?n "[]"] obtain r m pairs where w: "nested_to_pairs t ?n [] = Ok (r, m, pairs)"
        by auto
      from that [of pairs] omeco_live_path [OF w t(2)] w Some show ?thesis by (simp add: optimize_omeco_pairs_def)
    qed
    have big: "\<not> ?n \<le> 1" "?n \<noteq> 2" using 3 by auto
    have "optimize_with_options omeco subs shapes opts = from_pairs subs shapes pairs"
      unfolding optimize_with_options_def Let_def opts and_then_Inr if_not_P [OF big(1)] if_not_P [OF big(2)] d
      by (rule eq)
    with total [OF p] show ?thesis by simp
  qed
qed

lemma resolve_plan_spec_total:
  assumes spec: "plan_spec_from_optimize opt subs = Ok plan" and "omeco_contract omeco"
    and n: "sb_inputs subs \<noteq> []" and fit: "shapes_fit (sb_inputs subs) shapes"
    and out: "set (sb_output subs) \<subseteq> \<Union> (set ` set (sb_inputs subs))"
  shows "(\<exists>tree. resolve_plan_spec omeco plan subs shapes = Ok tree) \<or>
    (\<exists>ds. resolve_plan_spec omeco plan subs shapes = Err (Planning (Product_Overflow ds)))"
proof (cases opt)
  case (Opt_Auto options)
  then have "plan = Spec_Auto options" "options_validate options = Ok ()"
    using spec by (auto simp: plan_spec_from_optimize_def)
  then show ?thesis using optimize_with_options_total [OF assms(2) _ n fit out] by (simp add: resolve_plan_spec_def)
next
  case Opt_False
  then have plan: "plan = Left_To_Right" using spec by (simp add: plan_spec_from_optimize_def)
  obtain pairs where p: "left_to_right_pairs (length (sb_inputs subs)) = Ok pairs" using left_to_right_total by blast
  from left_to_right.accepted [OF p _ _ n fit out] p plan show ?thesis by (simp add: resolve_plan_spec_def)
next
  case (Opt_Nested t)
  then obtain pairs where plan: "plan = Fixed_Pairs pairs"
    and v: "validate_fixed_pairs pairs (length (sb_inputs subs)) = Ok ()"
    using spec by (auto simp: plan_spec_from_optimize_def)
  from from_pairs_total [OF _ fit out] v plan show ?thesis
    by (simp add: validate_fixed_pairs_iff resolve_plan_spec_def)
next
  case (Opt_Path path)
  then obtain pairs where plan: "plan = Spec_Path path"
    and p: "jax_path_to_v1_pairs path (length (sb_inputs subs)) = Ok pairs"
    using spec by (auto simp: plan_spec_from_optimize_def)
  from jax.accepted [of "(path, length (sb_inputs subs))" pairs subs shapes] p plan n fit out show ?thesis
    by (simp add: resolve_plan_spec_def)
next
  case (Opt_Tree tree)
  then show ?thesis using spec by (simp add: plan_spec_from_optimize_def)
qed

section \<open>Plan identity\<close>

lemma concat_pairs_inject:
  "length ps = length qs \<Longrightarrow>
    concat (map (\<lambda>(l, r). [Write_Usize l, Write_Usize r]) ps) = concat (map (\<lambda>(l, r). [Write_Usize l, Write_Usize r]) qs) \<longleftrightarrow>
    ps = qs"
  by (induction ps qs rule: list_induct2) (auto split: prod.splits)

lemma hash_pairs_inject: "hash_pairs p = hash_pairs q \<longleftrightarrow> p = q"
  using concat_pairs_inject [of p q] by (auto simp: hash_pairs_def)

lemma f64_slices_iff: "f64_slices_equal_by_bits xs ys \<longleftrightarrow> xs = ys"
proof -
  have "length xs = length ys \<Longrightarrow> list_all (\<lambda>(l, r). l = r) (zip xs ys) \<longleftrightarrow> xs = ys"
    by (induction xs ys rule: list_induct2) auto
  then show ?thesis by (auto simp: f64_slices_equal_by_bits_def)
qed

lemma optimizer_options_iff: "optimizer_options_equal_by_bits a b \<longleftrightarrow> a = b"
  by (auto simp: optimizer_options_equal_by_bits_def f64_slices_iff score_functions_equal_by_bits_def
      intro!: optimizer_options.equality score_function.equality)

lemma hash_optimizer_options_inject: "hash_optimizer_options a = hash_optimizer_options b \<longleftrightarrow> a = b"
proof
  assume h: "hash_optimizer_options a = hash_optimizer_options b"
  then have len: "length (oo_betas a) = length (oo_betas b)" by (simp add: hash_optimizer_options_def)
  have inj: "map Write_U64 xs = map Write_U64 ys \<longleftrightarrow> xs = ys" for xs ys
    by (intro inj_map_eq_map) (simp add: inj_def)
  from h len have "oo_betas a = oo_betas b" "oo_ntrials a = oo_ntrials b" "oo_niters a = oo_niters b"
    "score_functions_equal_by_bits (oo_score a) (oo_score b)"
    by (auto simp: hash_optimizer_options_def inj score_functions_equal_by_bits_def)
  then show "a = b" by (simp add: optimizer_options_equal_by_bits_def f64_slices_iff flip: optimizer_options_iff)
qed simp

lemma plan_specs_equal_iff: "plan_specs_equal a b \<longleftrightarrow> a = b"
  by (cases "(a, b)" rule: plan_specs_equal.cases) (simp_all add: optimizer_options_iff)

lemma hash_plan_spec_inject: "hash_einsum_plan_spec a = hash_einsum_plan_spec b \<longleftrightarrow> a = b"
  by (cases a; cases b) (simp_all add: hash_pairs_inject hash_optimizer_options_inject)

end
