(* ===== verification/Einsum_Theorems.thy ===== *)
theory Einsum_Theorems
  imports Einsum_Path_Sources "HOL-Library.Code_Target_Numeral"
begin

text \<open>
  What \<open>crates/tenferro-einsum\<close> promises before any tensor is touched: the notation parsers
  accept exactly the documented grammar, ellipses and sizes resolve exactly when the shapes fit,
  every step of a plan classifies its labels correctly and keeps exactly the labels the rest of
  the expression needs, and every way of choosing an order leads to a plan that resolves.
\<close>

lemma is_okE: "is_ok r \<Longrightarrow> \<exists>a. r = Ok a"
  by (simp add: is_ok_iff)

section \<open>Notation\<close>

text \<open>C31: The two flat parsers accept exactly the printed forms of expressions whose labels are not
  reserved characters (and, with ellipses, whose terms hold at most one), and return the expression
  that was printed: parsing and printing are inverse in both directions.\<close>

theorem notation_grammar_exact:
  "(notation_parse s = Ok n \<longleftrightarrow> s = print_notation n \<and> printable_notation n) \<and>
   (subscripts_parse s = Ok f \<longleftrightarrow> s = print_subscripts f \<and> printable_subscripts f)"
  by (simp add: notation_parse_iff subscripts_parse_iff)

text \<open>C16: Parsing parenthesised notation loses nothing: printing the tree gives the notation back,
  its leaves number the operands from left to right, every group keeps exactly the labels that its
  surroundings need, and the tree walks into a path that \<open>validate_fixed_pairs\<close> accepts.\<close>

theorem nested_parse_faithful:
  assumes "nested_parse s = Ok t"
  shows "print_nested t = s \<and> leaves t = [0..<count_leaves t] \<and>
    (\<exists>sb cs. t = Node sb cs \<and> keeps_needed (set (sb_output sb)) t) \<and>
    (\<exists>pairs. nested_to_v1_pairs t (count_leaves t) = Ok pairs \<and>
      validate_fixed_pairs pairs (count_leaves t) = Ok ())"
proof -
  have "mset (leaves t) = mset [0..<count_leaves t]"
    by (simp only: nested_parse_correct(2) [OF assms, symmetric])
  from nested_total [OF this nested_parse_no_empty [OF assms] nested_parse_correct(3) [OF assms]]
  show ?thesis
    using nested_parse_correct [OF assms] by (simp add: validate_fixed_pairs_iff)
qed

theorem nested_parse_faithful_witness:
  "\<exists>t. nested_parse (chars ''(ij,jk),kl->il'') = Ok t \<and> print_nested t = chars ''(ij,jk),kl->il''"
proof -
  have "is_ok (nested_parse (chars ''(ij,jk),kl->il''))" by code_simp
  from is_okE [OF this] obtain t where t: "nested_parse (chars ''(ij,jk),kl->il'') = Ok t" by blast
  from nested_parse_faithful [OF t] t show ?thesis by blast
qed

section \<open>Ellipses and sizes\<close>

text \<open>C20: Ellipsis resolution succeeds exactly when the ranks fit, the output mentions an ellipsis
  exactly when it has to, and the sizes of every label agree up to broadcasting. The result replaces
  each ellipsis by trailing fresh labels, right-aligned, that are distinct and occur nowhere in the
  canonical notation, which is itself an injective renaming of the labels written.\<close>

theorem ellipsis_resolution_exact:
  assumes "notation_labels n0 \<subseteq> {..u32_max}"
  shows "(\<exists>\<rho>. inj_on \<rho> (notation_labels n0) \<and> canonicalize_ellipsis_labels n0 = rename_notation \<rho> n0) \<and>
    (resolve_einsum_notation n0 shapes = Ok r \<longleftrightarrow>
      (\<exists>F. fresh_labels (\<Union> (explicit_labels ` set (en_inputs (canonicalize_ellipsis_labels n0))))
            (largest_covered_rank (en_inputs (canonicalize_ellipsis_labels n0)) shapes) = Ok F \<and>
        distinct F \<and> set F \<inter> (\<Union> (explicit_labels ` set (en_inputs (canonicalize_ellipsis_labels n0)))) = {} \<and>
        resolvable (canonicalize_ellipsis_labels n0) shapes F \<and>
        r = \<lparr>sb_inputs = expanded_inputs F (en_inputs (canonicalize_ellipsis_labels n0)) shapes,
             sb_output = expand_output (en_output (canonicalize_ellipsis_labels n0)) F\<rparr>))"
  unfolding resolve_einsum_notation_iff
  using canonicalize_is_renaming [OF assms] fresh_labels_correct(2,3) by blast

theorem ellipsis_resolution_exact_witness:
  "\<exists>r F. resolve_einsum_notation
      \<lparr>en_inputs = [[Ellipsis, Label 7], [Label 7]], en_output = [Ellipsis]\<rparr> [[2, 3], [3]] = Ok r \<and> distinct F \<and>
    r = \<lparr>sb_inputs = expanded_inputs F [[Ellipsis, Label 0], [Label 0]] [[2, 3], [3]],
         sb_output = expand_output [Ellipsis] F\<rparr>"
proof -
  let ?n = "\<lparr>en_inputs = [[Ellipsis, Label 7], [Label 7]], en_output = [Ellipsis]\<rparr>"
  have "is_ok (resolve_einsum_notation ?n [[2, 3], [3]])" by code_simp
  from is_okE [OF this] obtain r where r: "resolve_einsum_notation ?n [[2, 3], [3]] = Ok r" by blast
  have c: "canonicalize_ellipsis_labels ?n =
      \<lparr>en_inputs = [[Ellipsis, Label 0], [Label 0]], en_output = [Ellipsis]\<rparr>" by code_simp
  have "notation_labels ?n \<subseteq> {..u32_max}"
    by (auto simp: notation_labels_def u32_max_def)
  from ellipsis_resolution_exact [OF this, of "[[2, 3], [3]]" r] r show ?thesis unfolding c by auto
qed

text \<open>C35: \<open>build_size_dict\<close> accepts exactly the shapes whose ranks match their subscripts and whose
  label sizes agree, within a term exactly and across terms up to broadcasting of extent one. It then maps
  exactly the labels of the inputs, each to the size it occurs with that all its other occurrences either
  have too or broadcast to, being one. That is not always the largest: an empty axis wins over extent one.\<close>

theorem size_dict_exact:
  "((\<exists>d. build_size_dict subs shapes None = Ok d) \<longleftrightarrow> shapes_fit (sb_inputs subs) shapes) \<and>
   (\<forall>d. build_size_dict subs shapes None = Ok d \<longrightarrow>
     dom d = \<Union> (set ` set (sb_inputs subs)) \<and>
     (\<forall>l n. d l = Some n \<longleftrightarrow> (l, n) \<in> shape_occurrences (sb_inputs subs) shapes \<and>
       (\<forall>k. (l, k) \<in> shape_occurrences (sb_inputs subs) shapes \<longrightarrow> k = n \<or> k = 1)))"
  unfolding merged_sizes_def [symmetric] using build_size_dict_Ok build_size_dict_total by blast

theorem size_dict_exact_witness:
  "\<exists>d. build_size_dict \<lparr>sb_inputs = [[0, 1], [1]], sb_output = [0]\<rparr> [[2, 0], [1]] None = Ok d \<and> dom d = {0, 1} \<and>
    d 1 = Some 0"
proof -
  let ?s = "\<lparr>sb_inputs = [[0, 1], [1]], sb_output = [0]\<rparr> :: subscripts"
  have "is_ok (build_size_dict ?s [[2, 0], [1]] None)" by code_simp
  from is_okE [OF this] obtain d where d: "build_size_dict ?s [[2, 0], [1]] None = Ok d" by blast
  have occ: "shape_occurrences (sb_inputs ?s) [[2, 0], [1]] = {(0, 2), (1, 0), (1, 1)}"
    by (auto simp: shape_occurrences_def term_sizes_def)
  note e = size_dict_exact [of ?s "[[2, 0], [1]]", unfolded occ, THEN conjunct2, rule_format, OF d]
  have "dom d = {0, 1}" using conjunct1 [OF e] by auto
  moreover have "d 1 = Some 0" using spec [OF spec [OF conjunct2 [OF e]], of 1 0] by auto
  ultimately have "dom d = {0, 1} \<and> d 1 = Some 0" by blast
  with d show ?thesis by blast
qed

section \<open>Steps\<close>

text \<open>C36: Repeated labels of one operand are planned away in diagonal stages: there are none exactly
  when the labels are distinct, and otherwise the stages chain from the operand's labels to a distinct
  list of the same labels, each stage pairing axes of equal labels at most once.\<close>

theorem diag_plan_correct:
  "(compute_diag_plan subs = None \<longleftrightarrow> distinct subs) \<and>
   (\<forall>d. compute_diag_plan subs = Some d \<longrightarrow>
     distinct (dp_result_subs d) \<and> set (dp_result_subs d) = set subs \<and>
     stage_chain subs (dp_stages d) (dp_result_subs d))"
  using compute_diag_plan_correct by blast

theorem diag_plan_correct_witness:
  "\<exists>d. compute_diag_plan [5, 5, 7, 5] = Some d \<and> stage_chain [5, 5, 7, 5] (dp_stages d) (dp_result_subs d)"
  using diag_plan_correct [of "[5, 5, 7, 5]"] by (cases "compute_diag_plan [5, 5, 7, 5]") simp_all

lemma step_plan_sizes:
  assumes "compile_pairwise_step_plan a b c d = Ok p"
  defines "g \<equiv> st_gemm p"
  shows "gp_lo_sizes g = map (\<lambda>l. the (d l)) (gp_lo_modes g)" and "gp_ro_sizes g = map (\<lambda>l. the (d l)) (gp_ro_modes g)"
    and "gp_sum_sizes g = map (\<lambda>l. the (d l)) (gp_sum_modes g)" and "gp_batch_sizes g = map (\<lambda>l. the (d l)) (plan_batch_modes g)"
    and "compute_reduce_plan (effective_subs a) (effective_subs b) c d = Ok (gp_reduce_a g)"
    and "compute_reduce_plan (effective_subs b) (effective_subs a) c d = Ok (gp_reduce_b g)"
proof -
  obtain ra rb where
    ra: "compute_reduce_plan (effective_subs a) (effective_subs b) c d = Ok ra" and
    rb: "compute_reduce_plan (effective_subs b) (effective_subs a) c d = Ok rb"
    using assms(1) by (auto simp: compile_pairwise_step_plan_def Let_def effective_subs_def)
  let ?ea = "case ra of Some r \<Rightarrow> rp_kept_subs r | None \<Rightarrow> effective_subs a"
  let ?eb = "case rb of Some r \<Rightarrow> rp_kept_subs r | None \<Rightarrow> effective_subs b"
  obtain bm lm rm sm where cl: "classify_modes ?ea ?eb c = (bm, lm, rm, sm)" by (rule prod_cases4)
  from assms(1) obtain bs los ros ss m n k strict where
    sizes: "traverse (index_map d) bm = Ok bs" "traverse (index_map d) lm = Ok los"
      "traverse (index_map d) rm = Ok ros" "traverse (index_map d) sm = Ok ss"
    and p: "\<lparr>st_diag_a = compute_diag_plan a, st_diag_b = compute_diag_plan b, st_strict_binary = strict,
      st_gemm = gemm_plan_of ra rb ?ea ?eb c bm lm rm sm bs los ros ss m n k\<rparr> = p"
    unfolding compile_pairwise_step_plan_def Let_def effective_subs_def [symmetric] ra rb and_then_Inr cl
      split_conv and_then_eq_Inr sum.inject by blast
  have "g = gemm_plan_of ra rb ?ea ?eb c bm lm rm sm bs los ros ss m n k"
    unfolding g_def p [symmetric] by (rule step_plan.select_convs(4))
  note g = this [unfolded gemm_plan_of_def Let_def]
  show "gp_lo_sizes g = map (\<lambda>l. the (d l)) (gp_lo_modes g)" "gp_ro_sizes g = map (\<lambda>l. the (d l)) (gp_ro_modes g)"
    "gp_sum_sizes g = map (\<lambda>l. the (d l)) (gp_sum_modes g)" "gp_batch_sizes g = map (\<lambda>l. the (d l)) (plan_batch_modes g)"
    using sizes by (simp_all add: g traverse_index_Ok plan_batch_modes_def)
  show "compute_reduce_plan (effective_subs a) (effective_subs b) c d = Ok (gp_reduce_a g)"
    "compute_reduce_plan (effective_subs b) (effective_subs a) c d = Ok (gp_reduce_b g)"
    using ra rb by (simp_all add: g)
qed

text \<open>A reduction plan drops the labels no one else needs, and is left out when there are none.\<close>

definition reduces_to :: "reduce_plan option \<Rightarrow> size_dict \<Rightarrow> label set \<Rightarrow> label set \<Rightarrow> label list \<Rightarrow> bool" where
  "reduces_to r d own needed kept \<longleftrightarrow> (r = None \<longleftrightarrow> own \<subseteq> needed) \<and>
    (\<forall>q. r = Some q \<longrightarrow> set (rp_original_subs q) = own \<and> rp_kept_subs q = kept \<and> rp_out_shape q = map (\<lambda>l. the (d l)) kept)"

lemma step_plan_reduces:
  assumes "compute_reduce_plan (effective_subs a) (effective_subs b) c d = Ok r"
    and "kept = filter (\<lambda>l. l \<in> set b \<or> l \<in> set c) (effective_subs a)"
  shows "reduces_to r d (set a) (set b \<union> set c) kept"
  using compute_reduce_plan_kept [OF assms(1)] assms(2) unfolding reduces_to_def
  by (auto simp: effective_subs_correct)

text \<open>C24: The plan of a pairwise step is a batched matrix product. With the rows \<open>lo\<close> (labels of the first
  operand and the result), the columns \<open>ro\<close> (of the second operand and the result), the summed labels (of both
  operands and not the result) and the batch (of all three), the first operand is laid out as
  \<open>lo, sum, batch\<close> and given the matrix shape \<open>[m, k, batch]\<close>, the second as \<open>sum, ro, batch\<close> with shape
  \<open>[k, n, batch]\<close>, and the product of shape \<open>[m, n, batch]\<close> is expanded to \<open>lo, ro, batch\<close>; \<open>m\<close>, \<open>n\<close> and
  \<open>k\<close> are the products of the extents of their groups. Labels that neither the other operand nor the result
  has are reduced first, and the result is permuted exactly when its labels are not in output order.\<close>

theorem gemm_step_plan_correct:
  assumes "compile_pairwise_step_plan a b c d = Ok p"
  defines "g \<equiv> st_gemm p" and "sizes \<equiv> map (\<lambda>l. the (d l))"
  shows "\<exists>batch. set batch = set a \<inter> set b \<inter> set c \<and>
    gp_target_a g = gp_lo_modes g @ gp_sum_modes g @ batch \<and>
    gp_target_b g = gp_sum_modes g @ gp_ro_modes g @ batch \<and>
    gp_canonical_modes g = gp_lo_modes g @ gp_ro_modes g @ batch \<and>
    mset (gp_target_a g) = mset (gp_subs_a g) \<and> mset (gp_target_b g) = mset (gp_subs_b g) \<and>
    distinct (gp_target_a g) \<and> distinct (gp_target_b g) \<and> distinct (gp_canonical_modes g) \<and>
    set (gp_lo_modes g) = set a \<inter> set c - set b \<and>
    set (gp_ro_modes g) = set b \<inter> set c - set a \<and>
    set (gp_sum_modes g) = set a \<inter> set b - set c \<and>
    gp_m g = prod_list (sizes (gp_lo_modes g)) \<and> gp_n g = prod_list (sizes (gp_ro_modes g)) \<and>
    gp_k g = prod_list (sizes (gp_sum_modes g)) \<and>
    gp_lo_sizes g = sizes (gp_lo_modes g) \<and> gp_ro_sizes g = sizes (gp_ro_modes g) \<and>
    gp_sum_sizes g = sizes (gp_sum_modes g) \<and> gp_batch_sizes g = sizes batch \<and>
    gp_a_gemm_shape g = [gp_m g, gp_k g] @ sizes batch \<and>
    gp_b_gemm_shape g = [gp_k g, gp_n g] @ sizes batch \<and>
    gp_c_gemm_shape g = [gp_m g, gp_n g] @ sizes batch \<and>
    gp_expanded_shape g = sizes (gp_canonical_modes g) \<and>
    reduces_to (gp_reduce_a g) d (set a) (set b \<union> set c) (gp_subs_a g) \<and>
    reduces_to (gp_reduce_b g) d (set b) (set a \<union> set c) (gp_subs_b g) \<and>
    (gp_needs_final_permute g \<longleftrightarrow> gp_canonical_modes g \<noteq> c)"
proof -
  note part = plan_modes_partition [OF assms(1), folded g_def]
    and plan = compile_pairwise_step_plan_Ok [OF assms(1), folded g_def]
    and size = step_plan_sizes [OF assms(1), folded g_def]
  have "distinct (gp_target_a g)" "distinct (gp_target_b g)"
    using part(1-4) by (metis mset_eq_imp_distinct_iff)+
  moreover have "set (plan_batch_modes g) = set a \<inter> set b \<inter> set c" "set (gp_sum_modes g) = set a \<inter> set b - set c"
    "set (gp_lo_modes g) = set a \<inter> set c - set b" "set (gp_ro_modes g) = set b \<inter> set c - set a"
    unfolding plan(3-6) by (auto simp: effective_subs_correct)
  moreover have "reduces_to (gp_reduce_a g) d (set a) (set b \<union> set c) (gp_subs_a g)"
    by (rule step_plan_reduces [OF size(5) plan(1)])
  moreover have "reduces_to (gp_reduce_b g) d (set b) (set a \<union> set c) (gp_subs_b g)"
    by (rule step_plan_reduces [OF size(6) plan(2)])
  ultimately show ?thesis
    using part(1,2,5) plan(7-17) size(1-4) unfolding sizes_def by (intro exI [of _ "plan_batch_modes g"]) blast
qed

theorem gemm_step_plan_correct_witness:
  "\<exists>p. compile_pairwise_step_plan [0, 1, 3, 3] [1, 2] [2, 0] [0 \<mapsto> 2, 1 \<mapsto> 3, 2 \<mapsto> 4, 3 \<mapsto> 5] = Ok p \<and>
    set (gp_sum_modes (st_gemm p)) = {1} \<and>
    gp_target_a (st_gemm p) = gp_lo_modes (st_gemm p) @ gp_sum_modes (st_gemm p) \<and>
    gp_b_gemm_shape (st_gemm p) = [gp_k (st_gemm p), gp_n (st_gemm p)]"
proof -
  let ?d = "[0 \<mapsto> 2, 1 \<mapsto> 3, 2 \<mapsto> 4, 3 \<mapsto> 5] :: size_dict"
  have "is_ok (compile_pairwise_step_plan [0, 1, 3, 3] [1, 2] [2, 0] ?d)" by code_simp
  from is_okE [OF this] obtain p
    where p: "compile_pairwise_step_plan [0, 1, 3, 3] [1, 2] [2, 0] ?d = Ok p" by blast
  from gemm_step_plan_correct [OF p] obtain batch :: "label list" where
    "set batch = {}" "set (gp_sum_modes (st_gemm p)) = {1}"
    "gp_target_a (st_gemm p) = gp_lo_modes (st_gemm p) @ gp_sum_modes (st_gemm p) @ batch"
    "gp_b_gemm_shape (st_gemm p) = [gp_k (st_gemm p), gp_n (st_gemm p)] @ map (\<lambda>l. the (?d l)) batch" by auto
  with p show ?thesis by auto
qed



section \<open>Orders\<close>

text \<open>C33: \<open>validate_fixed_pairs\<close> accepts a path exactly when every pair contracts two different
  operands that are still live and one operand is left at the end.\<close>

theorem fixed_pairs_exact:
  "(validate_fixed_pairs pairs n = Ok () \<longleftrightarrow> live_path n pairs) \<and>
   (\<forall>tree. from_pairs subs shapes pairs = Ok tree \<longrightarrow>
      validate_fixed_pairs pairs (length (sb_inputs subs)) = Ok () \<and> tree_pairs tree = pairs)"
proof -
  have "tree_pairs tree = pairs" if "from_pairs subs shapes pairs = Ok tree" for tree
    unfolding tree_pairs_def step_count_def step_pair_def [abs_def] from_pairs_Ok(3) [OF that]
    by (simp add: map_filter_def) (rule nth_equalityI, simp_all add: get_def)
  then show ?thesis
    using from_pairs_Ok(1) by (simp add: validate_fixed_pairs_iff)
qed

theorem fixed_pairs_exact_witness:
  "\<exists>tree. from_pairs \<lparr>sb_inputs = [[0, 1], [1, 2], [2, 3]], sb_output = [0, 3]\<rparr> [[2, 3], [3, 4], [4, 5]] [(1, 2), (0, 3)]
      = Ok tree \<and> validate_fixed_pairs [(1, 2), (0, 3)] 3 = Ok () \<and> tree_pairs tree = [(1, 2), (0, 3)]"
proof -
  let ?s = "\<lparr>sb_inputs = [[0, 1], [1, 2], [2, 3]], sb_output = [0, 3]\<rparr> :: subscripts"
  have "is_ok (from_pairs ?s [[2, 3], [3, 4], [4, 5]] [(1, 2), (0, 3)])" by code_simp
  from is_okE [OF this] obtain tree
    where t: "from_pairs ?s [[2, 3], [3, 4], [4, 5]] [(1, 2), (0, 3)] = Ok tree" by blast
  with fixed_pairs_exact [of "[(1, 2), (0, 3)]" 3 ?s "[[2, 3], [3, 4], [4, 5]]"] show ?thesis
    by (simp add: eval_nat_numeral)
qed

text \<open>C7: In an accepted tree every step contracts operands that stand for disjoint sets of inputs,
  its intermediate keeps exactly the labels that the output or an input outside still needs, without
  repetition, and the last result stands for all inputs.\<close>

theorem tree_keeps_needed_labels:
  assumes "from_pairs subs shapes pairs = Ok tree"
  defines "n \<equiv> length (sb_inputs subs)" and "L \<equiv> operand_leaves (length (sb_inputs subs)) pairs"
  shows "(\<forall>k l r. step_pair tree k = Some (l, r) \<longrightarrow>
      l \<noteq> r \<and> l < n + k \<and> r < n + k \<and> L ! l \<inter> L ! r = {} \<and> L ! (n + k) = L ! l \<union> L ! r \<and>
      distinct (ct_operand_subs tree ! (n + k)) \<and>
      set (ct_operand_subs tree ! (n + k)) = kept_labels (sb_inputs subs) (sb_output subs) (L ! (n + k))) \<and>
    L ! (n + step_count tree - 1) = {..<n}"
proof -
  note tree = from_pairs_Ok [OF assms(1)]
  have "l \<noteq> r \<and> l < n + k \<and> r < n + k \<and> L ! l \<inter> L ! r = {} \<and> L ! (n + k) = L ! l \<union> L ! r \<and>
      distinct (ct_operand_subs tree ! (n + k)) \<and>
      set (ct_operand_subs tree ! (n + k)) = kept_labels (sb_inputs subs) (sb_output subs) (L ! (n + k))"
    if "step_pair tree k = Some (l, r)" for k l r
  proof -
    from that have k: "k < length pairs" "pairs ! k = (l, r)"
      by (simp_all add: step_pair_def tree(3) get_def split: if_splits)
    have "n + k < length (sb_inputs subs) + length pairs" using k(1) by (simp add: n_def)
    from ct_operand_labels(1,3) [OF assms(1) this] live_path_steps [OF tree(1) k] show ?thesis
      by (simp add: n_def L_def operand_labels_def)
  qed
  moreover have "L ! (n + step_count tree - 1) = {..<n}"
    using live_path_covers [OF tree(1)] by (simp add: n_def L_def step_count_def tree(3))
  ultimately show ?thesis by blast
qed

theorem tree_keeps_needed_labels_witness:
  "\<exists>tree. from_pairs \<lparr>sb_inputs = [[0, 1], [1, 2], [2, 3]], sb_output = [0, 3]\<rparr> [[2, 3], [3, 4], [4, 5]] [(1, 2), (0, 3)]
      = Ok tree \<and> set (ct_operand_subs tree ! 3) = {1, 3}"
proof -
  let ?s = "\<lparr>sb_inputs = [[0, 1], [1, 2], [2, 3]], sb_output = [0, 3]\<rparr> :: subscripts"
  have "is_ok (from_pairs ?s [[2, 3], [3, 4], [4, 5]] [(1, 2), (0, 3)])" by code_simp
  from is_okE [OF this] obtain tree
    where t: "from_pairs ?s [[2, 3], [3, 4], [4, 5]] [(1, 2), (0, 3)] = Ok tree" by blast
  have p: "step_pair tree 0 = Some (1, 2)" by (simp add: step_pair_def from_pairs_Ok(3) [OF t] get_def)
  have "set (ct_operand_subs tree ! 3) = kept_labels [[0, 1], [1, 2], [2, 3]] [0, 3] {1, 2}"
    using spec [OF spec [OF spec [OF conjunct1 [OF tree_keeps_needed_labels [OF t]]]], of 0 1 2] p
    by (simp add: operand_leaves_def upt_rec_numeral insert_commute eval_nat_numeral)
  also have "\<dots> = {1, 3}" by (simp add: kept_labels_def labels_of_def lessThan_Suc insert_Diff_if eval_nat_numeral)
  finally show ?thesis using t by blast
qed

text \<open>C12: Every plan that the API accepts resolves: whatever strategy was chosen (a path, nested
  notation, left to right, or an optimiser that returns binary trees over the operands), for at least one
  operand, fitting shapes and output labels that occur in the inputs a contraction tree is built, unless a
  matrix extent overflows \<open>usize\<close>.\<close>

theorem accepted_plans_resolve:
  assumes "plan_spec_from_optimize opt subs = Ok plan" and "omeco_contract omeco"
    and "sb_inputs subs \<noteq> []" and "shapes_fit (sb_inputs subs) shapes"
    and "set (sb_output subs) \<subseteq> \<Union> (set ` set (sb_inputs subs))"
  shows "(\<exists>tree. resolve_plan_spec omeco plan subs shapes = Ok tree \<and> ct_subscripts tree = subs) \<or>
    (\<exists>ds. resolve_plan_spec omeco plan subs shapes = Err (Planning (Product_Overflow ds)))"
proof -
  have "ct_subscripts tree = subs" if "resolve_plan_spec omeco plan subs shapes = Ok tree" for tree
    using that from_pairs_Ok(2)
    by (auto simp: resolve_plan_spec_def optimize_with_options_def Let_def split: plan_spec.splits if_splits)
  with resolve_plan_spec_total [OF assms] show ?thesis by blast
qed

definition omeco_example :: omeco where
  "omeco_example subs d opts =
    (if length (sb_inputs subs) = 3
     then Some (OmecoNode [OmecoLeaf 0, OmecoNode [OmecoLeaf 2, OmecoLeaf 1]]) else None)"

lemma omeco_example_contract: "omeco_contract omeco_example"
proof -
  have "mset [0..<3] = {#0, 2, 1 :: nat#}" by code_simp
  then show ?thesis
    by (auto simp: omeco_contract_def omeco_example_def simp del: mset_upt split: if_splits)
qed

theorem accepted_plans_resolve_witness:
  "\<exists>tree. resolve_plan_spec omeco_example (Spec_Auto (default_auto_options \<lparr>sf_tc_weight = 0,
        sf_sc_weight = 0, sf_rw_weight = 0, sf_sc_target = 0\<rparr>))
      \<lparr>sb_inputs = [[0, 1], [1, 2], [2, 3]], sb_output = [0, 3]\<rparr> [[2, 3], [3, 4], [4, 5]] = Ok tree \<and>
    sb_output (ct_subscripts tree) = [0, 3]"
proof -
  let ?s = "\<lparr>sb_inputs = [[0, 1], [1, 2], [2, 3]], sb_output = [0, 3]\<rparr> :: subscripts"
  let ?sh = "[[2, 3], [3, 4], [4, 5]] :: shape list"
  let ?o = "default_auto_options \<lparr>sf_tc_weight = 0, sf_sc_weight = 0, sf_rw_weight = 0, sf_sc_target = 0\<rparr>"
  have p: "plan_spec_from_optimize (Opt_Auto ?o) ?s = Ok (Spec_Auto ?o)" by code_simp
  have "is_ok (build_size_dict ?s ?sh None)" by code_simp
  then have f: "shapes_fit (sb_inputs ?s) ?sh" using is_okE build_size_dict_Ok(1) by blast
  have r: "is_ok (resolve_plan_spec omeco_example (Spec_Auto ?o) ?s ?sh)" by code_simp
  from accepted_plans_resolve [OF p omeco_example_contract _ f] is_okE [OF r]
  obtain tree where "resolve_plan_spec omeco_example (Spec_Auto ?o) ?s ?sh = Ok tree" "ct_subscripts tree = ?s"
    by auto
  then show ?thesis by auto
qed

definition result_elements :: "label list \<Rightarrow> nat list \<Rightarrow> label list list \<Rightarrow> size_dict \<Rightarrow> nat \<Rightarrow> nat \<Rightarrow> nat" where
  "result_elements out available ops d i j =
    (let l = available ! i; r = available ! j;
         kept = intermediate_subs (ops ! l) (ops ! r)
           (set out \<union> (\<Union>y \<in> set available - {l, r}. set (ops ! y))) in
     min (max (prod_list (map (\<lambda>c. the (d c)) kept)) 1) usize_max)"

lemma candidate_cost_result:
  assumes inv: "greedy_inv out available ops sets counts" and ij: "i < j" "j < length available"
    and d: "\<And>x. x \<in> set available \<Longrightarrow> set (ops ! x) \<subseteq> dom d"
  shows "candidate_contraction_cost (ops ! (available ! i)) (ops ! (available ! j)) (available ! i) (available ! j)
    sets counts d = Ok (result_elements out available ops d i j)"
proof -
  let ?l = "available ! i" and ?r = "available ! j"
  have m: "?l \<in> set available" "?r \<in> set available" "?l \<noteq> ?r"
    using inv ij by (auto simp: greedy_inv_def distinct_nth_neq)
  note sub = collect_candidate_eq [OF inv m]
  have "set (collect_candidate_intermediate_subs (ops ! ?l) (ops ! ?r) ?l ?r sets counts) \<subseteq> dom d"
    using d [OF m(1)] d [OF m(2)] unfolding sub intermediate_subs_set by blast
  from candidate_cost_eq [OF this] show ?thesis
    unfolding sub by (auto simp: result_elements_def Let_def saturating_mul_def min_def max_def usize_max_def)
qed

text \<open>C28: A round of the greedy fallback contracts a cheapest pair: the pair it picks is a pair of
  different live operands, and no other pair has an intermediate with fewer elements, where an
  intermediate keeps the labels that the output or another live operand mentions and its element
  count saturates at \<open>usize::MAX\<close>.\<close>

theorem greedy_picks_cheapest:
  assumes "greedy_inv out available ops sets counts" and "\<And>x. x \<in> set available \<Longrightarrow> set (ops ! x) \<subseteq> dom d"
    and "1 < length available" and "best_pair available ops sets counts d = Ok (i, j, c)"
  shows "i < j \<and> j < length available \<and> c = result_elements out available ops d i j \<and>
    (\<forall>a b. a < b \<and> b < length available \<longrightarrow> c \<le> result_elements out available ops d a b)"
proof -
  note cost = candidate_cost_result [OF assms(1) _ _ assms(2)]
  note range = best_pair_range [OF assms(4,3)]
  note best = best_fold_least [OF assms(4) [unfolded best_pair_def]]
  have least: "c \<le> result_elements out available ops d a b" if "a < b" "b < length available" for a b
  proof -
    have "(a, b) \<in> set (candidate_pairs (length available))" using that by (simp add: in_candidate_pairs)
    from bspec [OF conjunct1 [OF conjunct2 [OF best]] this] cost [OF that] show ?thesis by auto
  qed
  have "c = result_elements out available ops d i j"
  proof (cases "(i, j, c) = (0, 1, usize_max)")
    case True
    then have "usize_max \<le> result_elements out available ops d i j"
      using least [of i j] range by simp
    moreover have "result_elements out available ops d i j \<le> usize_max"
      by (simp add: result_elements_def Let_def)
    ultimately show ?thesis using True by simp
  next
    case False
    then show ?thesis using best cost [of i j] range by auto
  qed
  with range least show ?thesis by blast
qed

theorem greedy_picks_cheapest_witness:
  "\<exists>i j c. best_pair [0, 1, 2] [[0, 1], [1, 2], [2, 3]] (map set [[0, 1], [1, 2], [2, 3]])
      (build_needed_label_counts [0, 3] [0, 1, 2] (map set [[0, 1], [1, 2], [2, 3]]))
      [0 \<mapsto> 10, 1 \<mapsto> 2, 2 \<mapsto> 3, 3 \<mapsto> 4] = Ok (i, j, c) \<and>
    c \<le> result_elements [0, 3] [0, 1, 2] [[0, 1], [1, 2], [2, 3]] [0 \<mapsto> 10, 1 \<mapsto> 2, 2 \<mapsto> 3, 3 \<mapsto> 4] 1 2"
proof -
  let ?ops = "[[0, 1], [1, 2], [2, 3]] :: label list list"
  let ?d = "[0 \<mapsto> 10, 1 \<mapsto> 2, 2 \<mapsto> 3, 3 \<mapsto> 4] :: size_dict"
  let ?counts = "build_needed_label_counts [0, 3] [0, 1, 2] (map set ?ops)"
  have upt: "[0..<length ?ops] = [0, 1, 2]" by (simp add: upt_rec_numeral)
  have inv: "greedy_inv [0, 3] [0, 1, 2] ?ops (map set ?ops) ?counts"
    using greedy_initial [of "[0, 3]" ?ops] unfolding upt build_operand_label_sets_def .
  have "is_ok (best_pair [0, 1, 2] ?ops (map set ?ops) ?counts ?d)" by code_simp
  from is_okE [OF this] obtain i j c where b: "best_pair [0, 1, 2] ?ops (map set ?ops) ?counts ?d = Ok (i, j, c)"
    by auto
  have "set (?ops ! x) \<subseteq> dom ?d" if "x \<in> set [0, 1, 2]" for x using that by auto
  from greedy_picks_cheapest [OF inv this _ b] b show ?thesis by auto
qed

section \<open>Plan identity\<close>

text \<open>C39: Plans in cache keys are identified exactly: two plans are equal under the bitwise comparison
  exactly when they write the same sequence to the hasher, and exactly when they are the same plan.\<close>

theorem plan_identity_exact:
  "(plan_specs_equal a b \<longleftrightarrow> hash_einsum_plan_spec a = hash_einsum_plan_spec b) \<and>
   (plan_specs_equal a b \<longleftrightarrow> a = b)"
  by (simp add: plan_specs_equal_iff hash_plan_spec_inject)

end
