(* ===== verification/Tensor_Op.thy ===== *)
theory Tensor_Op
  imports Dim_Expr Shape_Rules
begin

text \<open>
  The operation vocabulary: the configurations of \<open>tenferro-tensor/src/config.rs\<close> with their
  validation, the operations \<open>StdTensorOp\<close> of \<open>tenferro-core-ops/src/catalog.rs\<close>, their arity
  (\<open>tenferro-internal-ops/src/std_tensor_op.rs\<close>), and the axis checks of
  \<open>tenferro-tensor/src/validate/mod.rs\<close> and \<open>backend.rs\<close>. The texts of error messages leave out the
  values the code formats into them.
\<close>

section \<open>Configurations\<close>

record dot_general_config =
  lhs_contracting_dims :: "nat list"
  rhs_contracting_dims :: "nat list"
  lhs_batch_dims :: "nat list"
  rhs_batch_dims :: "nat list"

datatype compare_dir = Cmp_Eq | Cmp_Lt | Cmp_Le | Cmp_Gt | Cmp_Ge

record gather_config =
  ga_offset_dims :: "nat list"
  ga_collapsed_slice_dims :: "nat list"
  ga_start_index_map :: "nat list"
  ga_index_vector_dim :: nat
  ga_slice_sizes :: "nat list"

record scatter_config =
  sc_update_window_dims :: "nat list"
  sc_inserted_window_dims :: "nat list"
  sc_scatter_dims_to_operand_dims :: "nat list"
  sc_index_vector_dim :: nat

record slice_config =
  sl_starts :: "nat list"
  sl_limits :: "nat list"
  sl_strides :: "nat list"

record pad_config =
  pa_edge_padding_low :: "int list"
  pa_edge_padding_high :: "int list"
  pa_interior_padding :: "int list"

datatype tensor_error = Tensor_Validation string validation_error | Tensor_Failure nat

type_synonym 'a tres = "tensor_error + 'a"

definition DOT_GENERAL_OP :: string where "DOT_GENERAL_OP = ''dot_general''"

definition invalid_dot_general_config :: "string \<Rightarrow> tensor_error" where
  "invalid_dot_general_config message =
    Tensor_Validation DOT_GENERAL_OP (InvalidArgument ''dot_general_config'' message)"

definition duplicate_step :: "string \<Rightarrow> nat set \<Rightarrow> nat \<Rightarrow> nat set tres" where
  "duplicate_step label seen d =
    (if d \<in> seen then Err (Tensor_Validation DOT_GENERAL_OP (DuplicateAxis d label)) else Ok (insert d seen))"

definition check_no_duplicates :: "nat list \<Rightarrow> string \<Rightarrow> unit tres" where
  "check_no_duplicates dims label = and_then (try_fold (duplicate_step label) {} dims) (\<lambda>_. Ok ())"

definition check_dims_in_rank :: "nat list \<Rightarrow> nat \<Rightarrow> unit tres" where
  "check_dims_in_rank dims rank =
    (case find (\<lambda>d. rank \<le> d) dims of
       Some d \<Rightarrow> Err (Tensor_Validation DOT_GENERAL_OP (AxisOutOfBounds d rank))
     | None \<Rightarrow> Ok ())"

definition check_roles :: "nat list \<Rightarrow> nat list \<Rightarrow> string \<Rightarrow> string \<Rightarrow> unit tres" where
  "check_roles contracting batch first second =
    (case find (\<lambda>d. d \<in> set batch) contracting of
       Some d \<Rightarrow> Err (Tensor_Validation DOT_GENERAL_OP (AxisRoleConflict d first second))
     | None \<Rightarrow> Ok ())"

definition validate_dims_with_ranks :: "dot_general_config \<Rightarrow> nat \<Rightarrow> nat \<Rightarrow> unit tres" where
  "validate_dims_with_ranks c lhs_rank rhs_rank =
    and_then (check_dims_in_rank (lhs_contracting_dims c) lhs_rank) (\<lambda>_.
    and_then (check_dims_in_rank (rhs_contracting_dims c) rhs_rank) (\<lambda>_.
    and_then (check_dims_in_rank (lhs_batch_dims c) lhs_rank) (\<lambda>_.
    and_then (check_dims_in_rank (rhs_batch_dims c) rhs_rank) (\<lambda>_.
    and_then (check_no_duplicates (lhs_contracting_dims c) ''lhs_contracting_dims'') (\<lambda>_.
    and_then (check_no_duplicates (rhs_contracting_dims c) ''rhs_contracting_dims'') (\<lambda>_.
    and_then (check_no_duplicates (lhs_batch_dims c) ''lhs_batch_dims'') (\<lambda>_.
    and_then (check_no_duplicates (rhs_batch_dims c) ''rhs_batch_dims'') (\<lambda>_.
    and_then (check_roles (lhs_contracting_dims c) (lhs_batch_dims c) ''lhs contracting'' ''lhs batch'') (\<lambda>_.
    and_then (check_roles (rhs_contracting_dims c) (rhs_batch_dims c) ''rhs contracting'' ''rhs batch'') (\<lambda>_.
      if length (lhs_contracting_dims c) \<noteq> length (rhs_contracting_dims c)
      then Err (invalid_dot_general_config ''lhs/rhs contracting dim counts differ'')
      else if length (lhs_batch_dims c) \<noteq> length (rhs_batch_dims c)
      then Err (invalid_dot_general_config ''lhs/rhs batch dim counts differ'')
      else Ok ()))))))))))"

section \<open>Operations\<close>

record extension_op =
  xo_family_id :: string
  xo_input_count :: nat
  xo_output_count :: nat
  xo_infer_output_meta ::
    "dtype shape_context \<Rightarrow> tensor_error + (dtype \<times> sym_dim list) list \<times> dtype shape_context"

datatype std_tensor_op =
    Op_Add | Op_Sub | Op_Mul | Op_Neg | Op_Conj
  | Op_DotGeneral dot_general_config
  | Op_Transpose "nat list"
  | Op_Reshape "dim_expr list"
  | Op_BroadcastInDim "dim_expr list" "nat list"
  | Op_Convert dtype dtype
  | Op_Constant dtype "nat list"
  | Op_ReduceSum "nat list"
  | Op_ReduceSumSquares "nat list"
  | Op_Div | Op_Rem | Op_Abs | Op_Sign | Op_Maximum | Op_Minimum
  | Op_Compare compare_dir
  | Op_Select | Op_Clamp
  | Op_Exp | Op_Log | Op_Sin | Op_Cos | Op_Tanh | Op_Sqrt | Op_Rsqrt | Op_Pow | Op_Expm1 | Op_Log1p
  | Op_ExtractDiag nat nat
  | Op_EmbedDiag nat nat
  | Op_Tril int
  | Op_Triu int
  | Op_Gather gather_config
  | Op_GatherDynamicSliceSizes "nat list" "nat list" "nat list" nat "dim_expr list"
  | Op_Scatter scatter_config
  | Op_Slice slice_config
  | Op_DynamicSlice "nat list"
  | Op_DynamicUpdateSlice
  | Op_Pad pad_config
  | Op_Concatenate nat nat
  | Op_Reverse "nat list"
  | Op_ShapeOf nat
  | Op_DynamicTruncate nat
  | Op_PadToMatch nat
  | Op_ReduceProd "nat list"
  | Op_ReduceMax "nat list"
  | Op_ReduceMin "nat list"
  | Op_Extension extension_op

definition n_inputs_from_dim_exprs :: "nat \<Rightarrow> dim_expr list list \<Rightarrow> nat" where
  "n_inputs_from_dim_exprs min_inputs exprs =
    max (case max_input_idx_all (concat exprs) of None \<Rightarrow> 0 | Some max_idx \<Rightarrow> max_idx + 1) min_inputs"

fun op_input_count :: "std_tensor_op \<Rightarrow> nat" where
  "op_input_count (Op_GatherDynamicSliceSizes _ _ _ _ slice_sizes) = n_inputs_from_dim_exprs 2 [slice_sizes]"
| "op_input_count (Op_Reshape to_shape) = n_inputs_from_dim_exprs 1 [to_shape]"
| "op_input_count (Op_BroadcastInDim shape _) = n_inputs_from_dim_exprs 1 [shape]"
| "op_input_count (Op_Concatenate _ input_count) = input_count"
| "op_input_count (Op_Extension op) = xo_input_count op"
| "op_input_count (Op_Constant _ _) = 0"
| "op_input_count (Op_Scatter _) = 3"
| "op_input_count Op_DynamicUpdateSlice = 3"
| "op_input_count Op_Select = 3"
| "op_input_count Op_Clamp = 3"
| "op_input_count Op_Add = 2"
| "op_input_count Op_Sub = 2"
| "op_input_count Op_Mul = 2"
| "op_input_count (Op_DotGeneral _) = 2"
| "op_input_count (Op_Gather _) = 2"
| "op_input_count (Op_DynamicTruncate _) = 2"
| "op_input_count (Op_PadToMatch _) = 2"
| "op_input_count Op_Div = 2"
| "op_input_count Op_Rem = 2"
| "op_input_count Op_Maximum = 2"
| "op_input_count Op_Minimum = 2"
| "op_input_count Op_Pow = 2"
| "op_input_count (Op_DynamicSlice _) = 2"
| "op_input_count (Op_Compare _) = 2"
| "op_input_count _ = 1"

fun op_output_count :: "std_tensor_op \<Rightarrow> nat" where
  "op_output_count (Op_Extension op) = xo_output_count op"
| "op_output_count _ = 1"

section \<open>Axis checks\<close>

definition validate_permutation_axes :: "string \<Rightarrow> nat \<Rightarrow> nat list \<Rightarrow> unit tres" where
  "validate_permutation_axes op rank perm =
    (if length perm \<noteq> rank then Err (Tensor_Validation op (RankMismatch rank (length perm)))
     else
       case try_fold (permutation_step rank ''permutation'') (replicate rank False) perm of
         Inl e \<Rightarrow> Err (Tensor_Validation op e)
       | Inr _ \<Rightarrow> Ok ())"

definition validate_unique_axes :: "string \<Rightarrow> string \<Rightarrow> nat \<Rightarrow> nat list \<Rightarrow> unit tres" where
  "validate_unique_axes op role rank axes =
    (case try_fold (permutation_step rank role) (replicate rank False) axes of
       Inl e \<Rightarrow> Err (Tensor_Validation op e)
     | Inr _ \<Rightarrow> Ok ())"

definition validate_axis_list :: "string \<Rightarrow> string \<Rightarrow> nat list \<Rightarrow> nat \<Rightarrow> unit tres" where
  "validate_axis_list op role axes rank =
    (case try_fold (permutation_step rank role) (replicate rank False) axes of
       Inl e \<Rightarrow> Err (Tensor_Validation op e)
     | Inr _ \<Rightarrow> Ok ())"

definition validate_role_disjoint :: "string \<Rightarrow> string \<Rightarrow> nat list \<Rightarrow> string \<Rightarrow> nat list \<Rightarrow> unit tres" where
  "validate_role_disjoint op first_role first_axes second_role second_axes =
    (case find (\<lambda>axis. axis \<in> set second_axes) first_axes of
       Some axis \<Rightarrow> Err (Tensor_Validation op (AxisRoleConflict axis first_role second_role))
     | None \<Rightarrow> Ok ())"

definition free_axes_of :: "nat \<Rightarrow> nat list \<Rightarrow> nat list \<Rightarrow> nat list" where
  "free_axes_of rank contracting batch =
    filter (\<lambda>axis. axis \<notin> set contracting \<and> axis \<notin> set batch) [0..<rank]"

definition check_paired_extents :: "string \<Rightarrow> shape \<Rightarrow> shape \<Rightarrow> (nat \<times> nat) list \<Rightarrow> unit tres" where
  "check_paired_extents op lhs_shape rhs_shape pairs =
    (case find (\<lambda>(l, r). lhs_shape ! l \<noteq> rhs_shape ! r) pairs of
       Some (l, r) \<Rightarrow> Err (Tensor_Validation op (ShapeMismatch
         (ContractedDimensions l (lhs_shape ! l) r (rhs_shape ! r))))
     | None \<Rightarrow> Ok ())"

definition dot_general_output_shape :: "shape \<Rightarrow> shape \<Rightarrow> dot_general_config \<Rightarrow> string \<Rightarrow> shape tres" where
  "dot_general_output_shape lhs_shape rhs_shape c op =
    (if length (lhs_contracting_dims c) \<noteq> length (rhs_contracting_dims c)
     then Err (Tensor_Validation op
       (InvalidArgument ''contracting_dims'' ''lhs/rhs contracting dim counts differ''))
     else if length (lhs_batch_dims c) \<noteq> length (rhs_batch_dims c)
     then Err (Tensor_Validation op (InvalidArgument ''batch_dims'' ''lhs/rhs batch dim counts differ''))
     else
       let lhs_rank = length lhs_shape; rhs_rank = length rhs_shape in
       and_then (validate_axis_list op ''lhs_contracting'' (lhs_contracting_dims c) lhs_rank) (\<lambda>_.
       and_then (validate_axis_list op ''rhs_contracting'' (rhs_contracting_dims c) rhs_rank) (\<lambda>_.
       and_then (validate_axis_list op ''lhs_batch'' (lhs_batch_dims c) lhs_rank) (\<lambda>_.
       and_then (validate_axis_list op ''rhs_batch'' (rhs_batch_dims c) rhs_rank) (\<lambda>_.
       and_then (validate_role_disjoint op ''lhs_contracting'' (lhs_contracting_dims c)
           ''lhs_batch'' (lhs_batch_dims c)) (\<lambda>_.
       and_then (validate_role_disjoint op ''rhs_contracting'' (rhs_contracting_dims c)
           ''rhs_batch'' (rhs_batch_dims c)) (\<lambda>_.
       and_then (check_paired_extents op lhs_shape rhs_shape
           (zip (lhs_contracting_dims c) (rhs_contracting_dims c))) (\<lambda>_.
       and_then (check_paired_extents op lhs_shape rhs_shape
           (zip (lhs_batch_dims c) (rhs_batch_dims c))) (\<lambda>_.
         Ok (map (\<lambda>a. lhs_shape ! a) (free_axes_of lhs_rank (lhs_contracting_dims c) (lhs_batch_dims c)) @
             map (\<lambda>a. rhs_shape ! a) (free_axes_of rhs_rank (rhs_contracting_dims c) (rhs_batch_dims c)) @
             map (\<lambda>a. lhs_shape ! a) (lhs_batch_dims c)))))))))))"

definition matmul_config_for_shapes :: "string \<Rightarrow> shape \<Rightarrow> shape \<Rightarrow> dot_general_config tres" where
  "matmul_config_for_shapes op lhs_shape rhs_shape =
    (if length lhs_shape \<noteq> 2 then Err (Tensor_Validation op (RankMismatch 2 (length lhs_shape)))
     else if length rhs_shape \<noteq> 2 then Err (Tensor_Validation op (RankMismatch 2 (length rhs_shape)))
     else if lhs_shape ! 1 \<noteq> rhs_shape ! 0
     then Err (Tensor_Validation op (ShapeMismatch (IncompatibleShapes lhs_shape rhs_shape)))
     else Ok \<lparr>lhs_contracting_dims = [1], rhs_contracting_dims = [0], lhs_batch_dims = [], rhs_batch_dims = []\<rparr>)"

end
