(* ===== verification/Shape_Infer.thy ===== *)
theory Shape_Infer
  imports Tensor_Op Shape_Solver
begin

text \<open>
  Output dtype and shape inference for operations (\<open>tenferro-runtime/src/shape_infer.rs\<close>) and the
  call of an extension's own inference (\<open>tenferro-internal-ops/src/ext_op.rs\<close>). Shapes are lists of
  dimension expressions over the inputs of the program being compiled.
\<close>

datatype error_phase = Graph_Build | Compile | Execution

datatype infer_error =
    Infer_Validation string error_phase validation_error
  | Infer_Unsupported string error_phase
  | Infer_Symbolic_Conversion string error_phase nat
  | Infer_Tensor tensor_error
  | Infer_Internal string

type_synonym 'a ires = "infer_error + 'a"

definition shape_infer_validation :: "validation_error \<Rightarrow> infer_error" where
  "shape_infer_validation source = Infer_Validation ''shape_infer'' Compile source"

definition shape_infer_invalid_argument :: "string \<Rightarrow> string \<Rightarrow> infer_error" where
  "shape_infer_invalid_argument argument message =
    Infer_Validation ''shape_infer'' Compile (InvalidArgument argument message)"

fun shape_infer_from_tensor_error :: "tensor_error \<Rightarrow> infer_error" where
  "shape_infer_from_tensor_error (Tensor_Validation _ source) = shape_infer_validation source"
| "shape_infer_from_tensor_error other = Infer_Tensor other"

definition map_err :: "('e \<Rightarrow> 'f) \<Rightarrow> 'e + 'a \<Rightarrow> 'f + 'a" where
  "map_err f r = (case r of Inl e \<Rightarrow> Inl (f e) | Inr a \<Rightarrow> Inr a)"

lemma map_err_simps [simp]: "map_err f (Inl e) = Inl (f e)" "map_err f (Inr a) = Inr a"
  by (simp_all add: map_err_def)

lemma map_err_eq_Inr [simp]: "map_err f r = Inr a \<longleftrightarrow> r = Inr a"
  by (cases r) simp_all

section \<open>Dtypes\<close>

fun promote_dtypes :: "dtype list \<Rightarrow> dtype" where
  "promote_dtypes [] = F64"
| "promote_dtypes (t # ts) = foldl promote t ts"

fun is_integer :: "dtype \<Rightarrow> bool" where
  "is_integer I32 = True"
| "is_integer I64 = True"
| "is_integer _ = False"

definition promote_dtype_div_like :: "dtype \<Rightarrow> dtype \<Rightarrow> dtype" where
  "promote_dtype_div_like lhs rhs = (if is_integer lhs \<and> is_integer rhs then F64 else promote lhs rhs)"

definition promote_dtype_pow_like :: "dtype \<Rightarrow> dtype \<Rightarrow> dtype" where
  "promote_dtype_pow_like lhs rhs = promote lhs rhs"

fun promote_dtype_for_binary_op :: "std_tensor_op \<Rightarrow> dtype \<Rightarrow> dtype \<Rightarrow> dtype" where
  "promote_dtype_for_binary_op Op_Pow lhs rhs = promote_dtype_pow_like lhs rhs"
| "promote_dtype_for_binary_op _ lhs rhs = promote lhs rhs"

fun is_complex_dtype :: "dtype \<Rightarrow> bool" where
  "is_complex_dtype C32 = True"
| "is_complex_dtype C64 = True"
| "is_complex_dtype _ = False"

fun ordered_dtype_op_name :: "std_tensor_op \<Rightarrow> string option" where
  "ordered_dtype_op_name (Op_Compare dir) = (if dir \<noteq> Cmp_Eq then Some ''Compare'' else None)"
| "ordered_dtype_op_name Op_Maximum = Some ''Maximum''"
| "ordered_dtype_op_name Op_Minimum = Some ''Minimum''"
| "ordered_dtype_op_name Op_Rem = Some ''Rem''"
| "ordered_dtype_op_name Op_Clamp = Some ''Clamp''"
| "ordered_dtype_op_name (Op_ReduceMax axes) = (if axes \<noteq> [] then Some ''ReduceMax'' else None)"
| "ordered_dtype_op_name (Op_ReduceMin axes) = (if axes \<noteq> [] then Some ''ReduceMin'' else None)"
| "ordered_dtype_op_name _ = None"

definition reject_complex_ordered_dtypes :: "std_tensor_op \<Rightarrow> dtype list \<Rightarrow> error_phase \<Rightarrow> unit ires" where
  "reject_complex_ordered_dtypes op input_dtypes phase =
    (case ordered_dtype_op_name op of
       None \<Rightarrow> Ok ()
     | Some op_name \<Rightarrow>
         if list_ex is_complex_dtype input_dtypes then Err (Infer_Unsupported op_name phase) else Ok ())"

definition dtype_input :: "dtype list \<Rightarrow> nat \<Rightarrow> error_phase \<Rightarrow> dtype ires" where
  "dtype_input input_dtypes index phase =
    ok_or (get input_dtypes index) (Infer_Validation ''shape_infer'' phase
      (InvalidArgument ''input_dtypes'' ''missing input dtype''))"

fun real_dtype_for_abs :: "dtype \<Rightarrow> dtype" where
  "real_dtype_for_abs C32 = F32"
| "real_dtype_for_abs C64 = F64"
| "real_dtype_for_abs other = other"

definition promote_inputs :: "dtype list \<Rightarrow> nat \<Rightarrow> nat \<Rightarrow> error_phase \<Rightarrow> dtype ires" where
  "promote_inputs input_dtypes i j phase =
    and_then (dtype_input input_dtypes i phase) (\<lambda>lhs.
    and_then (dtype_input input_dtypes j phase) (\<lambda>rhs. Ok (promote lhs rhs)))"

record extension_shape_inference =
  xi_output_metas :: "(dtype \<times> sym_dim list) list"
  xi_constraints :: "shape_constraint list"

definition invoke_extension_shape_inference ::
  "extension_op \<Rightarrow> dtype list \<Rightarrow> sym_dim list list \<Rightarrow> extension_shape_inference tres" where
  "invoke_extension_shape_inference op input_dtypes input_shapes =
    (let expected_inputs = xo_input_count op in
     if length input_dtypes \<noteq> expected_inputs \<or> length input_shapes \<noteq> expected_inputs
     then Err (Tensor_Validation ''extension'' (InvalidArgument ''input metadata'' ''wrong number of inputs''))
     else
       and_then (xo_infer_output_meta op (new_for_inference (xo_family_id op) input_dtypes input_shapes))
         (\<lambda>(output_metas, ctx).
           if length output_metas \<noteq> xo_output_count op
           then Err (Tensor_Validation ''extension'' (InvalidArgument ''output metadata'' ''wrong number of outputs''))
           else Ok \<lparr>xi_output_metas = output_metas, xi_constraints = ctx_constraints ctx\<rparr>))"

definition extension_first_output_dtype :: "extension_op \<Rightarrow> dtype list \<Rightarrow> dtype ires" where
  "extension_first_output_dtype op input_dtypes =
    and_then (map_err Infer_Tensor
        (invoke_extension_shape_inference op input_dtypes (replicate (xo_input_count op) []))) (\<lambda>inferred.
      ok_or (map_option fst (get (xi_output_metas inferred) 0)) (Infer_Internal (xo_family_id op)))"

fun infer_output_dtype_of :: "std_tensor_op \<Rightarrow> dtype list \<Rightarrow> error_phase \<Rightarrow> dtype ires" where
  "infer_output_dtype_of (Op_Constant dtype _) input_dtypes phase = Ok dtype"
| "infer_output_dtype_of (Op_Convert _ to) input_dtypes phase = Ok to"
| "infer_output_dtype_of (Op_Extension ext) input_dtypes phase = extension_first_output_dtype ext input_dtypes"
| "infer_output_dtype_of (Op_Compare _) input_dtypes phase = Ok BoolT"
| "infer_output_dtype_of Op_Abs input_dtypes phase =
    and_then (dtype_input input_dtypes 0 phase) (\<lambda>t. Ok (real_dtype_for_abs t))"
| "infer_output_dtype_of Op_Select input_dtypes phase = promote_inputs input_dtypes 1 2 phase"
| "infer_output_dtype_of Op_Clamp input_dtypes phase = Ok (promote_dtypes input_dtypes)"
| "infer_output_dtype_of Op_Add input_dtypes phase = promote_inputs input_dtypes 0 1 phase"
| "infer_output_dtype_of Op_Sub input_dtypes phase = promote_inputs input_dtypes 0 1 phase"
| "infer_output_dtype_of Op_Mul input_dtypes phase = promote_inputs input_dtypes 0 1 phase"
| "infer_output_dtype_of Op_Div input_dtypes phase = promote_inputs input_dtypes 0 1 phase"
| "infer_output_dtype_of Op_Rem input_dtypes phase = promote_inputs input_dtypes 0 1 phase"
| "infer_output_dtype_of Op_Maximum input_dtypes phase = promote_inputs input_dtypes 0 1 phase"
| "infer_output_dtype_of Op_Minimum input_dtypes phase = promote_inputs input_dtypes 0 1 phase"
| "infer_output_dtype_of (Op_DotGeneral _) input_dtypes phase = promote_inputs input_dtypes 0 1 phase"
| "infer_output_dtype_of (Op_Concatenate _ _) input_dtypes phase = promote_inputs input_dtypes 0 1 phase"
| "infer_output_dtype_of Op_Pow input_dtypes phase =
    and_then (dtype_input input_dtypes 0 phase) (\<lambda>lhs.
    and_then (dtype_input input_dtypes 1 phase) (\<lambda>rhs. Ok (promote_dtype_pow_like lhs rhs)))"
| "infer_output_dtype_of (Op_Scatter _) input_dtypes phase = promote_inputs input_dtypes 0 2 phase"
| "infer_output_dtype_of Op_DynamicUpdateSlice input_dtypes phase = promote_inputs input_dtypes 0 1 phase"
| "infer_output_dtype_of (Op_ShapeOf _) input_dtypes phase = Ok F64"
| "infer_output_dtype_of _ input_dtypes phase = dtype_input input_dtypes 0 phase"

definition infer_output_dtype_at :: "std_tensor_op \<Rightarrow> dtype list \<Rightarrow> error_phase \<Rightarrow> dtype ires" where
  "infer_output_dtype_at op input_dtypes phase =
    and_then (reject_complex_ordered_dtypes op input_dtypes phase) (\<lambda>_.
      infer_output_dtype_of op input_dtypes phase)"

definition infer_output_dtype :: "std_tensor_op \<Rightarrow> dtype list \<Rightarrow> dtype ires" where
  "infer_output_dtype op input_dtypes = infer_output_dtype_at op input_dtypes Compile"

section \<open>Dimension arithmetic\<close>

definition overflow_or_const :: "nat option \<Rightarrow> dim_expr ires" where
  "overflow_or_const v = and_then (ok_or v (shape_infer_validation IntegerOverflow)) (\<lambda>n. Ok (Const n))"

fun dim_add :: "dim_expr \<Rightarrow> dim_expr \<Rightarrow> dim_expr ires" where
  "dim_add (Const lhs) (Const rhs) = overflow_or_const (checked_add lhs rhs)"
| "dim_add lhs rhs = Ok (Add lhs rhs)"

fun dim_sub :: "dim_expr \<Rightarrow> dim_expr \<Rightarrow> dim_expr ires" where
  "dim_sub (Const lhs) (Const rhs) = overflow_or_const (checked_sub lhs rhs)"
| "dim_sub lhs rhs = Ok (Sub lhs rhs)"

fun dim_mul :: "dim_expr \<Rightarrow> dim_expr \<Rightarrow> dim_expr ires" where
  "dim_mul (Const lhs) (Const rhs) = overflow_or_const (checked_mul lhs rhs)"
| "dim_mul lhs rhs = Ok (Mul lhs rhs)"

fun dim_min :: "dim_expr \<Rightarrow> dim_expr \<Rightarrow> dim_expr" where
  "dim_min (Const lhs) (Const rhs) = Const (min lhs rhs)"
| "dim_min lhs rhs = Min lhs rhs"

fun dim_max :: "dim_expr \<Rightarrow> dim_expr \<Rightarrow> dim_expr" where
  "dim_max (Const lhs) (Const rhs) = Const (max lhs rhs)"
| "dim_max lhs rhs = Max lhs rhs"

definition usize_from_nonnegative_i64 :: "int \<Rightarrow> nat ires" where
  "usize_from_nonnegative_i64 v = ok_or (usize_try_from v) (shape_infer_validation IntegerOverflow)"

definition or_overflow :: "'a option \<Rightarrow> 'a ires" where
  "or_overflow v = ok_or v (shape_infer_validation IntegerOverflow)"

definition add_signed :: "dim_expr \<Rightarrow> int \<Rightarrow> dim_expr ires" where
  "add_signed e amount =
    (if 0 \<le> amount then and_then (usize_from_nonnegative_i64 amount) (\<lambda>n. dim_add e (Const n))
     else
       and_then (or_overflow (ichecked_neg amount)) (\<lambda>magnitude.
       and_then (usize_from_nonnegative_i64 magnitude) (\<lambda>n. dim_sub e (Const n))))"

definition signed_padding_sum :: "int \<Rightarrow> int \<Rightarrow> int ires" where
  "signed_padding_sum low high = or_overflow (ichecked_add low high)"

definition require_input_expr :: "dim_expr list list \<Rightarrow> nat \<Rightarrow> nat \<Rightarrow> dim_expr ires" where
  "require_input_expr input_shapes input_idx axis =
    ok_or (Option.bind (get input_shapes input_idx) (\<lambda>shape. get shape axis))
      (shape_infer_invalid_argument ''shape_expression'' ''InputDim cannot be resolved'')"

fun resolve_dim_expr_from_shapes :: "dim_expr \<Rightarrow> dim_expr list list \<Rightarrow> dim_expr ires" where
  "resolve_dim_expr_from_shapes (Const v) shapes = Ok (Const v)"
| "resolve_dim_expr_from_shapes (InputDim input_idx axis) shapes = require_input_expr shapes input_idx axis"
| "resolve_dim_expr_from_shapes (Add a b) shapes =
    and_then (resolve_dim_expr_from_shapes a shapes) (\<lambda>x.
    and_then (resolve_dim_expr_from_shapes b shapes) (\<lambda>y. dim_add x y))"
| "resolve_dim_expr_from_shapes (Sub a b) shapes =
    and_then (resolve_dim_expr_from_shapes a shapes) (\<lambda>x.
    and_then (resolve_dim_expr_from_shapes b shapes) (\<lambda>y. dim_sub x y))"
| "resolve_dim_expr_from_shapes (Mul a b) shapes =
    and_then (resolve_dim_expr_from_shapes a shapes) (\<lambda>x.
    and_then (resolve_dim_expr_from_shapes b shapes) (\<lambda>y. dim_mul x y))"
| "resolve_dim_expr_from_shapes (FloorDiv a b) shapes =
    seq2 FloorDiv (resolve_dim_expr_from_shapes a shapes) (resolve_dim_expr_from_shapes b shapes)"
| "resolve_dim_expr_from_shapes (Min a b) shapes =
    seq2 Min (resolve_dim_expr_from_shapes a shapes) (resolve_dim_expr_from_shapes b shapes)"
| "resolve_dim_expr_from_shapes (Max a b) shapes =
    seq2 Max (resolve_dim_expr_from_shapes a shapes) (resolve_dim_expr_from_shapes b shapes)"

section \<open>Shapes\<close>

definition require_input :: "dim_expr list list \<Rightarrow> nat \<Rightarrow> dim_expr list ires" where
  "require_input input_shapes idx =
    ok_or (get input_shapes idx) (shape_infer_invalid_argument ''input_shapes'' ''missing input shape'')"

definition permute_shape :: "dim_expr list \<Rightarrow> nat list \<Rightarrow> dim_expr list ires" where
  "permute_shape in_shape perm =
    and_then (map_err shape_infer_from_tensor_error
        (validate_permutation_axes ''transpose'' (length in_shape) perm)) (\<lambda>_.
      Ok (map (\<lambda>axis. in_shape ! axis) perm))"

definition validate_reduction_axes :: "dim_expr list \<Rightarrow> nat list \<Rightarrow> unit ires" where
  "validate_reduction_axes in_shape axes =
    map_err shape_infer_from_tensor_error
      (validate_unique_axes ''shape_infer_reduction'' ''reduction'' (length in_shape) axes)"

definition infer_reduced_shape :: "dim_expr list \<Rightarrow> nat list \<Rightarrow> dim_expr list ires" where
  "infer_reduced_shape in_shape axes =
    and_then (validate_reduction_axes in_shape axes) (\<lambda>_.
      Ok (map (\<lambda>axis. in_shape ! axis) (filter (\<lambda>axis. axis \<notin> set axes) [0..<length in_shape])))"

definition broadcast_aligned_dim :: "dim_expr list \<Rightarrow> nat \<Rightarrow> nat \<Rightarrow> dim_expr" where
  "broadcast_aligned_dim sh output_rank output_axis =
    (if output_axis < output_rank - length sh then Const 1
     else sh ! (output_axis - (output_rank - length sh)))"

definition broadcast_dim :: "dim_expr \<Rightarrow> dim_expr \<Rightarrow> dim_expr ires" where
  "broadcast_dim lhs rhs =
    (if lhs = rhs then Ok lhs
     else if lhs = Const 1 then Ok rhs
     else if rhs = Const 1 then Ok lhs
     else
       case (lhs, rhs) of
         (Const l, Const r) \<Rightarrow> Err (shape_infer_validation (ShapeMismatch (IncompatibleShapes [l] [r])))
       | _ \<Rightarrow> Ok (dim_max lhs rhs))"

definition same_or_scalar_broadcast_shape :: "dim_expr list \<Rightarrow> dim_expr list \<Rightarrow> dim_expr list ires" where
  "same_or_scalar_broadcast_shape lhs_shape rhs_shape =
    (let rank = max (length lhs_shape) (length rhs_shape) in
     traverse (\<lambda>axis. broadcast_dim (broadcast_aligned_dim lhs_shape rank axis)
       (broadcast_aligned_dim rhs_shape rank axis)) [0..<rank])"

definition extract_diag_shape :: "dim_expr list \<Rightarrow> nat \<Rightarrow> nat \<Rightarrow> dim_expr list ires" where
  "extract_diag_shape in_shape axis_a axis_b =
    (if length in_shape \<le> axis_a \<or> length in_shape \<le> axis_b
     then Err (shape_infer_validation (AxisOutOfBounds (max axis_a axis_b) (length in_shape)))
     else if axis_a = axis_b then Err (shape_infer_validation (DuplicateAxis axis_a ''diagonal''))
     else
       let diag_output_axis = (if axis_a < axis_b then axis_a else axis_a - 1);
           diag_dim = dim_min (in_shape ! axis_a) (in_shape ! axis_b) in
       Ok ((remove_at axis_b in_shape)[diag_output_axis := diag_dim]))"

definition embed_diag_shape :: "dim_expr list \<Rightarrow> nat \<Rightarrow> nat \<Rightarrow> dim_expr list ires" where
  "embed_diag_shape in_shape axis_a axis_b =
    (if length in_shape \<le> axis_a
     then Err (shape_infer_validation (AxisOutOfBounds axis_a (length in_shape)))
     else if length in_shape < axis_b
     then Err (shape_infer_invalid_argument ''axis_b'' ''axis out of bounds for insertion'')
     else Ok (insert_at axis_b (in_shape ! axis_a) in_shape))"

definition dot_general_shape :: "dim_expr list \<Rightarrow> dim_expr list \<Rightarrow> dot_general_config \<Rightarrow> dim_expr list ires" where
  "dot_general_shape lhs_shape rhs_shape c =
    (let lhs_rank = length lhs_shape; rhs_rank = length rhs_shape in
     and_then (map_err shape_infer_from_tensor_error (validate_dims_with_ranks c lhs_rank rhs_rank)) (\<lambda>_.
       Ok (map (\<lambda>axis. lhs_shape ! axis)
             (filter (\<lambda>axis. axis \<notin> set (lhs_contracting_dims c) \<and> axis \<notin> set (lhs_batch_dims c)) [0..<lhs_rank]) @
           map (\<lambda>axis. rhs_shape ! axis)
             (filter (\<lambda>axis. axis \<notin> set (rhs_contracting_dims c) \<and> axis \<notin> set (rhs_batch_dims c)) [0..<rhs_rank]) @
           map (\<lambda>axis. lhs_shape ! axis) (lhs_batch_dims c))))"

definition slice_size_too_large :: "dim_expr \<times> dim_expr \<Rightarrow> bool" where
  "slice_size_too_large p = (case p of (Const slice_size, Const dim_size) \<Rightarrow> dim_size < slice_size | _ \<Rightarrow> False)"

definition validate_gather_slice_sizes_within_operand :: "dim_expr list \<Rightarrow> dim_expr list \<Rightarrow> unit ires" where
  "validate_gather_slice_sizes_within_operand operand_shape slice_sizes =
    (case find slice_size_too_large (zip slice_sizes operand_shape) of
       Some (Const slice_size, Const dim_size) \<Rightarrow>
         Err (shape_infer_validation (ShapeMismatch (ExpectedActual [dim_size] [slice_size])))
     | _ \<Rightarrow> Ok ())"

definition ensure_unique_axes :: "string \<Rightarrow> string \<Rightarrow> nat list \<Rightarrow> unit ires" where
  "ensure_unique_axes op role axes =
    (case find (\<lambda>idx. axes ! idx \<in> set (take idx axes)) [0..<length axes] of
       Some idx \<Rightarrow> Err (Infer_Validation op Compile (DuplicateAxis (axes ! idx) role))
     | None \<Rightarrow> Ok ())"

definition window_step ::
  "nat list \<Rightarrow> nat \<Rightarrow> nat option list \<Rightarrow> nat \<times> nat \<Rightarrow> nat option list ires" where
  "window_step window_dims out_rank targets e = (case e of (offset_axis, out_axis) \<Rightarrow>
    if out_axis < length targets then Ok (targets[out_axis := Some (window_dims ! offset_axis)])
    else Err (shape_infer_validation (AxisOutOfBounds out_axis out_rank)))"

text \<open>The code indexes \<open>batch_shape\<close> with a running axis; a repeated or missing batch axis would panic.\<close>

fun place_axes :: "dim_expr list \<Rightarrow> dim_expr list \<Rightarrow> nat option list \<Rightarrow> dim_expr list ires" where
  "place_axes slice_sizes batch_shape [] = Ok []"
| "place_axes slice_sizes batch_shape (Some operand_dim # targets) =
    and_then (place_axes slice_sizes batch_shape targets) (\<lambda>out. Ok (slice_sizes ! operand_dim # out))"
| "place_axes slice_sizes [] (None # targets) = Err (Infer_Internal ''index out of bounds'')"
| "place_axes slice_sizes (b # batch_shape) (None # targets) =
    and_then (place_axes slice_sizes batch_shape targets) (\<lambda>out. Ok (b # out))"

definition gather_shape_from_slice_sizes ::
  "dim_expr list \<Rightarrow> dim_expr list \<Rightarrow> nat list \<Rightarrow> nat list \<Rightarrow> nat \<Rightarrow> dim_expr list \<Rightarrow> dim_expr list ires" where
  "gather_shape_from_slice_sizes operand_shape index_shape offset_dims collapsed_slice_dims
     index_vector_dim slice_sizes =
    (if length slice_sizes \<noteq> length operand_shape
     then Err (shape_infer_validation (RankMismatch (length operand_shape) (length slice_sizes)))
     else
       and_then (validate_gather_slice_sizes_within_operand operand_shape slice_sizes) (\<lambda>_.
       if length index_shape < index_vector_dim
       then Err (shape_infer_validation (AxisOutOfBounds index_vector_dim (length index_shape)))
       else
         and_then (ensure_unique_axes ''gather'' ''offset_dims'' offset_dims) (\<lambda>_.
         and_then (ensure_unique_axes ''gather'' ''collapsed_slice_dims'' collapsed_slice_dims) (\<lambda>_.
         case find (\<lambda>axis. length operand_shape \<le> axis) collapsed_slice_dims of
           Some axis \<Rightarrow> Err (shape_infer_validation (AxisOutOfBounds axis (length operand_shape)))
         | None \<Rightarrow>
             let batch_shape = (if index_vector_dim = length index_shape then index_shape
                   else remove_at index_vector_dim index_shape);
                 window_dims = filter (\<lambda>d. d \<notin> set collapsed_slice_dims) [0..<length operand_shape] in
             if length offset_dims \<noteq> length window_dims
             then Err (shape_infer_validation (RankMismatch (length window_dims) (length offset_dims)))
             else
               let out_rank = length batch_shape + length offset_dims in
               and_then (try_fold (window_step window_dims out_rank) (replicate out_rank None)
                   (zip [0..<length offset_dims] offset_dims)) (\<lambda>targets.
                 place_axes slice_sizes batch_shape targets)))))"

definition gather_shape :: "dim_expr list \<Rightarrow> dim_expr list \<Rightarrow> gather_config \<Rightarrow> dim_expr list ires" where
  "gather_shape operand_shape index_shape c =
    gather_shape_from_slice_sizes operand_shape index_shape (ga_offset_dims c) (ga_collapsed_slice_dims c)
      (ga_index_vector_dim c) (map Const (ga_slice_sizes c))"

definition div_ceil :: "nat \<Rightarrow> nat \<Rightarrow> nat" where
  "div_ceil a b = (if a mod b = 0 then a div b else a div b + 1)"

text \<open>\<open>as isize\<close> keeps the low 64 bits in two's complement.\<close>

definition as_isize :: "nat \<Rightarrow> int" where
  "as_isize n = (if int n \<le> isize_max then int n else int n - 2 ^ 64)"

definition slice_axis :: "slice_config \<Rightarrow> nat \<Rightarrow> dim_expr ires" where
  "slice_axis c axis =
    and_then (ok_or (checked_sub (sl_limits c ! axis) (sl_starts c ! axis))
        (shape_infer_validation (InvalidSliceBounds (as_isize (sl_starts c ! axis))
          (as_isize (sl_limits c ! axis)) usize_max))) (\<lambda>span.
      if sl_strides c ! axis = 0 then Err (shape_infer_validation (InvalidSliceStep 0))
      else Ok (Const (div_ceil span (sl_strides c ! axis))))"

definition slice_shape :: "dim_expr list \<Rightarrow> slice_config \<Rightarrow> dim_expr list ires" where
  "slice_shape in_shape c =
    (let rank = length in_shape in
     if length (sl_starts c) \<noteq> rank \<or> length (sl_limits c) \<noteq> rank \<or> length (sl_strides c) \<noteq> rank
     then Err (shape_infer_validation (RankMismatch rank (length (sl_starts c))))
     else traverse (slice_axis c) [0..<rank])"

definition pad_base :: "nat \<Rightarrow> int \<Rightarrow> int ires" where
  "pad_base extent interior =
    (if extent = 0 then Ok 0
     else
       and_then (or_overflow (isize_try_from extent)) (\<lambda>e.
       and_then (or_overflow (ichecked_add interior 1)) (\<lambda>stride.
         or_overflow (Option.bind (ichecked_add e (- 1)) (\<lambda>v.
           Option.bind (ichecked_mul v stride) (\<lambda>v. ichecked_add v 1))))))"

definition pad_axis :: "pad_config \<Rightarrow> nat \<times> dim_expr \<Rightarrow> dim_expr ires" where
  "pad_axis c e = (case e of (axis, dim) \<Rightarrow>
    let interior = pa_interior_padding c ! axis;
        low = pa_edge_padding_low c ! axis; high = pa_edge_padding_high c ! axis in
    if interior < 0 then Err (shape_infer_invalid_argument ''interior_padding'' ''must be non-negative'')
    else
      case dim of
        Const extent \<Rightarrow>
          and_then (pad_base extent interior) (\<lambda>base.
          and_then (or_overflow (Option.bind (ichecked_add low high) (\<lambda>v. ichecked_add v base))) (\<lambda>padded.
          and_then (or_overflow (usize_try_from padded)) (\<lambda>n. Ok (Const n))))
      | _ \<Rightarrow>
          if interior = 0 then and_then (signed_padding_sum low high) (\<lambda>amount. add_signed dim amount)
          else
            and_then (or_overflow (ichecked_add interior 1)) (\<lambda>s.
            and_then (usize_from_nonnegative_i64 s) (\<lambda>stride.
            and_then (dim_sub dim (Const 1)) (\<lambda>shrunk.
            and_then (dim_mul shrunk (Const stride)) (\<lambda>scaled.
            and_then (dim_add scaled (Const 1)) (\<lambda>stretched.
            and_then (signed_padding_sum low high) (\<lambda>amount. add_signed stretched amount)))))))"

definition pad_shape :: "dim_expr list \<Rightarrow> pad_config \<Rightarrow> dim_expr list ires" where
  "pad_shape in_shape c =
    (let rank = length in_shape in
     if length (pa_edge_padding_low c) \<noteq> rank \<or> length (pa_edge_padding_high c) \<noteq> rank \<or>
        length (pa_interior_padding c) \<noteq> rank
     then Err (shape_infer_validation (RankMismatch rank (length (pa_edge_padding_low c))))
     else traverse (pad_axis c) (zip [0..<rank] in_shape))"

definition concatenate_step :: "dim_expr list \<Rightarrow> nat \<Rightarrow> dim_expr \<Rightarrow> dim_expr list \<Rightarrow> dim_expr ires" where
  "concatenate_step first axis axis_dim sh =
    (if length sh \<noteq> length first
     then Err (shape_infer_validation (RankMismatch (length first) (length sh)))
     else if list_ex (\<lambda>d. d \<noteq> axis \<and> sh ! d \<noteq> first ! d) [0..<length first]
     then Err (shape_infer_invalid_argument ''shapes'' ''dimension does not match the first input'')
     else dim_add axis_dim (sh ! axis))"

definition concatenate_shape :: "dim_expr list list \<Rightarrow> nat \<Rightarrow> dim_expr list ires" where
  "concatenate_shape input_shapes axis =
    (case input_shapes of
       [] \<Rightarrow> Err (shape_infer_validation (InvalidArgument ''inputs'' ''concatenate expects at least one input shape''))
     | first # rest \<Rightarrow>
         if length first \<le> axis then Err (shape_infer_validation (AxisOutOfBounds axis (length first)))
         else
           and_then (try_fold (concatenate_step first axis) (first ! axis) rest) (\<lambda>axis_dim.
             Ok (first[axis := axis_dim])))"

definition pad_to_match_shape :: "dim_expr list \<Rightarrow> dim_expr list \<Rightarrow> nat \<Rightarrow> dim_expr list ires" where
  "pad_to_match_shape in_shape reference_shape axis =
    (if length in_shape \<le> axis then Err (shape_infer_validation (AxisOutOfBounds axis (length in_shape)))
     else if length reference_shape \<le> axis
     then Err (shape_infer_validation (AxisOutOfBounds axis (length reference_shape)))
     else Ok (in_shape[axis := dim_max (in_shape ! axis) (reference_shape ! axis)]))"

section \<open>Extensions\<close>

record inferred_extension_meta =
  xm_output_metas :: "(dtype \<times> dim_expr list) list"
  xm_constraints :: "local_constraint list"

definition extension_local_tensor_id :: "nat \<Rightarrow> nat ires" where
  "extension_local_tensor_id input_idx =
    (if usize_max < input_idx
     then Err (shape_infer_invalid_argument ''input_index'' ''extension input index does not fit'')
     else
       ok_or (checked_sub usize_max input_idx)
         (shape_infer_invalid_argument ''input_index'' ''extension input index exhausts the namespace''))"

definition extension_symdim :: "nat \<Rightarrow> nat \<times> dim_expr \<Rightarrow> sym_dim" where
  "extension_symdim tensor_id e = (case e of (axis, Const v) \<Rightarrow> SConst v | (axis, _) \<Rightarrow> TensorAxis tensor_id axis)"

definition extension_symdims :: "nat \<times> dim_expr list \<Rightarrow> sym_dim list ires" where
  "extension_symdims e = (case e of (input_idx, sh) \<Rightarrow>
    and_then (extension_local_tensor_id input_idx) (\<lambda>tensor_id.
      Ok (map (extension_symdim tensor_id) (zip [0..<length sh] sh))))"

definition convert_extension_dim ::
  "(nat \<times> nat) list \<Rightarrow> dim_expr list list \<Rightarrow> sym_dim \<Rightarrow> dim_expr ires" where
  "convert_extension_dim tensor_map input_shapes dim =
    and_then (map_err (Infer_Symbolic_Conversion ''ExtensionOp::infer_output_meta'' Compile)
        (raw_to_dim_expr dim tensor_map)) (\<lambda>local_expr.
      resolve_dim_expr_from_shapes local_expr input_shapes)"

definition infer_extension_output_meta_with_constraints ::
  "extension_op \<Rightarrow> dtype list \<Rightarrow> dim_expr list list \<Rightarrow> inferred_extension_meta ires" where
  "infer_extension_output_meta_with_constraints op input_dtypes input_shapes =
    and_then (traverse extension_symdims (zip [0..<length input_shapes] input_shapes)) (\<lambda>symdims.
    and_then (map_err Infer_Tensor (invoke_extension_shape_inference op input_dtypes symdims)) (\<lambda>inferred.
    and_then (traverse (\<lambda>input_idx. and_then (extension_local_tensor_id input_idx) (\<lambda>id. Ok (id, input_idx)))
        [0..<length input_shapes]) (\<lambda>tensor_map.
    and_then (traverse (\<lambda>(dtype, sh).
        and_then (traverse (convert_extension_dim tensor_map input_shapes) sh) (\<lambda>dims. Ok (dtype, dims)))
        (xi_output_metas inferred)) (\<lambda>output_metas.
    and_then (traverse (\<lambda>c.
        and_then (convert_extension_dim tensor_map input_shapes (sc_lhs c)) (\<lambda>lhs.
        and_then (convert_extension_dim tensor_map input_shapes (sc_rhs c)) (\<lambda>rhs.
          Ok \<lparr>lc_source = \<lparr>cs_family = xo_family_id op, cs_instruction = None\<rparr>,
            lc_relation = sc_relation c, lc_lhs = lhs, lc_rhs = rhs\<rparr>)))
        (xi_constraints inferred)) (\<lambda>constraints.
      Ok \<lparr>xm_output_metas = output_metas, xm_constraints = constraints\<rparr>)))))"

definition infer_extension_output_meta ::
  "extension_op \<Rightarrow> dtype list \<Rightarrow> dim_expr list list \<Rightarrow> (dtype \<times> dim_expr list) list ires" where
  "infer_extension_output_meta op input_dtypes input_shapes =
    and_then (infer_extension_output_meta_with_constraints op input_dtypes input_shapes) (\<lambda>m.
      Ok (xm_output_metas m))"

section \<open>Output shapes and extents\<close>

definition first_input :: "dim_expr list list \<Rightarrow> (dim_expr list \<Rightarrow> dim_expr list ires) \<Rightarrow> dim_expr list list ires" where
  "first_input shapes f = and_then (require_input shapes 0) (\<lambda>a. and_then (f a) (\<lambda>out. Ok [out]))"

definition both_inputs ::
  "dim_expr list list \<Rightarrow> (dim_expr list \<Rightarrow> dim_expr list \<Rightarrow> dim_expr list ires) \<Rightarrow> dim_expr list list ires" where
  "both_inputs shapes f =
    and_then (require_input shapes 0) (\<lambda>a. and_then (require_input shapes 1) (\<lambda>b.
      and_then (f a b) (\<lambda>out. Ok [out])))"

definition truncated_shape :: "nat \<Rightarrow> dim_expr list \<Rightarrow> dim_expr list ires" where
  "truncated_shape axis sh =
    (if length sh \<le> axis then Err (shape_infer_validation (AxisOutOfBounds axis (length sh))) else Ok sh)"

fun infer_output_shapes :: "std_tensor_op \<Rightarrow> dim_expr list list \<Rightarrow> dim_expr list list ires" where
  "infer_output_shapes Op_Add shapes = both_inputs shapes same_or_scalar_broadcast_shape"
| "infer_output_shapes Op_Sub shapes = both_inputs shapes same_or_scalar_broadcast_shape"
| "infer_output_shapes Op_Mul shapes = both_inputs shapes same_or_scalar_broadcast_shape"
| "infer_output_shapes (Op_Transpose perm) shapes = first_input shapes (\<lambda>a. permute_shape a perm)"
| "infer_output_shapes (Op_Reshape to_shape) shapes = Ok [to_shape]"
| "infer_output_shapes (Op_BroadcastInDim sh _) shapes = Ok [sh]"
| "infer_output_shapes (Op_Constant _ _) shapes = Ok [[]]"
| "infer_output_shapes (Op_ReduceSum axes) shapes = first_input shapes (\<lambda>a. infer_reduced_shape a axes)"
| "infer_output_shapes (Op_ReduceSumSquares axes) shapes = first_input shapes (\<lambda>a. infer_reduced_shape a axes)"
| "infer_output_shapes (Op_ReduceProd axes) shapes = first_input shapes (\<lambda>a. infer_reduced_shape a axes)"
| "infer_output_shapes (Op_ReduceMax axes) shapes = first_input shapes (\<lambda>a. infer_reduced_shape a axes)"
| "infer_output_shapes (Op_ReduceMin axes) shapes = first_input shapes (\<lambda>a. infer_reduced_shape a axes)"
| "infer_output_shapes (Op_ExtractDiag axis_a axis_b) shapes =
    first_input shapes (\<lambda>a. extract_diag_shape a axis_a axis_b)"
| "infer_output_shapes (Op_EmbedDiag axis_a axis_b) shapes =
    first_input shapes (\<lambda>a. embed_diag_shape a axis_a axis_b)"
| "infer_output_shapes (Op_Gather c) shapes = both_inputs shapes (\<lambda>a b. gather_shape a b c)"
| "infer_output_shapes (Op_GatherDynamicSliceSizes offset_dims collapsed_slice_dims _ index_vector_dim slice_sizes) shapes =
    and_then (traverse (\<lambda>dim. resolve_dim_expr_from_shapes dim shapes) slice_sizes) (\<lambda>resolved.
      both_inputs shapes (\<lambda>a b.
        gather_shape_from_slice_sizes a b offset_dims collapsed_slice_dims index_vector_dim resolved))"
| "infer_output_shapes (Op_Slice c) shapes = first_input shapes (\<lambda>a. slice_shape a c)"
| "infer_output_shapes (Op_DynamicSlice slice_sizes) shapes = Ok [map Const slice_sizes]"
| "infer_output_shapes (Op_Pad c) shapes = first_input shapes (\<lambda>a. pad_shape a c)"
| "infer_output_shapes (Op_DotGeneral c) shapes = both_inputs shapes (\<lambda>a b. dot_general_shape a b c)"
| "infer_output_shapes (Op_Concatenate axis _) shapes =
    and_then (concatenate_shape shapes axis) (\<lambda>out. Ok [out])"
| "infer_output_shapes (Op_ShapeOf _) shapes = Ok [[]]"
| "infer_output_shapes (Op_DynamicTruncate axis) shapes = first_input shapes (truncated_shape axis)"
| "infer_output_shapes (Op_PadToMatch axis) shapes = both_inputs shapes (\<lambda>a b. pad_to_match_shape a b axis)"
| "infer_output_shapes (Op_Extension ext) shapes =
    and_then (infer_extension_output_meta ext [] shapes) (\<lambda>metas. Ok (map snd metas))"
| "infer_output_shapes _ shapes = first_input shapes (\<lambda>a. Ok a)"

fun infer_output_extents :: "std_tensor_op \<Rightarrow> dim_expr list list \<Rightarrow> dim_expr shape_extent list list ires" where
  "infer_output_extents (Op_DynamicTruncate axis) shapes =
    and_then (require_input shapes 0) (\<lambda>sh.
      if length sh \<le> axis then Err (shape_infer_validation (AxisOutOfBounds axis (length sh)))
      else Ok [(map Exact sh)[axis := UpperBound (sh ! axis)]])"
| "infer_output_extents op shapes =
    and_then (infer_output_shapes op shapes) (\<lambda>out. Ok (map (map Exact) out))"

end
