(* ===== verification/Shape_Infer_Correct.thy ===== *)
theory Shape_Infer_Correct
  imports Shape_Infer
begin

text \<open>
  Shape inference respects evaluation: dimensions that are worth the same for the program's inputs
  lead to output shapes that are worth the same, so a program compiled once with symbolic shapes has
  at run time the shapes that inference over the concrete extents gives.
\<close>

section \<open>Dimension arithmetic\<close>

definition same_value :: "nat list list \<Rightarrow> dim_expr \<Rightarrow> dim_expr \<Rightarrow> bool" where
  "same_value env a b \<longleftrightarrow> ok (eval a env) = ok (eval b env)"

abbreviation same_shape :: "nat list list \<Rightarrow> dim_expr list \<Rightarrow> dim_expr list \<Rightarrow> bool" where
  "same_shape env \<equiv> list_all2 (same_value env)"

lemma same_value_refl [simp]: "same_value env a a"
  by (simp add: same_value_def)

lemma same_shape_refl [simp]: "same_shape env sh sh"
  by (simp add: list_all2_same)

lemma same_shape_nth: "same_shape env sh sh' \<Longrightarrow> i < length sh \<Longrightarrow> same_value env (sh ! i) (sh' ! i)"
  by (rule list_all2_nthD)

lemma overflow_or_const_Ok [simp]: "overflow_or_const v = Ok e \<longleftrightarrow> (\<exists>n. v = Some n \<and> e = Const n)"
  by (auto simp: overflow_or_const_def)

declare both_Some [simp]

declare both_None [simp]

lemma dim_add_value: "dim_add a b = Ok c \<Longrightarrow> ok (eval c env) = both checked_add (ok (eval a env)) (ok (eval b env))"
  by (cases "(a, b)" rule: dim_add.cases) (auto simp: ok_eval_simps checked_add_def eval.simps(1) simp del: eval.simps(2-))

lemma dim_sub_value: "dim_sub a b = Ok c \<Longrightarrow> ok (eval c env) = both checked_sub (ok (eval a env)) (ok (eval b env))"
  by (cases "(a, b)" rule: dim_sub.cases) (auto simp: ok_eval_simps checked_sub_def eval.simps(1) simp del: eval.simps(2-))

lemma dim_mul_value: "dim_mul a b = Ok c \<Longrightarrow> ok (eval c env) = both checked_mul (ok (eval a env)) (ok (eval b env))"
  by (cases "(a, b)" rule: dim_mul.cases) (auto simp: ok_eval_simps checked_mul_def eval.simps(1) simp del: eval.simps(2-))

lemma dim_min_value: "ok (eval (dim_min a b) env) = both (\<lambda>x y. Some (min x y)) (ok (eval a env)) (ok (eval b env))"
  by (cases "(a, b)" rule: dim_min.cases) (auto simp: ok_eval_simps simp del: eval.simps)

lemma dim_max_value: "ok (eval (dim_max a b) env) = both (\<lambda>x y. Some (max x y)) (ok (eval a env)) (ok (eval b env))"
  by (cases "(a, b)" rule: dim_max.cases) (auto simp: ok_eval_simps simp del: eval.simps)

lemma dim_add_same: "dim_add a b = Ok c \<Longrightarrow> dim_add a' b' = Ok c' \<Longrightarrow> same_value env a a' \<Longrightarrow>
    same_value env b b' \<Longrightarrow> same_value env c c'"
  using dim_add_value [of a b c env] dim_add_value [of a' b' c' env] by (simp add: same_value_def)

lemma dim_min_same: "same_value env a a' \<Longrightarrow> same_value env b b' \<Longrightarrow>
    same_value env (dim_min a b) (dim_min a' b')"
  by (simp add: same_value_def dim_min_value)

lemma dim_max_same: "same_value env a a' \<Longrightarrow> same_value env b b' \<Longrightarrow>
    same_value env (dim_max a b) (dim_max a' b')"
  by (simp add: same_value_def dim_max_value)

text \<open>Resolving an operation-local expression: it is worth over the program's inputs what the local
  expression is worth over the operation's inputs.\<close>

lemma resolve_value:
  assumes "resolve_dim_expr_from_shapes e shapes = Ok r"
    and "list_all2 (list_all2 (\<lambda>d n. eval d env = Ok n)) shapes cshapes"
  shows "ok (eval r env) = ok (eval e cshapes)"
  using assms(1)
proof (induction e arbitrary: r)
  case (InputDim i k)
  then obtain ss where ss: "i < length shapes" "shapes ! i = ss" "k < length ss" "ss ! k = r"
    by (auto simp: require_input_expr_def bind_eq_Some_conv)
  have i: "list_all2 (\<lambda>d n. eval d env = Ok n) ss (cshapes ! i)" "i < length cshapes"
    using list_all2_nthD [OF assms(2) ss(1)] list_all2_lengthD [OF assms(2)] ss(1,2) by auto
  from list_all2_nthD [OF i(1) ss(3)] list_all2_lengthD [OF i(1)] ss i(2) show ?case
    by (simp add: get_def)
qed (auto simp: ok_eval_simps dim_add_value dim_sub_value dim_mul_value simp del: eval.simps)

lemma resolve_same:
  "resolve_dim_expr_from_shapes e shapes = Ok r \<Longrightarrow> resolve_dim_expr_from_shapes e shapes' = Ok r' \<Longrightarrow>
    list_all2 (same_shape env) shapes shapes' \<Longrightarrow> same_value env r r'"
proof (induction e arbitrary: r r')
  case (InputDim i k)
  then have i: "i < length shapes" "k < length (shapes ! i)" "r = shapes ! i ! k" "r' = shapes' ! i ! k"
    by (auto simp: require_input_expr_def bind_eq_Some_conv)
  then show ?case using InputDim.prems(3) by (auto dest!: list_all2_nthD)
qed (auto simp: ok_eval_simps dim_add_value dim_sub_value dim_mul_value same_value_def simp del: eval.simps)

section \<open>Each rule\<close>

lemma pick_same: "same_shape env sh sh' \<Longrightarrow> \<forall>a \<in> set as. a < length sh \<Longrightarrow>
    same_shape env (map ((!) sh) as) (map ((!) sh') as)"
  by (simp add: list_all2_conv_all_nth)

lemma remove_at_same: "same_shape env sh sh' \<Longrightarrow> same_shape env (remove_at i sh) (remove_at i sh')"
  by (simp add: remove_at_def list_all2_appendI list_all2_takeI list_all2_dropI)

lemma insert_at_same: "same_shape env sh sh' \<Longrightarrow> same_value env d d' \<Longrightarrow>
    same_shape env (insert_at i d sh) (insert_at i d' sh')"
  by (simp add: insert_at_def list_all2_appendI list_all2_takeI list_all2_dropI)

lemma validate_permutation_axes_Ok:
  assumes "validate_permutation_axes op rank perm = Ok ()"
  shows "distinct perm" "\<forall>a \<in> set perm. a < rank" "length perm = rank"
  using assms permutation_fold [of rank "''permutation''" "replicate rank False" perm]
  by (auto simp: validate_permutation_axes_def split: if_splits sum.splits)

lemma find_error_iff: "(case find P xs of None \<Rightarrow> Ok () | Some x \<Rightarrow> Err (f x)) = Ok () \<longleftrightarrow> (\<forall>x \<in> set xs. \<not> P x)"
  by (induction xs) auto

lemma check_dims_in_rank_Ok: "check_dims_in_rank dims rank = Ok () \<longleftrightarrow> (\<forall>d \<in> set dims. d < rank)"
  by (simp add: check_dims_in_rank_def find_error_iff not_le)

lemma permute_shape_same:
  assumes "permute_shape sh perm = Ok out" "permute_shape sh' perm = Ok out'" "same_shape env sh sh'"
  shows "same_shape env out out'"
  using assms validate_permutation_axes_Ok(2) by (auto simp: permute_shape_def intro!: pick_same)

lemma reduced_shape_same:
  assumes "infer_reduced_shape sh axes = Ok out" "infer_reduced_shape sh' axes = Ok out'" "same_shape env sh sh'"
  shows "same_shape env out out'"
  using assms(1,2) list_all2_lengthD [OF assms(3)]
  by (auto simp: infer_reduced_shape_def intro!: pick_same [OF assms(3)])

lemma extract_diag_same:
  assumes "extract_diag_shape sh a b = Ok out" "extract_diag_shape sh' a b = Ok out'" "same_shape env sh sh'"
  shows "same_shape env out out'"
  using assms(1,2) same_shape_nth [OF assms(3)]
  by (auto simp: extract_diag_shape_def Let_def dim_min_same remove_at_same [OF assms(3)]
      intro!: list_all2_update_cong split: if_splits)

lemma embed_diag_same:
  assumes "embed_diag_shape sh a b = Ok out" "embed_diag_shape sh' a b = Ok out'" "same_shape env sh sh'"
  shows "same_shape env out out'"
  using assms(1,2) same_shape_nth [OF assms(3)]
  by (auto simp: embed_diag_shape_def intro!: insert_at_same [OF assms(3)] split: if_splits)

lemma dot_general_same:
  assumes "dot_general_shape l r c = Ok out" "dot_general_shape l' r' c = Ok out'"
    and "same_shape env l l'" "same_shape env r r'"
  shows "same_shape env out out'"
  using assms(1,2) list_all2_lengthD [OF assms(3)] list_all2_lengthD [OF assms(4)]
  by (auto simp: dot_general_shape_def Let_def validate_dims_with_ranks_def check_dims_in_rank_Ok
      intro!: list_all2_appendI pick_same [OF assms(3)] pick_same [OF assms(4)] split: if_splits)

lemma pad_to_match_same:
  assumes "pad_to_match_shape l r a = Ok out" "pad_to_match_shape l' r' a = Ok out'"
    and "same_shape env l l'" "same_shape env r r'"
  shows "same_shape env out out'"
  using assms(1,2) same_shape_nth [OF assms(3)] same_shape_nth [OF assms(4)]
  by (auto simp: pad_to_match_shape_def dim_max_same assms(3) intro!: list_all2_update_cong split: if_splits)

lemma slice_shape_same:
  assumes "slice_shape sh c = Ok out" "slice_shape sh' c = Ok out'" "same_shape env sh sh'"
  shows "same_shape env out out'"
  using assms(1,2) list_all2_lengthD [OF assms(3)] by (auto simp: slice_shape_def Let_def split: if_splits)

lemma place_axes_same:
  assumes "same_shape env slices slices'"
  shows "place_axes slices bs ts = Ok out \<Longrightarrow> place_axes slices' bs' ts = Ok out' \<Longrightarrow> same_shape env bs bs' \<Longrightarrow>
    \<forall>t \<in> set ts. \<forall>d. t = Some d \<longrightarrow> d < length slices \<Longrightarrow> same_shape env out out'"
proof (induction ts arbitrary: bs bs' out out')
  case (Cons t ts)
  show ?case
  proof (cases t)
    case None
    with Cons.prems(1) obtain b bs1 where bs: "bs = b # bs1" by (cases bs) auto
    with Cons.prems(3) obtain b' bs1' where "bs' = b' # bs1'" by (auto simp: list_all2_Cons1)
    with bs None Cons.prems show ?thesis by (auto intro: Cons.IH)
  next
    case (Some d)
    with Cons.prems same_shape_nth [OF assms, of d] show ?thesis by (auto intro: Cons.IH)
  qed
qed simp

lemma window_step_eq [simp]:
  "window_step ws k ts (o', a) =
    (if a < length ts then Ok (ts[a := Some (ws ! o')]) else Err (shape_infer_validation (AxisOutOfBounds a k)))"
  by (simp add: window_step_def)

lemma window_fold_range:
  assumes "try_fold (window_step ws k) ts es = Ok ts'" and "\<forall>(k, a) \<in> set es. k < length ws"
    and "\<forall>w \<in> set ws. w < n" and "\<forall>t \<in> set ts. \<forall>d. t = Some d \<longrightarrow> d < n"
  shows "\<forall>t \<in> set ts'. \<forall>d. t = Some d \<longrightarrow> d < (n :: nat)"
  using assms(1,4,2)
proof (induction es arbitrary: ts)
  case (Cons e es)
  obtain o' a where e: "e = (o', a)" by (cases e)
  with Cons.prems(1) have r: "try_fold (window_step ws k) (ts[a := Some (ws ! o')]) es = Ok ts'"
    by (auto split: if_splits)
  have "\<forall>t \<in> set (ts[a := Some (ws ! o')]). \<forall>d. t = Some d \<longrightarrow> d < n"
    using Cons.prems(2,3) assms(3) set_update_subset_insert [of ts a "Some (ws ! o')"] by (auto simp: e)
  from Cons.IH [OF r this] Cons.prems(3) show ?case by simp
qed simp

lemma gather_same:
  assumes "gather_shape_from_slice_sizes l r od cd iv ss = Ok out"
    and "gather_shape_from_slice_sizes l' r' od cd iv ss' = Ok out'"
    and l: "same_shape env l l'" and r: "same_shape env r r'" and s: "same_shape env ss ss'"
  shows "same_shape env out out'"
proof -
  note len = list_all2_lengthD [OF l] list_all2_lengthD [OF r] list_all2_lengthD [OF s]
  let ?ws = "filter (\<lambda>d. d \<notin> set cd) [0..<length l]"
  let ?b = "if iv = length r then r else remove_at iv r" and ?b' = "if iv = length r' then r' else remove_at iv r'"
  have b: "same_shape env ?b ?b'" using r len remove_at_same [OF r] by simp
  from assms(1) obtain ts where ts: "length ss = length l" "length od = length ?ws"
      "try_fold (window_step ?ws (length ?b + length od)) (replicate (length ?b + length od) None)
        (zip [0..<length od] od) = Ok ts" "place_axes ss ?b ts = Ok out"
    by (auto simp: gather_shape_from_slice_sizes_def Let_def split: if_splits option.splits)
  from assms(2) obtain ts' where ts': "try_fold (window_step ?ws (length ?b' + length od))
        (replicate (length ?b' + length od) None) (zip [0..<length od] od) = Ok ts'" "place_axes ss' ?b' ts' = Ok out'"
    by (auto simp: gather_shape_from_slice_sizes_def Let_def len split: if_splits option.splits)
  have "ts' = ts" using ts(3) ts'(1) list_all2_lengthD [OF b] by simp
  moreover have "\<forall>t \<in> set ts. \<forall>d. t = Some d \<longrightarrow> d < length ss"
    using ts(1,2) by (intro window_fold_range [OF ts(3)]) (auto dest: set_zip_leftD)
  ultimately show ?thesis using place_axes_same [OF s ts(4) _ b] ts'(2) by simp
qed

text \<open>Broadcasting compares expressions, so an extent of zero can be lost: a dimension that is \<open>1\<close>
  as a constant steps back, one that is merely worth \<open>1\<close> takes part in a maximum.\<close>

definition positive_dim :: "nat list list \<Rightarrow> dim_expr \<Rightarrow> bool" where
  "positive_dim env d \<longleftrightarrow> ok (eval d env) \<noteq> Some 0"

lemma broadcast_dim_cases:
  "broadcast_dim a b = Ok c \<Longrightarrow> a = b \<and> c = a \<or> a = Const 1 \<and> c = b \<or> b = Const 1 \<and> c = a \<or> c = dim_max a b"
  by (auto simp: broadcast_dim_def split: if_splits dim_expr.splits)

lemma broadcast_dim_value:
  assumes "broadcast_dim a b = Ok c" and "positive_dim env a" "positive_dim env b"
  shows "a = b \<and> c = a \<or> ok (eval c env) = both (\<lambda>x y. Some (max x y)) (ok (eval a env)) (ok (eval b env))"
proof -
  have one: "both (\<lambda>x y. Some (max x y)) (Some 1) v = v" "both (\<lambda>x y. Some (max x y)) v (Some 1) = v"
    if "v \<noteq> Some 0" for v :: "nat option"
    using that by (cases v; simp add: both_def max_def)+
  show ?thesis
    using broadcast_dim_cases [OF assms(1)] assms(2,3) one
    by (auto simp: positive_dim_def dim_max_value)
qed

lemma broadcast_dim_same:
  assumes "broadcast_dim a b = Ok c" "broadcast_dim a' b' = Ok c'"
    and "same_value env a a'" "same_value env b b'" and p: "positive_dim env a" "positive_dim env b"
  shows "same_value env c c'"
proof -
  have p': "positive_dim env a'" "positive_dim env b'" using assms(3-6) by (simp_all add: positive_dim_def same_value_def)
  have self: "both (\<lambda>x y. Some (max x y)) v v = v" for v :: "nat option" by (cases v) simp_all
  show ?thesis
    using broadcast_dim_value [OF assms(1) p] broadcast_dim_value [OF assms(2) p'] assms(3,4) self
    by (auto simp: same_value_def)
qed

lemma broadcast_aligned_same:
  assumes "same_shape env sh sh'" "axis < rank" "length sh \<le> rank" "\<forall>d \<in> set sh. positive_dim env d"
  shows "same_value env (broadcast_aligned_dim sh rank axis) (broadcast_aligned_dim sh' rank axis)"
    and "positive_dim env (broadcast_aligned_dim sh rank axis)"
proof -
  have i: "axis - (rank - length sh) < length sh" if "\<not> axis < rank - length sh"
    using assms(2,3) that by linarith
  show "same_value env (broadcast_aligned_dim sh rank axis) (broadcast_aligned_dim sh' rank axis)"
    using same_shape_nth [OF assms(1)] list_all2_lengthD [OF assms(1)] i
    by (simp add: broadcast_aligned_dim_def)
  show "positive_dim env (broadcast_aligned_dim sh rank axis)"
    using i assms(4) by (simp add: broadcast_aligned_dim_def) (simp add: positive_dim_def)
qed

lemma broadcast_shape_same:
  assumes "same_or_scalar_broadcast_shape l r = Ok out" "same_or_scalar_broadcast_shape l' r' = Ok out'"
    and l: "same_shape env l l'" and r: "same_shape env r r'"
    and p: "\<forall>d \<in> set l. positive_dim env d" "\<forall>d \<in> set r. positive_dim env d"
  shows "same_shape env out out'"
proof -
  note len = list_all2_lengthD [OF l] list_all2_lengthD [OF r]
  let ?k = "max (length l) (length r)"
  let ?f = "\<lambda>l r axis. broadcast_dim (broadcast_aligned_dim l ?k axis) (broadcast_aligned_dim r ?k axis)"
  have o: "traverse (?f l r) [0..<?k] = Ok out" "traverse (?f l' r') [0..<?k] = Ok out'"
    using assms(1,2) by (simp_all add: same_or_scalar_broadcast_shape_def Let_def len)
  show ?thesis
  proof (rule list_all2_all_nthI)
    show "length out = length out'" using o [THEN traverse_length] by simp
    fix i assume "i < length out"
    then have i: "i < ?k" using o(1) [THEN traverse_length] by simp
    note al = broadcast_aligned_same [OF l i _ p(1)] and ar = broadcast_aligned_same [OF r i _ p(2)]
    have "?f l r i = Ok (out ! i)" "?f l' r' i = Ok (out' ! i)"
      using o i by (auto simp: traverse_eq_Inr)
    from broadcast_dim_same [OF this al(1) ar(1) al(2) ar(2)] show "same_value env (out ! i) (out' ! i)" by simp
  qed
qed

definition shift :: "int \<Rightarrow> nat option \<Rightarrow> nat option" where
  "shift amount v = (if 0 \<le> amount then both checked_add v (Some (nat amount))
     else both checked_sub v (Some (nat (- amount))))"

definition padded_value :: "int \<Rightarrow> int \<Rightarrow> nat option \<Rightarrow> nat option" where
  "padded_value interior amount v =
    shift amount (if interior = 0 then v
      else both checked_add (both checked_mul (both checked_sub v (Some 1)) (Some (nat (interior + 1)))) (Some 1))"

lemma or_overflow_Ok [simp]: "or_overflow v = Ok x \<longleftrightarrow> v = Some x"
  by (auto simp: or_overflow_def)

lemma usize_from_nonnegative_Ok [simp]: "usize_from_nonnegative_i64 v = Ok n \<longleftrightarrow> usize_try_from v = Some n"
  by (auto simp: usize_from_nonnegative_i64_def simp del: usize_try_from_eq)

lemma add_signed_value: "add_signed e amount = Ok r \<Longrightarrow> ok (eval r env) = shift amount (ok (eval e env))"
  by (auto simp: add_signed_def shift_def dim_add_value dim_sub_value eval.simps(1) split: if_splits
      simp del: eval.simps(2-))

lemma pad_axis_symbolic_eq:
  "\<not> is_const d \<Longrightarrow> pad_axis c (axis, d) =
    (let interior = pa_interior_padding c ! axis;
         low = pa_edge_padding_low c ! axis; high = pa_edge_padding_high c ! axis in
     if interior < 0 then Err (shape_infer_invalid_argument ''interior_padding'' ''must be non-negative'')
     else if interior = 0 then and_then (signed_padding_sum low high) (\<lambda>amount. add_signed d amount)
     else
       and_then (or_overflow (ichecked_add interior 1)) (\<lambda>s.
       and_then (usize_from_nonnegative_i64 s) (\<lambda>stride.
       and_then (dim_sub d (Const 1)) (\<lambda>shrunk.
       and_then (dim_mul shrunk (Const stride)) (\<lambda>scaled.
       and_then (dim_add scaled (Const 1)) (\<lambda>stretched.
       and_then (signed_padding_sum low high) (\<lambda>amount. add_signed stretched amount)))))))"
  by (cases d) (simp_all add: pad_axis_def Let_def)

lemma pad_axis_symbolic:
  assumes "pad_axis c (axis, d) = Ok r" and "\<not> is_const d"
  shows "ok (eval r env) =
    padded_value (pa_interior_padding c ! axis) (pa_edge_padding_low c ! axis + pa_edge_padding_high c ! axis) (ok (eval d env))"
  using assms(1) unfolding pad_axis_symbolic_eq [OF assms(2)] Let_def
  by (auto simp: padded_value_def signed_padding_sum_def add_signed_value
      dim_add_value [of _ _ _ env] dim_sub_value [of _ _ _ env] dim_mul_value [of _ _ _ env] split: if_splits)

lemma pad_base_value:
  assumes "pad_base v interior = Ok base" and "interior = 0 \<or> v \<noteq> 0" and "0 \<le> interior"
  shows "0 \<le> base" and "isize_ok base"
    and "(if interior = 0 then Some v
      else both checked_add (both checked_mul (both checked_sub (Some v) (Some 1)) (Some (nat (interior + 1)))) (Some 1))
      = Some (nat base)"
proof -
  have z: "v = 0 \<Longrightarrow> base = 0" and nz: "v \<noteq> 0 \<Longrightarrow> base = (int v - 1) * (interior + 1) + 1 \<and> isize_ok base \<and>
      isize_ok ((int v - 1) * (interior + 1))"
    using assms(1) by (auto simp: pad_base_def bind_eq_Some_conv split: if_splits)
  show b: "0 \<le> base" using z nz assms(3) by (cases "v = 0") auto
  show iok: "isize_ok base" using z nz by (cases "v = 0") auto
  show "(if interior = 0 then Some v
      else both checked_add (both checked_mul (both checked_sub (Some v) (Some 1)) (Some (nat (interior + 1)))) (Some 1))
      = Some (nat base)"
  proof (cases "interior = 0")
    case True
    then show ?thesis using z nz by (cases "v = 0") auto
  next
    case False
    with assms(2) have v: "1 \<le> v" by simp
    have p: "int ((v - 1) * nat (interior + 1)) = (int v - 1) * (interior + 1)"
      using v assms(3) by (simp add: of_nat_diff)
    have q: "(v - 1) * nat (interior + 1) + 1 = nat base" using p nz v by linarith
    moreover have "nat base \<le> usize_max" using isize_ok_nonneg_usize [OF iok] .
    ultimately show ?thesis using False v by (simp add: checked_mul_def checked_add_def checked_sub_def)
  qed
qed

lemma pad_axis_constant:
  assumes "pad_axis c (axis, Const v) = Ok r" and "pa_interior_padding c ! axis = 0 \<or> v \<noteq> 0"
  shows "ok (eval r env) =
    padded_value (pa_interior_padding c ! axis) (pa_edge_padding_low c ! axis + pa_edge_padding_high c ! axis) (Some v)"
proof -
  let ?i = "pa_interior_padding c ! axis" and ?a = "pa_edge_padding_low c ! axis + pa_edge_padding_high c ! axis"
  from assms(1) obtain base n where b: "0 \<le> ?i" "pad_base v ?i = Ok base" "usize_try_from (?a + base) = Some n" "r = Const n"
    by (auto simp: pad_axis_def Let_def bind_eq_Some_conv simp del: usize_try_from_eq split: if_splits)
  note base = pad_base_value [OF b(2) assms(2) b(1)]
  have "0 \<le> ?a + base" "n = nat (?a + base)" "n \<le> usize_max" using b(3) by auto
  then have "shift ?a (Some (nat base)) = Some n"
    using base(1) by (auto simp: shift_def nat_add_distrib nat_diff_distrib)
  then show ?thesis unfolding padded_value_def base(3) by (simp add: b(4))
qed

lemma pad_axis_value:
  assumes "pad_axis c (axis, d) = Ok r" and "pa_interior_padding c ! axis = 0 \<or> positive_dim env d"
  shows "ok (eval r env) =
    padded_value (pa_interior_padding c ! axis) (pa_edge_padding_low c ! axis + pa_edge_padding_high c ! axis) (ok (eval d env))"
proof (cases "is_const d")
  case True
  then obtain v where d: "d = Const v" by (cases d) auto
  show ?thesis
    using pad_axis_constant [OF assms(1) [unfolded d], of env] assms(2) by (auto simp: d positive_dim_def)
next
  case False
  then show ?thesis using pad_axis_symbolic [OF assms(1)] by simp
qed

lemma pad_shape_same:
  assumes "pad_shape sh c = Ok out" "pad_shape sh' c = Ok out'" and same: "same_shape env sh sh'"
    and p: "\<forall>d \<in> set sh. positive_dim env d"
  shows "same_shape env out out'"
proof -
  note len = list_all2_lengthD [OF same]
  have o: "traverse (pad_axis c) (zip [0..<length sh] sh) = Ok out" "traverse (pad_axis c) (zip [0..<length sh] sh') = Ok out'"
    using assms(1,2) by (auto simp: pad_shape_def Let_def len split: if_splits)
  show ?thesis
  proof (rule list_all2_all_nthI)
    show "length out = length out'" using o [THEN traverse_length] len by simp
    fix i assume "i < length out"
    then have i: "i < length sh" "i < length sh'" using o(1) [THEN traverse_length] len by simp_all
    then have e: "pad_axis c (i, sh ! i) = Ok (out ! i)" "pad_axis c (i, sh' ! i) = Ok (out' ! i)"
      using o by (auto simp: traverse_eq_Inr)
    have s: "same_value env (sh ! i) (sh' ! i)" by (rule same_shape_nth [OF same i(1)])
    with p i have "positive_dim env (sh ! i)" "positive_dim env (sh' ! i)"
      by (auto simp: positive_dim_def same_value_def)
    with pad_axis_value [OF e(1), of env] pad_axis_value [OF e(2), of env] s
    show "same_value env (out ! i) (out' ! i)" by (simp add: same_value_def)
  qed
qed

lemma concatenate_fold_same:
  assumes "same_shape env first first'" and "axis < length first"
  shows "try_fold (concatenate_step first axis) d shapes = Ok e \<Longrightarrow>
    try_fold (concatenate_step first' axis) d' shapes' = Ok e' \<Longrightarrow> list_all2 (same_shape env) shapes shapes' \<Longrightarrow>
    same_value env d d' \<Longrightarrow> same_value env e e'"
proof (induction shapes arbitrary: shapes' d d')
  case (Cons sh shapes)
  then obtain sh' shapes1 where s': "shapes' = sh' # shapes1" "same_shape env sh sh'" "list_all2 (same_shape env) shapes shapes1"
    by (auto simp: list_all2_Cons1)
  from Cons.prems(1) obtain d1 where d1: "dim_add d (sh ! axis) = Ok d1" "length sh = length first"
      "try_fold (concatenate_step first axis) d1 shapes = Ok e"
    by (auto simp: concatenate_step_def [of first axis d sh] split: if_splits)
  from Cons.prems(2) obtain d1' where d1': "dim_add d' (sh' ! axis) = Ok d1'"
      "try_fold (concatenate_step first' axis) d1' shapes1 = Ok e'"
    by (auto simp: s'(1) concatenate_step_def [of first' axis d' sh'] split: if_splits)
  have "same_value env d1 d1'"
    using dim_add_same [OF d1(1) d1'(1) Cons.prems(4) same_shape_nth [OF s'(2)]] assms(2) d1(2) by simp
  from Cons.IH [OF d1(3) d1'(2) s'(3) this] show ?case .
qed simp

lemma concatenate_same:
  assumes "concatenate_shape shapes a = Ok out" "concatenate_shape shapes' a = Ok out'"
    and "list_all2 (same_shape env) shapes shapes'"
  shows "same_shape env out out'"
proof (cases shapes)
  case Nil
  with assms(1) show ?thesis by (simp add: concatenate_shape_def)
next
  case (Cons first rest)
  with assms(3) obtain first' rest' where c: "shapes' = first' # rest'" "same_shape env first first'"
      "list_all2 (same_shape env) rest rest'" by (auto simp: list_all2_Cons1)
  note len = list_all2_lengthD [OF c(2)]
  from assms(1) Cons obtain d where d: "a < length first"
      "try_fold (concatenate_step first a) (first ! a) rest = Ok d" "out = first[a := d]"
    by (auto simp: concatenate_shape_def split: if_splits)
  from assms(2) c(1) obtain d' where d': "try_fold (concatenate_step first' a) (first' ! a) rest' = Ok d'" "out' = first'[a := d']"
    by (auto simp: concatenate_shape_def split: if_splits)
  from concatenate_fold_same [OF c(2) d(1,2) d'(1) c(3) same_shape_nth [OF c(2) d(1)]]
  show ?thesis unfolding d(3) d'(2) by (rule list_all2_update_cong [OF c(2)])
qed

section \<open>All operations\<close>

fun compares_extents :: "std_tensor_op \<Rightarrow> bool" where
  "compares_extents Op_Add = True"
| "compares_extents Op_Sub = True"
| "compares_extents Op_Mul = True"
| "compares_extents (Op_Pad _) = True"
| "compares_extents _ = False"

fun is_extension :: "std_tensor_op \<Rightarrow> bool" where
  "is_extension (Op_Extension _) = True"
| "is_extension _ = False"

lemma require_input_Ok [simp]: "require_input shapes i = Ok sh \<longleftrightarrow> i < length shapes \<and> shapes ! i = sh"
  by (auto simp: require_input_def)

lemma first_input_same:
  assumes "first_input shapes f = Ok outs" "first_input shapes' f' = Ok outs'" "list_all2 (same_shape env) shapes shapes'"
    and "\<And>a a' out out'. a \<in> set shapes \<Longrightarrow> f a = Ok out \<Longrightarrow> f' a' = Ok out' \<Longrightarrow> same_shape env a a' \<Longrightarrow>
      same_shape env out out'"
  shows "list_all2 (same_shape env) outs outs'"
proof -
  from assms(1,2) obtain out out' where o: "0 < length shapes" "f (shapes ! 0) = Ok out" "outs = [out]"
      "f' (shapes' ! 0) = Ok out'" "outs' = [out']"
    by (auto simp: first_input_def)
  from assms(4) [OF nth_mem [OF o(1)] o(2,4) list_all2_nthD [OF assms(3) o(1)]] show ?thesis by (simp add: o)
qed

lemma both_inputs_same:
  assumes "both_inputs shapes f = Ok outs" "both_inputs shapes' f' = Ok outs'" "list_all2 (same_shape env) shapes shapes'"
    and "\<And>a a' b b' out out'. a \<in> set shapes \<Longrightarrow> b \<in> set shapes \<Longrightarrow> f a b = Ok out \<Longrightarrow> f' a' b' = Ok out' \<Longrightarrow>
      same_shape env a a' \<Longrightarrow> same_shape env b b' \<Longrightarrow> same_shape env out out'"
  shows "list_all2 (same_shape env) outs outs'"
proof -
  from assms(1,2) obtain out out' where o: "0 < length shapes" "1 < length shapes" "f (shapes ! 0) (shapes ! 1) = Ok out"
      "outs = [out]" "f' (shapes' ! 0) (shapes' ! 1) = Ok out'" "outs' = [out']"
    by (auto simp: both_inputs_def)
  from assms(4) [OF nth_mem [OF o(1)] nth_mem [OF o(2)] o(3,5) list_all2_nthD [OF assms(3) o(1)]
      list_all2_nthD [OF assms(3) o(2)]]
  show ?thesis by (simp add: o)
qed

lemma traverse_resolve_same:
  assumes "traverse (\<lambda>d. resolve_dim_expr_from_shapes d shapes) ds = Ok rs"
    and "traverse (\<lambda>d. resolve_dim_expr_from_shapes d shapes') ds = Ok rs'"
    and "list_all2 (same_shape env) shapes shapes'"
  shows "same_shape env rs rs'"
  using assms(1,2) resolve_same [OF _ _ assms(3)] by (auto simp: traverse_eq_Inr list_all2_conv_all_nth)

lemma truncated_shape_same:
  "truncated_shape a sh = Ok out \<Longrightarrow> truncated_shape a sh' = Ok out' \<Longrightarrow> same_shape env sh sh' \<Longrightarrow> same_shape env out out'"
  by (simp add: truncated_shape_def split: if_splits)

lemma infer_output_shapes_same:
  assumes "infer_output_shapes op shapes = Ok outs" "infer_output_shapes op shapes' = Ok outs'"
    and same: "list_all2 (same_shape env) shapes shapes'" and "\<not> is_extension op"
    and p: "compares_extents op \<Longrightarrow> \<forall>sh \<in> set shapes. \<forall>d \<in> set sh. positive_dim env d"
  shows "list_all2 (same_shape env) outs outs'"
proof -
  note first = first_input_same [OF _ _ same] and both = both_inputs_same [OF _ _ same]
  have default: "first_input shapes (\<lambda>a. Ok a) = Ok outs \<Longrightarrow> first_input shapes' (\<lambda>a. Ok a) = Ok outs' \<Longrightarrow>
      list_all2 (same_shape env) outs outs'" by (erule (1) first) simp
  show ?thesis
  proof (cases op)
    case (Op_GatherDynamicSliceSizes od cd sm iv ss)
    then obtain rs rs' where
      r: "traverse (\<lambda>d. resolve_dim_expr_from_shapes d shapes) ss = Ok rs"
         "traverse (\<lambda>d. resolve_dim_expr_from_shapes d shapes') ss = Ok rs'" and
      o: "both_inputs shapes (\<lambda>a b. gather_shape_from_slice_sizes a b od cd iv rs) = Ok outs"
         "both_inputs shapes' (\<lambda>a b. gather_shape_from_slice_sizes a b od cd iv rs') = Ok outs'"
      using assms(1,2) by auto
    note rs = traverse_resolve_same [OF r same]
    show ?thesis by (rule both [OF o]) (rule gather_same [OF _ _ _ _ rs])
  next
    case (Op_Concatenate axis n)
    then show ?thesis using assms(1,2) concatenate_same [OF _ _ same] by auto
  next
    case (Op_Transpose perm)
    note o = assms(1,2) [unfolded this infer_output_shapes.simps]
    show ?thesis by (rule first [OF o]) (rule permute_shape_same)
  next
    case (Op_ReduceSum axes)
    note o = assms(1,2) [unfolded this infer_output_shapes.simps]
    show ?thesis by (rule first [OF o]) (rule reduced_shape_same)
  next
    case (Op_ReduceSumSquares axes)
    note o = assms(1,2) [unfolded this infer_output_shapes.simps]
    show ?thesis by (rule first [OF o]) (rule reduced_shape_same)
  next
    case (Op_ReduceProd axes)
    note o = assms(1,2) [unfolded this infer_output_shapes.simps]
    show ?thesis by (rule first [OF o]) (rule reduced_shape_same)
  next
    case (Op_ReduceMax axes)
    note o = assms(1,2) [unfolded this infer_output_shapes.simps]
    show ?thesis by (rule first [OF o]) (rule reduced_shape_same)
  next
    case (Op_ReduceMin axes)
    note o = assms(1,2) [unfolded this infer_output_shapes.simps]
    show ?thesis by (rule first [OF o]) (rule reduced_shape_same)
  next
    case (Op_ExtractDiag a b)
    note o = assms(1,2) [unfolded this infer_output_shapes.simps]
    show ?thesis by (rule first [OF o]) (rule extract_diag_same)
  next
    case (Op_EmbedDiag a b)
    note o = assms(1,2) [unfolded this infer_output_shapes.simps]
    show ?thesis by (rule first [OF o]) (rule embed_diag_same)
  next
    case (Op_Slice c)
    note o = assms(1,2) [unfolded this infer_output_shapes.simps]
    show ?thesis by (rule first [OF o]) (rule slice_shape_same)
  next
    case (Op_DynamicTruncate a)
    note o = assms(1,2) [unfolded this infer_output_shapes.simps]
    show ?thesis by (rule first [OF o]) (rule truncated_shape_same)
  next
    case (Op_DotGeneral c)
    note o = assms(1,2) [unfolded this infer_output_shapes.simps]
    show ?thesis by (rule both [OF o]) (rule dot_general_same)
  next
    case (Op_PadToMatch a)
    note o = assms(1,2) [unfolded this infer_output_shapes.simps]
    show ?thesis by (rule both [OF o]) (rule pad_to_match_same)
  next
    case (Op_Gather c)
    note o = assms(1,2) [unfolded this infer_output_shapes.simps gather_shape_def]
    show ?thesis by (rule both [OF o]) (rule gather_same [OF _ _ _ _ same_shape_refl])
  next
    case (Op_Pad c)
    note o = assms(1,2) [unfolded this infer_output_shapes.simps]
    show ?thesis using p Op_Pad by - (rule first [OF o], rule pad_shape_same, assumption+, simp)
  next
    case Op_Add
    note o = assms(1,2) [unfolded this infer_output_shapes.simps]
    show ?thesis using p Op_Add by - (rule both [OF o], rule broadcast_shape_same, assumption+, simp_all)
  next
    case Op_Sub
    note o = assms(1,2) [unfolded this infer_output_shapes.simps]
    show ?thesis using p Op_Sub by - (rule both [OF o], rule broadcast_shape_same, assumption+, simp_all)
  next
    case Op_Mul
    note o = assms(1,2) [unfolded this infer_output_shapes.simps]
    show ?thesis using p Op_Mul by - (rule both [OF o], rule broadcast_shape_same, assumption+, simp_all)
  qed (use assms(1,2,4) default in \<open>simp_all add: list_all2_same\<close>)
qed

section \<open>The backend's own check of a contraction\<close>

lemma axis_fold_iff:
  "(\<exists>seen. try_fold (permutation_step rank role) (replicate rank False) axes = Ok seen) \<longleftrightarrow>
    distinct axes \<and> (\<forall>a \<in> set axes. a < rank)"
  using permutation_fold [of rank role "replicate rank False" axes] permutation_fold_total [of axes rank "replicate rank False" role]
  by auto

lemma validate_axis_list_iff: "validate_axis_list op role axes rank = Ok () \<longleftrightarrow> distinct axes \<and> (\<forall>a \<in> set axes. a < rank)"
  using axis_fold_iff [of rank role axes] by (auto simp: validate_axis_list_def split: sum.splits)

lemma validate_role_disjoint_iff: "validate_role_disjoint op r1 xs r2 ys = Ok () \<longleftrightarrow> set xs \<inter> set ys = {}"
  by (auto simp: validate_role_disjoint_def find_error_iff)

lemma check_roles_iff: "check_roles xs ys r1 r2 = Ok () \<longleftrightarrow> set xs \<inter> set ys = {}"
  by (auto simp: check_roles_def find_error_iff)

lemma duplicate_fold_iff:
  "(\<exists>seen'. try_fold (duplicate_step label) seen dims = Ok seen') \<longleftrightarrow> distinct dims \<and> set dims \<inter> seen = {}"
  by (induction dims arbitrary: seen) (auto simp: duplicate_step_def)

lemma check_no_duplicates_iff: "check_no_duplicates dims label = Ok () \<longleftrightarrow> distinct dims"
  using duplicate_fold_iff [of label "{}" dims] by (auto simp: check_no_duplicates_def)

lemma check_paired_extents_iff:
  "check_paired_extents op l r ps = Ok () \<longleftrightarrow> (\<forall>(i, j) \<in> set ps. l ! i = r ! j)"
  unfolding check_paired_extents_def case_prod_unfold by (simp add: find_error_iff)

lemma validate_dims_iff:
  "validate_dims_with_ranks c lr rr = Ok () \<longleftrightarrow>
    (\<forall>a \<in> set (lhs_contracting_dims c) \<union> set (lhs_batch_dims c). a < lr) \<and>
    (\<forall>a \<in> set (rhs_contracting_dims c) \<union> set (rhs_batch_dims c). a < rr) \<and>
    distinct (lhs_contracting_dims c @ lhs_batch_dims c) \<and> distinct (rhs_contracting_dims c @ rhs_batch_dims c) \<and>
    length (lhs_contracting_dims c) = length (rhs_contracting_dims c) \<and>
    length (lhs_batch_dims c) = length (rhs_batch_dims c)"
  by (simp add: validate_dims_with_ranks_def check_dims_in_rank_Ok check_no_duplicates_iff check_roles_iff) blast

definition paired_extents :: "shape \<Rightarrow> shape \<Rightarrow> dot_general_config \<Rightarrow> bool" where
  "paired_extents l r c \<longleftrightarrow>
    (\<forall>(i, j) \<in> set (zip (lhs_contracting_dims c) (rhs_contracting_dims c)) \<union>
      set (zip (lhs_batch_dims c) (rhs_batch_dims c)). l ! i = r ! j)"

lemma dot_general_output_shape_iff:
  "dot_general_output_shape l r c op = Ok out \<longleftrightarrow>
    dot_general_shape (map Const l) (map Const r) c = Ok (map Const out) \<and> paired_extents l r c"
proof -
  have inj: "map Const xs = map Const ys \<longleftrightarrow> xs = ys" for xs ys
    by (rule inj_map_eq_map) (simp add: inj_def)
  have nth: "map ((!) (map Const sh)) as = map Const (map ((!) sh) as)" if "\<forall>a \<in> set as. a < length sh" for sh as
    using that by simp
  have eq: "dot_general_shape (map Const l) (map Const r) c = Ok (map Const out) \<longleftrightarrow>
      validate_dims_with_ranks c (length l) (length r) = Ok () \<and>
      out = map ((!) l) (free_axes_of (length l) (lhs_contracting_dims c) (lhs_batch_dims c)) @
        map ((!) r) (free_axes_of (length r) (rhs_contracting_dims c) (rhs_batch_dims c)) @
        map ((!) l) (lhs_batch_dims c)"
    by (auto simp: dot_general_shape_def Let_def validate_dims_iff free_axes_of_def inj nth simp flip: map_append
        simp del: map_append map_map)
  show ?thesis
    unfolding eq by (auto simp: dot_general_output_shape_def Let_def validate_axis_list_iff validate_role_disjoint_iff
        check_paired_extents_iff validate_dims_iff paired_extents_def split: if_splits)
qed

end
