(* ===== verification/Infer_Theorems.thy ===== *)
theory Infer_Theorems
  imports Shape_Infer_Correct "HOL-Library.Code_Target_Numeral"
begin

text \<open>
  What \<open>tenferro-runtime/src/shape_infer.rs\<close> promises: inference over symbolic dimensions agrees with
  inference over the extents the program runs with, with the backend's own check of a contraction, and
  with what an extension infers about its inputs. The boundary cases are excluded and recorded below.
\<close>

section \<open>Extensions\<close>

definition extension_env :: "nat \<Rightarrow> shape list \<Rightarrow> nat \<Rightarrow> shape option" where
  "extension_env n cshapes t = Option.bind (map_of (map (\<lambda>i. (usize_max - i, i)) [0..<n]) t) (get cshapes)"

lemma extension_local_tensor_id_Ok [simp]:
  "extension_local_tensor_id i = Ok t \<longleftrightarrow> i \<le> usize_max \<and> t = usize_max - i"
  by (auto simp: extension_local_tensor_id_def)

lemma extension_tensor_map:
  assumes "traverse (\<lambda>i. and_then (extension_local_tensor_id i) (\<lambda>t. Ok (t, i))) [0..<n] = Ok tm"
  shows "tm = map (\<lambda>i. (usize_max - i, i)) [0..<n]" and "\<forall>i < n. i \<le> usize_max"
  using assms by (auto simp: traverse_eq_Inr intro!: nth_equalityI)

lemma extension_env_at:
  assumes "\<forall>i < n. i \<le> usize_max" "i < n"
  shows "extension_env n cshapes (usize_max - i) = get cshapes i"
proof -
  have "inj_on (\<lambda>i. usize_max - i) (set [0..<n])" using assms(1) by (intro inj_onI) (metis atLeastLessThan_iff diff_diff_cancel set_upt)
  then have "map_of (map (\<lambda>i. (usize_max - i, i)) [0..<n]) (usize_max - i) = Some i"
    using assms(2) by (intro map_of_is_SomeI) (auto simp: comp_def distinct_map)
  then show ?thesis by (simp add: extension_env_def)
qed

lemma convert_extension_value:
  assumes "convert_extension_dim (map (\<lambda>i. (usize_max - i, i)) [0..<n]) shapes s = Ok d"
    and "list_all2 (list_all2 (\<lambda>d n. eval d env = Ok n)) shapes cshapes"
  shows "ok (eval d env) = sym_eval (extension_env n cshapes) s"
  using assms(1) resolve_value [OF _ assms(2)] to_dim_expr_eval
  unfolding extension_env_def [abs_def] by (fastforce simp: convert_extension_dim_def)

lemma extension_symdims_value:
  assumes "traverse extension_symdims (zip [0..<length shapes] shapes) = Ok symdims"
    and "list_all2 (list_all2 (\<lambda>d n. eval d env = Ok n)) shapes cshapes"
  shows "list_all2 (list_all2 (\<lambda>s n. sym_eval (extension_env (length shapes) cshapes) s = Some n)) symdims cshapes"
proof (rule list_all2_all_nthI)
  have len: "length symdims = length shapes" using traverse_length [OF assms(1)] by simp
  then show "length symdims = length cshapes" using list_all2_lengthD [OF assms(2)] by simp
  have each: "i \<le> usize_max \<and> symdims ! i = map (extension_symdim (usize_max - i)) (zip [0..<length (shapes ! i)] (shapes ! i))"
    if "i < length shapes" for i
    using assms(1) that by (auto simp: traverse_eq_Inr extension_symdims_def)
  fix i assume "i < length symdims"
  then have i: "i < length shapes" using len by simp
  have sh: "list_all2 (\<lambda>d n. eval d env = Ok n) (shapes ! i) (cshapes ! i)" using assms(2) i by (rule list_all2_nthD)
  have env: "extension_env (length shapes) cshapes (usize_max - i) = Some (cshapes ! i)"
    using extension_env_at [of "length shapes" i cshapes] each i list_all2_lengthD [OF assms(2)] by (simp add: get_def)
  show "list_all2 (\<lambda>s n. sym_eval (extension_env (length shapes) cshapes) s = Some n) (symdims ! i) (cshapes ! i)"
  proof (rule list_all2_all_nthI)
    show "length (symdims ! i) = length (cshapes ! i)" using each [OF i] list_all2_lengthD [OF sh] by simp
    fix k assume "k < length (symdims ! i)"
    then have k: "k < length (shapes ! i)" using each [OF i] by simp
    have "eval (shapes ! i ! k) env = Ok (cshapes ! i ! k)" using sh k by (rule list_all2_nthD)
    then show "sym_eval (extension_env (length shapes) cshapes) (symdims ! i ! k) = Some (cshapes ! i ! k)"
      using each [OF i] k env list_all2_lengthD [OF sh]
      by (auto simp: extension_symdim_def get_def split: dim_expr.split)
  qed
qed

text \<open>C18: An extension's own inference is carried over faithfully: it sees symbolic shapes that are worth
  the extents of its inputs, and every output dimension and every constraint it returns becomes a
  dimension expression of the program that is worth the same under all input extents.\<close>

theorem extension_inference_faithful:
  assumes "infer_extension_output_meta_with_constraints op dtypes shapes = Ok m"
    and "list_all2 (list_all2 (\<lambda>d n. eval d env = Ok n)) shapes cshapes"
  defines "senv \<equiv> extension_env (length shapes) cshapes"
  shows "\<exists>symdims metas ctx.
    list_all2 (list_all2 (\<lambda>s n. sym_eval senv s = Some n)) symdims cshapes \<and>
    xo_infer_output_meta op (new_for_inference (xo_family_id op) dtypes symdims) = Ok (metas, ctx) \<and>
    length metas = xo_output_count op \<and>
    list_all2 (\<lambda>(t, ds) (t', ss). t = t' \<and> list_all2 (\<lambda>d s. ok (eval d env) = sym_eval senv s) ds ss)
      (xm_output_metas m) metas \<and>
    list_all2 (\<lambda>l c. ok (eval (lc_lhs l) env) = sym_eval senv (sc_lhs c) \<and>
        ok (eval (lc_rhs l) env) = sym_eval senv (sc_rhs c) \<and> lc_relation l = sc_relation c)
      (xm_constraints m) (ctx_constraints ctx)"
proof -
  from assms(1) obtain symdims inferred tm where
    s: "traverse extension_symdims (zip [0..<length shapes] shapes) = Ok symdims" and
    i: "invoke_extension_shape_inference op dtypes symdims = Ok inferred" and
    t: "traverse (\<lambda>i. and_then (extension_local_tensor_id i) (\<lambda>t. Ok (t, i))) [0..<length shapes] = Ok tm" and
    o: "traverse (\<lambda>(dtype, sh). and_then (traverse (convert_extension_dim tm shapes) sh) (\<lambda>dims. Ok (dtype, dims)))
      (xi_output_metas inferred) = Ok (xm_output_metas m)" and
    c: "traverse (\<lambda>c. and_then (convert_extension_dim tm shapes (sc_lhs c)) (\<lambda>lhs.
        and_then (convert_extension_dim tm shapes (sc_rhs c)) (\<lambda>rhs.
          Ok \<lparr>lc_source = \<lparr>cs_family = xo_family_id op, cs_instruction = None\<rparr>,
            lc_relation = sc_relation c, lc_lhs = lhs, lc_rhs = rhs\<rparr>))) (xi_constraints inferred) = Ok (xm_constraints m)"
    by (auto simp: infer_extension_output_meta_with_constraints_def simp del: extension_local_tensor_id_Ok)
  note conv = convert_extension_value [OF _ assms(2), of "length shapes", folded extension_tensor_map(1) [OF t] senv_def]
  from i obtain metas ctx where x: "xo_infer_output_meta op (new_for_inference (xo_family_id op) dtypes symdims) = Ok (metas, ctx)"
      "length metas = xo_output_count op" "inferred = \<lparr>xi_output_metas = metas, xi_constraints = ctx_constraints ctx\<rparr>"
    by (auto simp: invoke_extension_shape_inference_def Let_def split: if_splits)
  have "list_all2 (\<lambda>(t, ds) (t', ss). t = t' \<and> list_all2 (\<lambda>d s. ok (eval d env) = sym_eval senv s) ds ss)
      (xm_output_metas m) metas"
    using o conv by (auto simp: x(3) traverse_eq_Inr list_all2_conv_all_nth split: prod.splits)
  moreover have "list_all2 (\<lambda>l c. ok (eval (lc_lhs l) env) = sym_eval senv (sc_lhs c) \<and>
        ok (eval (lc_rhs l) env) = sym_eval senv (sc_rhs c) \<and> lc_relation l = sc_relation c)
      (xm_constraints m) (ctx_constraints ctx)"
  proof (rule list_all2_all_nthI)
    show "length (xm_constraints m) = length (ctx_constraints ctx)" using traverse_length [OF c] by (simp add: x(3))
    fix k assume "k < length (xm_constraints m)"
    then have "k < length (ctx_constraints ctx)" using traverse_length [OF c] by (simp add: x(3))
    with c obtain lhs rhs where "convert_extension_dim tm shapes (sc_lhs (ctx_constraints ctx ! k)) = Ok lhs"
      "convert_extension_dim tm shapes (sc_rhs (ctx_constraints ctx ! k)) = Ok rhs"
      "xm_constraints m ! k = \<lparr>lc_source = \<lparr>cs_family = xo_family_id op, cs_instruction = None\<rparr>,
        lc_relation = sc_relation (ctx_constraints ctx ! k), lc_lhs = lhs, lc_rhs = rhs\<rparr>"
      by (auto simp: x(3) traverse_eq_Inr)
    then show "ok (eval (lc_lhs (xm_constraints m ! k)) env) = sym_eval senv (sc_lhs (ctx_constraints ctx ! k)) \<and>
        ok (eval (lc_rhs (xm_constraints m ! k)) env) = sym_eval senv (sc_rhs (ctx_constraints ctx ! k)) \<and>
        lc_relation (xm_constraints m ! k) = sc_relation (ctx_constraints ctx ! k)"
      using conv by simp
  qed
  ultimately show ?thesis
    using extension_symdims_value [OF s assms(2), folded senv_def] x(1,2) by blast
qed

definition same_shape_op :: extension_op where
  "same_shape_op = \<lparr>xo_family_id = ''pair'', xo_input_count = 2, xo_output_count = 1,
    xo_infer_output_meta = (\<lambda>ctx. map_err (\<lambda>_. Tensor_Failure 0)
      (and_then (require_same_shape ctx 0 1) (\<lambda>ctx'.
       and_then (ctx_input_shape ctx 0) (\<lambda>sh. Ok ([(F64, sh)], ctx')))))\<rparr>"

theorem extension_inference_faithful_witness:
  "\<exists>m. infer_extension_output_meta_with_constraints same_shape_op [F64, F64]
      [[InputDim 3 1], [Const 5]] = Ok m \<and>
    ok (eval (lc_lhs (xm_constraints m ! 0)) [[], [], [], [2, 5]]) = Some 5"
proof -
  let ?shapes = "[[InputDim 3 1], [Const 5]]" and ?env = "[[], [], [], [2, 5]] :: shape list"
  have r: "infer_extension_output_meta_with_constraints same_shape_op [F64, F64] ?shapes =
      Ok \<lparr>xm_output_metas = [(F64, [InputDim 3 1])], xm_constraints = [\<lparr>lc_source = \<lparr>cs_family = ''pair'', cs_instruction = None\<rparr>,
        lc_relation = Equal, lc_lhs = InputDim 3 1, lc_rhs = Const 5\<rparr>]\<rparr>" by code_simp
  have w: "list_all2 (list_all2 (\<lambda>d n. eval d ?env = Ok n)) ?shapes [[5], [5]]" by (simp add: get_def)
  from extension_inference_faithful [OF r w] obtain symdims metas ctx where
    "xo_infer_output_meta same_shape_op (new_for_inference (xo_family_id same_shape_op) [F64, F64] symdims) = Ok (metas, ctx)"
    by blast
  with r show ?thesis by (simp add: get_def)
qed

section \<open>Symbolic and concrete inference\<close>

text \<open>The shapes an operation sees when nothing about its inputs is known but their ranks.\<close>

definition generic_shapes :: "shape list \<Rightarrow> dim_expr list list" where
  "generic_shapes cshapes = map (\<lambda>i. input_shape i (length (cshapes ! i))) [0..<length cshapes]"

lemma generic_shapes_same:
  "list_all2 (same_shape cshapes) (generic_shapes cshapes) (map from_concrete cshapes)"
  by (auto simp: generic_shapes_def input_shape_def from_concrete_def list_all2_conv_all_nth same_value_def get_def)

text \<open>A symbolic dimension that is a constant is the concrete extent. Inference over such dimensions accepts
  what inference over the extents accepts, because it only fails on ranks, axes and constants.\<close>

definition const_agrees :: "dim_expr \<Rightarrow> dim_expr \<Rightarrow> bool" where
  "const_agrees d d' \<longleftrightarrow> (\<forall>n. d = Const n \<longrightarrow> d' = Const n)"

abbreviation "shape_agrees \<equiv> list_all2 const_agrees"

lemma generic_shapes_agree:
  "list_all2 shape_agrees (generic_shapes cshapes) (map from_concrete cshapes)"
  by (auto simp: generic_shapes_def input_shape_def from_concrete_def list_all2_conv_all_nth const_agrees_def)

lemma first_input_total:
  assumes "first_input shapes' f' = Ok outs'" and "list_all2 shape_agrees shapes shapes'"
    and "\<And>a a' out'. a \<in> set shapes \<Longrightarrow> a' \<in> set shapes' \<Longrightarrow> shape_agrees a a' \<Longrightarrow> f' a' = Ok out' \<Longrightarrow> \<exists>out. f a = Ok out"
  shows "\<exists>outs. first_input shapes f = Ok outs"
proof -
  note len = list_all2_lengthD [OF assms(2)]
  from assms(1) obtain out' where o: "0 < length shapes'" "f' (shapes' ! 0) = Ok out'" by (auto simp: first_input_def)
  have "shape_agrees (shapes ! 0) (shapes' ! 0)" using list_all2_nthD2 [OF assms(2) o(1)] .
  then have "\<exists>out. f (shapes ! 0) = Ok out" using assms(3) [OF _ _ _ o(2)] o(1) len nth_mem by metis
  then show ?thesis using o(1) len by (auto simp: first_input_def)
qed

lemma both_inputs_total:
  assumes "both_inputs shapes' f' = Ok outs'" and "list_all2 shape_agrees shapes shapes'"
    and "\<And>a a' b b' out'. shape_agrees a a' \<Longrightarrow> shape_agrees b b' \<Longrightarrow> f' a' b' = Ok out' \<Longrightarrow> \<exists>out. f a b = Ok out"
  shows "\<exists>outs. both_inputs shapes f = Ok outs"
proof -
  note len = list_all2_lengthD [OF assms(2)]
  from assms(1) obtain out' where o: "0 < length shapes'" "1 < length shapes'" "f' (shapes' ! 0) (shapes' ! 1) = Ok out'"
    by (auto simp: both_inputs_def)
  have "shape_agrees (shapes ! 0) (shapes' ! 0)" "shape_agrees (shapes ! 1) (shapes' ! 1)"
    using list_all2_nthD2 [OF assms(2) o(1)] list_all2_nthD2 [OF assms(2) o(2)] by simp_all
  from assms(3) [OF this o(3)] show ?thesis using o len by (auto simp: both_inputs_def)
qed

lemma broadcast_shape_total:
  assumes "same_or_scalar_broadcast_shape a' b' = Ok out'" and "shape_agrees a a'" "shape_agrees b b'"
  shows "\<exists>out. same_or_scalar_broadcast_shape a b = Ok out"
proof -
  have len: "length a = length a'" "length b = length b'" using assms(2,3) by (auto dest: list_all2_lengthD)
  have aligned: "const_agrees (broadcast_aligned_dim x r k) (broadcast_aligned_dim x' r k)"
    if "shape_agrees x x'" "k < r" "length x \<le> r" for x x' k r
    using that list_all2_nthD [OF that(1), of "k - (r - length x)"] list_all2_lengthD [OF that(1)]
    by (auto simp: broadcast_aligned_dim_def const_agrees_def)
  have one: "\<exists>e. broadcast_dim d1 d2 = Ok e"
    if "broadcast_dim d1' d2' = Ok e'" "const_agrees d1 d1'" "const_agrees d2 d2'" for d1 d2 d1' d2' e'
    using that by (auto simp: broadcast_dim_def const_agrees_def split: dim_expr.splits if_splits)
  let ?r = "max (length a') (length b')"
  have each: "\<exists>e. broadcast_dim (broadcast_aligned_dim a ?r k) (broadcast_aligned_dim b ?r k) = Ok e" if "k < ?r" for k
  proof -
    have "broadcast_dim (broadcast_aligned_dim a' ?r k) (broadcast_aligned_dim b' ?r k) = Ok (out' ! k)"
      using conjunct2 [OF assms(1) [unfolded same_or_scalar_broadcast_shape_def Let_def traverse_eq_Inr], rule_format, of k] that
      by simp
    then show ?thesis by (rule one) (use aligned assms(2,3) that len in simp_all)
  qed
  then have "\<forall>k < ?r. \<exists>e. broadcast_dim (broadcast_aligned_dim a ?r k) (broadcast_aligned_dim b ?r k) = Ok e" by blast
  from iffD1 [OF Skolem_list_nth this] obtain ys where "length ys = ?r"
    "\<forall>k < ?r. broadcast_dim (broadcast_aligned_dim a ?r k) (broadcast_aligned_dim b ?r k) = Ok (ys ! k)" by auto
  then have "same_or_scalar_broadcast_shape a b = Ok ys"
    by (simp add: same_or_scalar_broadcast_shape_def Let_def traverse_eq_Inr len)
  then show ?thesis by blast
qed

lemma dim_add_total: "dim_add a' b' = Ok c' \<Longrightarrow> const_agrees a a' \<Longrightarrow> const_agrees b b' \<Longrightarrow> \<exists>c. dim_add a b = Ok c \<and> const_agrees c c'"
  by (cases a; cases b) (auto simp: const_agrees_def)

lemma dim_sub_total: "dim_sub a' b' = Ok c' \<Longrightarrow> const_agrees a a' \<Longrightarrow> const_agrees b b' \<Longrightarrow> \<exists>c. dim_sub a b = Ok c \<and> const_agrees c c'"
  by (cases a; cases b) (auto simp: const_agrees_def)

lemma dim_mul_total: "dim_mul a' b' = Ok c' \<Longrightarrow> const_agrees a a' \<Longrightarrow> const_agrees b b' \<Longrightarrow> \<exists>c. dim_mul a b = Ok c \<and> const_agrees c c'"
  by (cases a; cases b) (auto simp: const_agrees_def)

lemma resolve_total:
  assumes "list_all2 shape_agrees shapes shapes'"
  shows "resolve_dim_expr_from_shapes d shapes' = Ok r' \<Longrightarrow>
    \<exists>r. resolve_dim_expr_from_shapes d shapes = Ok r \<and> const_agrees r r'"
proof (induction d arbitrary: r')
  case (InputDim i a)
  then have i: "i < length shapes'" "a < length (shapes' ! i)" "r' = shapes' ! i ! a"
    by (auto simp: require_input_expr_def get_def split: if_splits)
  note sh = list_all2_nthD2 [OF assms i(1)]
  show ?case using i list_all2_nthD2 [OF sh i(2)] list_all2_lengthD [OF assms] list_all2_lengthD [OF sh]
    by (simp add: require_input_expr_def get_def)
next
  case (Add a b)
  then obtain x' y' where r: "resolve_dim_expr_from_shapes a shapes' = Ok x'" "resolve_dim_expr_from_shapes b shapes' = Ok y'"
    "dim_add x' y' = Ok r'" by auto
  from Add.IH(1) [OF r(1)] obtain x where x: "resolve_dim_expr_from_shapes a shapes = Ok x" "const_agrees x x'" by blast
  from Add.IH(2) [OF r(2)] obtain y where y: "resolve_dim_expr_from_shapes b shapes = Ok y" "const_agrees y y'" by blast
  show ?case using dim_add_total [OF r(3) x(2) y(2)] x(1) y(1) by simp
next
  case (Sub a b)
  then obtain x' y' where r: "resolve_dim_expr_from_shapes a shapes' = Ok x'" "resolve_dim_expr_from_shapes b shapes' = Ok y'"
    "dim_sub x' y' = Ok r'" by auto
  from Sub.IH(1) [OF r(1)] obtain x where x: "resolve_dim_expr_from_shapes a shapes = Ok x" "const_agrees x x'" by blast
  from Sub.IH(2) [OF r(2)] obtain y where y: "resolve_dim_expr_from_shapes b shapes = Ok y" "const_agrees y y'" by blast
  show ?case using dim_sub_total [OF r(3) x(2) y(2)] x(1) y(1) by simp
next
  case (Mul a b)
  then obtain x' y' where r: "resolve_dim_expr_from_shapes a shapes' = Ok x'" "resolve_dim_expr_from_shapes b shapes' = Ok y'"
    "dim_mul x' y' = Ok r'" by auto
  from Mul.IH(1) [OF r(1)] obtain x where x: "resolve_dim_expr_from_shapes a shapes = Ok x" "const_agrees x x'" by blast
  from Mul.IH(2) [OF r(2)] obtain y where y: "resolve_dim_expr_from_shapes b shapes = Ok y" "const_agrees y y'" by blast
  show ?case using dim_mul_total [OF r(3) x(2) y(2)] x(1) y(1) by simp
qed (auto simp: const_agrees_def seq2_def)

lemma resolve_all_total:
  assumes "list_all2 shape_agrees shapes shapes'" and "traverse (\<lambda>d. resolve_dim_expr_from_shapes d shapes') ds = Ok rs'"
  shows "\<exists>rs. traverse (\<lambda>d. resolve_dim_expr_from_shapes d shapes) ds = Ok rs \<and> shape_agrees rs rs'"
  using assms(2)
proof (induction ds arbitrary: rs')
  case (Cons d ds)
  then obtain r' ts' where r: "resolve_dim_expr_from_shapes d shapes' = Ok r'"
    "traverse (\<lambda>d. resolve_dim_expr_from_shapes d shapes') ds = Ok ts'" "rs' = r' # ts'" by auto
  from resolve_total [OF assms(1) r(1)] Cons.IH [OF r(2)] show ?case by (auto simp: r(3))
qed simp

lemma place_axes_total:
  "place_axes ss' bs' ts = Ok out' \<Longrightarrow> length bs = length bs' \<Longrightarrow> \<exists>out. place_axes ss bs ts = Ok out"
proof (induction ss' bs' ts arbitrary: bs out' rule: place_axes.induct)
  case (4 ss b bs' ts)
  then show ?case by (cases bs) auto
qed auto

lemma slice_sizes_total:
  assumes "validate_gather_slice_sizes_within_operand a' rs' = Ok ()" and "shape_agrees a a'" "shape_agrees rs rs'"
  shows "validate_gather_slice_sizes_within_operand a rs = Ok ()"
proof -
  have none: "validate_gather_slice_sizes_within_operand x r = Ok () \<longleftrightarrow> (\<forall>p \<in> set (zip r x). \<not> slice_size_too_large p)" for x r
  proof (cases "find slice_size_too_large (zip r x)")
    case None
    then have "\<forall>p \<in> set (zip r x). \<not> slice_size_too_large p" unfolding find_None_iff by blast
    with None show ?thesis by (simp add: validate_gather_slice_sizes_within_operand_def)
  next
    case (Some p)
    then have p: "p \<in> set (zip r x)" "slice_size_too_large p"
      unfolding find_Some_iff by (metis nth_mem)+
    then obtain m n where "p = (Const m, Const n)"
      by (auto simp: slice_size_too_large_def split: prod.splits dim_expr.splits)
    then show ?thesis using Some p by (auto simp: validate_gather_slice_sizes_within_operand_def)
  qed
  show ?thesis
    unfolding none
  proof (intro ballI notI)
    fix p assume "p \<in> set (zip rs a)" and large: "slice_size_too_large p"
    then obtain k where k: "k < length rs" "k < length a" "p = (rs ! k, a ! k)" by (auto simp: set_zip)
    then obtain m n where mn: "rs ! k = Const m" "a ! k = Const n" "n < m"
      using large by (auto simp: slice_size_too_large_def split: dim_expr.splits)
    have "rs' ! k = Const m" "a' ! k = Const n"
      using list_all2_nthD [OF assms(3) k(1)] list_all2_nthD [OF assms(2) k(2)] mn by (simp_all add: const_agrees_def)
    moreover have "(rs' ! k, a' ! k) \<in> set (zip rs' a')"
      using k list_all2_lengthD [OF assms(3)] list_all2_lengthD [OF assms(2)] by (auto simp: set_zip)
    ultimately show False using assms(1) mn(3) by (fastforce simp: none slice_size_too_large_def)
  qed
qed

lemma gather_total:
  assumes g: "gather_shape_from_slice_sizes a' b' od cd iv rs' = Ok out'" and "shape_agrees a a'" "shape_agrees b b'" "shape_agrees rs rs'"
  shows "\<exists>out. gather_shape_from_slice_sizes a b od cd iv rs = Ok out"
proof -
  have len: "length a = length a'" "length b = length b'" "length rs = length rs'"
    using assms(2-4) by (auto dest: list_all2_lengthD)
  show ?thesis
    using g slice_sizes_total [OF _ assms(2,4)] place_axes_total
    by (auto simp: gather_shape_from_slice_sizes_def Let_def len length_remove_at split: if_splits option.splits)
qed

lemma dim_ops_symbolic:
  assumes "\<not> is_const d"
  shows "dim_add d (Const x) = Ok (Add d (Const x))" "dim_sub d (Const x) = Ok (Sub d (Const x))"
    "dim_mul d (Const x) = Ok (Mul d (Const x))"
  using assms by (cases d; simp)+

lemma add_signed_symbolic:
  assumes "\<not> is_const d" and "isize_ok amount" and "isize_ok (- amount)"
  shows "\<exists>e. add_signed d amount = Ok e"
proof (cases "0 \<le> amount")
  case True
  then have "usize_try_from amount = Some (nat amount)" using assms(2) isize_ok_nonneg_usize by simp
  then show ?thesis using True assms(1) by (simp add: add_signed_def dim_ops_symbolic del: usize_try_from_eq)
next
  case False
  then have "usize_try_from (- amount) = Some (nat (- amount))" using assms(3) isize_ok_nonneg_usize by simp
  then show ?thesis using False assms(1,3) by (simp add: add_signed_def dim_ops_symbolic del: usize_try_from_eq)
qed

lemma pad_axis_total:
  assumes p: "pad_axis c (axis, Const n) = Ok e'" and "0 < n" and "const_agrees d (Const n)"
  shows "\<exists>e. pad_axis c (axis, d) = Ok e"
proof (cases "is_const d")
  case True
  then show ?thesis using assms by (cases d) (auto simp: const_agrees_def)
next
  case False
  let ?i = "pa_interior_padding c ! axis" and ?a = "pa_edge_padding_low c ! axis + pa_edge_padding_high c ! axis"
  from p obtain base where b: "0 \<le> ?i" "pad_base n ?i = Ok base" "isize_ok ?a" "0 \<le> ?a + base"
    by (auto simp: pad_axis_def Let_def bind_eq_Some_conv split: if_splits)
  have "isize_ok base" using pad_base_value(2) [OF b(2) _ b(1)] assms(2) by simp
  then have n: "isize_ok (- ?a)" using b(3,4) by (simp add: int_range_defs)
  have s: "isize_ok (?i + 1)" using b(2) assms(2) by (auto simp: pad_base_def split: if_splits)
  then have u: "usize_try_from (?i + 1) = Some (nat (?i + 1))" using b(1) isize_ok_nonneg_usize by simp
  obtain e1 where "add_signed d ?a = Ok e1" using add_signed_symbolic [OF False b(3) n] by blast
  moreover obtain e2 where "add_signed (Add (Mul (Sub d (Const 1)) (Const (nat (?i + 1)))) (Const 1)) ?a = Ok e2"
    using add_signed_symbolic [OF _ b(3) n] by fastforce
  ultimately show ?thesis
    using b(1,3) s u False by (simp add: pad_axis_symbolic_eq Let_def signed_padding_sum_def dim_ops_symbolic or_overflow_def
      usize_from_nonnegative_i64_def del: usize_try_from_eq)
qed

lemma pad_shape_total:
  assumes p: "pad_shape (from_concrete sh) c = Ok out'" and a: "shape_agrees a (from_concrete sh)" and "0 \<notin> set sh"
  shows "\<exists>out. pad_shape a c = Ok out"
proof -
  have len: "length a = length sh" using list_all2_lengthD [OF a] by (simp add: from_concrete_def)
  from p have pp: "length (pa_edge_padding_low c) = length sh \<and> length (pa_edge_padding_high c) = length sh \<and>
      length (pa_interior_padding c) = length sh"
    "traverse (pad_axis c) (zip [0..<length sh] (from_concrete sh)) = Ok out'"
    by (simp_all add: pad_shape_def Let_def from_concrete_def split: if_splits)
  have each: "\<exists>e. pad_axis c (k, a ! k) = Ok e" if "k < length sh" for k
  proof -
    have "pad_axis c (k, Const (sh ! k)) = Ok (out' ! k)"
      using pp(2) [unfolded traverse_eq_Inr] that by (simp add: from_concrete_def)
    moreover have "0 < sh ! k" using assms(3) that by (metis gr0I nth_mem)
    moreover have "const_agrees (a ! k) (Const (sh ! k))"
      using list_all2_nthD2 [OF a, of k] that by (simp add: from_concrete_def)
    ultimately show ?thesis by (rule pad_axis_total)
  qed
  then have "\<forall>k < length sh. \<exists>e. pad_axis c (k, a ! k) = Ok e" by blast
  from iffD1 [OF Skolem_list_nth this] obtain ys where "length ys = length sh" "\<forall>k < length sh. pad_axis c (k, a ! k) = Ok (ys ! k)" by auto
  then have "traverse (pad_axis c) (zip [0..<length sh] a) = Ok ys" by (simp add: traverse_eq_Inr len)
  then show ?thesis using pp(1) by (simp add: pad_shape_def Let_def len)
qed

fun is_concatenate :: "std_tensor_op \<Rightarrow> bool" where
  "is_concatenate (Op_Concatenate _ _) = True"
| "is_concatenate _ = False"

lemma infer_output_shapes_total:
  assumes "infer_output_shapes op (map from_concrete cshapes) = Ok couts"
    and same: "list_all2 shape_agrees shapes (map from_concrete cshapes)"
    and "\<not> is_extension op" and "\<not> is_concatenate op" and p: "compares_extents op \<Longrightarrow> 0 \<notin> \<Union> (set ` set cshapes)"
  shows "\<exists>outs. infer_output_shapes op shapes = Ok outs"
proof -
  note first = first_input_total [OF _ same] and both = both_inputs_total [OF _ same]
  have len: "shape_agrees a a' \<Longrightarrow> length a = length a'" for a a' by (rule list_all2_lengthD)
  have default: "first_input (map from_concrete cshapes) (\<lambda>a. Ok a) = Ok couts \<Longrightarrow>
      \<exists>outs. first_input shapes (\<lambda>a. Ok a) = Ok outs" by (erule first) simp
  show ?thesis
  proof (cases op)
    case (Op_GatherDynamicSliceSizes od cd sm iv ss)
    then obtain rs' where r: "traverse (\<lambda>d. resolve_dim_expr_from_shapes d (map from_concrete cshapes)) ss = Ok rs'"
      and o: "both_inputs (map from_concrete cshapes) (\<lambda>a b. gather_shape_from_slice_sizes a b od cd iv rs') = Ok couts"
      using assms(1) by auto
    from resolve_all_total [OF same r] obtain rs where
      rs: "traverse (\<lambda>d. resolve_dim_expr_from_shapes d shapes) ss = Ok rs" "shape_agrees rs rs'" by blast
    have "\<exists>outs. both_inputs shapes (\<lambda>a b. gather_shape_from_slice_sizes a b od cd iv rs) = Ok outs"
      by (rule both [OF o]) (rule gather_total [OF _ _ _ rs(2)])
    then show ?thesis using Op_GatherDynamicSliceSizes rs(1) by simp
  next
    case (Op_Transpose perm)
    show ?thesis unfolding Op_Transpose infer_output_shapes.simps
      by (rule first [OF assms(1) [unfolded Op_Transpose infer_output_shapes.simps]]) (auto simp: permute_shape_def dest: len)
  next
    case (Op_ReduceSum axes)
    show ?thesis unfolding Op_ReduceSum infer_output_shapes.simps
      by (rule first [OF assms(1) [unfolded Op_ReduceSum infer_output_shapes.simps]])
        (auto simp: infer_reduced_shape_def validate_reduction_axes_def dest: len)
  next
    case (Op_ReduceSumSquares axes)
    show ?thesis unfolding Op_ReduceSumSquares infer_output_shapes.simps
      by (rule first [OF assms(1) [unfolded Op_ReduceSumSquares infer_output_shapes.simps]])
        (auto simp: infer_reduced_shape_def validate_reduction_axes_def dest: len)
  next
    case (Op_ReduceProd axes)
    show ?thesis unfolding Op_ReduceProd infer_output_shapes.simps
      by (rule first [OF assms(1) [unfolded Op_ReduceProd infer_output_shapes.simps]])
        (auto simp: infer_reduced_shape_def validate_reduction_axes_def dest: len)
  next
    case (Op_ReduceMax axes)
    show ?thesis unfolding Op_ReduceMax infer_output_shapes.simps
      by (rule first [OF assms(1) [unfolded Op_ReduceMax infer_output_shapes.simps]])
        (auto simp: infer_reduced_shape_def validate_reduction_axes_def dest: len)
  next
    case (Op_ReduceMin axes)
    show ?thesis unfolding Op_ReduceMin infer_output_shapes.simps
      by (rule first [OF assms(1) [unfolded Op_ReduceMin infer_output_shapes.simps]])
        (auto simp: infer_reduced_shape_def validate_reduction_axes_def dest: len)
  next
    case (Op_ExtractDiag a b)
    show ?thesis unfolding Op_ExtractDiag infer_output_shapes.simps
      by (rule first [OF assms(1) [unfolded Op_ExtractDiag infer_output_shapes.simps]])
        (auto simp: extract_diag_shape_def Let_def dest: len split: if_splits)
  next
    case (Op_EmbedDiag a b)
    show ?thesis unfolding Op_EmbedDiag infer_output_shapes.simps
      by (rule first [OF assms(1) [unfolded Op_EmbedDiag infer_output_shapes.simps]])
        (auto simp: embed_diag_shape_def dest: len split: if_splits)
  next
    case (Op_Slice c)
    show ?thesis unfolding Op_Slice infer_output_shapes.simps
      by (rule first [OF assms(1) [unfolded Op_Slice infer_output_shapes.simps]])
        (auto simp: slice_shape_def Let_def dest: len split: if_splits)
  next
    case (Op_DynamicTruncate a)
    show ?thesis unfolding Op_DynamicTruncate infer_output_shapes.simps
      by (rule first [OF assms(1) [unfolded Op_DynamicTruncate infer_output_shapes.simps]])
        (auto simp: truncated_shape_def dest: len split: if_splits)
  next
    case (Op_DotGeneral c)
    show ?thesis unfolding Op_DotGeneral infer_output_shapes.simps
      by (rule both [OF assms(1) [unfolded Op_DotGeneral infer_output_shapes.simps]])
        (auto simp: dot_general_shape_def Let_def dest!: len)
  next
    case (Op_PadToMatch a)
    show ?thesis unfolding Op_PadToMatch infer_output_shapes.simps
      by (rule both [OF assms(1) [unfolded Op_PadToMatch infer_output_shapes.simps]])
        (auto simp: pad_to_match_shape_def dest!: len split: if_splits)
  next
    case (Op_Gather c)
    have refl: "shape_agrees x x" for x by (simp add: list_all2_same const_agrees_def)
    show ?thesis unfolding Op_Gather infer_output_shapes.simps gather_shape_def
      by (rule both [OF assms(1) [unfolded Op_Gather infer_output_shapes.simps gather_shape_def]])
        (rule gather_total [OF _ _ _ refl])
  next
    case (Op_Pad c)
    have z: "0 \<notin> \<Union> (set ` set cshapes)" using p Op_Pad by simp
    show ?thesis unfolding Op_Pad infer_output_shapes.simps
      by (rule first [OF assms(1) [unfolded Op_Pad infer_output_shapes.simps]]) (use z pad_shape_total in auto)
  next
    case Op_Add
    show ?thesis unfolding Op_Add infer_output_shapes.simps
      by (rule both [OF assms(1) [unfolded Op_Add infer_output_shapes.simps]]) (rule broadcast_shape_total)
  next
    case Op_Sub
    show ?thesis unfolding Op_Sub infer_output_shapes.simps
      by (rule both [OF assms(1) [unfolded Op_Sub infer_output_shapes.simps]]) (rule broadcast_shape_total)
  next
    case Op_Mul
    show ?thesis unfolding Op_Mul infer_output_shapes.simps
      by (rule both [OF assms(1) [unfolded Op_Mul infer_output_shapes.simps]]) (rule broadcast_shape_total)
  qed (use assms(1,3,4) default in simp_all)
qed

text \<open>C5: Shapes inferred once over symbolic dimensions are those of every run: for a standard operation whose
  shapes are accepted when inferred over the extents of a run, symbolic inference also succeeds and every
  output dimension is worth the concrete extent. Two conditions limit this. The sums, products and padding,
  which compare or shrink extents, need extents that are not zero. And concatenation requires the other axes
  to be the same expressions, so for it acceptance is not promised, only the values.\<close>

theorem symbolic_inference_agrees:
  assumes "infer_output_shapes op (map from_concrete cshapes) = Ok couts"
    and "\<not> is_extension op" and "compares_extents op \<Longrightarrow> 0 \<notin> \<Union> (set ` set cshapes)"
  shows "(is_concatenate op \<or> (\<exists>outs. infer_output_shapes op (generic_shapes cshapes) = Ok outs)) \<and>
    (\<forall>outs. infer_output_shapes op (generic_shapes cshapes) = Ok outs \<longrightarrow>
      list_all2 (list_all2 (\<lambda>e c. ok (eval e cshapes) = ok (eval c cshapes))) outs couts)"
proof -
  have "\<forall>sh \<in> set (generic_shapes cshapes). \<forall>d \<in> set sh. positive_dim cshapes d" if "compares_extents op"
  proof -
    have "0 \<noteq> cshapes ! i ! k" if "i < length cshapes" "k < length (cshapes ! i)" for i k
      using assms(3) [OF \<open>compares_extents op\<close>] that by (metis UN_I nth_mem)
    then show ?thesis
      by (auto simp: generic_shapes_def input_shape_def positive_dim_def get_def)
  qed
  then have "list_all2 (list_all2 (\<lambda>e c. ok (eval e cshapes) = ok (eval c cshapes))) outs couts"
    if "infer_output_shapes op (generic_shapes cshapes) = Ok outs" for outs
    using infer_output_shapes_same [OF that assms(1) generic_shapes_same assms(2)] by (simp add: same_value_def [abs_def])
  then show ?thesis using infer_output_shapes_total [OF assms(1) generic_shapes_agree assms(2) _ assms(3)] by blast
qed

theorem symbolic_inference_agrees_witness:
  "ok (eval (Max (InputDim 0 0) (InputDim 1 0)) [[3, 1], [3, 4]]) = ok (eval (Const 3) [[3, 1], [3, 4]])"
proof -
  let ?c = "[[3, 1], [3, 4]] :: shape list"
  have s: "infer_output_shapes Op_Add (generic_shapes ?c) =
      Ok [[Max (InputDim 0 0) (InputDim 1 0), Max (InputDim 0 1) (InputDim 1 1)]]" by code_simp
  have c: "infer_output_shapes Op_Add (map from_concrete ?c) = Ok [[Const 3, Const 4]]" by code_simp
  from symbolic_inference_agrees [OF c] s show ?thesis by simp
qed

text \<open>C17: The compile-time shape rule of a contraction and the backend's runtime check agree: the backend
  accepts exactly when inference does and the paired extents are equal, and then with the inferred shape.\<close>

theorem dot_general_backend_agrees:
  "dot_general_output_shape l r c op = Ok out \<longleftrightarrow>
    dot_general_shape (from_concrete l) (from_concrete r) c = Ok (from_concrete out) \<and> paired_extents l r c"
  unfolding from_concrete_def by (rule dot_general_output_shape_iff)

section \<open>Boundary cases\<close>

text \<open>A dimension that is merely worth \<open>1\<close> hides an empty one: the symbolic rule answers \<open>1\<close> where the
  concrete rule answers \<open>0\<close>.\<close>

lemma symbolic_broadcast_hides_zero:
  "infer_output_shapes Op_Add (generic_shapes [[0], [1]]) = Ok [[Max (InputDim 0 0) (InputDim 1 0)]] \<and>
   eval (Max (InputDim 0 0) (InputDim 1 0)) [[0], [1]] = Ok 1 \<and>
   infer_output_shapes Op_Add (map from_concrete [[0], [1]]) = Ok [[Const 0]]"
  by code_simp

text \<open>Concatenation compares the other axes as expressions, so two inputs that only their extents show to fit
  are rejected symbolically.\<close>

lemma symbolic_concatenate_compares_expressions:
  "is_ok (infer_output_shapes (Op_Concatenate 1 2) (map from_concrete [[2, 3], [2, 4]])) \<and>
   \<not> is_ok (infer_output_shapes (Op_Concatenate 1 2) (generic_shapes [[2, 3], [2, 4]]))"
  by code_simp

text \<open>Interior padding of an empty axis: the concrete rule pads nothing, the symbolic rule underflows.\<close>

lemma symbolic_padding_underflows:
  "infer_output_shapes (Op_Pad \<lparr>pa_edge_padding_low = [1], pa_edge_padding_high = [1], pa_interior_padding = [1]\<rparr>)
      (map from_concrete [[0]]) = Ok [[Const 2]] \<and>
   map_err (\<lambda>_. ()) (case infer_output_shapes (Op_Pad \<lparr>pa_edge_padding_low = [1], pa_edge_padding_high = [1],
       pa_interior_padding = [1]\<rparr>) (generic_shapes [[0]]) of Inl _ \<Rightarrow> Ok 0
     | Inr outs \<Rightarrow> map_err (\<lambda>_. IntegerOverflow) (eval (hd (hd outs)) [[0]])) = Inl ()"
  by code_simp

text \<open>\<open>infer_output_shapes\<close> asks an extension with no dtypes at all, so it fails for every extension that
  has an input.\<close>

lemma extension_shapes_need_dtypes:
  assumes "0 < xo_input_count op"
  shows "\<exists>e. infer_output_shapes (Op_Extension op) shapes = Err e"
proof -
  have "invoke_extension_shape_inference op [] symdims =
      Err (Tensor_Validation ''extension'' (InvalidArgument ''input metadata'' ''wrong number of inputs''))" for symdims
    using assms by (simp add: invoke_extension_shape_inference_def)
  then have "infer_extension_output_meta op [] shapes \<noteq> Ok out" for out
    by (auto simp: infer_extension_output_meta_def infer_extension_output_meta_with_constraints_def)
  then show ?thesis by (cases "infer_extension_output_meta op [] shapes") auto
qed

end
