(* ===== verification/Einsum_Builder.thy ===== *)
theory Einsum_Builder
  imports Einsum_Tree Tensor_Op
begin

text \<open>
  Lowering of a contraction tree to tensor operations (\<open>builder.rs\<close>) and the direct plan of a binary
  product (\<open>binary_dot.rs\<close>). The graph builder is a type of the external \<open>computegraph\<close> crate: its
  state \<open>'g\<close> is threaded through the code and its \<open>add_operation\<close> is an argument, which takes an
  operation with its inputs and returns the local identifiers of the outputs. Every operation the
  lowering adds has one output and the role \<open>Primary\<close>.
\<close>

section \<open>Values of the graph\<close>

datatype 'e value_ref = Local nat | External 'e

record 'e labeled_val =
  lv_val :: "'e value_ref"
  lv_labels :: "label list"
  lv_shape :: "dim_expr list"

type_synonym ('g, 'e) add_operation = "'g \<Rightarrow> std_tensor_op \<Rightarrow> 'e value_ref list \<Rightarrow> nat list \<times> 'g"

definition emit :: "('g, 'e) add_operation \<Rightarrow> 'g \<Rightarrow> std_tensor_op \<Rightarrow> 'e value_ref list \<Rightarrow> 'e value_ref \<times> 'g" where
  "emit add g op inputs = (case add g op inputs of (outputs, g') \<Rightarrow> (Local (outputs ! 0), g'))"

definition localize_value_ref ::
  "('g, 'e) add_operation \<Rightarrow> 'g \<Rightarrow> 'e value_ref \<Rightarrow> dim_expr list \<Rightarrow> 'e value_ref \<times> 'g" where
  "localize_value_ref add g v sh =
    (case v of Local i \<Rightarrow> (v, g) | External e \<Rightarrow> emit add g (Op_Reshape sh) [v])"

definition builder_invalid_argument :: "string \<Rightarrow> einsum_error" where
  "builder_invalid_argument message = Planning (Builder_Invalid message)"

definition find_label_axis :: "label list \<Rightarrow> label \<Rightarrow> nat eres" where
  "find_label_axis labels l = ok_or (position labels l) (builder_invalid_argument ''missing label'')"

definition map_label_axes :: "label list \<Rightarrow> label list \<Rightarrow> nat list eres" where
  "map_label_axes source_labels target_labels =
    ok_or (map_label_occurrences source_labels target_labels)
      (builder_invalid_argument ''cannot map label occurrences'')"

definition local_shape :: "nat \<Rightarrow> dim_expr list" where
  "local_shape rank = input_shape 0 rank"

fun takes_all_labels :: "bool list \<Rightarrow> label list \<Rightarrow> label list \<Rightarrow> bool" where
  "takes_all_labels used canonical [] = True"
| "takes_all_labels used canonical (l # ls) =
    (case find (\<lambda>axis. canonical ! axis = l \<and> \<not> used ! axis) [0..<length canonical] of
       None \<Rightarrow> False
     | Some axis \<Rightarrow> takes_all_labels (used[axis := True]) canonical ls)"

definition select_outer_product_label_order :: "label list \<Rightarrow> label list option \<Rightarrow> label list" where
  "select_outer_product_label_order canonical target =
    (case target of
       None \<Rightarrow> canonical
     | Some target_labels \<Rightarrow>
         if length target_labels \<noteq> length canonical then canonical
         else if takes_all_labels (replicate (length canonical) False) canonical target_labels
         then target_labels else canonical)"

definition labeled_operand :: "'e labeled_val list \<Rightarrow> nat \<Rightarrow> string \<Rightarrow> 'e labeled_val eres" where
  "labeled_operand operands index role = ok_or (get operands index) (builder_invalid_argument ''missing operand'')"

section \<open>Unary operations\<close>

definition local_val :: "'e value_ref \<Rightarrow> label list \<Rightarrow> 'e labeled_val" where
  "local_val v labels = \<lparr>lv_val = v, lv_labels = labels, lv_shape = local_shape (length labels)\<rparr>"

definition reduce_val ::
  "('g, 'e) add_operation \<Rightarrow> 'g \<Rightarrow> 'e labeled_val \<Rightarrow> label set \<Rightarrow> 'e labeled_val \<times> 'g" where
  "reduce_val add g lv reduce_labels =
    (if reduce_labels = {} then (lv, g)
     else
       let labels = lv_labels lv;
           reduce_axes = filter (\<lambda>i. labels ! i \<in> reduce_labels) [0..<length labels] in
       if reduce_axes = [] then (lv, g)
       else
         let new_labels = map (\<lambda>i. labels ! i) (filter (\<lambda>i. i \<notin> set reduce_axes) [0..<length labels]) in
         case emit add g (Op_ReduceSum reduce_axes) [lv_val lv] of
           (v, g') \<Rightarrow> (local_val v new_labels, g'))"

definition missing_repeat :: "label list \<Rightarrow> label list \<Rightarrow> label option" where
  "missing_repeat labels output_labels =
    find (\<lambda>l. count_list labels l < count_list output_labels l) output_labels"

lemma missing_repeat_Some:
  "missing_repeat labels out = Some l \<Longrightarrow> l \<in> set out \<and> count_list labels l < count_list out l"
  by (auto simp: missing_repeat_def find_Some_iff)

definition missing_count :: "label list \<Rightarrow> label list \<Rightarrow> nat" where
  "missing_count labels out = (\<Sum>l \<in> set out. count_list out l - count_list labels l)"

lemma count_list_insert_at: "count_list (insert_at i x xs) y = count_list xs y + (if x = y then 1 else 0)"
proof -
  have "count_list xs y = count_list (take i xs) y + count_list (drop i xs) y"
    by (metis append_take_drop_id count_list_append)
  then show ?thesis by (simp add: insert_at_def)
qed

lemma missing_count_insert:
  assumes "missing_repeat labels out = Some l"
  shows "missing_count (insert_at i l labels) out < missing_count labels out"
  unfolding missing_count_def
  using missing_repeat_Some [OF assms]
  by (intro sum_strict_mono_ex1) (auto simp: count_list_insert_at intro!: bexI [of _ l])

function embed_repeated ::
  "('g, 'e) add_operation \<Rightarrow> 'g \<Rightarrow> 'e labeled_val \<Rightarrow> label list \<Rightarrow> ('e labeled_val \<times> 'g) eres" where
  "embed_repeated add g lv output_labels =
    (case missing_repeat (lv_labels lv) output_labels of
       None \<Rightarrow> Ok (lv, g)
     | Some l \<Rightarrow>
         (case find_label_axis (lv_labels lv) l of
            Inl e \<Rightarrow> Err e
          | Inr axis_a \<Rightarrow>
              (case emit add g (Op_EmbedDiag axis_a (axis_a + 1)) [lv_val lv] of
                 (v, g') \<Rightarrow>
                   embed_repeated add g' (local_val v (insert_at (axis_a + 1) l (lv_labels lv))) output_labels)))"
  by pat_completeness auto
termination
  by (relation "measure (\<lambda>(add, g, lv, out). missing_count (lv_labels lv) out)")
    (simp_all add: missing_count_insert local_val_def)

declare embed_repeated.simps [simp del]

fun find_repeat :: "(label \<rightharpoonup> nat) \<Rightarrow> nat \<Rightarrow> label list \<Rightarrow> (nat \<times> nat) option" where
  "find_repeat seen i [] = None"
| "find_repeat seen i (l # ls) =
    (case seen l of
       Some first \<Rightarrow> Some (first, i)
     | None \<Rightarrow> find_repeat (seen(l \<mapsto> i)) (Suc i) ls)"

lemma find_repeat_less: "find_repeat seen i ls = Some (a, b) \<Longrightarrow> b < i + length ls"
  by (induction seen i ls rule: find_repeat.induct) (auto split: option.splits)

function diagonalize_repeated ::
  "('g, 'e) add_operation \<Rightarrow> 'g \<Rightarrow> 'e labeled_val \<Rightarrow> 'e labeled_val \<times> 'g" where
  "diagonalize_repeated add g lv =
    (case find_repeat Map.empty 0 (lv_labels lv) of
       None \<Rightarrow> (lv, g)
     | Some (first, i) \<Rightarrow>
         (case emit add g (Op_ExtractDiag first i) [lv_val lv] of
            (v, g') \<Rightarrow> diagonalize_repeated add g' (local_val v (remove_at i (lv_labels lv)))))"
  by pat_completeness auto
termination
proof (relation "measure (\<lambda>(add, g, lv). length (lv_labels lv))")
  fix g g' lv p i v
  fix first :: nat
  assume "find_repeat Map.empty 0 (lv_labels (lv :: 'e labeled_val)) = Some p" "(first, i) = p"
  then have "i < length (lv_labels lv)" using find_repeat_less by fastforce
  then show "((add, g', local_val v (remove_at i (lv_labels lv))), add, g, lv)
      \<in> measure (\<lambda>(add, g, lv). length (lv_labels lv))" for add :: "('g, 'e) add_operation"
    by (simp add: local_val_def length_remove_at)
qed simp

declare diagonalize_repeated.simps [simp del]

section \<open>Outer products\<close>

datatype broadcast_primary = Primary_Lhs | Primary_Rhs

definition combined_dim ::
  "'e labeled_val \<Rightarrow> 'e labeled_val \<Rightarrow> broadcast_primary \<Rightarrow> label \<Rightarrow> dim_expr eres" where
  "combined_dim lhs rhs primary l =
    (case position (lv_labels lhs) l of
       Some axis \<Rightarrow> Ok (InputDim (case primary of Primary_Lhs \<Rightarrow> 0 | Primary_Rhs \<Rightarrow> 1) axis)
     | None \<Rightarrow>
         (case position (lv_labels rhs) l of
            Some axis \<Rightarrow> Ok (InputDim (case primary of Primary_Lhs \<Rightarrow> 1 | Primary_Rhs \<Rightarrow> 0) axis)
          | None \<Rightarrow> Err (builder_invalid_argument ''missing label while building broadcast shape'')))"

definition combined_shape_for_broadcast ::
  "label list \<Rightarrow> 'e labeled_val \<Rightarrow> 'e labeled_val \<Rightarrow> broadcast_primary \<Rightarrow> dim_expr list eres" where
  "combined_shape_for_broadcast combined_labels lhs rhs primary =
    traverse (combined_dim lhs rhs primary) combined_labels"

fun dim_expr_uses_input :: "dim_expr \<Rightarrow> nat \<Rightarrow> bool" where
  "dim_expr_uses_input (Const v) input_idx = False"
| "dim_expr_uses_input (InputDim actual axis) input_idx = (actual = input_idx)"
| "dim_expr_uses_input (Add a b) input_idx = (dim_expr_uses_input a input_idx \<or> dim_expr_uses_input b input_idx)"
| "dim_expr_uses_input (Sub a b) input_idx = (dim_expr_uses_input a input_idx \<or> dim_expr_uses_input b input_idx)"
| "dim_expr_uses_input (Mul a b) input_idx = (dim_expr_uses_input a input_idx \<or> dim_expr_uses_input b input_idx)"
| "dim_expr_uses_input (FloorDiv a b) input_idx = (dim_expr_uses_input a input_idx \<or> dim_expr_uses_input b input_idx)"
| "dim_expr_uses_input (Min a b) input_idx = (dim_expr_uses_input a input_idx \<or> dim_expr_uses_input b input_idx)"
| "dim_expr_uses_input (Max a b) input_idx = (dim_expr_uses_input a input_idx \<or> dim_expr_uses_input b input_idx)"

definition shape_uses_input :: "dim_expr list \<Rightarrow> nat \<Rightarrow> bool" where
  "shape_uses_input sh input_idx = list_ex (\<lambda>d. dim_expr_uses_input d input_idx) sh"

definition broadcast_inputs :: "'e value_ref \<Rightarrow> 'e value_ref \<Rightarrow> dim_expr list \<Rightarrow> 'e value_ref list" where
  "broadcast_inputs primary secondary sh = (if shape_uses_input sh 1 then [primary, secondary] else [primary])"

definition outer_product ::
  "('g, 'e) add_operation \<Rightarrow> 'g \<Rightarrow> 'e labeled_val \<Rightarrow> 'e labeled_val \<Rightarrow> label list \<Rightarrow> label list \<Rightarrow> label list \<Rightarrow>
    label list option \<Rightarrow> ('e labeled_val \<times> 'g) eres" where
  "outer_product add g lhs rhs batch_labels lhs_free_labels rhs_free_labels target_labels =
    (let canonical_labels = lhs_free_labels @ rhs_free_labels @ batch_labels;
         combined_labels = select_outer_product_label_order canonical_labels target_labels in
     if lv_labels lhs = lv_labels rhs
     then (case emit add g Op_Mul [lv_val lhs, lv_val rhs] of
       (v, g') \<Rightarrow> Ok (\<lparr>lv_val = v, lv_labels = lv_labels lhs, lv_shape = lv_shape lhs\<rparr>, g'))
     else
       and_then (map_label_axes (lv_labels lhs) combined_labels) (\<lambda>lhs_dims.
       and_then (map_label_axes (lv_labels rhs) combined_labels) (\<lambda>rhs_dims.
       and_then (combined_shape_for_broadcast combined_labels lhs rhs Primary_Lhs) (\<lambda>lhs_shape.
       and_then (combined_shape_for_broadcast combined_labels lhs rhs Primary_Rhs) (\<lambda>rhs_shape.
         case emit add g (Op_BroadcastInDim lhs_shape lhs_dims)
             (broadcast_inputs (lv_val lhs) (lv_val rhs) lhs_shape) of (lhs_bc, g1) \<Rightarrow>
         case emit add g1 (Op_BroadcastInDim rhs_shape rhs_dims)
             (broadcast_inputs (lv_val rhs) (lv_val lhs) rhs_shape) of (rhs_bc, g2) \<Rightarrow>
         case emit add g2 Op_Mul [lhs_bc, rhs_bc] of (v, g3) \<Rightarrow>
           Ok (local_val v combined_labels, g3))))))"

section \<open>Binary contractions\<close>

definition push_new :: "'a list \<Rightarrow> 'a \<Rightarrow> 'a list" where
  "push_new xs x = (if x \<in> set xs then xs else xs @ [x])"

definition classify_lhs ::
  "label set \<Rightarrow> label set \<Rightarrow> label list \<times> label list \<times> label list \<Rightarrow> label \<Rightarrow> label list \<times> label list \<times> label list" where
  "classify_lhs rhs_label_set survive_set st l =
    (case st of (batch, contracting, lhs_free) \<Rightarrow>
      if l \<in> rhs_label_set then
        if l \<in> survive_set then (push_new batch l, contracting, lhs_free)
        else (batch, push_new contracting l, lhs_free)
      else (batch, contracting, push_new lhs_free l))"

definition classify_rhs :: "label set \<Rightarrow> label list \<Rightarrow> label \<Rightarrow> label list" where
  "classify_rhs lhs_label_set rhs_free l = (if l \<notin> lhs_label_set then push_new rhs_free l else rhs_free)"

definition contract_dot ::
  "('g, 'e) add_operation \<Rightarrow> 'g \<Rightarrow> 'e labeled_val \<Rightarrow> 'e labeled_val \<Rightarrow> label list \<Rightarrow> label list \<Rightarrow> label list \<Rightarrow>
    label list \<Rightarrow> ('e labeled_val \<times> 'g) eres" where
  "contract_dot add g lhs rhs batch_labels contracting_labels lhs_free_labels rhs_free_labels =
    and_then (traverse (find_label_axis (lv_labels lhs)) contracting_labels) (\<lambda>lhs_contracting.
    and_then (traverse (find_label_axis (lv_labels rhs)) contracting_labels) (\<lambda>rhs_contracting.
    and_then (traverse (find_label_axis (lv_labels lhs)) batch_labels) (\<lambda>lhs_batch.
    and_then (traverse (find_label_axis (lv_labels rhs)) batch_labels) (\<lambda>rhs_batch.
      let config = \<lparr>lhs_contracting_dims = lhs_contracting, rhs_contracting_dims = rhs_contracting,
            lhs_batch_dims = lhs_batch, rhs_batch_dims = rhs_batch\<rparr>;
          result_labels = lhs_free_labels @ rhs_free_labels @ batch_labels in
      case emit add g (Op_DotGeneral config) [lv_val lhs, lv_val rhs] of
        (v, g') \<Rightarrow> Ok (local_val v result_labels, g')))))"

definition is_identity :: "nat list \<Rightarrow> bool" where
  "is_identity perm = list_all (\<lambda>(i, p). i = p) (zip [0..<length perm] perm)"

definition reorder_survivors ::
  "('g, 'e) add_operation \<Rightarrow> 'g \<Rightarrow> 'e labeled_val \<Rightarrow> label list \<Rightarrow> ('e labeled_val \<times> 'g) eres" where
  "reorder_survivors add g result survive_labels =
    (let current_labels = lv_labels result in
     if current_labels = [] then Ok (result, g)
     else
       let target_labels = filter (\<lambda>l. l \<in> set current_labels) survive_labels in
       if length current_labels = length target_labels \<and> current_labels = target_labels then Ok (result, g)
       else
         and_then (map_label_axes target_labels current_labels) (\<lambda>perm.
           if is_identity perm then Ok (result, g)
           else (case emit add g (Op_Transpose perm) [lv_val result] of
             (v, g') \<Rightarrow> Ok (local_val v target_labels, g'))))"

definition binary_contract ::
  "('g, 'e) add_operation \<Rightarrow> 'g \<Rightarrow> 'e labeled_val \<Rightarrow> 'e labeled_val \<Rightarrow> label list \<Rightarrow> bool \<Rightarrow>
    ('e labeled_val \<times> 'g) eres" where
  "binary_contract add g lhs rhs survive_labels reorder_result =
    (let survive_set = set survive_labels;
         lhs_reduce = set (filter (\<lambda>l. l \<notin> set (lv_labels rhs) \<and> l \<notin> survive_set) (lv_labels lhs));
         rhs_reduce = set (filter (\<lambda>l. l \<notin> set (lv_labels lhs) \<and> l \<notin> survive_set) (lv_labels rhs)) in
     case reduce_val add g lhs lhs_reduce of (lhs, g1) \<Rightarrow>
     case reduce_val add g1 rhs rhs_reduce of (rhs, g2) \<Rightarrow>
     case foldl (classify_lhs (set (lv_labels rhs)) survive_set) ([], [], []) (lv_labels lhs) of
       (batch_labels, contracting_labels, lhs_free_labels) \<Rightarrow>
     let rhs_free_labels = foldl (classify_rhs (set (lv_labels lhs))) [] (lv_labels rhs) in
     and_then
       (if contracting_labels \<noteq> []
        then contract_dot add g2 lhs rhs batch_labels contracting_labels lhs_free_labels rhs_free_labels
        else outer_product add g2 lhs rhs batch_labels lhs_free_labels rhs_free_labels
          (if reorder_result then Some survive_labels else None)) (\<lambda>(result, g3).
       if \<not> reorder_result then Ok (result, g3) else reorder_survivors add g3 result survive_labels))"

section \<open>The whole graph\<close>

definition broadcast_target :: "contraction_tree \<Rightarrow> dim_expr list \<Rightarrow> nat \<times> label \<Rightarrow> dim_expr" where
  "broadcast_target tree sh e = (case e of (axis, l) \<Rightarrow>
    let target = (case label_size tree l of None \<Rightarrow> 0 | Some n \<Rightarrow> n) in
    if sh ! axis = Const 1 \<and> target \<noteq> 1 then Const target else sh ! axis)"

definition broadcast_initial_value ::
  "('g, 'e) add_operation \<Rightarrow> 'g \<Rightarrow> contraction_tree \<Rightarrow> 'e value_ref \<Rightarrow> label list \<Rightarrow> dim_expr list \<Rightarrow>
    'e value_ref \<times> 'g" where
  "broadcast_initial_value add g tree v labels sh =
    (let target_shape = map (broadcast_target tree sh) (zip [0..<length labels] labels) in
     if target_shape = sh then (v, g)
     else emit add g (Op_BroadcastInDim target_shape [0..<length labels]) [v])"

fun map_state :: "('g \<Rightarrow> 'a \<Rightarrow> 'b \<times> 'g) \<Rightarrow> 'g \<Rightarrow> 'a list \<Rightarrow> 'b list \<times> 'g" where
  "map_state f g [] = ([], g)"
| "map_state f g (x # xs) =
    (case f g x of (y, g') \<Rightarrow> case map_state f g' xs of (ys, g'') \<Rightarrow> (y # ys, g''))"

definition label_input :: "'e value_ref \<times> label list \<times> dim_expr list \<Rightarrow> 'e labeled_val eres" where
  "label_input e = (case e of (v, labels, sh) \<Rightarrow>
    if length labels \<noteq> length sh
    then Err (builder_invalid_argument ''labels length must match shape rank'')
    else Ok \<lparr>lv_val = v, lv_labels = labels, lv_shape = local_shape (length sh)\<rparr>)"

definition broadcast_input ::
  "('g, 'e) add_operation \<Rightarrow> contraction_tree \<Rightarrow> 'g \<Rightarrow> 'e labeled_val \<times> dim_expr list \<Rightarrow> 'e labeled_val \<times> 'g" where
  "broadcast_input add tree g e = (case e of (lv, sh) \<Rightarrow>
    case broadcast_initial_value add g tree (lv_val lv) (lv_labels lv) sh of
      (v, g') \<Rightarrow> (lv\<lparr>lv_val := v\<rparr>, g'))"

definition contract_step ::
  "('g, 'e) add_operation \<Rightarrow> contraction_tree \<Rightarrow> 'e labeled_val list \<times> 'g \<Rightarrow> nat \<Rightarrow> ('e labeled_val list \<times> 'g) eres" where
  "contract_step add tree st step_idx =
    (case st of (labeled, g) \<Rightarrow>
     and_then (ok_or (step_pair tree step_idx) (builder_invalid_argument ''missing contraction pair'')) (\<lambda>(left, right).
     and_then (ok_or (step_subscripts tree step_idx) (builder_invalid_argument ''missing contraction subscripts''))
       (\<lambda>(_, _, step_out_labels).
     let is_last = (step_idx + 1 = step_count tree) in
     and_then (labeled_operand labeled left ''left'') (\<lambda>lhs.
     and_then (labeled_operand labeled right ''right'') (\<lambda>rhs.
     and_then (binary_contract add g lhs rhs step_out_labels is_last) (\<lambda>(result, g').
       Ok (labeled @ [result], g')))))))"

definition arrange_output ::
  "('g, 'e) add_operation \<Rightarrow> 'g \<Rightarrow> 'e labeled_val \<Rightarrow> label list \<Rightarrow> ('e value_ref \<times> 'g) eres" where
  "arrange_output add g result output_labels =
    (if lv_labels result = output_labels
     then Ok (localize_value_ref add g (lv_val result) (lv_shape result))
     else
       and_then (map_label_axes output_labels (lv_labels result)) (\<lambda>perm.
         if is_identity perm then Ok (localize_value_ref add g (lv_val result) (lv_shape result))
         else Ok (emit add g (Op_Transpose perm) [lv_val result])))"

definition lower_unary ::
  "('g, 'e) add_operation \<Rightarrow> 'g \<Rightarrow> 'e labeled_val \<Rightarrow> label list \<Rightarrow> ('e value_ref \<times> 'g) eres" where
  "lower_unary add g lv output_labels =
    (case reduce_val add g lv (set (filter (\<lambda>l. l \<notin> set output_labels) (lv_labels lv))) of (result, g1) \<Rightarrow>
     and_then (embed_repeated add g1 result output_labels) (\<lambda>(result, g2).
       arrange_output add g2 result output_labels))"

definition lower_steps ::
  "('g, 'e) add_operation \<Rightarrow> 'g \<Rightarrow> contraction_tree \<Rightarrow> 'e labeled_val list \<Rightarrow> ('e value_ref \<times> 'g) eres" where
  "lower_steps add g tree labeled =
    and_then (try_fold (contract_step add tree) (labeled, g) [0..<step_count tree]) (\<lambda>(labeled, g1).
    and_then (labeled_operand labeled (length (sb_inputs (ct_subscripts tree)) + step_count tree - 1) ''final result'')
      (\<lambda>result.
     let output_labels = sb_output (ct_subscripts tree) in
     case reduce_val add g1 result (set (filter (\<lambda>l. l \<notin> set output_labels) (lv_labels result))) of (result, g2) \<Rightarrow>
       arrange_output add g2 result output_labels))"

definition build_einsum_graph_dim_expr ::
  "('g, 'e) add_operation \<Rightarrow> 'g \<Rightarrow> contraction_tree \<Rightarrow> 'e value_ref list \<Rightarrow> dim_expr list list \<Rightarrow>
    ('e value_ref \<times> 'g) eres" where
  "build_einsum_graph_dim_expr add g tree input_vals input_shapes =
    (let subs = ct_subscripts tree; input_count = length (sb_inputs subs) in
     if input_count \<noteq> length input_vals
     then Err (builder_invalid_argument ''number of subscripts inputs must match number of input values'')
     else if length input_vals \<noteq> length input_shapes
     then Err (builder_invalid_argument ''number of input values must match number of input shapes'')
     else
       and_then (traverse label_input (zip input_vals (zip (sb_inputs subs) input_shapes))) (\<lambda>labeled.
       case map_state (broadcast_input add tree) g (zip labeled input_shapes) of (labeled, g1) \<Rightarrow>
       case map_state (diagonalize_repeated add) g1 labeled of (labeled, g2) \<Rightarrow>
       if input_count = 1 \<or> step_count tree = 0
       then (case labeled of [] \<Rightarrow> Err Panicked | lv # _ \<Rightarrow> lower_unary add g2 lv (sb_output subs))
       else lower_steps add g2 tree labeled))"

definition build_einsum_graph ::
  "('g, 'e) add_operation \<Rightarrow> 'g \<Rightarrow> contraction_tree \<Rightarrow> 'e value_ref list \<Rightarrow> shape list \<Rightarrow>
    ('e value_ref \<times> 'g) eres" where
  "build_einsum_graph add g tree input_vals input_shapes =
    build_einsum_graph_dim_expr add g tree input_vals (map from_concrete input_shapes)"

section \<open>The direct plan of a binary product\<close>

datatype operand_order = Original | Swapped

record binary_dot_plan =
  bd_operand_order :: operand_order
  bd_result_labels :: "label list"
  bd_target_labels :: "label list"
  bd_config :: dot_general_config

fun unique_loop :: "label list \<Rightarrow> label list \<Rightarrow> bool" where
  "unique_loop seen [] = True"
| "unique_loop seen (l # ls) = (if l \<in> set seen then False else unique_loop (seen @ [l]) ls)"

definition labels_are_unique :: "label list \<Rightarrow> bool" where
  "labels_are_unique labels = unique_loop [] labels"

record dot_groups =
  dg_lhs_contracting :: "nat list"
  dg_rhs_contracting :: "nat list"
  dg_lhs_batch :: "nat list"
  dg_rhs_batch :: "nat list"
  dg_lhs_free :: "label list"
  dg_batch :: "label list"

definition dot_group_step ::
  "label list \<Rightarrow> label list \<Rightarrow> dot_groups \<Rightarrow> nat \<times> label \<Rightarrow> dot_groups option" where
  "dot_group_step rhs_labels output_labels st e = (case e of (lhs_axis, l) \<Rightarrow>
    case (position rhs_labels l, l \<in> set output_labels) of
      (Some rhs_axis, True) \<Rightarrow>
        Some (st\<lparr>dg_lhs_batch := dg_lhs_batch st @ [lhs_axis], dg_rhs_batch := dg_rhs_batch st @ [rhs_axis],
          dg_batch := dg_batch st @ [l]\<rparr>)
    | (Some rhs_axis, False) \<Rightarrow>
        Some (st\<lparr>dg_lhs_contracting := dg_lhs_contracting st @ [lhs_axis],
          dg_rhs_contracting := dg_rhs_contracting st @ [rhs_axis]\<rparr>)
    | (None, True) \<Rightarrow> Some (st\<lparr>dg_lhs_free := dg_lhs_free st @ [l]\<rparr>)
    | (None, False) \<Rightarrow> None)"

definition rhs_free_step :: "label list \<Rightarrow> label list \<Rightarrow> label list \<Rightarrow> label \<Rightarrow> label list option" where
  "rhs_free_step lhs_labels output_labels rhs_free l =
    (if l \<notin> set lhs_labels then if l \<in> set output_labels then Some (rhs_free @ [l]) else None
     else Some rhs_free)"

definition no_groups :: dot_groups where
  "no_groups = \<lparr>dg_lhs_contracting = [], dg_rhs_contracting = [], dg_lhs_batch = [], dg_rhs_batch = [],
    dg_lhs_free = [], dg_batch = []\<rparr>"

definition try_build_binary_dot_plan_with_order ::
  "label list \<Rightarrow> label list \<Rightarrow> label list \<Rightarrow> operand_order \<Rightarrow> binary_dot_plan option" where
  "try_build_binary_dot_plan_with_order lhs_labels rhs_labels output_labels order =
    (if \<not> labels_are_unique lhs_labels \<or> \<not> labels_are_unique rhs_labels \<or> \<not> labels_are_unique output_labels
     then None
     else
       case try_fold_option (dot_group_step rhs_labels output_labels) no_groups
           (zip [0..<length lhs_labels] lhs_labels) of
         None \<Rightarrow> None
       | Some gr \<Rightarrow>
           (case try_fold_option (rhs_free_step lhs_labels output_labels) [] rhs_labels of
              None \<Rightarrow> None
            | Some rhs_free \<Rightarrow>
                if dg_lhs_contracting gr = [] then None
                else if list_ex (\<lambda>l. l \<notin> set lhs_labels \<and> l \<notin> set rhs_labels) output_labels then None
                else Some \<lparr>bd_operand_order = order,
                  bd_result_labels = dg_lhs_free gr @ rhs_free @ dg_batch gr,
                  bd_target_labels = output_labels,
                  bd_config = \<lparr>lhs_contracting_dims = dg_lhs_contracting gr,
                    rhs_contracting_dims = dg_rhs_contracting gr, lhs_batch_dims = dg_lhs_batch gr,
                    rhs_batch_dims = dg_rhs_batch gr\<rparr>\<rparr>))"

definition try_build_binary_dot_plan :: "label list \<Rightarrow> label list \<Rightarrow> label list \<Rightarrow> binary_dot_plan option" where
  "try_build_binary_dot_plan lhs_labels rhs_labels output_labels =
    try_build_binary_dot_plan_with_order lhs_labels rhs_labels output_labels Original"

definition try_build_exact_output_binary_dot_plan ::
  "label list \<Rightarrow> label list \<Rightarrow> label list \<Rightarrow> binary_dot_plan option" where
  "try_build_exact_output_binary_dot_plan lhs_labels rhs_labels output_labels =
    (case try_build_binary_dot_plan lhs_labels rhs_labels output_labels of
       Some plan \<Rightarrow>
         if bd_result_labels plan = bd_target_labels plan then Some plan
         else
           (case try_build_binary_dot_plan_with_order rhs_labels lhs_labels output_labels Swapped of
              None \<Rightarrow> None
            | Some plan \<Rightarrow> if bd_result_labels plan = bd_target_labels plan then Some plan else None)
     | None \<Rightarrow>
         (case try_build_binary_dot_plan_with_order rhs_labels lhs_labels output_labels Swapped of
            None \<Rightarrow> None
          | Some plan \<Rightarrow> if bd_result_labels plan = bd_target_labels plan then Some plan else None))"

end
