(* ===== verification/Label_Sums.thy ===== *)
theory Label_Sums
  imports Einsum_Builder
begin

text \<open>
  Sums over the values of einsum labels. \<open>sum_out sz ls f s\<close> sums \<open>f\<close> over all values of the labels
  \<open>ls\<close>, label \<open>l\<close> running below \<open>sz l\<close>, while the other labels keep the values of \<open>s\<close>. These are the
  laws that let a contraction be split into pairwise steps: sums commute, join, and move past
  factors that do not mention their labels.
\<close>

primrec sum_out ::
  "(label \<Rightarrow> nat) \<Rightarrow> label list \<Rightarrow> ((label \<Rightarrow> nat) \<Rightarrow> 'a) \<Rightarrow> (label \<Rightarrow> nat) \<Rightarrow> 'a :: comm_semiring_1" where
  "sum_out sz [] f s = f s"
| "sum_out sz (l # ls) f s = (\<Sum>k < sz l. sum_out sz ls f (s(l := k)))"

definition agree_on :: "label set \<Rightarrow> (label \<Rightarrow> nat) \<Rightarrow> (label \<Rightarrow> nat) \<Rightarrow> bool" where
  "agree_on X s t \<longleftrightarrow> (\<forall>l \<in> X. s l = t l)"

definition depends_on :: "label set \<Rightarrow> ((label \<Rightarrow> nat) \<Rightarrow> 'a) \<Rightarrow> bool" where
  "depends_on X f \<longleftrightarrow> (\<forall>s t. agree_on X s t \<longrightarrow> f s = f t)"

lemma depends_onD: "depends_on X f \<Longrightarrow> (\<And>l. l \<in> X \<Longrightarrow> s l = t l) \<Longrightarrow> f s = f t"
  unfolding depends_on_def agree_on_def by blast

lemma depends_onI: "(\<And>s t. (\<And>l. l \<in> X \<Longrightarrow> s l = t l) \<Longrightarrow> f s = f t) \<Longrightarrow> depends_on X f"
  unfolding depends_on_def agree_on_def by blast

lemma depends_on_mono: "depends_on X f \<Longrightarrow> X \<subseteq> Y \<Longrightarrow> depends_on Y f"
  by (rule depends_onI) (blast intro: depends_onD)

lemma depends_on_mult: "depends_on X f \<Longrightarrow> depends_on Y g \<Longrightarrow> depends_on (X \<union> Y) (\<lambda>s. f s * g s)"
proof (rule depends_onI)
  fix s t :: "label \<Rightarrow> nat"
  assume f: "depends_on X f" and g: "depends_on Y g" and st: "\<And>l. l \<in> X \<union> Y \<Longrightarrow> s l = t l"
  have "f s = f t" using st by (intro depends_onD [OF f]) simp
  moreover have "g s = g t" using st by (intro depends_onD [OF g]) simp
  ultimately show "f s * g s = f t * g t" by simp
qed

lemma depends_on_prod:
  "(\<And>i. i \<in> I \<Longrightarrow> depends_on (X i) (f i)) \<Longrightarrow> depends_on (\<Union>i \<in> I. X i) (\<lambda>s. \<Prod>i \<in> I. f i s)"
proof (rule depends_onI, rule prod.cong [OF refl])
  fix s t :: "label \<Rightarrow> nat" and i
  assume f: "\<And>i. i \<in> I \<Longrightarrow> depends_on (X i) (f i)" and st: "\<And>l. l \<in> (\<Union>i \<in> I. X i) \<Longrightarrow> s l = t l" and i: "i \<in> I"
  show "f i s = f i t" using st i by (intro depends_onD [OF f [OF i]]) blast
qed

lemma sum_out_Nil: "sum_out sz [] f = f"
  by (rule ext) simp

lemma depends_on_sum_out: "depends_on X f \<Longrightarrow> depends_on (X - set ls) (sum_out sz ls f)"
proof (induction ls)
  case (Cons l ls)
  show ?case
  proof (rule depends_onI)
    fix s t :: "label \<Rightarrow> nat"
    assume st: "\<And>k. k \<in> X - set (l # ls) \<Longrightarrow> s k = t k"
    have "sum_out sz ls f (s(l := k)) = sum_out sz ls f (t(l := k))" for k
      using Cons st by (intro depends_onD [OF Cons.IH]) auto
    then show "sum_out sz (l # ls) f s = sum_out sz (l # ls) f t" by simp
  qed
qed (simp add: sum_out_Nil)

lemma sum_out_cong:
  "(\<And>t. (\<And>l. l \<in> set ls \<Longrightarrow> t l < sz l) \<Longrightarrow> (\<And>l. l \<notin> set ls \<Longrightarrow> t l = s l) \<Longrightarrow> f t = g t) \<Longrightarrow>
    sum_out sz ls f s = sum_out sz ls g s"
proof (induction ls arbitrary: s)
  case (Cons l ls)
  have "sum_out sz ls f (s(l := k)) = sum_out sz ls g (s(l := k))" if "k < sz l" for k
  proof (rule Cons.IH)
    fix t assume t: "\<And>l. l \<in> set ls \<Longrightarrow> t l < sz l" "\<And>m. m \<notin> set ls \<Longrightarrow> t m = (s(l := k)) m"
    show "f t = g t"
    proof (rule Cons.prems)
      show "t m < sz m" if "m \<in> set (l # ls)" for m
        using that t \<open>k < sz l\<close> by (cases "m \<in> set ls") auto
      show "t m = s m" if "m \<notin> set (l # ls)" for m using that t(2) by auto
    qed
  qed
  then show ?case by simp
qed simp

lemma sum_out_append: "sum_out sz (xs @ ys) f s = sum_out sz xs (sum_out sz ys f) s"
  by (induction xs arbitrary: s) simp_all

lemma sum_out_swap: "sum_out sz (a # b # ls) f s = sum_out sz (b # a # ls) f s"
proof (cases "a = b")
  case False
  have "sum_out sz (a # b # ls) f s = (\<Sum>j < sz a. \<Sum>k < sz b. sum_out sz ls f (s(a := j, b := k)))" by simp
  also have "\<dots> = (\<Sum>k < sz b. \<Sum>j < sz a. sum_out sz ls f (s(a := j, b := k)))" by (rule sum.swap)
  also have "\<dots> = sum_out sz (b # a # ls) f s" using False by (simp add: fun_upd_twist)
  finally show ?thesis .
qed simp

lemma sum_out_remove1: "l \<in> set ls \<Longrightarrow> sum_out sz ls f s = sum_out sz (l # remove1 l ls) f s"
proof (induction ls arbitrary: s)
  case (Cons a ls)
  show ?case
  proof (cases "a = l")
    case False
    have "sum_out sz (a # ls) f s = (\<Sum>k < sz a. sum_out sz (l # remove1 l ls) f (s(a := k)))"
      using Cons False by simp
    also have "\<dots> = sum_out sz (a # l # remove1 l ls) f s" by simp
    also have "\<dots> = sum_out sz (l # a # remove1 l ls) f s" by (rule sum_out_swap)
    finally show ?thesis using False by simp
  qed simp
qed simp

lemma sum_out_mset: "mset xs = mset ys \<Longrightarrow> sum_out sz xs f s = sum_out sz ys f s"
proof (induction xs arbitrary: ys s)
  case (Cons x xs)
  have x: "x \<in> set ys" using Cons.prems by (metis list.set_intros(1) set_mset_mset)
  have "mset xs = mset (remove1 x ys)" using Cons.prems by (metis add_mset_remove_trivial mset.simps(2) mset_remove1)
  from Cons.IH [OF this] have "sum_out sz (x # xs) f s = sum_out sz (x # remove1 x ys) f s"
    by (simp only: sum_out.simps)
  then show ?case using sum_out_remove1 [OF x] by metis
qed simp

lemma sum_out_set:
  "distinct xs \<Longrightarrow> distinct ys \<Longrightarrow> set xs = set ys \<Longrightarrow> sum_out sz xs f s = sum_out sz ys f s"
  by (rule sum_out_mset) (simp add: set_eq_iff_mset_eq_distinct)

lemma sum_out_mult_right:
  assumes "depends_on X g" and "X \<inter> set ls = {}"
  shows "sum_out sz ls (\<lambda>s. f s * g s) s = sum_out sz ls f s * g s"
  using assms(2)
proof (induction ls arbitrary: s)
  case (Cons l ls)
  have "g (s(l := k)) = g s" for k using Cons.prems by (intro depends_onD [OF assms(1)]) auto
  then show ?case using Cons by (simp add: sum_distrib_right)
qed simp

lemma sum_out_mult_left:
  assumes "depends_on X g" and "X \<inter> set ls = {}"
  shows "sum_out sz ls (\<lambda>s. g s * f s) s = g s * sum_out sz ls f s"
  using sum_out_mult_right [OF assms, of sz f s] by (simp add: mult.commute)

text \<open>Two factors whose summed labels do not occur in the other one.\<close>

lemma sum_out_product:
  assumes f: "depends_on X f" and g: "depends_on Y g" and "X \<inter> set ys = {}" and "Y \<inter> set xs = {}"
  shows "sum_out sz xs f s * sum_out sz ys g s = sum_out sz (xs @ ys) (\<lambda>s. f s * g s) s"
proof -
  have "sum_out sz (xs @ ys) (\<lambda>s. f s * g s) s = sum_out sz xs (\<lambda>s. f s * sum_out sz ys g s) s"
    unfolding sum_out_append by (rule sum_out_cong) (rule sum_out_mult_left [OF f assms(3)])
  also have "\<dots> = sum_out sz xs f s * sum_out sz ys g s"
    using assms(4) by (intro sum_out_mult_right [OF depends_on_sum_out [OF g]]) auto
  finally show ?thesis by simp
qed

section \<open>Sums over index lists\<close>

definition override :: "(label \<Rightarrow> nat) \<Rightarrow> label list \<Rightarrow> nat list \<Rightarrow> label \<Rightarrow> nat" where
  "override s ls ks l = (case map_of (zip ls ks) l of None \<Rightarrow> s l | Some k \<Rightarrow> k)"

lemma override_Nil [simp]: "override s [] ks = s"
  by (rule ext) (simp add: override_def)

lemma override_Cons: "l \<notin> set ls \<Longrightarrow> override s (l # ls) (k # ks) = override (s(l := k)) ls ks"
proof (rule ext)
  fix m assume l: "l \<notin> set ls"
  have "map_of (zip ls ks) l = None" using l by (auto simp: map_of_eq_None_iff dest: set_zip_leftD)
  then show "override s (l # ls) (k # ks) m = override (s(l := k)) ls ks m"
    by (cases "m = l") (auto simp: override_def split: option.splits)
qed

lemma override_other: "l \<notin> set ls \<Longrightarrow> override s ls ks l = s l"
  by (auto simp: override_def split: option.splits dest!: map_of_SomeD set_zip_leftD)

lemma override_nth: "distinct ls \<Longrightarrow> length ks = length ls \<Longrightarrow> i < length ls \<Longrightarrow> override s ls ks (ls ! i) = ks ! i"
  by (simp add: override_def map_of_zip_nth)

lemma map_override: "distinct ls \<Longrightarrow> length ks = length ls \<Longrightarrow> map (override s ls ks) ls = ks"
  by (rule nth_equalityI) (simp_all add: override_nth)

definition index_lists :: "nat list \<Rightarrow> nat list list" where
  "index_lists sh = product_lists (map (\<lambda>n. [0..<n]) sh)"

lemma index_lists_simps [simp]:
  "index_lists [] = [[]]"
  "index_lists (n # sh) = concat (map (\<lambda>k. map ((#) k) (index_lists sh)) [0..<n])"
  by (simp_all add: index_lists_def)

lemma sum_list_concat_map: "sum_list (concat (map f xs)) = (\<Sum>x \<leftarrow> xs. sum_list (f x))"
  by (induction xs) simp_all

lemma sum_list_upt_sum: "(\<Sum>k \<leftarrow> [0..<n]. f k) = (\<Sum>k < n. f k)"
  by (simp add: interv_sum_list_conv_sum_set_nat atLeast0LessThan)

lemma sum_index_lists_Cons:
  "(\<Sum>ks \<leftarrow> index_lists (n # sh). f ks) = (\<Sum>k < n. \<Sum>ks \<leftarrow> index_lists sh. f (k # ks))"
  by (simp add: map_concat sum_list_concat_map comp_def sum_list_upt_sum)

lemma sum_filter_index_lists_Cons:
  "(\<Sum>ks \<leftarrow> filter P (index_lists (n # sh)). f ks) =
    (\<Sum>k < n. \<Sum>ks \<leftarrow> filter (\<lambda>ks. P (k # ks)) (index_lists sh). f (k # ks))"
  by (simp add: filter_concat map_concat sum_list_concat_map comp_def filter_map sum_list_upt_sum)

lemma sum_out_index_lists:
  "distinct ls \<Longrightarrow> sum_out sz ls f s = (\<Sum>ks \<leftarrow> index_lists (map sz ls). f (override s ls ks))"
proof (induction ls arbitrary: s)
  case (Cons l ls)
  then show ?case
    by (simp add: sum_index_lists_Cons override_Cons del: index_lists_simps)
qed simp

lemma in_index_lists: "ks \<in> set (index_lists sh) \<Longrightarrow> length ks = length sh"
  by (induction sh arbitrary: ks) auto

end
