(* ===== verification/Tensor_Values.thy ===== *)
theory Tensor_Values
  imports Label_Sums Index_Space Shape_Infer_Correct
begin

text \<open>
  What the operations of a lowered einsum compute: the reference meaning of the operations over a
  commutative semiring, as the CPU kernels of \<open>tenferro-cpu/src/structural.rs\<close> and the documentation of
  the configurations describe it, and their effect on tensors whose axes carry einsum labels. A tensor
  is a shape with the element at every index in range.
\<close>

record 'a tens =
  tn_shape :: shape
  tn_elem :: "nat list \<Rightarrow> 'a"

text \<open>The index list with \<open>is ! j\<close> on axis \<open>axes ! j\<close>.\<close>

definition axis_index :: "nat list \<Rightarrow> nat list \<Rightarrow> nat \<Rightarrow> nat list" where
  "axis_index axes is rank = map (\<lambda>a. is ! the (position axes a)) [0..<rank]"

definition dot_value :: "dot_general_config \<Rightarrow> 'a :: comm_semiring_1 tens \<Rightarrow> 'a tens \<Rightarrow> nat list \<Rightarrow> 'a" where
  "dot_value c t u idx =
    (let lr = length (tn_shape t); rr = length (tn_shape u);
         lfree = free_axes_of lr (lhs_contracting_dims c) (lhs_batch_dims c);
         rfree = free_axes_of rr (rhs_contracting_dims c) (rhs_batch_dims c);
         li = take (length lfree) idx;
         ri = take (length rfree) (drop (length lfree) idx);
         bi = drop (length lfree + length rfree) idx in
     \<Sum>ks \<leftarrow> index_lists (map (\<lambda>a. tn_shape t ! a) (lhs_contracting_dims c)).
       tn_elem t (axis_index (lfree @ lhs_batch_dims c @ lhs_contracting_dims c) (li @ bi @ ks) lr) *
       tn_elem u (axis_index (rfree @ rhs_batch_dims c @ rhs_contracting_dims c) (ri @ bi @ ks) rr))"

definition broadcast_fits :: "shape \<Rightarrow> shape \<Rightarrow> nat list \<Rightarrow> bool" where
  "broadcast_fits sh target dims \<longleftrightarrow> length dims = length sh \<and> distinct dims \<and>
    (\<forall>a < length sh. dims ! a < length target \<and> (sh ! a = 1 \<or> sh ! a = target ! (dims ! a)))"

definition mul_value :: "'a :: comm_semiring_1 tens \<Rightarrow> 'a tens \<Rightarrow> 'a tens option" where
  "mul_value t u =
    (if tn_shape t = tn_shape u
     then Some \<lparr>tn_shape = tn_shape t, tn_elem = (\<lambda>idx. tn_elem t idx * tn_elem u idx)\<rparr> else None)"

definition contract_value :: "dot_general_config \<Rightarrow> 'a :: comm_semiring_1 tens \<Rightarrow> 'a tens \<Rightarrow> 'a tens option" where
  "contract_value c t u =
    (case dot_general_output_shape (tn_shape t) (tn_shape u) c DOT_GENERAL_OP of
       Inl e \<Rightarrow> None
     | Inr sh \<Rightarrow> Some \<lparr>tn_shape = sh, tn_elem = dot_value c t u\<rparr>)"

definition transpose_value :: "nat list \<Rightarrow> 'a tens \<Rightarrow> 'a tens option" where
  "transpose_value perm t =
    (if distinct perm \<and> set perm = {..<length (tn_shape t)}
     then Some \<lparr>tn_shape = map (\<lambda>a. tn_shape t ! a) perm,
       tn_elem = (\<lambda>idx. tn_elem t (axis_index perm idx (length (tn_shape t))))\<rparr>
     else None)"

definition reshape_value :: "dim_expr list \<Rightarrow> 'a tens \<Rightarrow> 'a tens option" where
  "reshape_value to_shape t =
    (case eval_all to_shape [tn_shape t] of
       Inl e \<Rightarrow> None
     | Inr sh \<Rightarrow>
         if prod_list sh = prod_list (tn_shape t)
         then Some \<lparr>tn_shape = sh, tn_elem = (\<lambda>idx. tn_elem t (unlin (tn_shape t) (lin sh idx)))\<rparr> else None)"

definition broadcast_value :: "dim_expr list \<Rightarrow> nat list \<Rightarrow> 'a tens \<Rightarrow> 'a tens list \<Rightarrow> 'a tens option" where
  "broadcast_value to_shape dims t ts =
    (case eval_all to_shape (map tn_shape (t # ts)) of
       Inl e \<Rightarrow> None
     | Inr sh \<Rightarrow>
         if broadcast_fits (tn_shape t) sh dims
         then Some \<lparr>tn_shape = sh, tn_elem = (\<lambda>idx.
           tn_elem t (map (\<lambda>a. if tn_shape t ! a = 1 then 0 else idx ! (dims ! a)) [0..<length (tn_shape t)]))\<rparr>
         else None)"

definition reduce_sum_value :: "nat list \<Rightarrow> 'a :: comm_semiring_1 tens \<Rightarrow> 'a tens option" where
  "reduce_sum_value axes t =
    (if distinct axes \<and> set axes \<subseteq> {..<length (tn_shape t)}
     then Some \<lparr>tn_shape = nths (tn_shape t) (- set axes), tn_elem = (\<lambda>idx.
       \<Sum>full \<leftarrow> filter (\<lambda>full. nths full (- set axes) = idx) (index_lists (tn_shape t)). tn_elem t full)\<rparr>
     else None)"

definition extract_diag_value :: "nat \<Rightarrow> nat \<Rightarrow> 'a tens \<Rightarrow> 'a tens option" where
  "extract_diag_value a b t =
    (if a < length (tn_shape t) \<and> b < length (tn_shape t) \<and> a \<noteq> b
     then
       let kept = (if a < b then a else a - 1) in
       Some \<lparr>tn_shape = (remove_at b (tn_shape t))[kept := min (tn_shape t ! a) (tn_shape t ! b)],
         tn_elem = (\<lambda>idx. tn_elem t (insert_at b (idx ! kept) idx))\<rparr>
     else None)"

definition embed_diag_value :: "nat \<Rightarrow> nat \<Rightarrow> 'a :: zero tens \<Rightarrow> 'a tens option" where
  "embed_diag_value a b t =
    (if a < length (tn_shape t) \<and> b \<le> length (tn_shape t)
     then
       let source = (if a < b then a else a + 1) in
       Some \<lparr>tn_shape = insert_at b (tn_shape t ! a) (tn_shape t),
         tn_elem = (\<lambda>idx. if idx ! source = idx ! b then tn_elem t (remove_at b idx) else 0)\<rparr>
     else None)"

fun unary :: "('a tens \<Rightarrow> 'a tens option) \<Rightarrow> 'a tens list \<Rightarrow> 'a tens option" where
  "unary f [t] = f t"
| "unary f _ = None"

fun binary :: "('a tens \<Rightarrow> 'a tens \<Rightarrow> 'a tens option) \<Rightarrow> 'a tens list \<Rightarrow> 'a tens option" where
  "binary f [t, u] = f t u"
| "binary f _ = None"

text \<open>The operations the lowering adds; the others are left undefined.\<close>

definition op_value :: "std_tensor_op \<Rightarrow> 'a :: comm_semiring_1 tens list \<Rightarrow> 'a tens option" where
  "op_value op ts =
    (case op of
       Op_Mul \<Rightarrow> binary mul_value ts
     | Op_DotGeneral c \<Rightarrow> binary (contract_value c) ts
     | Op_Transpose perm \<Rightarrow> unary (transpose_value perm) ts
     | Op_Reshape to_shape \<Rightarrow> unary (reshape_value to_shape) ts
     | Op_BroadcastInDim to_shape dims \<Rightarrow>
         (case ts of [] \<Rightarrow> None | t # ts' \<Rightarrow> broadcast_value to_shape dims t ts')
     | Op_ReduceSum axes \<Rightarrow> unary (reduce_sum_value axes) ts
     | Op_ExtractDiag a b \<Rightarrow> unary (extract_diag_value a b) ts
     | Op_EmbedDiag a b \<Rightarrow> unary (embed_diag_value a b) ts
     | _ \<Rightarrow> None)"

lemma op_value_simps [simp]:
  "op_value Op_Mul [t, u] = mul_value t u"
  "op_value (Op_DotGeneral c) [t, u] = contract_value c t u"
  "op_value (Op_Transpose perm) [t] = transpose_value perm t"
  "op_value (Op_Reshape to_shape) [t] = reshape_value to_shape t"
  "op_value (Op_BroadcastInDim to_shape dims) (t # ts) = broadcast_value to_shape dims t ts"
  "op_value (Op_ReduceSum axes) [t] = reduce_sum_value axes t"
  "op_value (Op_ExtractDiag a b) [t] = extract_diag_value a b t"
  "op_value (Op_EmbedDiag a b) [t] = embed_diag_value a b t"
  by (simp_all add: op_value_def)

section \<open>Tensors with labelled axes\<close>

text \<open>\<open>reads sz t ls f\<close>: axis \<open>i\<close> of \<open>t\<close> runs over the values of label \<open>ls ! i\<close>, and \<open>f\<close> gives the
  elements from the values of the labels. \<open>embeds\<close>: elements off the diagonals of repeated labels are 0.\<close>

definition bounded :: "(label \<Rightarrow> nat) \<Rightarrow> label list \<Rightarrow> (label \<Rightarrow> nat) \<Rightarrow> bool" where
  "bounded sz ls s \<longleftrightarrow> (\<forall>l \<in> set ls. s l < sz l)"

definition reads ::
  "(label \<Rightarrow> nat) \<Rightarrow> 'a tens \<Rightarrow> label list \<Rightarrow> ((label \<Rightarrow> nat) \<Rightarrow> 'a) \<Rightarrow> bool" where
  "reads sz t ls f \<longleftrightarrow> tn_shape t = map sz ls \<and> (\<forall>s. bounded sz ls s \<longrightarrow> tn_elem t (map s ls) = f s)"

definition embeds ::
  "(label \<Rightarrow> nat) \<Rightarrow> 'a :: zero tens \<Rightarrow> label list \<Rightarrow> ((label \<Rightarrow> nat) \<Rightarrow> 'a) \<Rightarrow> bool" where
  "embeds sz t ls f \<longleftrightarrow> reads sz t ls f \<and>
    (\<forall>idx. in_range (map sz ls) idx \<longrightarrow> (\<nexists>s. idx = map s ls) \<longrightarrow> tn_elem t idx = 0)"

lemma readsD: "reads sz t ls f \<Longrightarrow> bounded sz ls s \<Longrightarrow> tn_elem t (map s ls) = f s"
  by (simp add: reads_def)

lemma reads_shape: "reads sz t ls f \<Longrightarrow> tn_shape t = map sz ls"
  by (simp add: reads_def)

lemma bounded_Nil [simp]: "bounded sz [] s"
  by (simp add: bounded_def)

lemma bounded_mono: "bounded sz ls s \<Longrightarrow> set ks \<subseteq> set ls \<Longrightarrow> bounded sz ks s"
  by (auto simp: bounded_def)

lemma in_range_map: "in_range (map sz ls) (map s ls) \<longleftrightarrow> bounded sz ls s"
  by (simp add: in_range_nth bounded_def all_set_conv_all_nth)

lemma distinct_is_map: "distinct (ls :: label list) \<Longrightarrow> length (idx :: nat list) = length ls \<Longrightarrow> \<exists>s. idx = map s ls"
  using map_override [of ls idx "\<lambda>_. 0"] by metis

lemma embeds_distinct: "distinct ls \<Longrightarrow> embeds sz t ls f \<longleftrightarrow> reads sz t ls f"
  using distinct_is_map by (fastforce simp: embeds_def dest: in_range_length)

lemma in_index_lists_iff: "ks \<in> set (index_lists sh) \<longleftrightarrow> in_range sh ks"
  by (induction sh arbitrary: ks) (auto simp: image_iff)

section \<open>Rearranging axes\<close>

lemma position_nth: "distinct xs \<Longrightarrow> i < length xs \<Longrightarrow> position xs (xs ! i) = Some i"
proof (induction xs arbitrary: i)
  case (Cons x xs)
  then show ?case by (cases i) auto
qed simp

lemma position_None: "position xs x = None \<longleftrightarrow> x \<notin> set xs"
  by (induction xs) auto

lemma axis_index_map:
  assumes "distinct axes" and "set axes = {..<length ls}"
  shows "axis_index axes (map s (map ((!) ls) axes)) (length ls) = map s ls"
proof (rule nth_equalityI)
  fix a assume "a < length (axis_index axes (map s (map ((!) ls) axes)) (length ls))"
  then have a: "a < length ls" by (simp add: axis_index_def)
  then obtain j where j: "j < length axes" "axes ! j = a" using assms(2) by (metis in_set_conv_nth lessThan_iff)
  then have "position axes a = Some j" using position_nth [OF assms(1) j(1)] by simp
  then show "axis_index axes (map s (map ((!) ls) axes)) (length ls) ! a = map s ls ! a"
    using a j by (simp add: axis_index_def)
qed (simp add: axis_index_def)

lemma axes_cover:
  assumes "distinct axes" and "set axes \<subseteq> {..<n}" and "length axes = n"
  shows "set axes = {..<n}"
  using assms by (intro card_subset_eq) (simp_all add: distinct_card)

lemma transpose_value_eq:
  assumes m: "map ((!) ls) perm = target" and p: "distinct perm" "set perm = {..<length ls}"
    and sh: "tn_shape t = map sz ls"
  shows "transpose_value perm t =
    Some \<lparr>tn_shape = map sz target, tn_elem = (\<lambda>idx. tn_elem t (axis_index perm idx (length ls)))\<rparr>"
proof -
  have "map (\<lambda>a. tn_shape t ! a) perm = map sz (map ((!) ls) perm)" using p(2) by (simp add: sh)
  then show ?thesis using p by (simp only: transpose_value_def m) (simp add: sh)
qed

lemma transpose_reads:
  assumes m: "map ((!) ls) perm = target" and p: "distinct perm" "set perm = {..<length ls}" and t: "reads sz t ls f"
  shows "\<exists>v. op_value (Op_Transpose perm) [t] = Some v \<and> reads sz v target f"
proof -
  have "set target = (!) ls ` {..<length ls}" unfolding m [symmetric] using p(2) by simp
  then have b: "bounded sz ls s" if "bounded sz target s" for s
    using that by (simp add: bounded_def all_set_conv_all_nth)
  have i: "axis_index perm (map s target) (length ls) = map s ls" for s
    unfolding m [symmetric] by (rule axis_index_map [OF p])
  have "reads sz \<lparr>tn_shape = map sz target, tn_elem = (\<lambda>idx. tn_elem t (axis_index perm idx (length ls)))\<rparr> target f"
    unfolding reads_def by (simp add: i readsD [OF t b])
  then show ?thesis by (simp add: transpose_value_eq [OF m p reads_shape [OF t]])
qed

lemma transpose_embeds:
  assumes m: "map ((!) ls) perm = target" and p: "distinct perm" "set perm = {..<length ls}" and t: "embeds sz t ls f"
  shows "\<exists>v. op_value (Op_Transpose perm) [t] = Some v \<and> embeds sz v target f"
proof -
  have r: "reads sz t ls f" using t by (simp add: embeds_def)
  from transpose_reads [OF m p r] obtain v
    where v: "op_value (Op_Transpose perm) [t] = Some v" "reads sz v target f" by blast
  have plen: "length perm = length ls" using p by (metis card_lessThan distinct_card)
  have len: "length (tn_shape t) = length ls" using r by (simp add: reads_def)
  have "tn_elem v idx = 0" if i: "in_range (map sz target) idx" and n: "\<nexists>s. idx = map s target" for idx
  proof -
    define full where "full = axis_index perm idx (length ls)"
    have li: "length idx = length perm" unfolding m [symmetric] using in_range_length [OF i [folded m]] by simp
    have pos: "full ! (perm ! j) = idx ! j" if "j < length perm" for j
    proof -
      have "perm ! j < length ls" using that p(2) nth_mem by blast
      then show ?thesis using position_nth [OF p(1) that] by (simp add: full_def axis_index_def)
    qed
    have e: "tn_elem v idx = tn_elem t full"
      using v(1) transpose_value_eq [OF m p reads_shape [OF r]] by (auto simp: full_def)
    have "full ! a < sz (ls ! a)" if "a < length ls" for a
    proof -
      have "a \<in> set perm" using that p(2) by simp
      then obtain j where j: "j < length perm" "perm ! j = a" by (auto simp: in_set_conv_nth)
      have lt: "length target = length perm" and tj: "target ! j = ls ! a" unfolding m [symmetric] using j by simp_all
      have "idx ! j < sz (target ! j)" using i j(1) lt by (simp add: in_range_nth)
      then show ?thesis unfolding tj using pos [OF j(1)] j(2) by simp
    qed
    then have "in_range (map sz ls) full" by (simp add: in_range_nth full_def axis_index_def)
    moreover have "\<nexists>s. full = map s ls"
    proof
      assume "\<exists>s. full = map s ls"
      then obtain s where s: "full = map s ls" by blast
      have "idx = map s target"
      proof (rule nth_equalityI)
        show "length idx = length (map s target)" unfolding m [symmetric] using li by simp
        fix j assume "j < length idx"
        then have j: "j < length perm" using li by simp
        then have "perm ! j < length ls" using p(2) by (metis lessThan_iff nth_mem)
        then show "idx ! j = map s target ! j" unfolding m [symmetric] using pos [OF j] s j by simp
      qed
      with n show False by blast
    qed
    ultimately show ?thesis using t e by (simp add: embeds_def)
  qed
  then show ?thesis using v by (auto simp: embeds_def)
qed

lemma reshape_embeds:
  assumes "embeds sz t ls f"
  shows "\<exists>v. op_value (Op_Reshape (local_shape (length ls))) [t] = Some v \<and> embeds sz v ls f"
proof -
  have sh: "tn_shape t = map sz ls" using assms by (simp add: embeds_def reads_def)
  have e: "eval_all (local_shape (length ls)) [tn_shape t] = Ok (tn_shape t)"
    unfolding eval_all_def local_shape_def input_shape_def
    by (auto simp: sh traverse_eq_Inr get_def)
  have u: "unlin (tn_shape t) (lin (tn_shape t) idx) = idx" if "in_range (tn_shape t) idx" for idx
    using lin_inj [OF in_range_unlin that] in_range_nonzero [OF that] lin_unlin lin_less [OF that] by metis
  have "embeds sz \<lparr>tn_shape = tn_shape t, tn_elem = (\<lambda>idx. tn_elem t (unlin (tn_shape t) (lin (tn_shape t) idx)))\<rparr> ls f"
    using assms u sh by (auto simp: embeds_def reads_def in_range_map)
  then show ?thesis by (simp add: e reshape_value_def)
qed

section \<open>Products and sums\<close>

lemma mul_reads:
  assumes "reads sz t ls f" and "reads sz u ls g"
  shows "\<exists>v. op_value Op_Mul [t, u] = Some v \<and> reads sz v ls (\<lambda>s. f s * g s)"
  using assms by (auto simp: reads_def mul_value_def)

lemma nths_labels:
  "length xs = length ls \<Longrightarrow> nths xs (- {i. i < length ls \<and> ls ! i \<in> R}) =
    map snd (filter (\<lambda>(l, x). l \<notin> R) (zip ls xs))"
proof (induction ls arbitrary: xs)
  case (Cons l ls)
  then obtain x xs' where xs: "xs = x # xs'" "length xs' = length ls" by (cases xs) auto
  have "{j. Suc j \<in> - {i. i < length (l # ls) \<and> (l # ls) ! i \<in> R}} = - {i. i < length ls \<and> ls ! i \<in> R}" by auto
  then show ?case using Cons.IH [OF xs(2)] by (simp add: xs nths_Cons)
qed simp

lemma reduce_sum_eq:
  "bounded sz (filter (\<lambda>l. l \<notin> R) ls) s \<Longrightarrow> distinct ls \<Longrightarrow>
    (\<Sum>full \<leftarrow> filter (\<lambda>full. map snd (filter (\<lambda>(l, x). l \<notin> R) (zip ls full)) = map s (filter (\<lambda>l. l \<notin> R) ls))
      (index_lists (map sz ls)). h full) =
    sum_out sz (filter (\<lambda>l. l \<in> R) ls) (\<lambda>s. h (map s ls)) s"
proof (induction ls arbitrary: h s)
  case (Cons l ls)
  note d = Cons.prems(2)
  then have dl: "distinct ls" by simp
  have b: "bounded sz (filter (\<lambda>l. l \<notin> R) ls) s" using Cons.prems(1) by (auto simp: bounded_def)
  have upd: "map (s(l := k)) ls = map s ls" for k using d by auto
  have updf: "map (s(l := k)) (filter P ls) = map s (filter P ls)" for k P using d by auto
  have bk: "bounded sz (filter (\<lambda>l. l \<notin> R) ls) (s(l := k))" for k using b d by (auto simp: bounded_def)
  show ?case
  proof (cases "l \<in> R")
    case True
    have "sum_out sz (filter (\<lambda>l. l \<in> R) ls) (\<lambda>s. h (k # map s ls)) (s(l := k)) =
        sum_out sz (filter (\<lambda>l. l \<in> R) ls) (\<lambda>s. h (s l # map s ls)) (s(l := k))" for k
      by (rule sum_out_cong) (use d in auto)
    moreover have "(\<Sum>full \<leftarrow> filter (\<lambda>full. map snd (filter (\<lambda>(l, x). l \<notin> R) (zip ls full)) =
          map s (filter (\<lambda>l. l \<notin> R) ls)) (index_lists (map sz ls)). h (k # full)) =
        sum_out sz (filter (\<lambda>l. l \<in> R) ls) (\<lambda>s. h (k # map s ls)) (s(l := k))" for k
      using Cons.IH [OF bk dl, of "\<lambda>ks. h (k # ks)" k] by (simp only: updf)
    ultimately show ?thesis
      using True by (simp add: sum_filter_index_lists_Cons del: index_lists_simps)
  next
    case False
    then have l: "s l < sz l" using Cons.prems(1) by (simp add: bounded_def)
    have "(\<Sum>full \<leftarrow> filter (\<lambda>full. map snd (filter (\<lambda>(l, x). l \<notin> R) (zip (l # ls) full)) =
          map s (filter (\<lambda>l. l \<notin> R) (l # ls))) (index_lists (map sz (l # ls))). h full) =
        (\<Sum>k < sz l. \<Sum>ks \<leftarrow> filter (\<lambda>ks. k = s l \<and> map snd (filter (\<lambda>(l, x). l \<notin> R) (zip ls ks)) =
          map s (filter (\<lambda>l. l \<notin> R) ls)) (index_lists (map sz ls)). h (k # ks))"
      using False by (simp add: sum_filter_index_lists_Cons del: index_lists_simps)
    also have "\<dots> = (\<Sum>k < sz l. if k = s l then \<Sum>full \<leftarrow> filter (\<lambda>full. map snd (filter (\<lambda>(l, x). l \<notin> R) (zip ls full)) =
          map s (filter (\<lambda>l. l \<notin> R) ls)) (index_lists (map sz ls)). h (k # full) else 0)"
      by (intro sum.cong) auto
    also have "\<dots> = sum_out sz (filter (\<lambda>l. l \<in> R) ls) (\<lambda>t. h (s l # map t ls)) s"
      using l d Cons.IH [OF b, of "\<lambda>ks. h (s l # ks)"] by simp
    also have "\<dots> = sum_out sz (filter (\<lambda>l. l \<in> R) ls) (\<lambda>t. h (t l # map t ls)) s"
      by (rule sum_out_cong) (use d in auto)
    finally show ?thesis using False by simp
  qed
qed simp

lemma reduce_reads:
  assumes t: "reads sz t ls f" and d: "distinct ls"
  shows "\<exists>v. op_value (Op_ReduceSum (filter (\<lambda>i. ls ! i \<in> R) [0..<length ls])) [t] = Some v \<and>
    reads sz v (filter (\<lambda>l. l \<notin> R) ls) (sum_out sz (filter (\<lambda>l. l \<in> R) ls) f)"
proof -
  let ?axes = "filter (\<lambda>i. ls ! i \<in> R) [0..<length ls]"
  have len: "length (tn_shape t) = length ls" using t by (simp add: reads_def)
  have ax: "set ?axes = {i. i < length ls \<and> ls ! i \<in> R}" by auto
  note kept = nths_labels [of _ ls R, folded ax]
  have "map snd (filter (\<lambda>(l, x). l \<notin> R) (zip ls (map g ls))) = map g (filter (\<lambda>l. l \<notin> R) ls)" for g :: "nat \<Rightarrow> nat"
    by (induction ls) auto
  then have sh: "nths (tn_shape t) (- set ?axes) = map sz (filter (\<lambda>l. l \<notin> R) ls)"
    using kept [of "tn_shape t"] len t by (simp add: reads_def)
  have "(\<Sum>full \<leftarrow> filter (\<lambda>full. nths full (- set ?axes) = map s (filter (\<lambda>l. l \<notin> R) ls)) (index_lists (tn_shape t)).
      tn_elem t full) = sum_out sz (filter (\<lambda>l. l \<in> R) ls) f s"
    if b: "bounded sz (filter (\<lambda>l. l \<notin> R) ls) s" for s
  proof -
    have "filter (\<lambda>full. nths full (- set ?axes) = map s (filter (\<lambda>l. l \<notin> R) ls)) (index_lists (tn_shape t)) =
        filter (\<lambda>full. map snd (filter (\<lambda>(l, x). l \<notin> R) (zip ls full)) = map s (filter (\<lambda>l. l \<notin> R) ls))
          (index_lists (map sz ls))"
      unfolding reads_shape [OF t]
    proof (rule filter_cong [OF refl])
      fix full assume "full \<in> set (index_lists (map sz ls))"
      then have "length full = length ls" by (auto dest: in_index_lists)
      then show "nths full (- set ?axes) = map s (filter (\<lambda>l. l \<notin> R) ls) \<longleftrightarrow>
          map snd (filter (\<lambda>(l, x). l \<notin> R) (zip ls full)) = map s (filter (\<lambda>l. l \<notin> R) ls)"
        by (simp only: kept)
    qed
    then have "(\<Sum>full \<leftarrow> filter (\<lambda>full. nths full (- set ?axes) = map s (filter (\<lambda>l. l \<notin> R) ls)) (index_lists (tn_shape t)).
        tn_elem t full) = sum_out sz (filter (\<lambda>l. l \<in> R) ls) (\<lambda>s. tn_elem t (map s ls)) s"
      using reduce_sum_eq [OF b d, of "tn_elem t"] by simp
    also have "\<dots> = sum_out sz (filter (\<lambda>l. l \<in> R) ls) f s"
    proof (rule sum_out_cong, rule readsD [OF t])
      fix g assume g: "\<And>l. l \<in> set (filter (\<lambda>l. l \<in> R) ls) \<Longrightarrow> g l < sz l"
        "\<And>l. l \<notin> set (filter (\<lambda>l. l \<in> R) ls) \<Longrightarrow> g l = s l"
      have "g l < sz l" if "l \<in> set ls" for l using that g b by (cases "l \<in> R") (auto simp: bounded_def)
      then show "bounded sz ls g" by (simp add: bounded_def)
    qed
    finally show ?thesis .
  qed
  moreover have "set ?axes \<subseteq> {..<length (tn_shape t)}" using len by auto
  ultimately show ?thesis using sh by (simp add: reads_def reduce_sum_value_def)
qed

section \<open>Diagonals\<close>

lemma remove_at_map: "map f (remove_at i xs) = remove_at i (map f xs)"
  by (simp add: remove_at_def take_map drop_map)

lemma insert_at_map: "map f (insert_at i x xs) = insert_at i (f x) (map f xs)"
  by (simp add: insert_at_def take_map drop_map)

lemma insert_remove_at: "i < length xs \<Longrightarrow> insert_at i (xs ! i) (remove_at i xs) = xs"
  by (simp add: insert_at_def remove_at_def id_take_nth_drop [symmetric])

lemma remove_insert_at: "i \<le> length xs \<Longrightarrow> remove_at i (insert_at i x xs) = xs"
  by (simp add: insert_at_def remove_at_def)

lemma nth_insert_at:
  "i \<le> length xs \<Longrightarrow> j \<le> length xs \<Longrightarrow>
    insert_at i x xs ! j = (if j < i then xs ! j else if j = i then x else xs ! (j - 1))"
  by (auto simp: insert_at_def nth_append nth_Cons' min_def)

lemma nth_remove_at_less: "j < i \<Longrightarrow> i < length xs \<Longrightarrow> remove_at i xs ! j = xs ! j"
  by (simp add: remove_at_def nth_append)

lemma set_insert_at: "set (insert_at i x xs) = insert x (set xs)"
  using set_append [of "take i xs" "drop i xs"] by (auto simp: insert_at_def)

lemma extract_diag_reads:
  assumes t: "reads sz t ls f" and ab: "a < b" "b < length ls" and l: "ls ! a = ls ! b"
  shows "\<exists>v. op_value (Op_ExtractDiag a b) [t] = Some v \<and> reads sz v (remove_at b ls) f"
proof -
  have sh: "tn_shape t = map sz ls" using t by (simp add: reads_def)
  have ra: "remove_at b ls ! a = ls ! a" using ab by (rule nth_remove_at_less)
  have la: "a < length (remove_at b ls)" using ab by (simp add: length_remove_at)
  have "(remove_at b (map sz ls))[a := min (sz (ls ! a)) (sz (ls ! b))] = map sz (remove_at b ls)"
  proof -
    have "(remove_at b ls)[a := ls ! a] = remove_at b ls" using ra by (metis list_update_id)
    then have "(map sz (remove_at b ls))[a := sz (ls ! a)] = map sz (remove_at b ls)" by (metis map_update)
    then show ?thesis using l by (simp add: remove_at_map)
  qed
  moreover have "insert_at b (map s (remove_at b ls) ! a) (map s (remove_at b ls)) = map s ls" for s :: "label \<Rightarrow> nat"
    using insert_at_map [of s b "ls ! b" "remove_at b ls"] insert_remove_at [OF ab(2)] ra la l by simp
  moreover have "bounded sz ls s" if "bounded sz (remove_at b ls) s" for s
  proof -
    have "ls ! b \<in> set (remove_at b ls)" using ra la l nth_mem by metis
    then show ?thesis using that insert_remove_at [OF ab(2)] set_insert_at [of b "ls ! b" "remove_at b ls"]
      by (auto simp: bounded_def)
  qed
  ultimately show ?thesis using ab readsD [OF t] by (simp add: reads_def extract_diag_value_def sh)
qed

lemma embed_diag_embeds:
  assumes t: "embeds sz t ls f" and a: "a < length ls"
  shows "\<exists>v. op_value (Op_EmbedDiag a (a + 1)) [t] = Some v \<and> embeds sz v (insert_at (a + 1) (ls ! a) ls) f"
proof -
  let ?ks = "insert_at (a + 1) (ls ! a) ls"
  have r: "reads sz t ls f" using t by (simp add: embeds_def)
  have sh: "tn_shape t = map sz ls" using r by (simp add: reads_def)
  have same: "map s ?ks ! a = map s ?ks ! (a + 1)" for s :: "label \<Rightarrow> nat"
    using a by (simp add: nth_insert_at length_insert_at)
  have inv: "remove_at (a + 1) (map s ?ks) = map s ls" for s :: "label \<Rightarrow> nat"
    using a by (simp add: insert_at_map remove_insert_at)
  have b: "bounded sz ls s" if "bounded sz ?ks s" for s using that by (rule bounded_mono) (auto simp: set_insert_at)
  have "in_range (map sz ls) (remove_at (a + 1) idx) \<and> idx = insert_at (a + 1) (idx ! a) (remove_at (a + 1) idx) \<and>
      remove_at (a + 1) idx ! a = idx ! a"
    if i: "in_range (map sz ?ks) idx" and d: "idx ! a = idx ! (a + 1)" for idx
  proof -
    have len: "length idx = Suc (length ls)" using in_range_length [OF i] a by (simp add: length_insert_at)
    have "in_range (remove_at (a + 1) (map sz ?ks)) (remove_at (a + 1) idx)"
      using i unfolding in_range_def remove_at_def by (intro list_all2_appendI list_all2_takeI list_all2_dropI)
    then have "in_range (map sz ls) (remove_at (a + 1) idx)" using a by (simp add: insert_at_map remove_insert_at)
    then show ?thesis using len a d insert_remove_at [of "a + 1" idx] by (simp add: nth_remove_at_less)
  qed
  note off = this
  have "tn_elem t (remove_at (a + 1) idx) = 0"
    if i: "in_range (map sz ?ks) idx" and d: "idx ! a = idx ! (a + 1)" and n: "\<nexists>s. idx = map s ?ks" for idx
  proof -
    have "\<nexists>s. remove_at (a + 1) idx = map s ls"
    proof
      assume "\<exists>s. remove_at (a + 1) idx = map s ls"
      then obtain s where s: "remove_at (a + 1) idx = map s ls" by blast
      then have "idx = insert_at (a + 1) (map s ls ! a) (map s ls)" using off [OF i d] by metis
      then have "idx = map s ?ks" using a by (simp add: insert_at_map)
      with n show False by blast
    qed
    then show ?thesis using t off [OF i d] by (simp add: embeds_def)
  qed
  then show ?thesis
    using a same inv readsD [OF r b] by (simp add: embeds_def reads_def embed_diag_value_def sh insert_at_map)
qed

section \<open>Broadcasts\<close>

text \<open>An operand as the input of an einsum: an axis of extent one is read at its only element.\<close>

definition tensor_at :: "'a tens \<Rightarrow> label list \<Rightarrow> (label \<Rightarrow> nat) \<Rightarrow> 'a" where
  "tensor_at t labels s = tn_elem t (map (\<lambda>(l, n). if n = 1 then 0 else s l) (zip labels (tn_shape t)))"

lemma depends_on_tensor_at: "depends_on (set labels) (tensor_at t labels)"
proof (rule depends_onI)
  fix s s' :: "label \<Rightarrow> nat" assume "\<And>l. l \<in> set labels \<Longrightarrow> s l = s' l"
  then have "map (\<lambda>(l, n). if n = 1 then 0 else s l) (zip labels (tn_shape t)) =
      map (\<lambda>(l, n). if n = 1 then 0 else s' l) (zip labels (tn_shape t))"
    by (auto dest: set_zip_leftD)
  then show "tensor_at t labels s = tensor_at t labels s'" by (simp only: tensor_at_def)
qed

lemma broadcast_reads:
  assumes t: "reads sz t ls f" and e: "eval_all sh (map tn_shape (t # ts)) = Ok (map sz target)"
    and m: "map ((!) target) dims = ls" and d: "distinct dims" "\<forall>a \<in> set dims. a < length target"
  shows "\<exists>v. op_value (Op_BroadcastInDim sh dims) (t # ts) = Some v \<and> reads sz v target f"
proof -
  have s: "tn_shape t = map sz ls" using t by (simp add: reads_def)
  have len: "length dims = length ls" unfolding m [symmetric] by simp
  have nth: "ls ! a = target ! (dims ! a)" if "a < length dims" for a unfolding m [symmetric] using that by simp
  have fits: "broadcast_fits (tn_shape t) (map sz target) dims"
    using len nth d by (simp add: broadcast_fits_def s)
  have "map (\<lambda>a. if tn_shape t ! a = 1 then 0 else map g target ! (dims ! a)) [0..<length (tn_shape t)] = map g ls"
    if "bounded sz target g" for g
  proof (rule nth_equalityI)
    fix a assume "a < length (map (\<lambda>a. if tn_shape t ! a = 1 then 0 else map g target ! (dims ! a)) [0..<length (tn_shape t)])"
    then have a: "a < length dims" using len s by simp
    then have da: "dims ! a < length target" using d(2) by simp
    then have "g (target ! (dims ! a)) < sz (target ! (dims ! a))" using that by (simp add: bounded_def)
    with da show "map (\<lambda>a. if tn_shape t ! a = 1 then 0 else map g target ! (dims ! a)) [0..<length (tn_shape t)] ! a =
        map g ls ! a"
      using a len s nth [OF a] by auto
  qed (simp add: s)
  moreover have "bounded sz ls g" if "bounded sz target g" for g
    using that by (rule bounded_mono) (use m d(2) in auto)
  ultimately show ?thesis using e fits readsD [OF t] by (simp add: broadcast_value_def reads_def)
qed

text \<open>The raw input of an einsum, with the axes of extent one that are stretched to the size of their label.\<close>

lemma raw_reads: "tn_shape t = map sz labels \<Longrightarrow> reads sz t labels (tensor_at t labels)"
  unfolding reads_def tensor_at_def
  by (auto simp: bounded_def zip_map2 intro!: arg_cong [of _ _ "tn_elem t"])
    (auto simp: zip_same_conv_map)

lemma raw_broadcast_reads:
  assumes len: "length (tn_shape t) = length labels"
    and ext: "\<And>a. a < length labels \<Longrightarrow> tn_shape t ! a = 1 \<or> tn_shape t ! a = sz (labels ! a)"
    and e: "eval_all sh [tn_shape t] = Ok (map sz labels)"
  shows "\<exists>v. op_value (Op_BroadcastInDim sh [0..<length labels]) [t] = Some v \<and> reads sz v labels (tensor_at t labels)"
proof -
  have fits: "broadcast_fits (tn_shape t) (map sz labels) [0..<length labels]"
    using len ext by (auto simp: broadcast_fits_def)
  have "map (\<lambda>a. if tn_shape t ! a = 1 then 0 else map g labels ! ([0..<length labels] ! a)) [0..<length (tn_shape t)] =
      map (\<lambda>(l, n). if n = 1 then 0 else g l) (zip labels (tn_shape t))" for g :: "label \<Rightarrow> nat"
    using len by (intro nth_equalityI) auto
  then show ?thesis using e fits by (simp add: broadcast_value_def reads_def tensor_at_def del: One_nat_def)
qed

section \<open>Contractions\<close>

lemma map_nth_filter: "map ((!) ls) (filter (\<lambda>a. P (ls ! a)) [0..<length ls]) = filter P ls"
  using filter_map [of P "(!) ls" "[0..<length ls]"] by (simp add: map_nth comp_def)

text \<open>The axes of one operand of a contraction that are neither summed nor paired.\<close>

lemma free_axes_labels:
  assumes d: "distinct ls" and c: "map ((!) ls) cs = C" "\<forall>a \<in> set cs. a < length ls"
    and b: "map ((!) ls) bs = B" "\<forall>a \<in> set bs. a < length ls" and CB: "set C \<union> set B = set ls \<inter> X"
  shows "map ((!) ls) (free_axes_of (length ls) cs bs) = filter (\<lambda>l. l \<notin> X) ls"
proof -
  have mem: "ls ! a \<in> (!) ls ` set axes \<longleftrightarrow> a \<in> set axes" if "a < length ls" "\<forall>a \<in> set axes. a < length ls" for a axes
    using that nth_eq_iff_index_eq [OF d] by auto
  have "free_axes_of (length ls) cs bs = filter (\<lambda>a. ls ! a \<notin> X) [0..<length ls]"
    unfolding free_axes_of_def
  proof (rule filter_cong [OF refl])
    fix a assume "a \<in> set [0..<length ls]"
    then have a: "a < length ls" by simp
    have "ls ! a \<in> X \<longleftrightarrow> ls ! a \<in> set C \<union> set B" using CB a by auto
    also have "\<dots> \<longleftrightarrow> a \<in> set cs \<or> a \<in> set bs"
      unfolding c(1) [symmetric] b(1) [symmetric] using mem [OF a c(2)] mem [OF a b(2)] by simp
    finally show "(a \<notin> set cs \<and> a \<notin> set bs) = (ls ! a \<notin> X)" by blast
  qed
  then show ?thesis using map_nth_filter [of ls "\<lambda>l. l \<notin> X"] by simp
qed

lemma contract_axes_cover:
  assumes "distinct cs" "distinct bs" "set cs \<inter> set bs = {}" "\<forall>a \<in> set cs. a < n" "\<forall>a \<in> set bs. a < n"
  shows "distinct (free_axes_of n cs bs @ bs @ cs)" and "set (free_axes_of n cs bs @ bs @ cs) = {..<n}"
  using assms by (auto simp: free_axes_of_def)

lemma dot_reads:
  assumes t: "reads sz t ls f" and u: "reads sz u rs g" and ls: "distinct ls" and rs: "distinct rs"
    and lc: "map ((!) ls) (lhs_contracting_dims c) = C" "\<forall>a \<in> set (lhs_contracting_dims c). a < length ls"
    and lb: "map ((!) ls) (lhs_batch_dims c) = B" "\<forall>a \<in> set (lhs_batch_dims c). a < length ls"
    and rc: "map ((!) rs) (rhs_contracting_dims c) = C" "\<forall>a \<in> set (rhs_contracting_dims c). a < length rs"
    and rb: "map ((!) rs) (rhs_batch_dims c) = B" "\<forall>a \<in> set (rhs_batch_dims c). a < length rs"
    and CB: "distinct (C @ B)" "set C \<union> set B = set ls \<inter> set rs"
  shows "\<exists>v. op_value (Op_DotGeneral c) [t, u] = Some v \<and>
    reads sz v (filter (\<lambda>l. l \<notin> set rs) ls @ filter (\<lambda>l. l \<notin> set ls) rs @ B) (sum_out sz C (\<lambda>s. f s * g s))"
proof -
  let ?lc = "lhs_contracting_dims c" and ?rc = "rhs_contracting_dims c"
  let ?lb = "lhs_batch_dims c" and ?rb = "rhs_batch_dims c"
  let ?lf = "free_axes_of (length ls) ?lc ?lb" and ?rf = "free_axes_of (length rs) ?rc ?rb"
  let ?L = "filter (\<lambda>l. l \<notin> set rs) ls" and ?R = "filter (\<lambda>l. l \<notin> set ls) rs"
  have st: "tn_shape t = map sz ls" and su: "tn_shape u = map sz rs" using t u by (simp_all add: reads_def)
  have axes_of: "distinct cs \<and> distinct bs \<and> set cs \<inter> set bs = {}"
    if "map ((!) xs) cs = C" "map ((!) xs) bs = B" for cs bs xs
  proof -
    have "distinct (map ((!) xs) (cs @ bs))" using CB(1) that by simp
    then have "distinct (cs @ bs)" by (simp only: distinct_map)
    then show ?thesis by simp
  qed
  note dl = axes_of [OF lc(1) lb(1)] and dr = axes_of [OF rc(1) rb(1)]
  have lf: "map ((!) ls) ?lf = ?L"
    by (rule free_axes_labels [OF ls lc lb CB(2)])
  have rf: "map ((!) rs) ?rf = ?R"
    by (rule free_axes_labels [OF rs rc rb]) (use CB(2) in blast)
  have sizes: "length ?lc = length C" "length ?rc = length C" "length ?lb = length B" "length ?rb = length B"
    "length ?lf = length ?L" "length ?rf = length ?R"
    using lc(1) rc(1) lb(1) rb(1) lf rf by (metis length_map)+
  have pick: "map ((!) (map sz xs)) as = map sz (map ((!) xs) as)" if "\<forall>a \<in> set as. a < length xs" for xs as
    using that by simp
  have inlf: "\<forall>a \<in> set ?lf. a < length ls" and inrf: "\<forall>a \<in> set ?rf. a < length rs"
    by (simp_all add: free_axes_of_def)
  have v: "dot_general_output_shape (tn_shape t) (tn_shape u) c DOT_GENERAL_OP = Ok (map sz (?L @ ?R @ B))"
  proof -
    have pair: "sz (ls ! i) = sz (rs ! j)" if "(i, j) \<in> set (zip as bs)" "map ((!) ls) as = D" "map ((!) rs) bs = D" for i j as bs D
    proof -
      from that(1) obtain k where k: "k < length as" "k < length bs" "i = as ! k" "j = bs ! k"
        by (auto simp: in_set_zip)
      have "ls ! i = D ! k" using k by (simp add: that(2) [symmetric])
      moreover have "rs ! j = D ! k" using k by (simp add: that(3) [symmetric])
      ultimately show ?thesis by simp
    qed
    have "(\<forall>a \<in> set ?lc. a < length (tn_shape t)) \<and> (\<forall>a \<in> set ?rc. a < length (tn_shape u))"
      using lc rc by (simp add: st su)
    moreover have "\<forall>(i, j) \<in> set (zip ?lc ?rc) \<union> set (zip ?lb ?rb). tn_shape t ! i = tn_shape u ! j"
    proof (clarify)
      fix i j assume "(i, j) \<in> set (zip ?lc ?rc) \<union> set (zip ?lb ?rb)"
      then have "sz (ls ! i) = sz (rs ! j)" "i < length ls" "j < length rs"
        using pair [OF _ lc(1) rc(1)] pair [OF _ lb(1) rb(1)] lc(2) rc(2) lb(2) rb(2)
        by (auto dest: set_zip_leftD set_zip_rightD)
      then show "tn_shape t ! i = tn_shape u ! j" by (simp add: st su)
    qed
    ultimately show ?thesis
      using dl dr sizes pick [OF inlf] pick [OF inrf] pick [OF lb(2)] lc(2) rc(2) lb(2) rb(2) lf rf lb(1)
      by (auto simp: dot_general_output_shape_def Let_def validate_axis_list_iff validate_role_disjoint_iff
          check_paired_extents_iff st su)
  qed
  have elem: "dot_value c t u (map s (?L @ ?R @ B)) = sum_out sz C (\<lambda>s. f s * g s) s"
    if b: "bounded sz (?L @ ?R @ B) s" for s
  proof -
    note cover = contract_axes_cover [of ?lc ?lb "length ls"] contract_axes_cover [of ?rc ?rb "length rs"]
    have li: "axis_index (?lf @ ?lb @ ?lc) (map s ?L @ map s B @ ks) (length ls) = map (override s C ks) ls"
      and ri: "axis_index (?rf @ ?rb @ ?rc) (map s ?R @ map s B @ ks) (length rs) = map (override s C ks) rs"
      if "length ks = length C" for ks
    proof -
      have o: "map (override s C ks) C = ks" "map (override s C ks) B = map s B"
        "map (override s C ks) ?L = map s ?L" "map (override s C ks) ?R = map s ?R"
        using that CB by (auto simp: map_override intro!: override_other)
      have "map s ?L @ map s B @ ks = map (override s C ks) (map ((!) ls) (?lf @ ?lb @ ?lc))"
        unfolding map_append lf lb(1) lc(1) o ..
      then show "axis_index (?lf @ ?lb @ ?lc) (map s ?L @ map s B @ ks) (length ls) = map (override s C ks) ls"
        using axis_index_map cover(1,2) dl lc(2) lb(2) by metis
      have "map s ?R @ map s B @ ks = map (override s C ks) (map ((!) rs) (?rf @ ?rb @ ?rc))"
        unfolding map_append rf rb(1) rc(1) o ..
      then show "axis_index (?rf @ ?rb @ ?rc) (map s ?R @ map s B @ ks) (length rs) = map (override s C ks) rs"
        using axis_index_map cover(3,4) dr rc(2) rb(2) by metis
    qed
    have "bounded sz ls (override s C ks) \<and> bounded sz rs (override s C ks)" if "ks \<in> set (index_lists (map sz C))" for ks
    proof -
      have r: "in_range (map sz C) ks" using that by (simp add: in_index_lists_iff)
      have C: "override s C ks l < sz l" if "l \<in> set C" for l
      proof -
        from that obtain i where "i < length C" "C ! i = l" by (metis in_set_conv_nth)
        then show ?thesis using r CB(1) override_nth [of C ks i s] by (auto simp: in_range_nth)
      qed
      have "override s C ks l < sz l" if "l \<in> set ls \<union> set rs" for l
        using that C CB(2) b override_other [of l C s ks] by (cases "l \<in> set C") (auto simp: bounded_def)
      then show ?thesis by (simp add: bounded_def)
    qed
    note in_bounds = this
    have "(\<Sum>ks \<leftarrow> index_lists (map sz C). tn_elem t (axis_index (?lf @ ?lb @ ?lc) (map s ?L @ map s B @ ks) (length ls)) *
        tn_elem u (axis_index (?rf @ ?rb @ ?rc) (map s ?R @ map s B @ ks) (length rs))) =
      (\<Sum>ks \<leftarrow> index_lists (map sz C). f (override s C ks) * g (override s C ks))"
    proof (intro arg_cong [of _ _ sum_list] map_cong refl)
      fix ks assume ks: "ks \<in> set (index_lists (map sz C))"
      then have len: "length ks = length C" by (auto dest: in_index_lists)
      show "tn_elem t (axis_index (?lf @ ?lb @ ?lc) (map s ?L @ map s B @ ks) (length ls)) *
          tn_elem u (axis_index (?rf @ ?rb @ ?rc) (map s ?R @ map s B @ ks) (length rs)) =
        f (override s C ks) * g (override s C ks)"
        unfolding li [OF len] ri [OF len] using in_bounds [OF ks] readsD [OF t] readsD [OF u] by simp
    qed
    then show ?thesis
      using CB(1) sum_out_index_lists [of C sz "\<lambda>s. f s * g s" s] sizes pick [OF lc(2)] lc(1)
      by (simp add: dot_value_def Let_def st su)
  qed
  show ?thesis using v elem by (simp add: contract_value_def reads_def)
qed

end
