(* ===== verification/Einsum_Lowering.thy ===== *)
theory Einsum_Lowering
  imports Tensor_Values
begin

text \<open>
  The lowering of \<open>builder.rs\<close> computes what its labels say. The graph builder of \<open>computegraph\<close> is
  an interface: adding an operation keeps the values of the graph and gives the new output the value of
  the operation. Each helper of the lowering is shown to keep the labelled meaning of its operands.
\<close>

section \<open>The interface of the graph builder\<close>

definition graph_extends :: "('g \<Rightarrow> 'e value_ref \<Rightarrow> 'a tens option) \<Rightarrow> 'g \<Rightarrow> 'g \<Rightarrow> bool" where
  "graph_extends val g g' \<longleftrightarrow> (\<forall>r t. val g r = Some t \<longrightarrow> val g' r = Some t)"

lemma graph_extends_refl [simp]: "graph_extends val g g"
  by (simp add: graph_extends_def)

lemma graph_extends_trans: "graph_extends val g g' \<Longrightarrow> graph_extends val g' g'' \<Longrightarrow> graph_extends val g g''"
  by (simp add: graph_extends_def)

lemma graph_extendsD: "graph_extends val g g' \<Longrightarrow> val g r = Some t \<Longrightarrow> val g' r = Some t"
  by (simp add: graph_extends_def)

text \<open>A labelled value of the lowering stands for a function of the label values.\<close>

definition lv_reads ::
  "('g \<Rightarrow> 'e value_ref \<Rightarrow> 'a :: comm_semiring_1 tens option) \<Rightarrow> (label \<Rightarrow> nat) \<Rightarrow> 'g \<Rightarrow> 'e labeled_val \<Rightarrow>
    ((label \<Rightarrow> nat) \<Rightarrow> 'a) \<Rightarrow> bool" where
  "lv_reads val sz g lv f \<longleftrightarrow>
    (\<exists>t. val g (lv_val lv) = Some t \<and> reads sz t (lv_labels lv) f) \<and>
    distinct (lv_labels lv) \<and> lv_shape lv = local_shape (length (lv_labels lv)) \<and>
    depends_on (set (lv_labels lv)) f"

definition lv_embeds ::
  "('g \<Rightarrow> 'e value_ref \<Rightarrow> 'a :: comm_semiring_1 tens option) \<Rightarrow> (label \<Rightarrow> nat) \<Rightarrow> 'g \<Rightarrow> 'e labeled_val \<Rightarrow>
    ((label \<Rightarrow> nat) \<Rightarrow> 'a) \<Rightarrow> bool" where
  "lv_embeds val sz g lv f \<longleftrightarrow>
    (\<exists>t. val g (lv_val lv) = Some t \<and> embeds sz t (lv_labels lv) f) \<and>
    lv_shape lv = local_shape (length (lv_labels lv))"

lemma lv_reads_extends: "lv_reads val sz g lv f \<Longrightarrow> graph_extends val g g' \<Longrightarrow> lv_reads val sz g' lv f"
  unfolding lv_reads_def by (blast dest: graph_extendsD)

lemma lv_reads_embeds: "lv_reads val sz g lv f \<Longrightarrow> lv_embeds val sz g lv f"
  unfolding lv_reads_def lv_embeds_def by (auto simp: embeds_distinct)

lemma local_val_simps [simp]:
  "lv_val (local_val v ls) = v" "lv_labels (local_val v ls) = ls" "lv_shape (local_val v ls) = local_shape (length ls)"
  by (simp_all add: local_val_def)

section \<open>Label bookkeeping\<close>

lemma find_repeat_spec:
  "distinct pre \<Longrightarrow> seen = position pre \<Longrightarrow> i = length pre \<Longrightarrow>
    (find_repeat seen i ls = None \<longrightarrow> distinct (pre @ ls)) \<and>
    (\<forall>a b. find_repeat seen i ls = Some (a, b) \<longrightarrow> a < b \<and> b < length (pre @ ls) \<and> (pre @ ls) ! a = (pre @ ls) ! b)"
proof (induction ls arbitrary: pre seen i)
  case (Cons l ls)
  show ?case
  proof (cases "position pre l")
    case None
    then have l: "l \<notin> set pre" by (simp add: position_None)
    have "position (pre @ [l]) = (position pre)(l \<mapsto> length pre)"
    proof
      have "position (xs @ [l]) k = (if k \<in> set xs then position xs k else if k = l then Some (length xs) else None)" for xs k
        by (induction xs) auto
      then show "position (pre @ [l]) k = ((position pre)(l \<mapsto> length pre)) k" for k
        using l position_None [of pre k] by auto
    qed
    then show ?thesis
      using Cons.IH [of "pre @ [l]", OF _ refl refl] Cons.prems None l by (simp del: fun_upd_apply)
  next
    case (Some a)
    then show ?thesis using Cons.prems position_Some [OF Some] by (auto simp: nth_append)
  qed
qed auto

lemma find_repeat_None: "find_repeat Map.empty 0 ls = None \<Longrightarrow> distinct ls"
  using find_repeat_spec [of "[]" Map.empty 0 ls] by (simp add: fun_eq_iff)

lemma find_repeat_Some:
  "find_repeat Map.empty 0 ls = Some (a, b) \<Longrightarrow> a < b \<and> b < length ls \<and> ls ! a = ls ! b"
  using find_repeat_spec [of "[]" Map.empty 0 ls] by (simp add: fun_eq_iff)

lemma set_remove_at_repeat: "a < b \<Longrightarrow> b < length ls \<Longrightarrow> ls ! a = ls ! b \<Longrightarrow> set (remove_at b ls) = set ls"
  using insert_remove_at [of b ls] set_insert_at [of b "ls ! b" "remove_at b ls"] nth_remove_at_less [of a b ls]
    nth_mem [of a "remove_at b ls"] by (auto simp: length_remove_at)

lemma push_new_fold:
  "foldl (\<lambda>xs l. if P l then push_new xs l else xs) xs ls = xs @ filter P ls"
  if "distinct ls" "set xs \<inter> set (filter P ls) = {}"
  using that
proof (induction ls arbitrary: xs)
  case (Cons l ls)
  then show ?case by (cases "P l") (auto simp: push_new_def)
qed simp

lemma classify_lhs_fold:
  "distinct ls \<Longrightarrow> set b \<inter> set ls = {} \<Longrightarrow> set c \<inter> set ls = {} \<Longrightarrow> set f \<inter> set ls = {} \<Longrightarrow>
    foldl (classify_lhs X S) (b, c, f) ls =
    (b @ filter (\<lambda>l. l \<in> X \<and> l \<in> S) ls, c @ filter (\<lambda>l. l \<in> X \<and> l \<notin> S) ls, f @ filter (\<lambda>l. l \<notin> X) ls)"
  by (induction ls arbitrary: b c f) (auto simp: classify_lhs_def push_new_def)

lemma classify_rhs_fold:
  "distinct ls \<Longrightarrow> set f \<inter> set ls = {} \<Longrightarrow> foldl (classify_rhs X) f ls = f @ filter (\<lambda>l. l \<notin> X) ls"
  by (induction ls arbitrary: f) (auto simp: classify_rhs_def push_new_def)

lemma find_conj_commute: "find (\<lambda>x. P x \<and> Q x) xs = find (\<lambda>x. Q x \<and> P x) xs"
  by (simp add: conj_commute)

lemma takes_all_labels_iff:
  "takes_all_labels used canonical ls \<longleftrightarrow> map_occurrences_loop used canonical ls \<noteq> None"
  by (induction used canonical ls rule: takes_all_labels.induct)
    (auto simp: find_conj_commute split: option.splits)

lemma mapped_labels_perm:
  assumes "map_label_occurrences source target = Some axes" and "length source = length target"
  shows "distinct axes" and "set axes = {..<length target}" and "map ((!) target) axes = source"
    and "mset source = mset target"
proof -
  note s = map_label_occurrences_sound [OF assms(1)]
  show d: "distinct axes" and m: "map ((!) target) axes = source" using s by simp_all
  show c: "set axes = {..<length target}"
    using s assms(2) by (intro axes_cover [OF d]) auto
  have "mset axes = mset [0..<length target]" using d c by (intro set_eq_iff_mset_eq_distinct [THEN iffD1]) (auto simp: atLeast0LessThan)
  then have "mset (map ((!) target) axes) = mset (map ((!) target) [0..<length target])" by (simp only: mset_map)
  then show "mset source = mset target" by (simp add: m map_nth)
qed

lemma select_order:
  assumes "distinct canonical"
  shows "distinct (select_outer_product_label_order canonical target) \<and>
    set (select_outer_product_label_order canonical target) = set canonical"
proof -
  have "distinct ts \<and> set ts = set canonical"
    if len: "length ts = length canonical" and tk: "takes_all_labels (replicate (length canonical) False) canonical ts" for ts
  proof -
    from tk obtain axes where "map_label_occurrences ts canonical = Some axes"
      by (auto simp: takes_all_labels_iff map_label_occurrences_def)
    from mapped_labels_perm(4) [OF this len] show ?thesis
      using assms by (metis mset_eq_imp_distinct_iff mset_eq_setD)
  qed
  then show ?thesis using assms by (auto simp: select_outer_product_label_order_def split: option.splits)
qed

lemma is_identity_map:
  assumes "is_identity perm" and "map ((!) target) perm = source" and "length perm = length target"
  shows "source = target"
proof -
  have "perm ! i = i" if "i < length perm" for i
    using assms(1) that by (auto simp: is_identity_def list_all_length)
  then have "perm = [0..<length target]" using assms(3) by (intro nth_equalityI) simp_all
  then show ?thesis using assms(2) by (simp add: map_nth)
qed

lemma reduce_val_eq:
  "reduce_val add g lv R =
    (if filter (\<lambda>i. lv_labels lv ! i \<in> R) [0..<length (lv_labels lv)] = [] then (lv, g)
     else case emit add g (Op_ReduceSum (filter (\<lambda>i. lv_labels lv ! i \<in> R) [0..<length (lv_labels lv)])) [lv_val lv] of
       (v, g') \<Rightarrow> (local_val v (filter (\<lambda>l. l \<notin> R) (lv_labels lv)), g'))"
proof -
  let ?ls = "lv_labels lv"
  let ?axes = "filter (\<lambda>i. ?ls ! i \<in> R) [0..<length ?ls]"
  have "filter (\<lambda>i. i \<notin> set ?axes) [0..<length ?ls] = filter (\<lambda>i. ?ls ! i \<notin> R) [0..<length ?ls]"
    by (rule filter_cong) auto
  then have rest: "map (\<lambda>i. ?ls ! i) (filter (\<lambda>i. i \<notin> set ?axes) [0..<length ?ls]) = filter (\<lambda>l. l \<notin> R) ?ls"
    using map_nth_filter [of ?ls "\<lambda>l. l \<notin> R"] by simp
  show ?thesis unfolding reduce_val_def Let_def rest by simp
qed

lemma reduce_val_labels:
  assumes "reduce_val add g lv R = (lv', g')"
  shows "lv_labels lv' = filter (\<lambda>l. l \<notin> R) (lv_labels lv)"
proof (cases "filter (\<lambda>i. lv_labels lv ! i \<in> R) [0..<length (lv_labels lv)] = []")
  case True
  then have "filter (\<lambda>l. l \<in> R) (lv_labels lv) = []" using map_nth_filter [of "lv_labels lv" "\<lambda>l. l \<in> R"] by simp
  then have "filter (\<lambda>l. l \<notin> R) (lv_labels lv) = lv_labels lv" by (auto simp: filter_empty_conv filter_id_conv)
  then show ?thesis using assms unfolding reduce_val_eq if_P [OF True] by simp
next
  case False
  then show ?thesis using assms unfolding reduce_val_eq if_not_P [OF False] by (auto split: prod.splits)
qed

section \<open>The helpers of the lowering\<close>

locale graph_values =
  fixes add :: "('g, 'e) add_operation"
    and val :: "'g \<Rightarrow> 'e value_ref \<Rightarrow> 'a :: comm_semiring_1 tens option"
  assumes keeps: "add g op ins = (outs, g') \<Longrightarrow> val g r = Some t \<Longrightarrow> val g' r = Some t"
    and computes: "add g op ins = (outs, g') \<Longrightarrow> map (val g) ins = map Some ts \<Longrightarrow> op_value op ts = Some t \<Longrightarrow>
      val g' (Local (outs ! 0)) = Some t"
begin

lemma emit_extends: "emit add g op ins = (v, g') \<Longrightarrow> graph_extends val g g'"
  by (auto simp: emit_def graph_extends_def split: prod.splits intro: keeps)

lemma emit_value:
  "emit add g op ins = (v, g') \<Longrightarrow> map (val g) ins = map Some ts \<Longrightarrow> op_value op ts = Some t \<Longrightarrow> val g' v = Some t"
  by (auto simp: emit_def split: prod.splits intro: computes)

lemma reduce_val_reads:
  assumes lv: "lv_reads val sz g lv f" and r: "reduce_val add g lv R = (lv', g')"
  shows "lv_labels lv' = filter (\<lambda>l. l \<notin> R) (lv_labels lv)"
    and "lv_reads val sz g' lv' (sum_out sz (filter (\<lambda>l. l \<in> R) (lv_labels lv)) f)"
    and "graph_extends val g g'"
proof -
  let ?ls = "lv_labels lv"
  let ?axes = "filter (\<lambda>i. ?ls ! i \<in> R) [0..<length ?ls]"
  have picked: "map ((!) ?ls) ?axes = filter (\<lambda>l. l \<in> R) ?ls" by (rule map_nth_filter)
  note req = reduce_val_eq [of add g lv R]
  have "lv_labels lv' = filter (\<lambda>l. l \<notin> R) ?ls \<and> graph_extends val g g' \<and>
    lv_reads val sz g' lv' (sum_out sz (filter (\<lambda>l. l \<in> R) ?ls) f)"
  proof (cases "?axes = []")
    case True
    then have none: "filter (\<lambda>l. l \<in> R) ?ls = []" using picked by (metis list.map_disc_iff)
    then have "filter (\<lambda>l. l \<notin> R) ?ls = ?ls" by (auto simp: filter_empty_conv filter_id_conv)
    moreover have "lv' = lv" "g' = g" using r [unfolded req if_P [OF True]] by simp_all
    ultimately show ?thesis using lv none by (simp add: sum_out_Nil)
  next
    case False
    then obtain v where e: "emit add g (Op_ReduceSum ?axes) [lv_val lv] = (v, g')"
      and lv': "lv' = local_val v (filter (\<lambda>l. l \<notin> R) ?ls)"
      using r [unfolded req if_not_P [OF False]] by (auto split: prod.splits)
    from lv obtain t where t: "val g (lv_val lv) = Some t" "reads sz t ?ls f" and d: "distinct ?ls" "depends_on (set ?ls) f"
      by (auto simp: lv_reads_def)
    from reduce_reads [OF t(2) d(1), of R] obtain u where u: "op_value (Op_ReduceSum ?axes) [t] = Some u"
      "reads sz u (filter (\<lambda>l. l \<notin> R) ?ls) (sum_out sz (filter (\<lambda>l. l \<in> R) ?ls) f)" by blast
    have "val g' v = Some u" by (rule emit_value [OF e _ u(1)]) (simp add: t)
    moreover have "depends_on (set (filter (\<lambda>l. l \<notin> R) ?ls)) (sum_out sz (filter (\<lambda>l. l \<in> R) ?ls) f)"
      by (rule depends_on_mono [OF depends_on_sum_out [OF d(2)]]) auto
    ultimately show ?thesis using u(2) d emit_extends [OF e] by (auto simp: lv' lv_reads_def)
  qed
  then show "lv_labels lv' = filter (\<lambda>l. l \<notin> R) ?ls" "graph_extends val g g'"
    "lv_reads val sz g' lv' (sum_out sz (filter (\<lambda>l. l \<in> R) ?ls) f)" by blast+
qed

lemma diagonalize_reads:
  assumes "val g (lv_val lv) = Some t" and "reads sz t (lv_labels lv) f"
    and "lv_shape lv = local_shape (length (lv_labels lv))" and "depends_on (set (lv_labels lv)) f"
    and "diagonalize_repeated add g lv = (lv', g')"
  shows "lv_reads val sz g' lv' f \<and> set (lv_labels lv') = set (lv_labels lv) \<and> graph_extends val g g'"
  using assms
proof (induction "length (lv_labels lv)" arbitrary: g lv t rule: less_induct)
  case less
  let ?ls = "lv_labels lv"
  show ?case
  proof (cases "find_repeat Map.empty 0 ?ls")
    case None
    then show ?thesis using less.prems find_repeat_None [OF None]
      by (auto simp: diagonalize_repeated.simps [of add g lv] lv_reads_def)
  next
    case (Some p)
    then obtain a b where p: "find_repeat Map.empty 0 ?ls = Some (a, b)" by (cases p) auto
    from find_repeat_Some [OF p] have ab: "a < b" "b < length ?ls" "?ls ! a = ?ls ! b" by auto
    obtain v g1 where e: "emit add g (Op_ExtractDiag a b) [lv_val lv] = (v, g1)" by fastforce
    let ?lv = "local_val v (remove_at b ?ls)"
    have rec: "diagonalize_repeated add g1 ?lv = (lv', g')"
      using less.prems(5) by (simp add: diagonalize_repeated.simps [of add g lv] p e)
    from extract_diag_reads [OF less.prems(2) ab] obtain u
      where u: "op_value (Op_ExtractDiag a b) [t] = Some u" "reads sz u (remove_at b ?ls) f" by blast
    have vu: "val g1 (lv_val ?lv) = Some u" using emit_value [OF e _ u(1)] less.prems(1) by simp
    have s: "set (remove_at b ?ls) = set ?ls" using ab by (rule set_remove_at_repeat)
    have "lv_reads val sz g' lv' f \<and> set (lv_labels lv') = set (lv_labels ?lv) \<and> graph_extends val g1 g'"
      by (rule less.hyps [OF _ vu _ _ _ rec]) (use ab u less.prems(4) s in \<open>simp_all add: length_remove_at\<close>)
    then show ?thesis using s emit_extends [OF e] by (auto intro: graph_extends_trans)
  qed
qed

lemma embed_repeated_embeds:
  assumes "lv_embeds val sz g lv f" and "set (lv_labels lv) = set out"
    and "\<And>l. count_list (lv_labels lv) l \<le> count_list out l"
  shows "\<exists>lv' g'. embed_repeated add g lv out = Ok (lv', g') \<and> lv_embeds val sz g' lv' f \<and>
    mset (lv_labels lv') = mset out \<and> graph_extends val g g'"
  using assms
proof (induction "missing_count (lv_labels lv) out" arbitrary: g lv rule: less_induct)
  case less
  let ?ls = "lv_labels lv"
  show ?case
  proof (cases "missing_repeat ?ls out")
    case None
    have "count_list out l \<le> count_list ?ls l" for l
      using None less.prems(2) by (cases "l \<in> set out") (auto simp: missing_repeat_def find_None_iff not_less)
    then have "count_list ?ls l = count_list out l" for l using less.prems(3) by (simp add: le_antisym)
    then have "mset ?ls = mset out" by (intro multiset_eqI) (simp add: count_mset)
    then show ?thesis using None less.prems(1) by (simp add: embed_repeated.simps [of add g lv])
  next
    case (Some l)
    note m = missing_repeat_Some [OF Some]
    then have l: "l \<in> set ?ls" using less.prems(2) by simp
    then obtain a where a: "position ?ls l = Some a" using position_None by fastforce
    from position_Some [OF a] have al: "a < length ?ls" "?ls ! a = l" by simp_all
    obtain v g1 where e: "emit add g (Op_EmbedDiag a (a + 1)) [lv_val lv] = (v, g1)" by fastforce
    let ?lv = "local_val v (insert_at (a + 1) l ?ls)"
    have eq: "embed_repeated add g lv out = embed_repeated add g1 ?lv out"
      using Some a e by (simp add: embed_repeated.simps [of add g lv] find_label_axis_def)
    from less.prems(1) obtain t where t: "val g (lv_val lv) = Some t" "embeds sz t ?ls f" by (auto simp: lv_embeds_def)
    from embed_diag_embeds [OF t(2) al(1)] obtain u
      where u: "op_value (Op_EmbedDiag a (a + 1)) [t] = Some u" "embeds sz u (insert_at (a + 1) l ?ls) f"
      using al(2) by auto
    have "val g1 v = Some u" using emit_value [OF e _ u(1)] t(1) by simp
    then have h: "lv_embeds val sz g1 ?lv f" using u(2) by (simp add: lv_embeds_def)
    have "\<exists>lv' g'. embed_repeated add g1 ?lv out = Ok (lv', g') \<and> lv_embeds val sz g' lv' f \<and>
        mset (lv_labels lv') = mset out \<and> graph_extends val g1 g'"
    proof (rule less.hyps [OF _ h])
      show "missing_count (lv_labels ?lv) out < missing_count ?ls out"
        using missing_count_insert [OF Some] by simp
      show "set (lv_labels ?lv) = set out" using l less.prems(2) by (auto simp: set_insert_at)
      show "count_list (lv_labels ?lv) k \<le> count_list out k" for k
        using m less.prems(3) [of k] by (auto simp: count_list_insert_at)
    qed
    then show ?thesis unfolding eq using emit_extends [OF e] by (blast intro: graph_extends_trans)
  qed
qed

lemma arrange_output_embeds:
  assumes lv: "lv_embeds val sz g lv f" and m: "mset (lv_labels lv) = mset out"
  shows "\<exists>v g' t. arrange_output add g lv out = Ok (v, g') \<and> val g' v = Some t \<and> embeds sz t out f \<and>
    graph_extends val g g'"
proof -
  let ?ls = "lv_labels lv"
  from lv obtain t where t: "val g (lv_val lv) = Some t" "embeds sz t ?ls f"
    and sh: "lv_shape lv = local_shape (length ?ls)" by (auto simp: lv_embeds_def)
  have local: "\<exists>v g' u. localize_value_ref add g (lv_val lv) (lv_shape lv) = (v, g') \<and> val g' v = Some u \<and>
      embeds sz u ?ls f \<and> graph_extends val g g'"
  proof (cases "lv_val lv")
    case (External r)
    obtain v g' where e: "emit add g (Op_Reshape (lv_shape lv)) [lv_val lv] = (v, g')" by fastforce
    from reshape_embeds [OF t(2)] obtain u where u: "op_value (Op_Reshape (lv_shape lv)) [t] = Some u" "embeds sz u ?ls f"
      by (auto simp: sh)
    have "val g' v = Some u" using emit_value [OF e _ u(1)] t(1) by simp
    then show ?thesis using u(2) e emit_extends [OF e] External by (simp add: localize_value_ref_def)
  qed (use t in \<open>simp add: localize_value_ref_def\<close>)
  show ?thesis
  proof (cases "?ls = out")
    case True
    then show ?thesis using local by (auto simp: arrange_output_def)
  next
    case False
    have len: "length out = length ?ls" using mset_eq_length [OF m] by simp
    have "count_list out l \<le> count_list ?ls l" for l using m by (metis count_mset order_refl)
    from map_label_occurrences_complete [OF this] obtain perm where p: "map_label_occurrences out ?ls = Some perm" by blast
    note pm = mapped_labels_perm [OF p len]
    have "length perm = length ?ls" using map_label_occurrences_sound(1) [OF p] len by simp
    then have ni: "\<not> is_identity perm" using is_identity_map [OF _ pm(3)] False by auto
    obtain v g' where e: "emit add g (Op_Transpose perm) [lv_val lv] = (v, g')" by fastforce
    from transpose_embeds [OF pm(3,1,2) t(2)] obtain u where u: "op_value (Op_Transpose perm) [t] = Some u" "embeds sz u out f"
      by blast
    have "val g' v = Some u" using emit_value [OF e _ u(1)] t(1) by simp
    then show ?thesis using False p ni e u(2) emit_extends [OF e] by (simp add: arrange_output_def map_label_axes_def)
  qed
qed

end

end
