(* ===== verification/Einsum_Contract.thy ===== *)
theory Einsum_Contract
  imports Einsum_Lowering
begin

text \<open>
  One pairwise step of the lowering: \<open>binary_contract\<close> always succeeds on operands with distinct labels
  and its result stands for the product of the operands, summed over the labels that do not survive.
\<close>

section \<open>Axes and broadcast shapes\<close>

lemma find_axes:
  "set C \<subseteq> set ls \<Longrightarrow> \<exists>axes. traverse (find_label_axis ls) C = Ok axes \<and> map ((!) ls) axes = C \<and>
    (\<forall>a \<in> set axes. a < length ls)"
proof (induction C)
  case (Cons l C)
  then obtain axes where axes: "traverse (find_label_axis ls) C = Ok axes" "map ((!) ls) axes = C"
    "\<forall>a \<in> set axes. a < length ls" by auto
  obtain a where a: "position ls l = Some a" using Cons.prems position_None [of ls l] by auto
  then have "find_label_axis ls l = Ok a" by (simp add: find_label_axis_def)
  then show ?case using axes position_Some [OF a] by (intro exI [of _ "a # axes"]) simp
qed simp

definition dim_of :: "label list \<Rightarrow> label list \<Rightarrow> nat \<Rightarrow> nat \<Rightarrow> label \<Rightarrow> dim_expr" where
  "dim_of ls rs i j l = (case position ls l of Some a \<Rightarrow> InputDim i a | None \<Rightarrow> InputDim j (the (position rs l)))"

lemma combined_shape_dims:
  assumes "set combined \<subseteq> set (lv_labels lhs) \<union> set (lv_labels rhs)"
  shows "combined_shape_for_broadcast combined lhs rhs Primary_Lhs =
      Ok (map (dim_of (lv_labels lhs) (lv_labels rhs) 0 1) combined)"
    and "combined_shape_for_broadcast combined lhs rhs Primary_Rhs =
      Ok (map (dim_of (lv_labels lhs) (lv_labels rhs) 1 0) combined)"
proof -
  have "combined_dim lhs rhs Primary_Lhs l = Ok (dim_of (lv_labels lhs) (lv_labels rhs) 0 1 l) \<and>
      combined_dim lhs rhs Primary_Rhs l = Ok (dim_of (lv_labels lhs) (lv_labels rhs) 1 0 l)"
    if "l \<in> set combined" for l
    using that assms position_None [of "lv_labels rhs" l] position_None [of "lv_labels lhs" l]
    by (auto simp: combined_dim_def dim_of_def split: option.splits)
  then show "combined_shape_for_broadcast combined lhs rhs Primary_Lhs =
      Ok (map (dim_of (lv_labels lhs) (lv_labels rhs) 0 1) combined)"
    "combined_shape_for_broadcast combined lhs rhs Primary_Rhs =
      Ok (map (dim_of (lv_labels lhs) (lv_labels rhs) 1 0) combined)"
    by (simp_all add: combined_shape_for_broadcast_def traverse_eq_Inr)
qed

lemma dim_of_eval:
  assumes "l \<in> set ls \<union> set rs"
  shows "eval (dim_of ls rs 0 1 l) [map sz ls, map sz rs] = Ok (sz l)"
    and "eval (dim_of ls rs 1 0 l) [map sz rs, map sz ls] = Ok (sz l)"
proof -
  consider a where "position ls l = Some a" | a where "position ls l = None" "position rs l = Some a"
    using assms position_None [of ls l] position_None [of rs l] by auto
  then have "eval (dim_of ls rs 0 1 l) [map sz ls, map sz rs] = Ok (sz l) \<and>
      eval (dim_of ls rs 1 0 l) [map sz rs, map sz ls] = Ok (sz l)"
    by cases (auto simp: dim_of_def get_def dest!: position_Some)
  then show "eval (dim_of ls rs 0 1 l) [map sz ls, map sz rs] = Ok (sz l)"
    "eval (dim_of ls rs 1 0 l) [map sz rs, map sz ls] = Ok (sz l)" by simp_all
qed

lemma eval_first_input:
  "\<not> dim_expr_uses_input (dim_of ls rs i j l) 1 \<Longrightarrow> i \<le> 1 \<Longrightarrow> j \<le> 1 \<Longrightarrow>
    eval (dim_of ls rs i j l) [p, q] = eval (dim_of ls rs i j l) [p]"
  by (auto simp: dim_of_def get_def le_Suc_eq split: option.splits)

lemma broadcast_dims_eval:
  assumes "\<And>l. l \<in> set combined \<Longrightarrow> eval (dim_of ls rs i j l) [p, q] = Ok (sz l)" and "i \<le> 1" "j \<le> 1"
    and "sh = map (dim_of ls rs i j) combined"
  shows "eval_all sh (p # (if shape_uses_input sh 1 then [q] else [])) = Ok (map sz combined)"
proof (cases "shape_uses_input sh 1")
  case True
  then show ?thesis using assms by (simp add: eval_all_def traverse_eq_Inr)
next
  case False
  then have "eval (dim_of ls rs i j l) [p] = Ok (sz l)" if "l \<in> set combined" for l
    using eval_first_input [of ls rs i j l p q] assms that by (auto simp: shape_uses_input_def list_ex_iff)
  then show ?thesis using False assms(4) by (simp add: eval_all_def traverse_eq_Inr)
qed

context graph_values
begin

lemma broadcast_operand_reads:
  assumes p: "lv_reads val sz gr lv f" and q: "val gr (lv_val rv) = Some u"
    and dims: "map_label_occurrences (lv_labels lv) combined = Some dims"
    and e: "\<And>t. val gr (lv_val lv) = Some t \<Longrightarrow>
      eval_all sh (tn_shape t # (if shape_uses_input sh 1 then [tn_shape u] else [])) = Ok (map sz combined)"
    and add: "emit add gr (Op_BroadcastInDim sh dims) (broadcast_inputs (lv_val lv) (lv_val rv) sh) = (v, gr')"
  shows "(\<exists>w. val gr' v = Some w \<and> reads sz w combined f) \<and> graph_extends val gr gr'"
proof -
  from p obtain t where t: "val gr (lv_val lv) = Some t" "reads sz t (lv_labels lv) f" by (auto simp: lv_reads_def)
  let ?ts = "t # (if shape_uses_input sh 1 then [u] else [])"
  note m = map_label_occurrences_sound [OF dims]
  have "eval_all sh (map tn_shape ?ts) = Ok (map sz combined)"
    using e [OF t(1)] by (cases "shape_uses_input sh 1") simp_all
  from broadcast_reads [OF t(2) this m(4,2,3)] obtain w
    where w: "op_value (Op_BroadcastInDim sh dims) ?ts = Some w" "reads sz w combined f" by blast
  have "map (val gr) (broadcast_inputs (lv_val lv) (lv_val rv) sh) = map Some ?ts"
    using t q by (simp add: broadcast_inputs_def)
  from emit_value [OF add this w(1)] w(2) emit_extends [OF add] show ?thesis by blast
qed

lemma outer_product_reads:
  assumes l: "lv_reads val sz gr lhs f" and r: "lv_reads val sz gr rhs h"
    and can: "distinct (lf @ rf @ B)" "set (lf @ rf @ B) = set (lv_labels lhs) \<union> set (lv_labels rhs)"
  shows "\<exists>lv' gr'. outer_product add gr lhs rhs B lf rf target = Ok (lv', gr') \<and>
    set (lv_labels lv') = set (lv_labels lhs) \<union> set (lv_labels rhs) \<and>
    lv_reads val sz gr' lv' (\<lambda>s. f s * h s) \<and> graph_extends val gr gr'"
proof -
  let ?ls = "lv_labels lhs" and ?rs = "lv_labels rhs"
  from l obtain t where t: "val gr (lv_val lhs) = Some t" "reads sz t ?ls f" and dl: "distinct ?ls"
    and fl: "depends_on (set ?ls) f" and sl: "lv_shape lhs = local_shape (length ?ls)" by (auto simp: lv_reads_def)
  from r obtain u where u: "val gr (lv_val rhs) = Some u" "reads sz u ?rs h" and dr: "distinct ?rs"
    and fr: "depends_on (set ?rs) h" by (auto simp: lv_reads_def)
  note dep = depends_on_mult [OF fl fr]
  show ?thesis
  proof (cases "?ls = ?rs")
    case True
    obtain v gr' where e: "emit add gr Op_Mul [lv_val lhs, lv_val rhs] = (v, gr')" by fastforce
    from mul_reads [OF t(2)] u(2) True obtain w where w: "op_value Op_Mul [t, u] = Some w"
      "reads sz w ?ls (\<lambda>s. f s * h s)" by metis
    have "val gr' v = Some w" using emit_value [OF e _ w(1)] t(1) u(1) by simp
    then have "lv_reads val sz gr' \<lparr>lv_val = v, lv_labels = ?ls, lv_shape = lv_shape lhs\<rparr> (\<lambda>s. f s * h s)"
      using w(2) dl sl dep True by (simp add: lv_reads_def)
    then show ?thesis using True e emit_extends [OF e] by (simp add: outer_product_def Let_def)
  next
    case False
    define C where "C = select_outer_product_label_order (lf @ rf @ B) target"
    have C: "distinct C" "set C = set ?ls \<union> set ?rs" using select_order [OF can(1), of target] can(2) by (simp_all add: C_def)
    obtain ld where ld: "map_label_occurrences ?ls C = Some ld"
      using map_label_occurrences_distinct [OF dl] C(2) by blast
    obtain rd where rd: "map_label_occurrences ?rs C = Some rd"
      using map_label_occurrences_distinct [OF dr] C(2) by blast
    have "set C \<subseteq> set ?ls \<union> set ?rs" using C(2) by simp
    note sh = combined_shape_dims [OF this]
    let ?lsh = "map (dim_of ?ls ?rs 0 1) C" and ?rsh = "map (dim_of ?ls ?rs 1 0) C"
    obtain lv gr1 where e1: "emit add gr (Op_BroadcastInDim ?lsh ld) (broadcast_inputs (lv_val lhs) (lv_val rhs) ?lsh) = (lv, gr1)"
      by fastforce
    obtain rv gr2 where e2: "emit add gr1 (Op_BroadcastInDim ?rsh rd) (broadcast_inputs (lv_val rhs) (lv_val lhs) ?rsh) = (rv, gr2)"
      by fastforce
    obtain v gr3 where e3: "emit add gr2 Op_Mul [lv, rv] = (v, gr3)" by fastforce
    have ev: "eval_all ?lsh (tn_shape t # (if shape_uses_input ?lsh 1 then [tn_shape u] else [])) = Ok (map sz C)"
      by (rule broadcast_dims_eval) (use dim_of_eval(1) C(2) reads_shape [OF t(2)] reads_shape [OF u(2)] in auto)
    have "(\<exists>w. val gr1 lv = Some w \<and> reads sz w C f) \<and> graph_extends val gr gr1"
      by (rule broadcast_operand_reads [OF l u(1) ld _ e1]) (use t(1) ev in simp)
    then obtain a where a: "val gr1 lv = Some a" "reads sz a C f" and x1: "graph_extends val gr gr1" by blast
    have r1: "lv_reads val sz gr1 rhs h" and t1: "val gr1 (lv_val lhs) = Some t" and u1: "val gr1 (lv_val rhs) = Some u"
      using lv_reads_extends [OF r x1] graph_extendsD [OF x1] t(1) u(1) by simp_all
    have ev2: "eval_all ?rsh (tn_shape u # (if shape_uses_input ?rsh 1 then [tn_shape t] else [])) = Ok (map sz C)"
      by (rule broadcast_dims_eval) (use dim_of_eval(2) C(2) reads_shape [OF t(2)] reads_shape [OF u(2)] in auto)
    have "(\<exists>w. val gr2 rv = Some w \<and> reads sz w C h) \<and> graph_extends val gr1 gr2"
      by (rule broadcast_operand_reads [OF r1 t1 rd _ e2]) (use u1 ev2 in simp)
    then obtain b where b: "val gr2 rv = Some b" "reads sz b C h" and x2: "graph_extends val gr1 gr2" by blast
    have a2: "val gr2 lv = Some a" using graph_extendsD [OF x2 a(1)] .
    from mul_reads [OF a(2) b(2)] obtain w where w: "op_value Op_Mul [a, b] = Some w" "reads sz w C (\<lambda>s. f s * h s)" by blast
    have "val gr3 v = Some w" using emit_value [OF e3 _ w(1)] a2 b(1) by simp
    then have "lv_reads val sz gr3 (local_val v C) (\<lambda>s. f s * h s)"
      using w(2) C dep by (auto simp: lv_reads_def intro: depends_on_mono)
    moreover have "outer_product add gr lhs rhs B lf rf target = Ok (local_val v C, gr3)"
      using False ld rd sh by (simp add: outer_product_def Let_def map_label_axes_def e1 e2 e3 flip: C_def del: One_nat_def)
    moreover have "graph_extends val gr gr3"
      by (rule graph_extends_trans [OF graph_extends_trans [OF x1 x2] emit_extends [OF e3]])
    ultimately show ?thesis using C(2) by (intro exI [of _ "local_val v C"] exI [of _ gr3]) simp
  qed
qed

lemma contract_dot_reads:
  assumes l: "lv_reads val sz gr lhs f" and r: "lv_reads val sz gr rhs h"
    and CB: "distinct (C @ B)" "set C \<union> set B = set (lv_labels lhs) \<inter> set (lv_labels rhs)"
    and lf: "lf = filter (\<lambda>l. l \<notin> set (lv_labels rhs)) (lv_labels lhs)"
    and rf: "rf = filter (\<lambda>l. l \<notin> set (lv_labels lhs)) (lv_labels rhs)"
  shows "\<exists>lv' gr'. contract_dot add gr lhs rhs B C lf rf = Ok (lv', gr') \<and> lv_labels lv' = lf @ rf @ B \<and>
    lv_reads val sz gr' lv' (sum_out sz C (\<lambda>s. f s * h s)) \<and> graph_extends val gr gr'"
proof -
  let ?ls = "lv_labels lhs" and ?rs = "lv_labels rhs"
  from l obtain t where t: "val gr (lv_val lhs) = Some t" "reads sz t ?ls f" and dl: "distinct ?ls"
    and fl: "depends_on (set ?ls) f" by (auto simp: lv_reads_def)
  from r obtain u where u: "val gr (lv_val rhs) = Some u" "reads sz u ?rs h" and dr: "distinct ?rs"
    and fr: "depends_on (set ?rs) h" by (auto simp: lv_reads_def)
  have sub: "set C \<subseteq> set ?ls" "set C \<subseteq> set ?rs" "set B \<subseteq> set ?ls" "set B \<subseteq> set ?rs" using CB(2) by auto
  from find_axes [OF sub(1)] obtain lc where lc: "traverse (find_label_axis ?ls) C = Ok lc"
    "map ((!) ?ls) lc = C" "\<forall>a \<in> set lc. a < length ?ls" by blast
  from find_axes [OF sub(2)] obtain rc where rc: "traverse (find_label_axis ?rs) C = Ok rc"
    "map ((!) ?rs) rc = C" "\<forall>a \<in> set rc. a < length ?rs" by blast
  from find_axes [OF sub(3)] obtain lb where lb: "traverse (find_label_axis ?ls) B = Ok lb"
    "map ((!) ?ls) lb = B" "\<forall>a \<in> set lb. a < length ?ls" by blast
  from find_axes [OF sub(4)] obtain rb where rb: "traverse (find_label_axis ?rs) B = Ok rb"
    "map ((!) ?rs) rb = B" "\<forall>a \<in> set rb. a < length ?rs" by blast
  let ?c = "\<lparr>lhs_contracting_dims = lc, rhs_contracting_dims = rc, lhs_batch_dims = lb, rhs_batch_dims = rb\<rparr>"
  obtain v gr' where e: "emit add gr (Op_DotGeneral ?c) [lv_val lhs, lv_val rhs] = (v, gr')" by fastforce
  from dot_reads [OF t(2) u(2) dl dr, of ?c C B] lc lb rc rb CB
  obtain w where w: "op_value (Op_DotGeneral ?c) [t, u] = Some w" "reads sz w (lf @ rf @ B) (sum_out sz C (\<lambda>s. f s * h s))"
    unfolding lf rf by auto
  have "val gr' v = Some w" using emit_value [OF e _ w(1)] t(1) u(1) by simp
  moreover have "depends_on (set (lf @ rf @ B)) (sum_out sz C (\<lambda>s. f s * h s))"
    by (rule depends_on_mono [OF depends_on_sum_out [OF depends_on_mult [OF fl fr]]]) (use CB(2) in \<open>auto simp: lf rf\<close>)
  moreover have "distinct (lf @ rf @ B)" using CB dl dr by (auto simp: lf rf)
  ultimately have "lv_reads val sz gr' (local_val v (lf @ rf @ B)) (sum_out sz C (\<lambda>s. f s * h s))"
    using w(2) by (simp add: lv_reads_def)
  then show ?thesis using lc(1) rc(1) lb(1) rb(1) e emit_extends [OF e] by (simp add: contract_dot_def)
qed

lemma reorder_survivors_reads:
  assumes lv: "lv_reads val sz gr lv f" and "set (lv_labels lv) \<subseteq> set out" and "distinct out"
  shows "\<exists>lv' gr'. reorder_survivors add gr lv out = Ok (lv', gr') \<and> set (lv_labels lv') = set (lv_labels lv) \<and>
    lv_reads val sz gr' lv' f \<and> graph_extends val gr gr'"
proof -
  let ?ls = "lv_labels lv" and ?ts = "filter (\<lambda>l. l \<in> set (lv_labels lv)) out"
  from lv obtain t where t: "val gr (lv_val lv) = Some t" "reads sz t ?ls f" and dl: "distinct ?ls"
    and fl: "depends_on (set ?ls) f" by (auto simp: lv_reads_def)
  have ts: "distinct ?ts" "set ?ts = set ?ls" using assms by auto
  have len: "length ?ts = length ?ls" using ts dl by (metis distinct_card)
  show ?thesis
  proof (cases "?ls = [] \<or> ?ls = ?ts")
    case True
    then show ?thesis using lv by (auto simp: reorder_survivors_def Let_def)
  next
    case False
    obtain perm where p: "map_label_occurrences ?ts ?ls = Some perm"
      using map_label_occurrences_distinct [OF ts(1)] ts(2) by blast
    note pm = mapped_labels_perm [OF p len]
    have "length perm = length ?ls" using map_label_occurrences_sound(1) [OF p] len by simp
    then have ni: "\<not> is_identity perm" using is_identity_map [OF _ pm(3)] False by auto
    obtain v gr' where e: "emit add gr (Op_Transpose perm) [lv_val lv] = (v, gr')" by fastforce
    from transpose_reads [OF pm(3,1,2) t(2)] obtain u where u: "op_value (Op_Transpose perm) [t] = Some u" "reads sz u ?ts f"
      by blast
    have "val gr' v = Some u" using emit_value [OF e _ u(1)] t(1) by simp
    then have "lv_reads val sz gr' (local_val v ?ts) f" using u(2) ts fl by (simp add: lv_reads_def)
    then show ?thesis using False p ni e ts(2) emit_extends [OF e]
      by (simp add: reorder_survivors_def Let_def map_label_axes_def)
  qed
qed

lemma binary_contract_reads:
  assumes l: "lv_reads val sz gr lhs f" and r: "lv_reads val sz gr rhs h"
    and reorder: "reorder \<Longrightarrow> distinct survive"
  shows "\<exists>lv' gr'. binary_contract add gr lhs rhs survive reorder = Ok (lv', gr') \<and>
    set (lv_labels lv') = (set (lv_labels lhs) \<union> set (lv_labels rhs)) \<inter> set survive \<and>
    lv_reads val sz gr' lv'
      (sum_out sz (filter (\<lambda>l. l \<notin> set survive) (remdups (lv_labels lhs @ lv_labels rhs))) (\<lambda>s. f s * h s)) \<and>
    graph_extends val gr gr'"
proof -
  let ?ls = "lv_labels lhs" and ?rs = "lv_labels rhs" and ?S = "set survive"
  have dl: "distinct ?ls" "depends_on (set ?ls) f" and dr: "distinct ?rs" "depends_on (set ?rs) h"
    using l r by (simp_all add: lv_reads_def)
  let ?lr = "set (filter (\<lambda>l. l \<notin> set ?rs \<and> l \<notin> ?S) ?ls)" and ?rr = "set (filter (\<lambda>l. l \<notin> set ?ls \<and> l \<notin> ?S) ?rs)"
  obtain lhs1 gr1 where r1: "reduce_val add gr lhs ?lr = (lhs1, gr1)" by fastforce
  obtain rhs1 gr2 where r2: "reduce_val add gr1 rhs ?rr = (rhs1, gr2)" by fastforce
  let ?xs = "filter (\<lambda>l. l \<in> ?lr) ?ls" and ?ys = "filter (\<lambda>l. l \<in> ?rr) ?rs"
  note a = reduce_val_reads [OF l r1]
  note b = reduce_val_reads [OF lv_reads_extends [OF r a(3)] r2]
  have a2: "lv_reads val sz gr2 lhs1 (sum_out sz ?xs f)" using a(2) b(3) by (rule lv_reads_extends)
  let ?ls1 = "lv_labels lhs1" and ?rs1 = "lv_labels rhs1"
  have ls1: "set ?ls1 = set ?ls \<inter> (set ?rs \<union> ?S)" and rs1: "set ?rs1 = set ?rs \<inter> (set ?ls \<union> ?S)"
    using a(1) b(1) by auto
  have d1: "distinct ?ls1" "distinct ?rs1" using a(2) b(2) by (simp_all add: lv_reads_def)
  define C where "C = filter (\<lambda>l. l \<in> set ?rs1 \<and> l \<notin> ?S) ?ls1"
  define B where "B = filter (\<lambda>l. l \<in> set ?rs1 \<and> l \<in> ?S) ?ls1"
  define lf where "lf = filter (\<lambda>l. l \<notin> set ?rs1) ?ls1"
  define rf where "rf = filter (\<lambda>l. l \<notin> set ?ls1) ?rs1"
  have cl: "foldl (classify_lhs (set ?rs1) ?S) ([], [], []) ?ls1 = (B, C, lf)"
    using classify_lhs_fold [OF d1(1), of "[]" "[]" "[]"] by (simp add: B_def C_def lf_def)
  have cr: "foldl (classify_rhs (set ?ls1)) [] ?rs1 = rf"
    using classify_rhs_fold [OF d1(2), of "[]"] by (simp add: rf_def)
  let ?m = "if C \<noteq> [] then contract_dot add gr2 lhs1 rhs1 B C lf rf
    else outer_product add gr2 lhs1 rhs1 B lf rf (if reorder then Some survive else None)"
  define F where "F = sum_out sz C (\<lambda>s. sum_out sz ?xs f s * sum_out sz ?ys h s)"
  have CB: "distinct (C @ B)" "set C \<union> set B = set ?ls1 \<inter> set ?rs1" using d1 by (auto simp: C_def B_def)
  have labels: "set (lf @ rf @ B) = (set ?ls \<union> set ?rs) \<inter> ?S" by (auto simp: lf_def rf_def B_def ls1 rs1)
  have m: "\<exists>lv' gr'. ?m = Ok (lv', gr') \<and> set (lv_labels lv') = (set ?ls \<union> set ?rs) \<inter> ?S \<and>
      lv_reads val sz gr' lv' F \<and> graph_extends val gr2 gr'"
  proof (cases "C = []")
    case False
    from contract_dot_reads [OF a2 b(2) CB lf_def rf_def] False labels show ?thesis by (auto simp: F_def)
  next
    case True
    have all: "set ?ls1 \<union> set ?rs1 = (set ?ls \<union> set ?rs) \<inter> ?S"
      using True by (auto simp: C_def filter_empty_conv ls1 rs1)
    have "distinct (lf @ rf @ B)" using d1 by (auto simp: lf_def rf_def B_def)
    moreover have "set (lf @ rf @ B) = set ?ls1 \<union> set ?rs1" using labels all by simp
    ultimately show ?thesis
      using outer_product_reads [OF a2 b(2), of lf rf B "if reorder then Some survive else None"] True all
      by (simp add: F_def sum_out_Nil)
  qed
  then obtain lv2 gr3 where m: "?m = Ok (lv2, gr3)" "set (lv_labels lv2) = (set ?ls \<union> set ?rs) \<inter> ?S"
    "lv_reads val sz gr3 lv2 F" and x3: "graph_extends val gr2 gr3" by blast
  have bc: "binary_contract add gr lhs rhs survive reorder =
      (if \<not> reorder then Ok (lv2, gr3) else reorder_survivors add gr3 lv2 survive)"
    by (simp only: binary_contract_def Let_def r1 r2 cl cr prod.case m(1) and_then_Inr)
  have F: "F = sum_out sz (filter (\<lambda>l. l \<notin> ?S) (remdups (?ls @ ?rs))) (\<lambda>s. f s * h s)"
  proof
    fix s
    have "F s = sum_out sz C (sum_out sz (?xs @ ?ys) (\<lambda>s. f s * h s)) s"
      unfolding F_def by (rule sum_out_cong) (rule sum_out_product [OF dl(2) dr(2)], auto)
    also have "\<dots> = sum_out sz (C @ ?xs @ ?ys) (\<lambda>s. f s * h s) s" by (simp only: sum_out_append)
    also have "\<dots> = sum_out sz (filter (\<lambda>l. l \<notin> ?S) (remdups (?ls @ ?rs))) (\<lambda>s. f s * h s) s"
      by (rule sum_out_set) (use dl(1) dr(1) d1 in \<open>auto simp: C_def ls1 rs1\<close>)
    finally show "F s = sum_out sz (filter (\<lambda>l. l \<notin> ?S) (remdups (?ls @ ?rs))) (\<lambda>s. f s * h s) s" .
  qed
  have x: "graph_extends val gr gr3"
    by (rule graph_extends_trans [OF graph_extends_trans [OF a(3) b(3)] x3])
  show ?thesis
  proof (cases reorder)
    case False
    then show ?thesis using bc m x F by simp
  next
    case True
    from reorder_survivors_reads [OF m(3) _ reorder [OF True]] m(2) obtain lv' gr'
      where o: "reorder_survivors add gr3 lv2 survive = Ok (lv', gr')" "set (lv_labels lv') = set (lv_labels lv2)"
        "lv_reads val sz gr' lv' F" "graph_extends val gr3 gr'" by auto
    then show ?thesis using True bc m(2) F graph_extends_trans [OF x o(4)] by simp
  qed
qed

end

end
