(* ===== verification/Einsum_Graph.thy ===== *)
theory Einsum_Graph
  imports Einsum_Contract Einsum_Path_Correct
begin

text \<open>
  The graph built for a whole einsum computes the sum its subscripts denote: the inputs are stretched
  and their diagonals taken, every step of the contraction tree joins two sets of inputs and sums the
  labels that nobody needs any more, and the last result is brought to the order of the output.
\<close>

section \<open>The meaning of an einsum\<close>

definition leaf_product :: "(nat \<Rightarrow> (label \<Rightarrow> nat) \<Rightarrow> 'a :: comm_semiring_1) \<Rightarrow> nat set \<Rightarrow> (label \<Rightarrow> nat) \<Rightarrow> 'a" where
  "leaf_product F X s = (\<Prod>i \<in> X. F i s)"

definition summed_labels :: "label list list \<Rightarrow> label list \<Rightarrow> label list" where
  "summed_labels inputs output = filter (\<lambda>l. l \<notin> set output) (remdups (concat inputs))"

definition einsum_sum ::
  "(label \<Rightarrow> nat) \<Rightarrow> subscripts \<Rightarrow> 'a :: comm_semiring_1 tens list \<Rightarrow> (label \<Rightarrow> nat) \<Rightarrow> 'a" where
  "einsum_sum sz subs ts = sum_out sz (summed_labels (sb_inputs subs) (sb_output subs))
    (leaf_product (\<lambda>i. tensor_at (ts ! i) (sb_inputs subs ! i)) {..<length (sb_inputs subs)})"

definition label_extent :: "contraction_tree \<Rightarrow> label \<Rightarrow> nat" where
  "label_extent tree l = (case label_size tree l of None \<Rightarrow> 0 | Some n \<Rightarrow> n)"

lemma from_concrete_inject: "from_concrete xs = from_concrete ys \<longleftrightarrow> xs = ys"
  unfolding from_concrete_def by (rule inj_map_eq_map) (simp add: inj_def)

section \<open>Joining two operands\<close>

lemma joined_sets:
  assumes "KA \<subseteq> LA" "KB \<subseteq> LB" "LA \<inter> LB \<subseteq> KA" "LA \<inter> LB \<subseteq> KB" "(KA \<union> KB) \<inter> S = K"
  shows "((KA \<union> KB) - S) \<union> (LA - KA) \<union> (LB - KB) = (LA \<union> LB) - K"
  using assms by auto

text \<open>\<open>f\<close> is the product of the inputs in \<open>X\<close>, summed over their labels outside \<open>K\<close>.\<close>

definition stands_for ::
  "(label \<Rightarrow> nat) \<Rightarrow> label list list \<Rightarrow> (nat \<Rightarrow> (label \<Rightarrow> nat) \<Rightarrow> 'a :: comm_semiring_1) \<Rightarrow> nat set \<Rightarrow>
    label set \<Rightarrow> ((label \<Rightarrow> nat) \<Rightarrow> 'a) \<Rightarrow> bool" where
  "stands_for sz inputs F X K f \<longleftrightarrow>
    (\<exists>ls. distinct ls \<and> set ls = labels_of inputs X - K \<and> f = sum_out sz ls (leaf_product F X))"

lemma leaf_product_join:
  "finite A \<Longrightarrow> finite B \<Longrightarrow> A \<inter> B = {} \<Longrightarrow> leaf_product F (A \<union> B) s = leaf_product F A s * leaf_product F B s"
  by (simp add: leaf_product_def prod.union_disjoint)

lemma depends_on_leaf_product:
  "(\<And>i. i \<in> X \<Longrightarrow> depends_on (set (inputs ! i)) (F i)) \<Longrightarrow> depends_on (labels_of inputs X) (leaf_product F X)"
  unfolding leaf_product_def [abs_def] labels_of_def by (rule depends_on_prod)

lemma labels_of_Un: "labels_of inputs (A \<union> B) = labels_of inputs A \<union> labels_of inputs B"
  by (auto simp: labels_of_def)

lemma kept_labels_shared:
  assumes "A \<inter> B = {}" and "B \<subseteq> {..<length inputs}"
  shows "labels_of inputs A \<inter> labels_of inputs B \<subseteq> kept_labels inputs out A"
proof -
  have "B \<subseteq> {..<length inputs} - A" using assms by auto
  then show ?thesis using labels_of_mono [of B "{..<length inputs} - A" inputs] by (auto simp: kept_labels_def)
qed

lemma kept_labels_join:
  assumes "A \<union> B \<subseteq> {..<length inputs}"
  shows "kept_labels inputs out (A \<union> B) \<subseteq> kept_labels inputs out A \<union> kept_labels inputs out B"
  by (auto simp: kept_labels_def labels_of_def)

lemma stands_for_join:
  fixes sz :: "label \<Rightarrow> nat" and F :: "nat \<Rightarrow> (label \<Rightarrow> nat) \<Rightarrow> 'a :: comm_semiring_1"
  assumes f: "stands_for sz inputs F A KA f" and h: "stands_for sz inputs F B KB h"
    and AB: "A \<inter> B = {}" "A \<union> B \<subseteq> {..<length inputs}"
    and KA: "kept_labels inputs out A \<subseteq> KA" "KA \<subseteq> labels_of inputs A"
    and KB: "kept_labels inputs out B \<subseteq> KB" "KB \<subseteq> labels_of inputs B"
    and S: "labels_of inputs (A \<union> B) \<inter> S = kept_labels inputs out (A \<union> B)"
    and F: "\<And>i. i < length inputs \<Longrightarrow> depends_on (set (inputs ! i)) (F i)"
    and rem: "distinct rem" "set rem = (KA \<union> KB) - S"
  shows "(KA \<union> KB) \<inter> S = kept_labels inputs out (A \<union> B)"
    and "stands_for sz inputs F (A \<union> B) (kept_labels inputs out (A \<union> B)) (sum_out sz rem (\<lambda>s. f s * h s))"
proof -
  from f obtain la where la: "distinct la" "set la = labels_of inputs A - KA" "f = sum_out sz la (leaf_product F A)"
    by (auto simp: stands_for_def)
  from h obtain lb where lb: "distinct lb" "set lb = labels_of inputs B - KB" "h = sum_out sz lb (leaf_product F B)"
    by (auto simp: stands_for_def)
  have fin: "finite A" "finite B" using AB(2) by (auto intro: finite_subset)
  have sharedA: "labels_of inputs A \<inter> labels_of inputs B \<subseteq> KA"
    using kept_labels_shared [OF AB(1), of inputs out] AB(2) KA(1) by auto
  have sharedB: "labels_of inputs A \<inter> labels_of inputs B \<subseteq> KB"
    using kept_labels_shared [of B A inputs out] AB KB(1) by auto
  have kept: "kept_labels inputs out (A \<union> B) \<subseteq> KA \<union> KB"
    using kept_labels_join [OF AB(2), of out] KA(1) KB(1) by blast
  show KS: "(KA \<union> KB) \<inter> S = kept_labels inputs out (A \<union> B)"
    using S kept KA(2) KB(2) unfolding labels_of_Un by blast
  have dA: "depends_on (labels_of inputs A) (leaf_product F A)" and dB: "depends_on (labels_of inputs B) (leaf_product F B)"
    using AB(2) by (auto intro!: depends_on_leaf_product F)
  have prod: "(\<lambda>s. f s * h s) = sum_out sz (la @ lb) (leaf_product F (A \<union> B))"
  proof
    fix s
    have "f s * h s = sum_out sz (la @ lb) (\<lambda>s. leaf_product F A s * leaf_product F B s) s"
      unfolding la(3) lb(3) by (rule sum_out_product [OF dA dB]) (use la(2) lb(2) sharedA sharedB in auto)
    then show "f s * h s = sum_out sz (la @ lb) (leaf_product F (A \<union> B)) s"
      using leaf_product_join [OF fin AB(1), of F] by (simp cong: sum_out_cong)
  qed
  have "sum_out sz rem (\<lambda>s. f s * h s) = sum_out sz (rem @ la @ lb) (leaf_product F (A \<union> B))"
    unfolding prod by (rule ext) (simp only: sum_out_append)
  moreover have "distinct (rem @ la @ lb)"
    using rem la(1,2) lb(1,2) sharedA sharedB KA(2) KB(2) by auto
  moreover have "set (rem @ la @ lb) = labels_of inputs (A \<union> B) - kept_labels inputs out (A \<union> B)"
    using joined_sets [OF KA(2) KB(2) sharedA sharedB KS]
    by (simp only: set_append la(2) lb(2) rem(2) labels_of_Un Un_assoc)
  ultimately show "stands_for sz inputs F (A \<union> B) (kept_labels inputs out (A \<union> B)) (sum_out sz rem (\<lambda>s. f s * h s))"
    unfolding stands_for_def by blast
qed

section \<open>The inputs\<close>

text \<open>An input with its raw tensor, and the same operand stretched to the sizes of its labels.\<close>

definition raw_input ::
  "('g \<Rightarrow> 'e value_ref \<Rightarrow> 'a tens option) \<Rightarrow> contraction_tree \<Rightarrow> 'g \<Rightarrow> 'e labeled_val \<Rightarrow> 'a tens \<Rightarrow> bool" where
  "raw_input val tree g lv t \<longleftrightarrow> val g (lv_val lv) = Some t \<and>
    length (tn_shape t) = length (lv_labels lv) \<and> lv_shape lv = local_shape (length (lv_labels lv)) \<and>
    (\<forall>a < length (lv_labels lv). label_size tree (lv_labels lv ! a) \<noteq> None \<and>
      (tn_shape t ! a = 1 \<or> tn_shape t ! a = label_extent tree (lv_labels lv ! a)))"

definition stretched_input ::
  "('g \<Rightarrow> 'e value_ref \<Rightarrow> 'a tens option) \<Rightarrow> contraction_tree \<Rightarrow> 'g \<Rightarrow> 'e labeled_val \<Rightarrow> label list \<Rightarrow> 'a tens \<Rightarrow> bool" where
  "stretched_input val tree g lv labels t \<longleftrightarrow>
    (\<exists>u. val g (lv_val lv) = Some u \<and> reads (label_extent tree) u labels (tensor_at t labels)) \<and>
    lv_labels lv = labels \<and> lv_shape lv = local_shape (length labels)"

context graph_values
begin

lemma map_state_values:
  assumes "\<And>i g y g'. i < length xs \<Longrightarrow> P i g \<Longrightarrow> fn g (xs ! i) = (y, g') \<Longrightarrow> Q i g' y \<and> graph_extends val g g'"
    and "\<And>i g g'. P i g \<Longrightarrow> graph_extends val g g' \<Longrightarrow> P i g'"
    and "\<And>i g g' y. Q i g y \<Longrightarrow> graph_extends val g g' \<Longrightarrow> Q i g' y"
    and "\<forall>i < length xs. P i g" and "map_state fn g xs = (ys, g')"
  shows "length ys = length xs \<and> (\<forall>i < length xs. Q i g' (ys ! i)) \<and> graph_extends val g g'"
  using assms
proof (induction xs arbitrary: g ys P Q)
  case (Cons x xs)
  obtain y g1 where y: "fn g x = (y, g1)" by fastforce
  obtain ys' where ys: "map_state fn g1 xs = (ys', g')" "ys = y # ys'"
    using Cons.prems(5) y by (auto split: prod.splits)
  have q: "Q 0 g1 y \<and> graph_extends val g g1" using Cons.prems(1) [of 0 g y g1] Cons.prems(4) y by auto
  have P1: "\<forall>i < length xs. P (Suc i) g1" using Cons.prems(2,4) q by (metis Suc_less_eq length_Cons)
  have step: "Q (Suc i) g' y \<and> graph_extends val g g'"
    if "i < length xs" "P (Suc i) g" "fn g (xs ! i) = (y, g')" for i g y g'
    using Cons.prems(1) [of "Suc i" g y g'] that by simp
  have r: "length ys' = length xs \<and> (\<forall>i < length xs. Q (Suc i) g' (ys' ! i)) \<and> graph_extends val g1 g'"
    by (rule Cons.IH [of "\<lambda>i. P (Suc i)" "\<lambda>i. Q (Suc i)", OF _ _ _ P1 ys(1)]) (use step Cons.prems(2,3) in blast)+
  then have "Q 0 g' y" using Cons.prems(3) q by blast
  then show ?case using r q ys(2) graph_extends_trans by (auto simp: less_Suc_eq_0_disj)
qed simp

lemma broadcast_input_reads:
  assumes raw: "raw_input val tree g lv t" and b: "broadcast_input add tree g (lv, from_concrete (tn_shape t)) = (lv', g')"
  shows "stretched_input val tree g' lv' (lv_labels lv) t \<and> graph_extends val g g'"
proof -
  let ?ls = "lv_labels lv" and ?sz = "label_extent tree" and ?sh = "from_concrete (tn_shape t)"
  from raw have t: "val g (lv_val lv) = Some t" and len: "length (tn_shape t) = length ?ls"
    and sh: "lv_shape lv = local_shape (length ?ls)"
    and ext: "\<And>a. a < length ?ls \<Longrightarrow> tn_shape t ! a = 1 \<or> tn_shape t ! a = ?sz (?ls ! a)"
    and some: "\<And>a. a < length ?ls \<Longrightarrow> label_size tree (?ls ! a) \<noteq> None" by (auto simp: raw_input_def)
  have target: "map (broadcast_target tree ?sh) (zip [0..<length ?ls] ?ls) = from_concrete (map ?sz ?ls)"
  proof (rule nth_equalityI)
    fix a assume "a < length (map (broadcast_target tree ?sh) (zip [0..<length ?ls] ?ls))"
    then have a: "a < length ?ls" by simp
    have "broadcast_target tree ?sh (a, ?ls ! a) = Const (?sz (?ls ! a))"
      using ext [OF a] a len by (auto simp: broadcast_target_def from_concrete_def Let_def label_extent_def)
    then show "map (broadcast_target tree ?sh) (zip [0..<length ?ls] ?ls) ! a = from_concrete (map ?sz ?ls) ! a"
      using a by (simp add: from_concrete_def)
  qed (simp add: from_concrete_def)
  show ?thesis
  proof (cases "from_concrete (map ?sz ?ls) = ?sh")
    case True
    then have "tn_shape t = map ?sz ?ls" by (simp only: from_concrete_inject)
    moreover have "lv' = lv" "g' = g"
      using b True by (simp_all add: broadcast_input_def broadcast_initial_value_def Let_def target)
    ultimately show ?thesis using t sh raw_reads by (auto simp: stretched_input_def)
  next
    case False
    obtain v g1 where e: "emit add g (Op_BroadcastInDim (from_concrete (map ?sz ?ls)) [0..<length ?ls]) [lv_val lv] = (v, g1)"
      by fastforce
    have lv': "lv' = lv\<lparr>lv_val := v\<rparr>" "g' = g1"
      using b False e by (simp_all add: broadcast_input_def broadcast_initial_value_def Let_def target)
    have "eval_all (from_concrete (map ?sz ?ls)) [tn_shape t] = Ok (map ?sz ?ls)"
      by (simp add: eval_all_def from_concrete_def traverse_eq_Inr)
    from raw_broadcast_reads [OF len ext this] obtain u
      where u: "op_value (Op_BroadcastInDim (from_concrete (map ?sz ?ls)) [0..<length ?ls]) [t] = Some u"
        "reads ?sz u ?ls (tensor_at t ?ls)" by blast
    have "val g1 v = Some u" using emit_value [OF e _ u(1)] t by simp
    then show ?thesis using u(2) sh emit_extends [OF e] by (simp add: stretched_input_def lv')
  qed
qed

lemma diagonalize_input:
  assumes "stretched_input val tree g lv labels t" and "diagonalize_repeated add g lv = (lv', g')"
  shows "(lv_reads val (label_extent tree) g' lv' (tensor_at t labels) \<and> set (lv_labels lv') = set labels) \<and>
    graph_extends val g g'"
proof -
  from assms(1) obtain u where u: "val g (lv_val lv) = Some u" "reads (label_extent tree) u (lv_labels lv) (tensor_at t labels)"
    "lv_labels lv = labels" "lv_shape lv = local_shape (length (lv_labels lv))" by (auto simp: stretched_input_def)
  from diagonalize_reads [OF u(1,2,4) _ assms(2)] u(3) depends_on_tensor_at show ?thesis by metis
qed

end

section \<open>The steps\<close>

text \<open>Every operand of the tree has been lowered to the value it stands for.\<close>

definition operands_ok ::
  "('g \<Rightarrow> 'e value_ref \<Rightarrow> 'a :: comm_semiring_1 tens option) \<Rightarrow> (label \<Rightarrow> nat) \<Rightarrow> subscripts \<Rightarrow> path \<Rightarrow>
    (nat \<Rightarrow> (label \<Rightarrow> nat) \<Rightarrow> 'a) \<Rightarrow> 'g \<Rightarrow> 'e labeled_val list \<Rightarrow> bool" where
  "operands_ok val sz subs pairs F g labeled \<longleftrightarrow>
    (\<forall>x < length labeled. operand_leaves (length (sb_inputs subs)) pairs ! x \<subseteq> {..<length (sb_inputs subs)} \<and>
      (\<exists>f. lv_reads val sz g (labeled ! x) f \<and>
        set (lv_labels (labeled ! x)) = operand_labels (sb_inputs subs) (sb_output subs) pairs x \<and>
        stands_for sz (sb_inputs subs) F (operand_leaves (length (sb_inputs subs)) pairs ! x)
          (operand_labels (sb_inputs subs) (sb_output subs) pairs x) f))"

lemma operands_ok_extends:
  "operands_ok val sz subs pairs F g labeled \<Longrightarrow> graph_extends val g g' \<Longrightarrow> operands_ok val sz subs pairs F g' labeled"
  unfolding operands_ok_def by (meson lv_reads_extends)

lemma operand_labels_bounds:
  assumes "x < length inputs \<Longrightarrow> L = {x}" and "\<not> x < length inputs \<Longrightarrow> L = operand_leaves (length inputs) pairs ! x"
  shows "kept_labels inputs out L \<subseteq> operand_labels inputs out pairs x"
    and "operand_labels inputs out pairs x \<subseteq> labels_of inputs L"
  using assms by (auto simp: operand_labels_def kept_labels_def labels_of_def split: if_splits)

text \<open>What survives a step: the labels the tree keeps for its result, or the output in the last step.\<close>

lemma step_survivors:
  assumes "from_pairs subs shapes pairs = Ok tree" and k: "k < length pairs" "pairs ! k = (l, r)"
  shows "\<exists>a b S. step_pair tree k = Some (l, r) \<and> step_subscripts tree k = Some (a, b, S) \<and>
    labels_of (sb_inputs subs) (operand_leaves (length (sb_inputs subs)) pairs ! (length (sb_inputs subs) + k)) \<inter> set S =
      kept_labels (sb_inputs subs) (sb_output subs)
        (operand_leaves (length (sb_inputs subs)) pairs ! (length (sb_inputs subs) + k)) \<and>
    (k + 1 = length pairs \<longrightarrow> S = sb_output subs)"
proof -
  let ?in = "sb_inputs subs" and ?out = "sb_output subs"
  let ?n = "length ?in" and ?L = "operand_leaves (length (sb_inputs subs)) pairs"
  note tree = from_pairs_Ok [OF assms(1)]
  have p: "step_pair tree k = Some (l, r)" using k by (simp add: step_pair_def tree(3) get_def)
  define S where "S = (if k + 1 = length pairs then ?out else ct_operand_subs tree ! (?n + k))"
  have ss: "step_subscripts tree k = Some (ct_operand_subs tree ! l, ct_operand_subs tree ! r, S)"
    using k by (simp add: step_subscripts_def Let_def tree(2,3) get_def S_def)
  have "labels_of ?in (?L ! (?n + k)) \<inter> set S = kept_labels ?in ?out (?L ! (?n + k))"
  proof (cases "k + 1 = length pairs")
    case True
    then have "?L ! (?n + k) = {..<?n}" using live_path_covers [OF tree(1)] by (simp flip: True)
    then show ?thesis using True by (simp add: S_def kept_labels_all labels_of_all Int_commute)
  next
    case False
    have "set S = kept_labels ?in ?out (?L ! (?n + k))"
      using ct_operand_labels(1) [OF assms(1), of "?n + k"] k False by (simp add: S_def operand_labels_def)
    then show ?thesis by (auto simp: kept_labels_def)
  qed
  then show ?thesis using p ss by (intro exI [of _ "ct_operand_subs tree ! l"] exI [of _ "ct_operand_subs tree ! r"] exI [of _ S])
    (simp add: S_def)
qed

context graph_values
begin

lemma contract_step_ok:
  assumes tree: "from_pairs subs shapes pairs = Ok tree" and k: "k < length pairs"
    and ok: "operands_ok val sz subs pairs F g labeled" and len: "length labeled = length (sb_inputs subs) + k"
    and F: "\<And>i. i < length (sb_inputs subs) \<Longrightarrow> depends_on (set (sb_inputs subs ! i)) (F i)"
    and out: "distinct (sb_output subs)"
  shows "\<exists>lv g'. contract_step add tree (labeled, g) k = Ok (labeled @ [lv], g') \<and>
    operands_ok val sz subs pairs F g' (labeled @ [lv]) \<and> graph_extends val g g'"
proof -
  let ?in = "sb_inputs subs" and ?out = "sb_output subs"
  let ?n = "length ?in" and ?L = "operand_leaves (length (sb_inputs subs)) pairs"
  let ?O = "operand_labels ?in ?out pairs"
  obtain l r where p: "pairs ! k = (l, r)" by fastforce
  note lp = live_path_steps [OF from_pairs_Ok(1) [OF tree] k p]
  from step_survivors [OF tree k p] obtain a b S where S: "step_pair tree k = Some (l, r)" "step_subscripts tree k = Some (a, b, S)"
    "labels_of ?in (?L ! (?n + k)) \<inter> set S = kept_labels ?in ?out (?L ! (?n + k))" "k + 1 = length pairs \<longrightarrow> S = ?out" by blast
  have lr: "l < length labeled" "r < length labeled" using lp len by simp_all
  note each = ok [unfolded operands_ok_def, rule_format]
  from each [OF lr(1)] obtain f where f: "lv_reads val sz g (labeled ! l) f" "set (lv_labels (labeled ! l)) = ?O l"
      "stands_for sz ?in F (?L ! l) (?O l) f" and subl: "?L ! l \<subseteq> {..<?n}" by blast
  from each [OF lr(2)] obtain h where h: "lv_reads val sz g (labeled ! r) h" "set (lv_labels (labeled ! r)) = ?O r"
      "stands_for sz ?in F (?L ! r) (?O r) h" and subr: "?L ! r \<subseteq> {..<?n}" by blast
  have bounds: "kept_labels ?in ?out (?L ! x) \<subseteq> ?O x" "?O x \<subseteq> labels_of ?in (?L ! x)" for x
    by (rule operand_labels_bounds; simp add: operand_leaves_input)+
  let ?last = "k + 1 = step_count tree"
  have last: "?last \<longleftrightarrow> k + 1 = length pairs" by (simp add: step_count_def from_pairs_Ok(3) [OF tree])
  define rem where "rem = filter (\<lambda>c. c \<notin> set S) (remdups (lv_labels (labeled ! l) @ lv_labels (labeled ! r)))"
  have "?last \<Longrightarrow> distinct S" using last S(4) out by simp
  from binary_contract_reads [OF f(1) h(1), of ?last S, OF this, folded rem_def, unfolded f(2) h(2)] obtain lv g'
    where bc: "binary_contract add g (labeled ! l) (labeled ! r) S ?last = Ok (lv, g')"
      "set (lv_labels lv) = (?O l \<union> ?O r) \<inter> set S" "lv_reads val sz g' lv (sum_out sz rem (\<lambda>s. f s * h s))"
      and x: "graph_extends val g g'" by blast
  have rem: "distinct rem" "set rem = (?O l \<union> ?O r) - set S" using f(2) h(2) by (auto simp: rem_def)
  have LU: "?L ! (?n + k) = ?L ! l \<union> ?L ! r" and disj: "?L ! l \<inter> ?L ! r = {}" using lp by simp_all
  have subU: "?L ! l \<union> ?L ! r \<subseteq> {..<?n}" using subl subr by blast
  note join = stands_for_join [OF f(3) h(3) disj subU bounds(1) bounds(2) bounds(1) bounds(2) S(3) [unfolded LU] F rem]
  have On: "?O (?n + k) = kept_labels ?in ?out (?L ! l \<union> ?L ! r)" by (simp add: operand_labels_def LU)
  have "operands_ok val sz subs pairs F g' (labeled @ [lv])"
    unfolding operands_ok_def
  proof (intro allI impI)
    fix y assume y: "y < length (labeled @ [lv])"
    show "?L ! y \<subseteq> {..<?n} \<and> (\<exists>f. lv_reads val sz g' ((labeled @ [lv]) ! y) f \<and>
        set (lv_labels ((labeled @ [lv]) ! y)) = ?O y \<and> stands_for sz ?in F (?L ! y) (?O y) f)"
    proof (cases "y < length labeled")
      case True
      then show ?thesis using operands_ok_extends [OF ok x] by (simp add: operands_ok_def nth_append)
    next
      case False
      then have "y = ?n + k" using y len by simp
      then show ?thesis using len bc(2,3) join subU by (auto simp: nth_append On LU)
    qed
  qed
  then show ?thesis using S lr bc(1) x
    by (simp add: contract_step_def labeled_operand_def get_def Let_def del: add.commute Suc_eq_plus1_left)
qed

lemma contract_steps_ok:
  assumes tree: "from_pairs subs shapes pairs = Ok tree"
    and F: "\<And>i. i < length (sb_inputs subs) \<Longrightarrow> depends_on (set (sb_inputs subs ! i)) (F i)"
    and out: "distinct (sb_output subs)"
  shows "operands_ok val sz subs pairs F g labeled \<Longrightarrow> length labeled = length (sb_inputs subs) + k \<Longrightarrow>
    k + m = length pairs \<Longrightarrow>
    \<exists>labeled' g'. try_fold (contract_step add tree) (labeled, g) [k..<k + m] = Ok (labeled', g') \<and>
      operands_ok val sz subs pairs F g' labeled' \<and> length labeled' = length (sb_inputs subs) + length pairs \<and>
      graph_extends val g g'"
proof (induction m arbitrary: k g labeled)
  case (Suc m)
  then have k: "k < length pairs" by simp
  from contract_step_ok [OF tree k Suc.prems(1,2) F out] obtain lv g1
    where s: "contract_step add tree (labeled, g) k = Ok (labeled @ [lv], g1)"
      "operands_ok val sz subs pairs F g1 (labeled @ [lv])" "graph_extends val g g1" by auto
  have "length (labeled @ [lv]) = length (sb_inputs subs) + Suc k" using Suc.prems(2) by simp
  from Suc.IH [OF s(2) this] Suc.prems(3) obtain labeled' g'
    where r: "try_fold (contract_step add tree) (labeled @ [lv], g1) [Suc k..<Suc k + m] = Ok (labeled', g')"
      "operands_ok val sz subs pairs F g' labeled'" "length labeled' = length (sb_inputs subs) + length pairs"
      "graph_extends val g1 g'" by auto
  have "[k..<k + Suc m] = k # [Suc k..<Suc k + m]" by (simp add: upt_rec)
  then show ?case using s r by (auto intro: graph_extends_trans)
qed auto

section \<open>The whole graph\<close>

lemma lower_unary_embeds:
  assumes lv: "lv_reads val sz g lv f" and out: "set out \<subseteq> set (lv_labels lv)"
  shows "\<exists>v g' t. lower_unary add g lv out = Ok (v, g') \<and> val g' v = Some t \<and>
    embeds sz t out (sum_out sz (filter (\<lambda>l. l \<notin> set out) (lv_labels lv)) f) \<and> graph_extends val g g'"
proof -
  let ?R = "set (filter (\<lambda>l. l \<notin> set out) (lv_labels lv))"
  obtain lv1 g1 where r: "reduce_val add g lv ?R = (lv1, g1)" by fastforce
  note a = reduce_val_reads [OF lv r]
  have f: "filter (\<lambda>l. l \<in> ?R) (lv_labels lv) = filter (\<lambda>l. l \<notin> set out) (lv_labels lv)" by (rule filter_cong) auto
  have d: "distinct (lv_labels lv1)" and s: "set (lv_labels lv1) = set out"
    using a(1) lv out by (auto simp: lv_reads_def)
  have "count_list (lv_labels lv1) l \<le> count_list out l" for l
  proof (cases "l \<in> set out")
    case True
    then have "0 < count_list out l" by (meson count_list_0_iff gr0I)
    then show ?thesis using d by (simp add: count_list_distinct)
  next
    case False
    then show ?thesis using s by (metis count_list_0_iff le0)
  qed
  from embed_repeated_embeds [OF lv_reads_embeds [OF a(2)] s this] obtain lv2 g2
    where e: "embed_repeated add g1 lv1 out = Ok (lv2, g2)"
      "lv_embeds val sz g2 lv2 (sum_out sz (filter (\<lambda>l. l \<notin> set out) (lv_labels lv)) f)" "mset (lv_labels lv2) = mset out"
      and x: "graph_extends val g1 g2" unfolding f by blast
  from arrange_output_embeds [OF e(2,3)] obtain v g3 t
    where o: "arrange_output add g2 lv2 out = Ok (v, g3)" "val g3 v = Some t"
      "embeds sz t out (sum_out sz (filter (\<lambda>l. l \<notin> set out) (lv_labels lv)) f)" "graph_extends val g2 g3" by blast
  have "graph_extends val g g3" by (rule graph_extends_trans [OF graph_extends_trans [OF a(3) x] o(4)])
  then show ?thesis using r e(1) o by (simp add: lower_unary_def)
qed

lemma lower_steps_embeds:
  assumes tree: "from_pairs subs shapes pairs = Ok tree" and ne: "pairs \<noteq> []"
    and F: "\<And>i. i < length (sb_inputs subs) \<Longrightarrow> depends_on (set (sb_inputs subs ! i)) (F i)"
    and out: "distinct (sb_output subs)" "set (sb_output subs) \<subseteq> \<Union> (set ` set (sb_inputs subs))"
    and ok: "operands_ok val sz subs pairs F g labeled" and len: "length labeled = length (sb_inputs subs)"
  shows "\<exists>v g' t. lower_steps add g tree labeled = Ok (v, g') \<and> val g' v = Some t \<and>
    embeds sz t (sb_output subs) (sum_out sz (summed_labels (sb_inputs subs) (sb_output subs))
      (leaf_product F {..<length (sb_inputs subs)})) \<and> graph_extends val g g'"
proof -
  let ?in = "sb_inputs subs" and ?out = "sb_output subs"
  let ?n = "length ?in" and ?L = "operand_leaves (length (sb_inputs subs)) pairs"
  let ?x = "?n + length pairs - 1"
  note t = from_pairs_Ok [OF tree]
  have sc: "step_count tree = length pairs" by (simp add: step_count_def t(3))
  from contract_steps_ok [OF tree F out(1) ok, of 0 "length pairs"] len obtain labeled' g1
    where st: "try_fold (contract_step add tree) (labeled, g) [0..<length pairs] = Ok (labeled', g1)"
      "operands_ok val sz subs pairs F g1 labeled'" "length labeled' = ?n + length pairs" and x1: "graph_extends val g g1"
    by auto
  have n: "0 < ?n" using t(1) by (simp add: live_path_def)
  have x: "?x < length labeled'" "\<not> ?x < ?n" using st(3) ne by (cases pairs; simp)+
  have Lx: "?L ! ?x = {..<?n}" by (rule live_path_covers [OF t(1)])
  have Ox: "operand_labels ?in ?out pairs ?x = set ?out"
    using x(2) out(2) Lx by (auto simp: operand_labels_def kept_labels_all)
  from st(2) x(1) obtain f where f: "lv_reads val sz g1 (labeled' ! ?x) f" "set (lv_labels (labeled' ! ?x)) = set ?out"
    "stands_for sz ?in F {..<?n} (set ?out) f" unfolding operands_ok_def by (metis Lx Ox)
  from f(3) obtain ls where ls: "distinct ls" "set ls = labels_of ?in {..<?n} - set ?out" "f = sum_out sz ls (leaf_product F {..<?n})"
    by (auto simp: stands_for_def)
  have fe: "f = sum_out sz (summed_labels ?in ?out) (leaf_product F {..<?n})"
    unfolding ls(3) by (intro ext sum_out_set) (use ls in \<open>auto simp: summed_labels_def labels_of_all\<close>)
  have none: "filter (\<lambda>l. l \<notin> set ?out) (lv_labels (labeled' ! ?x)) = []" using f(2) by (auto simp: filter_empty_conv)
  have red: "reduce_val add g1 (labeled' ! ?x) {} = (labeled' ! ?x, g1)" by (simp add: reduce_val_def)
  have "mset (lv_labels (labeled' ! ?x)) = mset ?out"
    using f(1,2) out(1) by (simp add: lv_reads_def set_eq_iff_mset_eq_distinct)
  from arrange_output_embeds [OF lv_reads_embeds [OF f(1)] this] obtain v g2 u
    where o: "arrange_output add g1 (labeled' ! ?x) ?out = Ok (v, g2)" "val g2 v = Some u" "embeds sz u ?out f"
      "graph_extends val g1 g2" by blast
  have "labeled_operand labeled' ?x ''final result'' = Ok (labeled' ! ?x)"
    using x(1) by (simp add: labeled_operand_def get_def)
  then have "lower_steps add g tree labeled = Ok (v, g2)"
    by (simp only: lower_steps_def sc t(2) st(1) and_then_Inr prod.case Let_def none list.set red o(1))
  then show ?thesis using o fe graph_extends_trans [OF x1 o(4)] by blast
qed

lemma build_einsum_graph_computes:
  assumes tree: "from_pairs subs shapes pairs = Ok tree"
    and vals: "list_all2 (\<lambda>r t. val g r = Some t) input_vals ts" and shapes: "map tn_shape ts = shapes"
    and out: "set (sb_output subs) \<subseteq> \<Union> (set ` set (sb_inputs subs))"
      "length (sb_inputs subs) = 1 \<or> distinct (sb_output subs)"
  shows "\<exists>v g' t. build_einsum_graph add g tree input_vals shapes = Ok (v, g') \<and> val g' v = Some t \<and>
    embeds (label_extent tree) t (sb_output subs) (einsum_sum (label_extent tree) subs ts) \<and> graph_extends val g g'"
proof -
  let ?in = "sb_inputs subs" and ?out = "sb_output subs" and ?sz = "label_extent tree"
  let ?n = "length (sb_inputs subs)" and ?exprs = "map from_concrete shapes"
  define F where "F i = tensor_at (ts ! i) (?in ! i)" for i
  note t = from_pairs_Ok [OF tree]
  note d = build_size_dict_Ok [OF t(4)]
  have fit: "list_all2 (\<lambda>labels sh. length labels = length sh) ?in shapes" using d(1) by (simp add: shapes_fit_def)
  have lens: "length input_vals = ?n" "length ts = ?n" "length shapes = ?n"
    using list_all2_lengthD [OF fit] list_all2_lengthD [OF vals] shapes by auto
  have n: "0 < ?n" "Suc (length pairs) = ?n" using t(1) by (simp_all add: live_path_def)
  define labeled where "labeled = map (\<lambda>i. \<lparr>lv_val = input_vals ! i, lv_labels = ?in ! i,
    lv_shape = local_shape (length (?in ! i))\<rparr>) [0..<?n]"
  have rank: "length (?in ! i) = length (shapes ! i)" "tn_shape (ts ! i) = shapes ! i" "val g (input_vals ! i) = Some (ts ! i)"
    if "i < ?n" for i
    using that fit shapes vals lens by (auto simp: list_all2_conv_all_nth)
  have lab: "traverse label_input (zip input_vals (zip ?in ?exprs)) = Ok labeled"
    unfolding traverse_eq_Inr using lens rank
    by (auto simp: labeled_def label_input_def from_concrete_def)
  have size: "label_size tree l = Some s \<and> (k = 1 \<or> k = s)" if "i < ?n" "a < length (?in ! i)" "l = ?in ! i ! a" "k = shapes ! i ! a"
      "s = ?sz l" for i a l k s
  proof -
    have "(l, k) \<in> set (zip (?in ! i) (shapes ! i))" using that rank(1) [OF that(1)] by (auto simp: in_set_zip)
    moreover have "(?in ! i, shapes ! i) \<in> set (zip ?in shapes)" using that(1) lens by (auto simp: in_set_zip)
    ultimately have occ: "(l, k) \<in> shape_occurrences ?in shapes"
      unfolding shape_occurrences_def term_sizes_def by force
    have "?in ! i \<in> set ?in" "l \<in> set (?in ! i)" using that by simp_all
    then have "l \<in> dom (ct_size_dict tree)" unfolding d(3) by blast
    then obtain s' where "ct_size_dict tree l = Some s'" by auto
    with merged_sizes_SomeD [OF d(2) this] occ that(5) show ?thesis by (auto simp: label_size_def label_extent_def)
  qed
  have raw: "raw_input val tree g (labeled ! i) (ts ! i)" if "i < ?n" for i
    using that rank [OF that] size [OF that] by (auto simp: raw_input_def labeled_def)
  obtain labeled1 g1 where m1: "map_state (broadcast_input add tree) g (zip labeled ?exprs) = (labeled1, g1)" by fastforce
  obtain labeled2 g2 where m2: "map_state (diagonalize_repeated add) g1 labeled1 = (labeled2, g2)" by fastforce
  have ll: "length labeled = ?n" by (simp add: labeled_def)
  have s1: "length labeled1 = length (zip labeled ?exprs) \<and>
      (\<forall>i < length (zip labeled ?exprs). stretched_input val tree g1 (labeled1 ! i) (?in ! i) (ts ! i)) \<and> graph_extends val g g1"
  proof (rule map_state_values [OF _ _ _ _ m1, where P = "\<lambda>i g. raw_input val tree g (labeled ! i) (ts ! i)"])
    fix i g y g'
    assume i: "i < length (zip labeled ?exprs)" and r: "raw_input val tree g (labeled ! i) (ts ! i)"
      and b: "broadcast_input add tree g (zip labeled ?exprs ! i) = (y, g')"
    have "zip labeled ?exprs ! i = (labeled ! i, from_concrete (tn_shape (ts ! i)))" "lv_labels (labeled ! i) = ?in ! i"
      using i rank(2) ll lens by (simp_all add: labeled_def)
    then show "stretched_input val tree g' y (?in ! i) (ts ! i) \<and> graph_extends val g g'"
      using broadcast_input_reads [OF r] b by metis
  next
    show "raw_input val tree g' (labeled ! i) (ts ! i)"
      if "raw_input val tree g (labeled ! i) (ts ! i)" "graph_extends val g g'" for i g g'
      using that(1) graph_extendsD [OF that(2)] unfolding raw_input_def by simp
    show "stretched_input val tree g' y (?in ! i) (ts ! i)"
      if "stretched_input val tree g y (?in ! i) (ts ! i)" "graph_extends val g g'" for i g g' y
      using that(1) graph_extendsD [OF that(2)] unfolding stretched_input_def by blast
    show "\<forall>i < length (zip labeled ?exprs). raw_input val tree g (labeled ! i) (ts ! i)" using raw ll lens by simp
  qed
  then have l1: "length labeled1 = ?n" using ll lens by simp
  have s2: "length labeled2 = length labeled1 \<and> (\<forall>i < length labeled1. lv_reads val ?sz g2 (labeled2 ! i) (F i) \<and>
      set (lv_labels (labeled2 ! i)) = set (?in ! i)) \<and> graph_extends val g1 g2"
  proof (rule map_state_values [OF _ _ _ _ m2, where P = "\<lambda>i g. stretched_input val tree g (labeled1 ! i) (?in ! i) (ts ! i)"])
    show "(lv_reads val ?sz g' y (F i) \<and> set (lv_labels y) = set (?in ! i)) \<and> graph_extends val g g'"
      if "stretched_input val tree g (labeled1 ! i) (?in ! i) (ts ! i)" "diagonalize_repeated add g (labeled1 ! i) = (y, g')" for i g y g'
      using diagonalize_input [OF that] by (simp add: F_def)
  next
    show "stretched_input val tree g' (labeled1 ! i) (?in ! i) (ts ! i)"
      if "stretched_input val tree g (labeled1 ! i) (?in ! i) (ts ! i)" "graph_extends val g g'" for i g g'
      using that(1) graph_extendsD [OF that(2)] unfolding stretched_input_def by blast
    show "lv_reads val ?sz g' y (F i) \<and> set (lv_labels y) = set (?in ! i)"
      if "lv_reads val ?sz g y (F i) \<and> set (lv_labels y) = set (?in ! i)" "graph_extends val g g'" for i g g' y
      using that(1) lv_reads_extends [OF _ that(2)] by simp
    show "\<forall>i < length labeled1. stretched_input val tree g1 (labeled1 ! i) (?in ! i) (ts ! i)" using s1 ll lens l1 by simp
  qed
  have x2: "graph_extends val g g2" by (rule graph_extends_trans [of _ _ g1]) (use s1 s2 in simp_all)
  have dep: "depends_on (set (?in ! i)) (F i)" for i unfolding F_def by (rule depends_on_tensor_at)
  have build: "build_einsum_graph add g tree input_vals shapes =
      (if ?n = 1 \<or> step_count tree = 0
       then (case labeled2 of [] \<Rightarrow> Err Panicked | lv # _ \<Rightarrow> lower_unary add g2 lv ?out)
       else lower_steps add g2 tree labeled2)"
    using lens by (simp add: build_einsum_graph_def build_einsum_graph_dim_expr_def Let_def t(2) lab m1 m2)
  show ?thesis
  proof (cases "?n = 1")
    case True
    then obtain lv where lv: "labeled2 = [lv]" using s2 l1 by (metis One_nat_def length_0_conv length_Suc_conv)
    have h: "lv_reads val ?sz g2 lv (F 0)" "set (lv_labels lv) = set (?in ! 0)" using s2 lv l1 True by auto
    have ins: "?in = [?in ! 0]" using True by (metis One_nat_def length_0_conv length_Suc_conv nth_Cons_0)
    have "set ?out \<subseteq> \<Union> (set ` set [?in ! 0])" using out(1) unfolding ins [symmetric] .
    then have "set ?out \<subseteq> set (lv_labels lv)" using h(2) by simp
    from lower_unary_embeds [OF h(1) this] obtain v g3 u
      where r: "lower_unary add g2 lv ?out = Ok (v, g3)" "val g3 v = Some u"
        "embeds ?sz u ?out (sum_out ?sz (filter (\<lambda>l. l \<notin> set ?out) (lv_labels lv)) (F 0))" "graph_extends val g2 g3" by blast
    have c: "set (concat ?in) = set (?in ! 0)" by (subst ins) simp
    have p: "leaf_product F {..<?n} = F 0" by (simp add: leaf_product_def [abs_def] True)
    have "einsum_sum ?sz subs ts = sum_out ?sz (filter (\<lambda>l. l \<notin> set ?out) (lv_labels lv)) (F 0)"
      unfolding einsum_sum_def F_def [symmetric] p
      by (intro ext sum_out_set) (use h c in \<open>auto simp: summed_labels_def lv_reads_def\<close>)
    then show ?thesis using r build True lv graph_extends_trans [OF x2 r(4)] by simp
  next
    case False
    then have ne: "pairs \<noteq> []" using n by auto
    have "operands_ok val ?sz subs pairs F g2 labeled2"
      unfolding operands_ok_def
    proof (intro allI impI)
      fix x assume "x < length labeled2"
      then have x: "x < ?n" using s2 l1 by simp
      have "stands_for ?sz ?in F {x} (set (?in ! x)) (F x)"
        unfolding stands_for_def by (intro exI [of _ "[]"]) (simp add: labels_of_def sum_out_Nil leaf_product_def [abs_def])
      then show "operand_leaves ?n pairs ! x \<subseteq> {..<?n} \<and> (\<exists>f. lv_reads val ?sz g2 (labeled2 ! x) f \<and>
          set (lv_labels (labeled2 ! x)) = operand_labels ?in ?out pairs x \<and>
          stands_for ?sz ?in F (operand_leaves ?n pairs ! x) (operand_labels ?in ?out pairs x) f)"
        using x s2 l1 by (auto simp: operand_leaves_input operand_labels_def)
    qed
    from lower_steps_embeds [OF tree ne dep _ out(1) this] out(2) False s2 l1 obtain v g3 u
      where r: "lower_steps add g2 tree labeled2 = Ok (v, g3)" "val g3 v = Some u"
        "embeds ?sz u ?out (sum_out ?sz (summed_labels ?in ?out) (leaf_product F {..<?n}))" "graph_extends val g2 g3" by auto
    have "einsum_sum ?sz subs ts = sum_out ?sz (summed_labels ?in ?out) (leaf_product F {..<?n})"
      by (simp add: einsum_sum_def F_def [abs_def])
    then show ?thesis using r build False ne graph_extends_trans [OF x2 r(4)] by (simp add: step_count_def t(3))
  qed
qed

end

end
