(* ===== verification/Einsum_Direct.thy ===== *)
theory Einsum_Direct
  imports Einsum_Graph
begin

text \<open>
  The direct plan of a binary product (\<open>binary_dot.rs\<close>) in closed form, and the labels of the lowering
  when the output repeats a label: only a single operand can have a diagonal embedded.
\<close>

section \<open>The groups of a direct plan\<close>

lemma unique_loop_iff: "unique_loop seen ls \<longleftrightarrow> distinct ls \<and> set seen \<inter> set ls = {}"
  by (induction seen ls rule: unique_loop.induct) auto

lemma labels_are_unique_iff: "labels_are_unique ls \<longleftrightarrow> distinct ls"
  by (simp add: labels_are_unique_def unique_loop_iff)

definition paired_positions :: "label list \<Rightarrow> label list \<Rightarrow> label list" where
  "paired_positions rs ls = map (the \<circ> position rs) ls"

definition shared_kept :: "label list \<Rightarrow> label list \<Rightarrow> label list \<Rightarrow> label list" where
  "shared_kept ls rs out = filter (\<lambda>l. l \<in> set rs \<and> l \<in> set out) ls"

definition shared_summed :: "label list \<Rightarrow> label list \<Rightarrow> label list \<Rightarrow> label list" where
  "shared_summed ls rs out = filter (\<lambda>l. l \<in> set rs \<and> l \<notin> set out) ls"

definition only_in :: "label list \<Rightarrow> label list \<Rightarrow> label list" where
  "only_in ls rs = filter (\<lambda>l. l \<notin> set rs) ls"

lemma dot_group_step_eq:
  "l \<notin> set rs \<Longrightarrow> l \<notin> set out \<Longrightarrow> dot_group_step rs out st (i, l) = None"
  "l \<notin> set rs \<Longrightarrow> l \<in> set out \<Longrightarrow> dot_group_step rs out st (i, l) = Some (st\<lparr>dg_lhs_free := dg_lhs_free st @ [l]\<rparr>)"
  "l \<in> set rs \<Longrightarrow> l \<notin> set out \<Longrightarrow> dot_group_step rs out st (i, l) =
    Some (st\<lparr>dg_lhs_contracting := dg_lhs_contracting st @ [i],
      dg_rhs_contracting := dg_rhs_contracting st @ [the (position rs l)]\<rparr>)"
  "l \<in> set rs \<Longrightarrow> l \<in> set out \<Longrightarrow> dot_group_step rs out st (i, l) =
    Some (st\<lparr>dg_lhs_batch := dg_lhs_batch st @ [i], dg_rhs_batch := dg_rhs_batch st @ [the (position rs l)],
      dg_batch := dg_batch st @ [l]\<rparr>)"
  using position_None [of rs l] by (cases "position rs l"; simp add: dot_group_step_def)+

lemma dot_group_loop:
  "try_fold_option (dot_group_step rs out) st (map (\<lambda>i. (i, ls ! i)) is) =
    (if \<forall>i \<in> set is. ls ! i \<in> set rs \<or> ls ! i \<in> set out
     then Some \<lparr>dg_lhs_contracting = dg_lhs_contracting st @ filter (\<lambda>i. ls ! i \<in> set rs \<and> ls ! i \<notin> set out) is,
       dg_rhs_contracting = dg_rhs_contracting st @
         map (\<lambda>i. the (position rs (ls ! i))) (filter (\<lambda>i. ls ! i \<in> set rs \<and> ls ! i \<notin> set out) is),
       dg_lhs_batch = dg_lhs_batch st @ filter (\<lambda>i. ls ! i \<in> set rs \<and> ls ! i \<in> set out) is,
       dg_rhs_batch = dg_rhs_batch st @
         map (\<lambda>i. the (position rs (ls ! i))) (filter (\<lambda>i. ls ! i \<in> set rs \<and> ls ! i \<in> set out) is),
       dg_lhs_free = dg_lhs_free st @ map ((!) ls) (filter (\<lambda>i. ls ! i \<notin> set rs) is),
       dg_batch = dg_batch st @ map ((!) ls) (filter (\<lambda>i. ls ! i \<in> set rs \<and> ls ! i \<in> set out) is)\<rparr>
     else None)"
proof (induction "is" arbitrary: st)
  case (Cons i "is")
  show ?case
    by (cases "ls ! i \<in> set rs"; cases "ls ! i \<in> set out") (simp_all add: dot_group_step_eq Cons.IH)
qed simp

lemma rhs_free_loop:
  "try_fold_option (rhs_free_step ls out) xs rs =
    (if \<forall>l \<in> set rs. l \<in> set ls \<or> l \<in> set out then Some (xs @ only_in rs ls) else None)"
  by (induction rs arbitrary: xs) (auto simp: rhs_free_step_def only_in_def)

definition direct_config :: "label list \<Rightarrow> label list \<Rightarrow> label list \<Rightarrow> dot_general_config" where
  "direct_config ls rs out =
    \<lparr>lhs_contracting_dims = filter (\<lambda>i. ls ! i \<in> set rs \<and> ls ! i \<notin> set out) [0..<length ls],
     rhs_contracting_dims = paired_positions rs (shared_summed ls rs out),
     lhs_batch_dims = filter (\<lambda>i. ls ! i \<in> set rs \<and> ls ! i \<in> set out) [0..<length ls],
     rhs_batch_dims = paired_positions rs (shared_kept ls rs out)\<rparr>"

definition direct_applies :: "label list \<Rightarrow> label list \<Rightarrow> label list \<Rightarrow> bool" where
  "direct_applies ls rs out \<longleftrightarrow> distinct ls \<and> distinct rs \<and> distinct out \<and>
    \<not> set ls \<inter> set rs \<subseteq> set out \<and> set out \<subseteq> set ls \<union> set rs \<and> set ls \<union> set rs - set out \<subseteq> set ls \<inter> set rs"

lemma direct_applies_commute: "direct_applies rs ls out \<longleftrightarrow> direct_applies ls rs out"
  by (auto simp: direct_applies_def)

lemma direct_plan_eq:
  "try_build_binary_dot_plan_with_order ls rs out order =
    (if direct_applies ls rs out
     then Some \<lparr>bd_operand_order = order, bd_result_labels = only_in ls rs @ only_in rs ls @ shared_kept ls rs out,
       bd_target_labels = out, bd_config = direct_config ls rs out\<rparr>
     else None)"
proof -
  have z: "zip [0..<length ls] ls = map (\<lambda>i. (i, ls ! i)) [0..<length ls]"
    by (rule nth_equalityI) simp_all
  have mp: "map (\<lambda>i. the (position rs (ls ! i))) is = paired_positions rs (map ((!) ls) is)" for "is"
    by (simp add: paired_positions_def)
  have nths: "(\<forall>i \<in> set [0..<length ls]. P (ls ! i)) \<longleftrightarrow> (\<forall>l \<in> set ls. P l)" for P
    by (auto simp: all_set_conv_all_nth)
  have all: "(\<forall>i \<in> set [0..<length ls]. ls ! i \<in> set rs \<or> ls ! i \<in> set out) \<longleftrightarrow> set ls \<subseteq> set rs \<union> set out"
    unfolding nths [of "\<lambda>l. l \<in> set rs \<or> l \<in> set out"] by auto
  have summed: "filter (\<lambda>i. ls ! i \<in> set rs \<and> ls ! i \<notin> set out) [0..<length ls] = [] \<longleftrightarrow> set ls \<inter> set rs \<subseteq> set out"
    unfolding filter_empty_conv using nths [of "\<lambda>l. \<not> (l \<in> set rs \<and> l \<notin> set out)"] by auto
  note nth = map_nth_filter [of ls "\<lambda>l. l \<in> set rs \<and> l \<notin> set out"] map_nth_filter [of ls "\<lambda>l. l \<in> set rs \<and> l \<in> set out"]
    map_nth_filter [of ls "\<lambda>l. l \<notin> set rs"]
  have r: "(\<forall>l \<in> set rs. l \<in> set ls \<or> l \<in> set out) \<longleftrightarrow> set rs \<subseteq> set ls \<union> set out" by auto
  have out: "list_ex (\<lambda>l. l \<notin> set ls \<and> l \<notin> set rs) out \<longleftrightarrow> \<not> set out \<subseteq> set ls \<union> set rs" by (auto simp: list_ex_iff)
  show ?thesis
    unfolding try_build_binary_dot_plan_with_order_def labels_are_unique_iff z dot_group_loop rhs_free_loop mp nth all r out
    by (auto simp: no_groups_def summed direct_applies_def direct_config_def only_in_def shared_kept_def shared_summed_def
        split: if_splits)
qed

text \<open>The contraction of a direct plan is the einsum of the two operands.\<close>

lemma paired_positions_nth:
  "set ls \<subseteq> set rs \<Longrightarrow> map ((!) rs) (paired_positions rs ls) = ls \<and> (\<forall>a \<in> set (paired_positions rs ls). a < length rs)"
proof (induction ls)
  case (Cons l ls)
  then obtain a where "position rs l = Some a" using position_None [of rs l] by auto
  then show ?case using Cons by (auto simp: paired_positions_def dest!: position_Some)
qed (simp add: paired_positions_def)

lemma direct_plan_reads:
  assumes d: "direct_applies ls rs out" and t: "tn_shape t = map sz ls" and u: "tn_shape u = map sz rs"
  shows "\<exists>v. op_value (Op_DotGeneral (direct_config ls rs out)) [t, u] = Some v \<and>
    reads sz v (only_in ls rs @ only_in rs ls @ shared_kept ls rs out)
      (einsum_sum sz \<lparr>sb_inputs = [ls, rs], sb_output = out\<rparr> [t, u])"
proof -
  let ?c = "direct_config ls rs out" and ?C = "shared_summed ls rs out" and ?B = "shared_kept ls rs out"
  have ds: "distinct ls" "distinct rs" using d by (simp_all add: direct_applies_def)
  have lc: "map ((!) ls) (lhs_contracting_dims ?c) = ?C" and lb: "map ((!) ls) (lhs_batch_dims ?c) = ?B"
    unfolding direct_config_def shared_summed_def shared_kept_def dot_general_config.simps by (rule map_nth_filter)+
  have rc: "map ((!) rs) (rhs_contracting_dims ?c) = ?C \<and> (\<forall>a \<in> set (rhs_contracting_dims ?c). a < length rs)"
    and rb: "map ((!) rs) (rhs_batch_dims ?c) = ?B \<and> (\<forall>a \<in> set (rhs_batch_dims ?c). a < length rs)"
    using paired_positions_nth [of ?C rs] paired_positions_nth [of ?B rs]
    by (auto simp: direct_config_def shared_summed_def shared_kept_def)
  have CB: "distinct (?C @ ?B)" "set ?C \<union> set ?B = set ls \<inter> set rs" using ds by (auto simp: shared_summed_def shared_kept_def)
  have axes: "\<forall>a \<in> set (lhs_contracting_dims ?c). a < length ls" "\<forall>a \<in> set (lhs_batch_dims ?c). a < length ls"
    by (simp_all add: direct_config_def)
  from dot_reads [OF raw_reads [OF t] raw_reads [OF u] ds lc axes(1) lb axes(2) conjunct1 [OF rc] conjunct2 [OF rc]
      conjunct1 [OF rb] conjunct2 [OF rb] CB]
  obtain v where v: "op_value (Op_DotGeneral ?c) [t, u] = Some v"
    "reads sz v (only_in ls rs @ only_in rs ls @ ?B) (sum_out sz ?C (\<lambda>s. tensor_at t ls s * tensor_at u rs s))"
    unfolding only_in_def by blast
  have p: "leaf_product (\<lambda>i. tensor_at ([t, u] ! i) ([ls, rs] ! i)) {..<Suc (Suc 0)} = (\<lambda>s. tensor_at t ls s * tensor_at u rs s)"
    by (simp add: leaf_product_def [abs_def] lessThan_Suc mult.commute)
  have "sum_out sz ?C F = sum_out sz (summed_labels [ls, rs] out) F" for F :: "(label \<Rightarrow> nat) \<Rightarrow> 'a"
    by (intro ext sum_out_set) (use ds d in \<open>auto simp: summed_labels_def shared_summed_def direct_applies_def\<close>)
  then have "sum_out sz ?C (\<lambda>s. tensor_at t ls s * tensor_at u rs s) =
      einsum_sum sz \<lparr>sb_inputs = [ls, rs], sb_output = out\<rparr> [t, u]"
    by (simp add: einsum_sum_def p)
  then show ?thesis using v by metis
qed

lemma einsum_sum_swap:
  "einsum_sum sz \<lparr>sb_inputs = [ls, rs], sb_output = out\<rparr> [t, u] = einsum_sum sz \<lparr>sb_inputs = [rs, ls], sb_output = out\<rparr> [u, t]"
proof
  fix s
  have p: "leaf_product (\<lambda>i. tensor_at ([a, b] ! i) ([xs, ys] ! i)) {..<Suc (Suc 0)} = (\<lambda>s. tensor_at a xs s * tensor_at b ys s)"
    for a b :: "'a tens" and xs ys
    by (simp add: leaf_product_def [abs_def] lessThan_Suc mult.commute)
  have "sum_out sz (summed_labels [ls, rs] out) F s = sum_out sz (summed_labels [rs, ls] out) F s"
    for F :: "(label \<Rightarrow> nat) \<Rightarrow> 'a"
    by (rule sum_out_set) (auto simp: summed_labels_def)
  then show "einsum_sum sz \<lparr>sb_inputs = [ls, rs], sb_output = out\<rparr> [t, u] s =
      einsum_sum sz \<lparr>sb_inputs = [rs, ls], sb_output = out\<rparr> [u, t] s"
    by (simp add: einsum_sum_def p mult.commute)
qed

section \<open>Outputs the lowering rejects\<close>

text \<open>Labelled values never repeat a label once the diagonals are taken, and use labels of the inputs only.\<close>

definition tidy :: "label set \<Rightarrow> 'e labeled_val \<Rightarrow> bool" where
  "tidy U lv \<longleftrightarrow> distinct (lv_labels lv) \<and> set (lv_labels lv) \<subseteq> U"

lemma mapped_labels_tidy:
  assumes "map_label_axes source target = Ok axes"
  shows "set source \<subseteq> set target" and "distinct target \<Longrightarrow> distinct source"
proof -
  have m: "map_label_occurrences source target = Some axes"
    using assms by (cases "map_label_occurrences source target") (simp_all add: map_label_axes_def)
  note s = map_label_occurrences_sound [OF m]
  show "set source \<subseteq> set target" using s(3) unfolding s(4) [symmetric] by auto
  show "distinct source" if d: "distinct target"
    unfolding s(4) [symmetric] distinct_map using s(2,3) nth_eq_iff_index_eq [OF d] by (auto simp: inj_on_def)
qed

lemma reduce_val_tidy: "reduce_val add g lv R = (lv', g') \<Longrightarrow> tidy U lv \<Longrightarrow> tidy U lv'"
  by (simp add: tidy_def reduce_val_labels) auto

lemma diagonalize_tidy:
  "diagonalize_repeated add g lv = (lv', g') \<Longrightarrow> distinct (lv_labels lv') \<and> set (lv_labels lv') = set (lv_labels lv)"
proof (induction "length (lv_labels lv)" arbitrary: g lv rule: less_induct)
  case less
  show ?case
  proof (cases "find_repeat Map.empty 0 (lv_labels lv)")
    case None
    then show ?thesis using less.prems find_repeat_None [OF None] by (auto simp: diagonalize_repeated.simps [of add g lv])
  next
    case (Some p)
    then obtain a b where p: "find_repeat Map.empty 0 (lv_labels lv) = Some (a, b)" by (cases p) auto
    from find_repeat_Some [OF p] have ab: "a < b" "b < length (lv_labels lv)" "lv_labels lv ! a = lv_labels lv ! b" by auto
    obtain v g1 where e: "emit add g (Op_ExtractDiag a b) [lv_val lv] = (v, g1)" by fastforce
    have "diagonalize_repeated add g1 (local_val v (remove_at b (lv_labels lv))) = (lv', g')"
      using less.prems by (simp add: diagonalize_repeated.simps [of add g lv] p e)
    from less.hyps [OF _ this] ab set_remove_at_repeat [OF ab] show ?thesis by (simp add: length_remove_at)
  qed
qed

lemma contract_dot_tidy:
  "contract_dot add g lhs rhs B C lf rf = Ok (lv, g') \<Longrightarrow> lv_labels lv = lf @ rf @ B"
  by (auto simp: contract_dot_def Let_def case_prod_beta)

lemma outer_product_tidy:
  assumes "outer_product add g lhs rhs B lf rf target = Ok (lv, g')" and "tidy U lhs" and "distinct (lf @ rf @ B)"
    and "set (lf @ rf @ B) \<subseteq> U"
  shows "tidy U lv"
proof (cases "lv_labels lhs = lv_labels rhs")
  case True
  then show ?thesis using assms by (auto simp: outer_product_def Let_def tidy_def split: prod.splits)
next
  case False
  then have "lv_labels lv = select_outer_product_label_order (lf @ rf @ B) target"
    using assms(1) by (auto simp: outer_product_def Let_def case_prod_beta)
  then show ?thesis using select_order [OF assms(3), of target] assms(4) by (simp add: tidy_def)
qed

lemma reorder_survivors_tidy:
  assumes "reorder_survivors add g lv out = Ok (lv', g')" and "tidy U lv"
  shows "tidy U lv'"
proof -
  have "lv' = lv \<or> (\<exists>perm. map_label_axes (filter (\<lambda>l. l \<in> set (lv_labels lv)) out) (lv_labels lv) = Ok perm \<and>
      lv_labels lv' = filter (\<lambda>l. l \<in> set (lv_labels lv)) out)"
    using assms(1) by (auto simp: reorder_survivors_def Let_def case_prod_beta split: if_splits)
  then show ?thesis using assms(2) by (auto simp: tidy_def dest: mapped_labels_tidy)
qed

lemma binary_contract_tidy:
  assumes b: "binary_contract add g lhs rhs survive reorder = Ok (lv, g')" and l: "tidy U lhs" and r: "tidy U rhs"
  shows "tidy U lv"
proof -
  let ?S = "set survive"
  let ?lr = "set (filter (\<lambda>l. l \<notin> set (lv_labels rhs) \<and> l \<notin> ?S) (lv_labels lhs))"
  let ?rr = "set (filter (\<lambda>l. l \<notin> set (lv_labels lhs) \<and> l \<notin> ?S) (lv_labels rhs))"
  obtain lhs1 g1 where r1: "reduce_val add g lhs ?lr = (lhs1, g1)" by fastforce
  obtain rhs1 g2 where r2: "reduce_val add g1 rhs ?rr = (rhs1, g2)" by fastforce
  have t1: "tidy U lhs1" and t2: "tidy U rhs1" using reduce_val_tidy [OF r1 l] reduce_val_tidy [OF r2 r] .
  let ?ls = "lv_labels lhs1" and ?rs = "lv_labels rhs1"
  define B where "B = filter (\<lambda>l. l \<in> set ?rs \<and> l \<in> ?S) ?ls"
  define C where "C = filter (\<lambda>l. l \<in> set ?rs \<and> l \<notin> ?S) ?ls"
  have cl: "foldl (classify_lhs (set ?rs) ?S) ([], [], []) ?ls = (B, C, only_in ?ls ?rs)"
    using classify_lhs_fold [of ?ls "[]" "[]" "[]"] t1 by (simp add: tidy_def B_def C_def only_in_def)
  have cr: "foldl (classify_rhs (set ?ls)) [] ?rs = only_in ?rs ?ls"
    using classify_rhs_fold [of ?rs "[]"] t2 by (simp add: tidy_def only_in_def)
  let ?m = "if C \<noteq> [] then contract_dot add g2 lhs1 rhs1 B C (only_in ?ls ?rs) (only_in ?rs ?ls)
    else outer_product add g2 lhs1 rhs1 B (only_in ?ls ?rs) (only_in ?rs ?ls) (if reorder then Some survive else None)"
  have d: "distinct (only_in ?ls ?rs @ only_in ?rs ?ls @ B)" "set (only_in ?ls ?rs @ only_in ?rs ?ls @ B) \<subseteq> U"
    using t1 t2 by (auto simp: tidy_def only_in_def B_def)
  from b obtain lv1 g3 where m: "?m = Ok (lv1, g3)"
    and e: "(if \<not> reorder then Ok (lv1, g3) else reorder_survivors add g3 lv1 survive) = Ok (lv, g')"
    unfolding binary_contract_def Let_def r1 r2 cl cr prod.case and_then_eq_Inr by auto
  have "tidy U lv1"
  proof (cases "C = []")
    case True
    then show ?thesis using m outer_product_tidy [OF _ t1 d] by simp
  next
    case False
    then have "lv_labels lv1 = only_in ?ls ?rs @ only_in ?rs ?ls @ B" using m contract_dot_tidy by simp
    then show ?thesis using d by (simp add: tidy_def)
  qed
  then show ?thesis using e reorder_survivors_tidy by (auto split: if_splits)
qed

lemma arrange_output_Ok:
  assumes "arrange_output add g lv out = Ok r"
  shows "set out \<subseteq> set (lv_labels lv)" and "distinct (lv_labels lv) \<Longrightarrow> distinct out"
  using assms by (auto simp: arrange_output_def split: if_splits dest: mapped_labels_tidy)

lemma embed_repeated_labels:
  "embed_repeated add g lv out = Ok (lv', g') \<Longrightarrow> set (lv_labels lv') = set (lv_labels lv)"
proof (induction "missing_count (lv_labels lv) out" arbitrary: g lv rule: less_induct)
  case less
  show ?case
  proof (cases "missing_repeat (lv_labels lv) out")
    case None
    then show ?thesis using less.prems by (simp add: embed_repeated.simps [of add g lv])
  next
    case (Some l)
    obtain a where a: "position (lv_labels lv) l = Some a"
      using less.prems Some by (auto simp: embed_repeated.simps [of add g lv] find_label_axis_def split: sum.splits)
    obtain v g1 where e: "emit add g (Op_EmbedDiag a (a + 1)) [lv_val lv] = (v, g1)" by fastforce
    have "embed_repeated add g1 (local_val v (insert_at (a + 1) l (lv_labels lv))) out = Ok (lv', g')"
      using less.prems Some a e by (simp add: embed_repeated.simps [of add g lv] find_label_axis_def)
    from less.hyps [OF _ this] missing_count_insert [OF Some] position_Some [OF a] show ?thesis
      by (auto simp: set_insert_at)
  qed
qed

lemma lower_unary_Ok:
  assumes "lower_unary add g lv out = Ok r"
  shows "set out \<subseteq> set (lv_labels lv)"
proof -
  obtain lv1 g1 where r: "reduce_val add g lv (set (filter (\<lambda>l. l \<notin> set out) (lv_labels lv))) = (lv1, g1)" by fastforce
  with assms obtain lv2 g2 where e: "embed_repeated add g1 lv1 out = Ok (lv2, g2)" and a: "arrange_output add g2 lv2 out = Ok r"
    by (auto simp: lower_unary_def)
  have "set out \<subseteq> set (lv_labels lv1)" using arrange_output_Ok(1) [OF a] unfolding embed_repeated_labels [OF e] .
  then show ?thesis unfolding reduce_val_labels [OF r] by auto
qed

lemma contract_step_tidy:
  assumes "contract_step add tree (labeled, g) i = Ok (labeled', g')" and "list_all (tidy U) labeled"
  shows "list_all (tidy U) labeled'"
proof -
  obtain left right where p: "step_pair tree i = Some (left, right)"
    using assms(1) by (cases "step_pair tree i") (auto simp: contract_step_def)
  obtain la lb survive where x: "step_subscripts tree i = Some (la, lb, survive)"
    using assms(1) p by (cases "step_subscripts tree i") (auto simp: contract_step_def)
  note step = assms(1) [unfolded contract_step_def prod.case p x ok_or_Some and_then_Inr Let_def]
  then obtain lhs where lhs: "labeled_operand labeled left ''left'' = Ok lhs" unfolding and_then_eq_Inr by blast
  note step = step [unfolded lhs and_then_Inr]
  then obtain rhs where rhs: "labeled_operand labeled right ''right'' = Ok rhs" unfolding and_then_eq_Inr by blast
  note step = step [unfolded rhs and_then_Inr]
  then obtain lv g1 where "binary_contract add g lhs rhs survive (i + 1 = step_count tree) = Ok (lv, g1)"
    and l: "labeled' = labeled @ [lv]" unfolding and_then_eq_Inr by auto
  moreover have "tidy U lhs" "tidy U rhs"
    using lhs rhs assms(2) by (auto simp: labeled_operand_def get_def list_all_length split: if_splits)
  ultimately have "tidy U lv" by (blast intro: binary_contract_tidy)
  then show ?thesis using assms(2) l by simp
qed

lemma lower_steps_Ok:
  assumes low: "lower_steps add g tree labeled = Ok r" and t: "list_all (tidy U) labeled"
  shows "distinct (sb_output (ct_subscripts tree))" and "set (sb_output (ct_subscripts tree)) \<subseteq> U"
proof -
  let ?out = "sb_output (ct_subscripts tree)"
  from low obtain labeled' g1 result where
    st: "try_fold (contract_step add tree) (labeled, g) [0..<step_count tree] = Ok (labeled', g1)"
    and res: "labeled_operand labeled' (length (sb_inputs (ct_subscripts tree)) + step_count tree - 1) ''final result'' = Ok result"
    and a: "(case reduce_val add g1 result (set (filter (\<lambda>l. l \<notin> set ?out) (lv_labels result))) of
      (result, g2) \<Rightarrow> arrange_output add g2 result ?out) = Ok r"
    unfolding lower_steps_def Let_def and_then_eq_Inr by (auto simp del: upt_Suc)
  obtain lv g2 where rv: "reduce_val add g1 result (set (filter (\<lambda>l. l \<notin> set ?out) (lv_labels result))) = (lv, g2)" by fastforce
  have "list_all (tidy U) (fst (labeled', g1))"
    by (rule try_fold_inv [OF st, where P = "\<lambda>st. list_all (tidy U) (fst st)"]) (use t contract_step_tidy in auto)
  then have "tidy U result" using res by (auto simp: labeled_operand_def get_def list_all_length split: if_splits)
  with rv have "tidy U lv" by (rule reduce_val_tidy)
  moreover have "arrange_output add g2 lv ?out = Ok r" using a rv by simp
  note arrange_output_Ok [OF this]
  ultimately show "distinct ?out" "set ?out \<subseteq> U" by (auto simp: tidy_def)
qed

lemma map_state_labels:
  "map_state f g xs = (ys, g') \<Longrightarrow> (\<And>g x y g'. x \<in> set xs \<Longrightarrow> f g x = (y, g') \<Longrightarrow> P y) \<Longrightarrow> list_all P ys"
proof (induction f g xs arbitrary: ys g' rule: map_state.induct)
  case (2 f g x xs)
  obtain y g1 where y: "f g x = (y, g1)" by fastforce
  obtain ys1 g2 where r: "map_state f g1 xs = (ys1, g2)" by fastforce
  have "list_all P ys1" by (rule "2.IH" [OF y [symmetric] r]) (use "2.prems"(2) in auto)
  moreover have "P y" using "2.prems"(2) [OF _ y] by simp
  ultimately show ?case using "2.prems"(1) y r by auto
qed simp

lemma build_graph_Ok:
  assumes b: "build_einsum_graph_dim_expr add g tree vals shapes = Ok r"
    and steps: "length (sb_inputs (ct_subscripts tree)) \<noteq> 1 \<Longrightarrow> step_count tree \<noteq> 0"
  shows "set (sb_output (ct_subscripts tree)) \<subseteq> \<Union> (set ` set (sb_inputs (ct_subscripts tree)))"
    and "length (sb_inputs (ct_subscripts tree)) \<noteq> 1 \<Longrightarrow> distinct (sb_output (ct_subscripts tree))"
proof -
  let ?in = "sb_inputs (ct_subscripts tree)" and ?out = "sb_output (ct_subscripts tree)"
  let ?U = "\<Union> (set ` set ?in)"
  from b obtain labeled where lab: "traverse label_input (zip vals (zip ?in shapes)) = Ok labeled"
    and rest: "(case map_state (broadcast_input add tree) g (zip labeled shapes) of (labeled, g1) \<Rightarrow>
       case map_state (diagonalize_repeated add) g1 labeled of (labeled, g2) \<Rightarrow>
       if length ?in = 1 \<or> step_count tree = 0
       then (case labeled of [] \<Rightarrow> Err Panicked | lv # _ \<Rightarrow> lower_unary add g2 lv ?out)
       else lower_steps add g2 tree labeled) = Ok r"
    by (auto simp: build_einsum_graph_dim_expr_def Let_def split: if_splits)
  obtain l1 g1 where m1: "map_state (broadcast_input add tree) g (zip labeled shapes) = (l1, g1)" by fastforce
  obtain l2 g2 where m2: "map_state (diagonalize_repeated add) g1 l1 = (l2, g2)" by fastforce
  have "set (lv_labels lv) \<subseteq> ?U" if "lv \<in> set labeled" for lv
  proof -
    from that obtain i where i: "i < length labeled" "labeled ! i = lv" by (auto simp: in_set_conv_nth)
    define e where "e = zip vals (zip ?in shapes) ! i"
    have "length labeled = length (zip vals (zip ?in shapes)) \<and>
        (\<forall>i < length (zip vals (zip ?in shapes)). label_input (zip vals (zip ?in shapes) ! i) = Ok (labeled ! i))"
      by (rule lab [unfolded traverse_eq_Inr])
    then have e: "e \<in> set (zip vals (zip ?in shapes))" "label_input e = Ok lv"
      unfolding e_def using i nth_mem [of i "zip vals (zip ?in shapes)"] by metis+
    obtain v labels sh where v: "e = (v, labels, sh)" by (cases e) auto
    have "labels \<in> set ?in" using e(1) unfolding v by (blast dest: set_zip_leftD set_zip_rightD)
    moreover have "lv_labels lv = labels" using e(2) by (auto simp: v label_input_def split: if_splits)
    ultimately show ?thesis by auto
  qed
  note labels = this
  have "list_all (\<lambda>lv. set (lv_labels lv) \<subseteq> ?U) l1"
  proof (rule map_state_labels [OF m1])
    fix g x y g' assume x: "x \<in> set (zip labeled shapes)" and y: "broadcast_input add tree g x = (y, g')"
    have "lv_labels y = lv_labels (fst x)" using y by (auto simp: broadcast_input_def split: prod.splits)
    moreover have "fst x \<in> set labeled" using x set_zip_leftD [of "fst x" "snd x"] by simp
    ultimately show "set (lv_labels y) \<subseteq> ?U" using labels by simp
  qed
  then have t: "list_all (tidy ?U) l2"
    by (intro map_state_labels [OF m2]) (simp add: tidy_def list_all_iff diagonalize_tidy)
  have r: "(if length ?in = 1 \<or> step_count tree = 0
       then (case l2 of [] \<Rightarrow> Err Panicked | lv # _ \<Rightarrow> lower_unary add g2 lv ?out) else lower_steps add g2 tree l2) = Ok r"
    using rest m1 m2 by simp
  show "set ?out \<subseteq> ?U"
  proof (cases "length ?in = 1 \<or> step_count tree = 0")
    case True
    then obtain lv ls where l: "l2 = lv # ls" "lower_unary add g2 lv ?out = Ok r" using r by (cases l2) auto
    have "set (lv_labels lv) \<subseteq> ?U" using t unfolding l(1) by (simp add: tidy_def)
    then show ?thesis using lower_unary_Ok [OF l(2)] by (rule subset_trans [rotated])
  next
    case False
    then show ?thesis using lower_steps_Ok(2) [OF _ t] r by simp
  qed
  show "distinct ?out" if "length ?in \<noteq> 1" using that steps lower_steps_Ok(1) [OF _ t] r by simp
qed

end
