(* ===== verification/Lowering_Theorems.thy ===== *)
theory Lowering_Theorems
  imports Einsum_Direct "HOL-Library.Code_Target_Numeral"
begin

text \<open>
  What the lowering of an einsum promises: the built graph computes the sum of products the subscripts
  denote, in whatever order the tree contracts, and the direct plan of a binary product is the same
  contraction. The interface of the graph builder is interpreted on a graph kept as a list of nodes.
\<close>

section \<open>A graph as a list of nodes\<close>

type_synonym 'e node_list = "(std_tensor_op \<times> 'e value_ref list) list"

definition list_add :: "('e node_list, 'e) add_operation" where
  "list_add g op ins = ([length g], g @ [(op, ins)])"

fun node_input :: "('e \<Rightarrow> 'a tens option) \<Rightarrow> 'a tens option list \<Rightarrow> 'e value_ref \<Rightarrow> 'a tens option" where
  "node_input ext vals (External e) = ext e"
| "node_input ext vals (Local i) = (if i < length vals then vals ! i else None)"

fun run_nodes ::
  "('e \<Rightarrow> 'a :: comm_semiring_1 tens option) \<Rightarrow> 'a tens option list \<Rightarrow> 'e node_list \<Rightarrow> 'a tens option list" where
  "run_nodes ext vals [] = vals"
| "run_nodes ext vals ((op, ins) # g) =
    run_nodes ext (vals @ [Option.bind (those (map (node_input ext vals) ins)) (op_value op)]) g"

definition list_value ::
  "('e \<Rightarrow> 'a :: comm_semiring_1 tens option) \<Rightarrow> 'e node_list \<Rightarrow> 'e value_ref \<Rightarrow> 'a tens option" where
  "list_value ext g r = node_input ext (run_nodes ext [] g) r"

lemma run_nodes_append: "run_nodes ext vals (g @ h) = run_nodes ext (run_nodes ext vals g) h"
  by (induction ext vals g rule: run_nodes.induct) auto

lemma length_run_nodes: "length (run_nodes ext vals g) = length vals + length g"
  by (induction ext vals g rule: run_nodes.induct) auto

lemma those_map_Some: "map f xs = map Some ts \<Longrightarrow> those (map f xs) = Some ts"
proof -
  have "those (map Some ts) = Some ts" by (induction ts) auto
  then show "map f xs = map Some ts \<Longrightarrow> those (map f xs) = Some ts" by simp
qed

interpretation list_graph: graph_values list_add "list_value ext" for ext :: "'e \<Rightarrow> 'a :: comm_semiring_1 tens option"
proof
  fix g g' :: "'e node_list" and op ins outs r and t :: "'a tens"
  assume a: "list_add g op ins = (outs, g')" and r: "list_value ext g r = Some t"
  then have "g' = g @ [(op, ins)]" by (simp add: list_add_def)
  then show "list_value ext g' r = Some t"
    using r by (cases r) (auto simp: list_value_def run_nodes_append nth_append split: if_splits)
next
  fix g g' :: "'e node_list" and op ins outs and ts :: "'a tens list" and t
  assume a: "list_add g op ins = (outs, g')" and i: "map (list_value ext g) ins = map Some ts" and v: "op_value op ts = Some t"
  have "those (map (node_input ext (run_nodes ext [] g)) ins) = Some ts"
    by (rule those_map_Some) (use i in \<open>simp add: list_value_def [abs_def]\<close>)
  then show "list_value ext g' (Local (outs ! 0)) = Some t"
    using a v by (auto simp: list_add_def list_value_def run_nodes_append length_run_nodes nth_append)
qed

section \<open>The value of a lowered einsum\<close>

text \<open>C6: The graph built for an accepted contraction tree computes the einsum. For inputs of the given
  shapes and output labels that occur in the inputs, the lowering succeeds; the value of its result has the
  sizes of the output labels, its elements are the sum over the remaining labels of the products of the
  inputs (axes of extent one are stretched), elements off a diagonal that the output asks for are zero, and
  no value of the graph changes. Arithmetic is exact, in any commutative semiring.\<close>

theorem einsum_lowering_computes:
  assumes "graph_values add val" and "from_pairs subs shapes pairs = Ok tree"
    and "list_all2 (\<lambda>r t. val g r = Some t) input_vals ts" and "map tn_shape ts = shapes"
    and "set (sb_output subs) \<subseteq> \<Union> (set ` set (sb_inputs subs))"
    and "length (sb_inputs subs) = 1 \<or> distinct (sb_output subs)"
  shows "\<exists>v g' t. build_einsum_graph add g tree input_vals shapes = Ok (v, g') \<and> val g' v = Some t \<and>
    tn_shape t = map (label_extent tree) (sb_output subs) \<and>
    (\<forall>s. bounded (label_extent tree) (sb_output subs) s \<longrightarrow>
      tn_elem t (map s (sb_output subs)) = einsum_sum (label_extent tree) subs ts s) \<and>
    (\<forall>idx. in_range (tn_shape t) idx \<longrightarrow> (\<nexists>s. idx = map s (sb_output subs)) \<longrightarrow> tn_elem t idx = 0) \<and>
    (\<forall>r u. val g r = Some u \<longrightarrow> val g' r = Some u)"
proof -
  from graph_values.build_einsum_graph_computes [OF assms] obtain v g' t
    where b: "build_einsum_graph add g tree input_vals shapes = Ok (v, g')" "val g' v = Some t"
      and e: "embeds (label_extent tree) t (sb_output subs) (einsum_sum (label_extent tree) subs ts)"
      and x: "graph_extends val g g'" by blast
  have "tn_shape t = map (label_extent tree) (sb_output subs)" using e by (simp add: embeds_def reads_def)
  with b e x show ?thesis
    by (intro exI [of _ v] exI [of _ g'] exI [of _ t]) (simp add: embeds_def reads_def graph_extends_def)
qed

definition sample_tens :: "shape \<Rightarrow> nat list \<Rightarrow> nat tens" where
  "sample_tens sh data = \<lparr>tn_shape = sh, tn_elem = (\<lambda>idx. data ! lin sh idx)\<rparr>"

definition sample_env :: "nat \<Rightarrow> nat tens option" where
  "sample_env e = (if e = 0 then Some (sample_tens [2, 2] [1, 2, 3, 4])
    else if e = 1 then Some (sample_tens [2, 2] [5, 6, 7, 8]) else None)"

theorem einsum_lowering_computes_witness:
  "\<exists>tree v g' t. from_pairs \<lparr>sb_inputs = [[0, 1], [1, 2]], sb_output = [2, 0]\<rparr> [[2, 2], [2, 2]] [(0, 1)] = Ok tree \<and>
    build_einsum_graph list_add [] tree [External 0, External 1] [[2, 2], [2, 2]] = Ok (v, g') \<and>
    list_value sample_env g' v = Some t \<and> tn_shape t = [2, 2] \<and> tn_elem t [0, 1] = 34"
proof -
  let ?s = "\<lparr>sb_inputs = [[0, 1], [1, 2]], sb_output = [2, 0]\<rparr> :: subscripts"
  let ?ts = "[sample_tens [2, 2] [1, 2, 3, 4], sample_tens [2, 2] [5, 6, 7, 8]]"
  have "map_err (\<lambda>_. ()) (and_then (from_pairs ?s [[2, 2], [2, 2]] [(0, 1)])
      (\<lambda>tree. Ok (map (label_extent tree) [0, 1, 2]))) = Ok [2, 2, 2]" by code_simp
  then obtain tree where t: "from_pairs ?s [[2, 2], [2, 2]] [(0, 1)] = Ok tree"
    and sz: "label_extent tree 0 = 2" "label_extent tree 1 = 2" "label_extent tree 2 = 2" by auto
  have v: "list_all2 (\<lambda>r t. list_value sample_env [] r = Some t) [External 0, External 1] ?ts"
    by (simp add: list_value_def sample_env_def)
  have g: "graph_values list_add (list_value sample_env)" by (rule list_graph.graph_values_axioms)
  from einsum_lowering_computes [OF g t v] obtain w g' u
    where r: "build_einsum_graph list_add [] tree [External 0, External 1] [[2, 2], [2, 2]] = Ok (w, g')"
      "list_value sample_env g' w = Some u" "tn_shape u = map (label_extent tree) [2, 0]"
      "\<forall>s. bounded (label_extent tree) [2, 0] s \<longrightarrow> tn_elem u (map s [2, 0]) = einsum_sum (label_extent tree) ?s ?ts s"
    by (auto simp: sample_tens_def)
  let ?a = "\<lambda>l :: nat. if l = 0 then 1 else 0 :: nat"
  have "tn_elem u (map ?a [2, 0]) = einsum_sum (label_extent tree) ?s ?ts ?a"
    using spec [OF r(4), of ?a] sz by (simp add: bounded_def)
  also have "\<dots> = 34"
    using sz by (simp add: einsum_sum_def summed_labels_def leaf_product_def tensor_at_def sample_tens_def
        lessThan_Suc eval_nat_numeral)
  finally show ?thesis using t r(1-3) sz by auto
qed

text \<open>C13: The contraction order does not matter: any two accepted trees for the same subscripts and shapes,
  lowered on the same inputs by any graph builders, give results of the same shape with the same elements.\<close>

theorem contraction_order_irrelevant:
  assumes "graph_values add val" and "graph_values add' val'"
    and "from_pairs subs shapes pairs = Ok tree" and "from_pairs subs shapes pairs' = Ok tree'"
    and "list_all2 (\<lambda>r t. val g r = Some t) input_vals ts" and "list_all2 (\<lambda>r t. val' h r = Some t) input_vals' ts"
    and "map tn_shape ts = shapes" and "set (sb_output subs) \<subseteq> \<Union> (set ` set (sb_inputs subs))"
    and "length (sb_inputs subs) = 1 \<or> distinct (sb_output subs)"
  shows "\<exists>v g' t w h' u. build_einsum_graph add g tree input_vals shapes = Ok (v, g') \<and> val g' v = Some t \<and>
    build_einsum_graph add' h tree' input_vals' shapes = Ok (w, h') \<and> val' h' w = Some u \<and>
    tn_shape t = tn_shape u \<and> (\<forall>idx. in_range (tn_shape t) idx \<longrightarrow> tn_elem t idx = tn_elem u idx)"
proof -
  let ?out = "sb_output subs"
  have d: "label_extent tree = label_extent tree'"
    using from_pairs_Ok(4) [OF assms(3)] from_pairs_Ok(4) [OF assms(4)]
    by (simp add: fun_eq_iff label_extent_def label_size_def)
  from graph_values.build_einsum_graph_computes [OF assms(1,3,5,7,8,9)] obtain v g' t
    where t: "build_einsum_graph add g tree input_vals shapes = Ok (v, g')" "val g' v = Some t"
      "embeds (label_extent tree) t ?out (einsum_sum (label_extent tree) subs ts)" by blast
  from graph_values.build_einsum_graph_computes [OF assms(2,4,6,7,8,9)] obtain w h' u
    where u: "build_einsum_graph add' h tree' input_vals' shapes = Ok (w, h')" "val' h' w = Some u"
      "embeds (label_extent tree) u ?out (einsum_sum (label_extent tree) subs ts)" unfolding d by blast
  have sh: "tn_shape t = map (label_extent tree) ?out" "tn_shape u = map (label_extent tree) ?out"
    using t(3) u(3) by (simp_all add: embeds_def reads_def)
  have "tn_elem t idx = tn_elem u idx" if i: "in_range (map (label_extent tree) ?out) idx" for idx
  proof (cases "\<exists>s. idx = map s ?out")
    case True
    then obtain s where s: "idx = map s ?out" by blast
    then have "bounded (label_extent tree) ?out s" using i by (simp add: in_range_map)
    then show ?thesis using t(3) u(3) by (simp add: embeds_def reads_def s)
  next
    case False
    then show ?thesis using t(3) u(3) i by (simp add: embeds_def)
  qed
  then show ?thesis using t(1,2) u(1,2) sh by (metis (no_types))
qed

theorem contraction_order_irrelevant_witness:
  "\<exists>tree tree' v g' t w h' u.
    from_pairs \<lparr>sb_inputs = [[0, 1], [1, 2], [2, 0]], sb_output = []\<rparr> [[2, 2], [2, 2], [2, 2]] [(0, 1), (3, 2)] = Ok tree \<and>
    from_pairs \<lparr>sb_inputs = [[0, 1], [1, 2], [2, 0]], sb_output = []\<rparr> [[2, 2], [2, 2], [2, 2]] [(1, 2), (3, 0)] = Ok tree' \<and>
    build_einsum_graph list_add [] tree [External 0, External 1, External 1] [[2, 2], [2, 2], [2, 2]] = Ok (v, g') \<and>
    list_value sample_env g' v = Some t \<and>
    build_einsum_graph list_add [] tree' [External 0, External 1, External 1] [[2, 2], [2, 2], [2, 2]] = Ok (w, h') \<and>
    list_value sample_env h' w = Some u \<and> tn_shape t = tn_shape u"
proof -
  let ?s = "\<lparr>sb_inputs = [[0, 1], [1, 2], [2, 0]], sb_output = []\<rparr> :: subscripts"
  let ?sh = "[[2, 2], [2, 2], [2, 2]] :: shape list"
  let ?b = "sample_tens [2, 2] [5, 6, 7, 8]"
  have "is_ok (from_pairs ?s ?sh [(0, 1), (3, 2)]) \<and> is_ok (from_pairs ?s ?sh [(1, 2), (3, 0)])" by code_simp
  then obtain tree tree' where t: "from_pairs ?s ?sh [(0, 1), (3, 2)] = Ok tree" "from_pairs ?s ?sh [(1, 2), (3, 0)] = Ok tree'"
    by (auto simp: is_ok_iff)
  have v: "list_all2 (\<lambda>r t. list_value sample_env [] r = Some t) [External 0, External 1, External 1]
      [sample_tens [2, 2] [1, 2, 3, 4], ?b, ?b]"
    by (simp add: list_value_def sample_env_def)
  have g: "graph_values list_add (list_value sample_env)" by (rule list_graph.graph_values_axioms)
  from contraction_order_irrelevant [OF g g t v v] t show ?thesis by (auto simp: sample_tens_def)
qed

section \<open>Which outputs can be lowered\<close>

text \<open>A diagonal is embedded for a single operand only: the lowering of two or more operands rejects every
  output that repeats a label.\<close>

lemma repeated_output_rejected:
  assumes "from_pairs subs shapes pairs = Ok tree" and "length (sb_inputs subs) \<noteq> 1" and "\<not> distinct (sb_output subs)"
  shows "build_einsum_graph add g tree input_vals shapes \<noteq> Ok r"
proof
  assume r: "build_einsum_graph add g tree input_vals shapes = Ok r"
  note t = from_pairs_Ok [OF assms(1)]
  have "step_count tree \<noteq> 0" if "length (sb_inputs (ct_subscripts tree)) \<noteq> 1"
    using t(1,2,3) that by (auto simp: step_count_def live_path_def)
  from build_graph_Ok [OF r [unfolded build_einsum_graph_def] this, unfolded t(2)] assms(2,3)
  show False by simp
qed

section \<open>The direct plan of a binary product\<close>

text \<open>C23: A binary einsum gets a direct plan exactly when no operand and not the output repeats a label, every
  output label occurs in an operand, every label that only one operand has is kept, some shared label is
  summed, and the output lists the labels of one operand, then of the other, then the shared ones.\<close>

theorem direct_plan_exact:
  "(\<exists>plan. try_build_exact_output_binary_dot_plan ls rs out = Some plan) \<longleftrightarrow>
    distinct ls \<and> distinct rs \<and> distinct out \<and> \<not> set ls \<inter> set rs \<subseteq> set out \<and> set out \<subseteq> set ls \<union> set rs \<and>
    set ls \<union> set rs - set out \<subseteq> set ls \<inter> set rs \<and>
    (out = only_in ls rs @ only_in rs ls @ shared_kept ls rs out \<or>
     out = only_in rs ls @ only_in ls rs @ shared_kept rs ls out)"
  by (auto simp: try_build_exact_output_binary_dot_plan_def try_build_binary_dot_plan_def direct_plan_eq
      direct_applies_def)

text \<open>C22: Contracting the operands of a direct plan, in the order the plan names, gives the einsum itself with
  its axes in output order: neither a reduction before the contraction nor a transposition after it is needed.\<close>

theorem direct_plan_computes:
  fixes t u :: "'a :: comm_semiring_1 tens"
  assumes "try_build_exact_output_binary_dot_plan ls rs out = Some plan"
    and "tn_shape t = map sz ls" and "tn_shape u = map sz rs"
  shows "\<exists>v. op_value (Op_DotGeneral (bd_config plan))
      (case bd_operand_order plan of Original \<Rightarrow> [t, u] | Swapped \<Rightarrow> [u, t]) = Some v \<and>
    tn_shape v = map sz out \<and>
    (\<forall>s. bounded sz out s \<longrightarrow> tn_elem v (map s out) = einsum_sum sz \<lparr>sb_inputs = [ls, rs], sb_output = out\<rparr> [t, u] s)"
proof -
  consider "direct_applies ls rs out" "out = only_in ls rs @ only_in rs ls @ shared_kept ls rs out"
      "bd_operand_order plan = Original" "bd_config plan = direct_config ls rs out"
    | "direct_applies rs ls out" "out = only_in rs ls @ only_in ls rs @ shared_kept rs ls out"
      "bd_operand_order plan = Swapped" "bd_config plan = direct_config rs ls out"
    using assms(1) by (auto simp: try_build_exact_output_binary_dot_plan_def try_build_binary_dot_plan_def direct_plan_eq
        split: if_splits)
  then show ?thesis
  proof cases
    case 1
    from direct_plan_reads [OF 1(1) assms(2,3), folded 1(2)] show ?thesis unfolding reads_def 1(3,4) by simp
  next
    case 2
    from direct_plan_reads [OF 2(1) assms(3,2), folded 2(2)] show ?thesis
      unfolding reads_def 2(3,4) einsum_sum_swap [of sz ls rs out t u] by simp
  qed
qed

theorem direct_plan_computes_witness:
  "\<exists>plan v. try_build_exact_output_binary_dot_plan [0, 1] [1, 2] [2, 0] = Some plan \<and> bd_operand_order plan = Swapped \<and>
    op_value (Op_DotGeneral (bd_config plan)) [sample_tens [2, 2] [5, 6, 7, 8], sample_tens [2, 2] [1, 2, 3, 4]] = Some v \<and>
    tn_elem v [1, 0] = 31"
proof -
  let ?t = "sample_tens [2, 2] [1, 2, 3, 4] :: nat tens" and ?u = "sample_tens [2, 2] [5, 6, 7, 8] :: nat tens"
  have p: "try_build_exact_output_binary_dot_plan [0, 1] [1, 2] [2, 0] =
    Some \<lparr>bd_operand_order = Swapped, bd_result_labels = [2, 0], bd_target_labels = [2, 0],
      bd_config = \<lparr>lhs_contracting_dims = [0], rhs_contracting_dims = [1], lhs_batch_dims = [], rhs_batch_dims = []\<rparr>\<rparr>"
    by code_simp
  from direct_plan_computes [OF p, of ?t "\<lambda>_. 2" ?u] obtain v
    where v: "op_value (Op_DotGeneral \<lparr>lhs_contracting_dims = [0], rhs_contracting_dims = [1], lhs_batch_dims = [],
        rhs_batch_dims = []\<rparr>) [?u, ?t] = Some v"
      "\<forall>s. bounded (\<lambda>_. 2) [2, 0] s \<longrightarrow> tn_elem v (map s [2, 0]) =
        einsum_sum (\<lambda>_. 2) \<lparr>sb_inputs = [[0, 1], [1, 2]], sb_output = [2, 0]\<rparr> [?t, ?u] s"
    by (auto simp: sample_tens_def)
  let ?a = "\<lambda>l :: nat. if l = 2 then 1 else 0 :: nat"
  have "tn_elem v (map ?a [2, 0]) = einsum_sum (\<lambda>_. 2) \<lparr>sb_inputs = [[0, 1], [1, 2]], sb_output = [2, 0]\<rparr> [?t, ?u] ?a"
    using spec [OF v(2), of ?a] by (simp add: bounded_def)
  also have "\<dots> = 31"
    by (simp add: einsum_sum_def summed_labels_def leaf_product_def tensor_at_def sample_tens_def lessThan_Suc eval_nat_numeral)
  finally have "tn_elem v [1, 0] = 31" by simp
  then show ?thesis using v(1) unfolding p by (intro exI conjI) (rule refl, simp_all del: One_nat_def)
qed

end
