(* ===== verification/Exec_Program.thy ===== *)
theory Exec_Program
  imports Shape_Infer
begin

text \<open>
  The execution programs of the runtime (\<open>exec.rs\<close>): instructions over numbered slots, the lowering of an
  operation to its executable form (\<open>define_exec_op\<close> of \<open>catalog.rs\<close>) and the structural validation of a
  program. Indexing that would panic is an error value.
\<close>

section \<open>Operations\<close>

datatype exec_op =
    Ex_Transpose "nat list"
  | Ex_Reshape "dim_expr list"
  | Ex_BroadcastInDim "dim_expr list" "nat list"
  | Ex_Convert dtype
  | Ex_Constant dtype "nat list"
  | Ex_DotGeneral dot_general_config
  | Ex_DotGeneralWithConj dot_general_config bool bool
  | Ex_ReduceSum "nat list"
  | Ex_ReduceSumSquares "nat list"
  | Ex_ExtractDiag nat nat
  | Ex_EmbedDiag nat nat
  | Ex_Tril int
  | Ex_Triu int
  | Ex_Add | Ex_Subtract | Ex_Multiply | Ex_Negate | Ex_Conj | Ex_Divide | Ex_Remainder
  | Ex_Abs | Ex_Sign | Ex_Maximum | Ex_Minimum
  | Ex_Compare compare_dir
  | Ex_Select | Ex_Clamp
  | Ex_Exp | Ex_Log | Ex_Sin | Ex_Cos | Ex_Tanh | Ex_Sqrt | Ex_Rsqrt | Ex_Pow | Ex_Expm1 | Ex_Log1p
  | Ex_Gather gather_config
  | Ex_GatherDynamicSliceSizes "nat list" "nat list" "nat list" nat "dim_expr list"
  | Ex_Scatter scatter_config
  | Ex_Slice slice_config
  | Ex_DynamicSlice "nat list"
  | Ex_DynamicUpdateSlice
  | Ex_Pad pad_config
  | Ex_Concatenate nat
  | Ex_Reverse "nat list"
  | Ex_ShapeOf nat
  | Ex_DynamicTruncate nat
  | Ex_PadToMatch nat
  | Ex_ReduceProd "nat list"
  | Ex_ReduceMax "nat list"
  | Ex_ReduceMin "nat list"
  | Ex_Extension extension_op

definition from_std_tensor_op :: "std_tensor_op \<Rightarrow> exec_op" where
  "from_std_tensor_op op = (case op of
     Op_Add \<Rightarrow> Ex_Add | Op_Sub \<Rightarrow> Ex_Subtract | Op_Mul \<Rightarrow> Ex_Multiply | Op_Neg \<Rightarrow> Ex_Negate | Op_Conj \<Rightarrow> Ex_Conj
   | Op_Div \<Rightarrow> Ex_Divide | Op_Rem \<Rightarrow> Ex_Remainder | Op_Abs \<Rightarrow> Ex_Abs | Op_Sign \<Rightarrow> Ex_Sign
   | Op_Maximum \<Rightarrow> Ex_Maximum | Op_Minimum \<Rightarrow> Ex_Minimum | Op_Compare dir \<Rightarrow> Ex_Compare dir
   | Op_Select \<Rightarrow> Ex_Select | Op_Clamp \<Rightarrow> Ex_Clamp | Op_Exp \<Rightarrow> Ex_Exp | Op_Log \<Rightarrow> Ex_Log | Op_Sin \<Rightarrow> Ex_Sin
   | Op_Cos \<Rightarrow> Ex_Cos | Op_Tanh \<Rightarrow> Ex_Tanh | Op_Sqrt \<Rightarrow> Ex_Sqrt | Op_Rsqrt \<Rightarrow> Ex_Rsqrt | Op_Pow \<Rightarrow> Ex_Pow
   | Op_Expm1 \<Rightarrow> Ex_Expm1 | Op_Log1p \<Rightarrow> Ex_Log1p
   | Op_Transpose perm \<Rightarrow> Ex_Transpose perm
   | Op_Reshape to_shape \<Rightarrow> Ex_Reshape to_shape
   | Op_BroadcastInDim sh dims \<Rightarrow> Ex_BroadcastInDim sh dims
   | Op_Convert from_dtype to_dtype \<Rightarrow> Ex_Convert to_dtype
   | Op_Constant dtype bytes \<Rightarrow> Ex_Constant dtype bytes
   | Op_DotGeneral config \<Rightarrow> Ex_DotGeneral config
   | Op_ReduceSum axes \<Rightarrow> Ex_ReduceSum axes
   | Op_ReduceSumSquares axes \<Rightarrow> Ex_ReduceSumSquares axes
   | Op_ReduceProd axes \<Rightarrow> Ex_ReduceProd axes
   | Op_ReduceMax axes \<Rightarrow> Ex_ReduceMax axes
   | Op_ReduceMin axes \<Rightarrow> Ex_ReduceMin axes
   | Op_ExtractDiag axis_a axis_b \<Rightarrow> Ex_ExtractDiag axis_a axis_b
   | Op_EmbedDiag axis_a axis_b \<Rightarrow> Ex_EmbedDiag axis_a axis_b
   | Op_Tril k \<Rightarrow> Ex_Tril k
   | Op_Triu k \<Rightarrow> Ex_Triu k
   | Op_Gather config \<Rightarrow> Ex_Gather config
   | Op_GatherDynamicSliceSizes offset_dims collapsed start_index_map index_vector_dim slice_sizes \<Rightarrow>
       Ex_GatherDynamicSliceSizes offset_dims collapsed start_index_map index_vector_dim slice_sizes
   | Op_Scatter config \<Rightarrow> Ex_Scatter config
   | Op_Slice config \<Rightarrow> Ex_Slice config
   | Op_DynamicSlice slice_sizes \<Rightarrow> Ex_DynamicSlice slice_sizes
   | Op_DynamicUpdateSlice \<Rightarrow> Ex_DynamicUpdateSlice
   | Op_Pad config \<Rightarrow> Ex_Pad config
   | Op_Concatenate axis input_count \<Rightarrow> Ex_Concatenate axis
   | Op_Reverse axes \<Rightarrow> Ex_Reverse axes
   | Op_ShapeOf axis \<Rightarrow> Ex_ShapeOf axis
   | Op_DynamicTruncate axis \<Rightarrow> Ex_DynamicTruncate axis
   | Op_PadToMatch axis \<Rightarrow> Ex_PadToMatch axis
   | Op_Extension ext \<Rightarrow> Ex_Extension ext)"

section \<open>Programs\<close>

record exec_instruction =
  ei_op :: exec_op
  ei_semantic_index :: "nat option"
  ei_input_slots :: "nat list"
  ei_output_slots :: "nat list"
  ei_dtype :: dtype
  ei_output_shapes :: "dim_expr list list"
  ei_output_extents :: "dim_expr shape_extent list list"
  ei_last_use :: "bool list"

record exec_program =
  ep_instructions :: "exec_instruction list"
  ep_input_slots :: "nat list"
  ep_output_slots :: "nat list"
  ep_n_slots :: nat
  ep_shape_guards :: "shape_guard list"

definition invalid_compiled_graph :: "string \<Rightarrow> infer_error" where
  "invalid_compiled_graph message = Infer_Internal message"

section \<open>Validation\<close>

definition u8_max :: nat where
  "u8_max = 255"

text \<open>The \<open>min_inputs\<close> and \<open>max_inputs\<close> columns of the descriptor table, by operation.\<close>

definition descriptor_inputs :: "exec_op \<Rightarrow> nat \<times> nat" where
  "descriptor_inputs op = (case op of
     Ex_Constant _ _ \<Rightarrow> (0, 0)
   | Ex_Add \<Rightarrow> (2, 2) | Ex_Subtract \<Rightarrow> (2, 2) | Ex_Multiply \<Rightarrow> (2, 2) | Ex_Divide \<Rightarrow> (2, 2) | Ex_Remainder \<Rightarrow> (2, 2)
   | Ex_Maximum \<Rightarrow> (2, 2) | Ex_Minimum \<Rightarrow> (2, 2) | Ex_Compare _ \<Rightarrow> (2, 2) | Ex_Pow \<Rightarrow> (2, 2)
   | Ex_DotGeneral _ \<Rightarrow> (2, 2) | Ex_DotGeneralWithConj _ _ _ \<Rightarrow> (2, 2)
   | Ex_Gather _ \<Rightarrow> (2, 2) | Ex_GatherDynamicSliceSizes _ _ _ _ _ \<Rightarrow> (2, 2) | Ex_DynamicSlice _ \<Rightarrow> (2, 2)
   | Ex_DynamicTruncate _ \<Rightarrow> (2, 2) | Ex_PadToMatch _ \<Rightarrow> (2, 2)
   | Ex_Select \<Rightarrow> (3, 3) | Ex_Clamp \<Rightarrow> (3, 3) | Ex_Scatter _ \<Rightarrow> (3, 3) | Ex_DynamicUpdateSlice \<Rightarrow> (3, 3)
   | Ex_Concatenate _ \<Rightarrow> (1, u8_max)
   | _ \<Rightarrow> (1, 1))"

definition exec_op_input_arity_bounds :: "exec_op \<Rightarrow> (nat \<times> nat) option" where
  "exec_op_input_arity_bounds op = (case op of
     Ex_Extension ext \<Rightarrow> Some (xo_input_count ext, xo_input_count ext)
   | Ex_Reshape sh \<Rightarrow> (let n = n_inputs_from_dim_exprs 1 [sh] in Some (n, n))
   | Ex_BroadcastInDim sh _ \<Rightarrow> (let n = n_inputs_from_dim_exprs 1 [sh] in Some (n, n))
   | Ex_GatherDynamicSliceSizes _ _ _ _ slice_sizes \<Rightarrow> (let n = n_inputs_from_dim_exprs 2 [slice_sizes] in Some (n, n))
   | _ \<Rightarrow> Some (descriptor_inputs op))"

definition check_slots :: "nat \<Rightarrow> string \<Rightarrow> nat list \<Rightarrow> unit ires" where
  "check_slots n_slots role slots =
    (case find (\<lambda>slot. n_slots \<le> slot) slots of
       Some _ \<Rightarrow> Err (invalid_compiled_graph role)
     | None \<Rightarrow> Ok ())"

definition expected_outputs :: "exec_op \<Rightarrow> nat" where
  "expected_outputs op = (case op of Ex_Extension ext \<Rightarrow> xo_output_count ext | _ \<Rightarrow> 1)"

definition validate_instruction :: "nat \<Rightarrow> exec_instruction \<Rightarrow> unit ires" where
  "validate_instruction n_slots inst =
    and_then (check_slots n_slots ''instruction input slot'' (ei_input_slots inst)) (\<lambda>_.
    and_then
      (case exec_op_input_arity_bounds (ei_op inst) of
         Some (min_inputs, max_inputs) \<Rightarrow>
           if length (ei_input_slots inst) < min_inputs \<or> max_inputs < length (ei_input_slots inst)
           then Err (invalid_compiled_graph ''instruction input arity'') else Ok ()
       | None \<Rightarrow> Ok ()) (\<lambda>_.
      if ei_output_slots inst = [] then Err (invalid_compiled_graph ''instruction has no output slots'')
      else
        and_then (check_slots n_slots ''instruction output slot'' (ei_output_slots inst)) (\<lambda>_.
          if length (ei_output_slots inst) \<noteq> expected_outputs (ei_op inst)
          then Err (invalid_compiled_graph ''instruction output slots'')
          else if length (ei_output_shapes inst) \<noteq> length (ei_output_slots inst)
          then Err (invalid_compiled_graph ''instruction output shape entries'')
          else if length (ei_output_extents inst) \<noteq> length (ei_output_slots inst)
          then Err (invalid_compiled_graph ''instruction output extent entries'')
          else if length (ei_input_slots inst) < length (ei_last_use inst)
          then Err (invalid_compiled_graph ''instruction last-use flags'')
          else Ok ())))"

definition validate_exec_program :: "exec_program \<Rightarrow> unit ires" where
  "validate_exec_program p =
    and_then (check_slots (ep_n_slots p) ''input slot'' (ep_input_slots p)) (\<lambda>_.
    and_then (check_slots (ep_n_slots p) ''output slot'' (ep_output_slots p)) (\<lambda>_.
      try_fold (\<lambda>_ inst. validate_instruction (ep_n_slots p) inst) () (ep_instructions p)))"

end
