(* ===== verification/Liveness_Passes.thy ===== *)
theory Liveness_Passes
  imports Exec_Program
begin

text \<open>
  The last passes of the compiler (\<open>compiler/mod.rs\<close>): dead code elimination keeps the instructions whose outputs
  are results or are read by an instruction kept, and the last uses mark the inputs an instruction may give up.
\<close>

section \<open>Slot tables\<close>

definition set_slot :: "string \<Rightarrow> 'a list \<Rightarrow> nat \<Rightarrow> 'a \<Rightarrow> 'a list ires" where
  "set_slot role table slot x =
    (if slot < length table then Ok (table[slot := x]) else Err (invalid_compiled_graph role))"

section \<open>Last uses and dead code\<close>

definition record_users :: "nat option list \<Rightarrow> nat \<times> exec_instruction \<Rightarrow> nat option list ires" where
  "record_users last_user e = (case e of (idx, instr) \<Rightarrow>
    try_fold (\<lambda>users slot. set_slot ''last-use input slot'' users slot (Some idx)) last_user (ei_input_slots instr))"

definition populate_last_use :: "exec_program \<Rightarrow> exec_program ires" where
  "populate_last_use p =
    and_then (try_fold (\<lambda>flags slot. set_slot ''last-use output slot'' flags slot True)
        (replicate (ep_n_slots p) False) (ep_output_slots p)) (\<lambda>output_slot.
    and_then (try_fold record_users (replicate (ep_n_slots p) None)
        (zip [0..<length (ep_instructions p)] (ep_instructions p))) (\<lambda>last_user.
      Ok (p\<lparr>ep_instructions := map (\<lambda>(idx, instr). instr\<lparr>ei_last_use :=
          map (\<lambda>slot. \<not> output_slot ! slot \<and> last_user ! slot = Some idx) (ei_input_slots instr)\<rparr>)
        (zip [0..<length (ep_instructions p)] (ep_instructions p))\<rparr>)))"

definition mark_live :: "bool list \<Rightarrow> nat \<Rightarrow> bool list" where
  "mark_live live slot = (live @ replicate (slot + 1 - length live) False)[slot := True]"

definition is_live :: "bool list \<Rightarrow> nat \<Rightarrow> bool" where
  "is_live live slot = (slot < length live \<and> live ! slot)"

fun keep_live :: "bool list \<Rightarrow> exec_instruction list \<Rightarrow> exec_instruction list \<Rightarrow> exec_instruction list" where
  "keep_live live [] kept = kept"
| "keep_live live (instr # before) kept =
    (if list_ex (is_live live) (ei_output_slots instr)
     then keep_live (foldl mark_live live (ei_input_slots instr)) before (instr # kept)
     else keep_live live before kept)"

definition eliminate_dead_code :: "exec_program \<Rightarrow> exec_program" where
  "eliminate_dead_code p =
    p\<lparr>ep_instructions := keep_live (foldl mark_live (replicate (ep_n_slots p) False) (ep_output_slots p))
      (rev (ep_instructions p)) []\<rparr>"

end
