(* ===== verification/Exec_Semantics.thy ===== *)
theory Exec_Semantics
  imports Liveness_Passes
begin

text \<open>
  Running an execution program over an arbitrary meaning \<open>sem\<close> of its operations, with and without
  reclaiming slots. A program is well formed when every slot has one producer that comes before its uses;
  then a run is the same as an assignment of values to slots under which every instruction holds, which is
  what the passes preserve.
\<close>

section \<open>Runs\<close>

type_synonym 'v store = "nat \<rightharpoonup> 'v"

definition exec_step ::
  "(exec_op \<Rightarrow> 'v list \<Rightarrow> 'v list option) \<Rightarrow> exec_instruction \<Rightarrow> 'v store \<Rightarrow> 'v store option" where
  "exec_step sem instr slots =
    Option.bind (those (map slots (ei_input_slots instr))) (\<lambda>vs.
    Option.bind (sem (ei_op instr) vs) (\<lambda>ws.
      if length ws = length (ei_output_slots instr) then Some (slots(ei_output_slots instr [\<mapsto>] ws)) else None))"

fun run_instructions ::
  "(exec_op \<Rightarrow> 'v list \<Rightarrow> 'v list option) \<Rightarrow> exec_instruction list \<Rightarrow> 'v store \<Rightarrow> 'v store option" where
  "run_instructions sem [] slots = Some slots"
| "run_instructions sem (instr # instrs) slots = Option.bind (exec_step sem instr slots) (run_instructions sem instrs)"

definition initial_store :: "exec_program \<Rightarrow> 'v list \<Rightarrow> 'v store" where
  "initial_store p inputs = Map.empty(ep_input_slots p [\<mapsto>] inputs)"

text \<open>\<open>collect_outputs_from\<close> takes the value out of its slot, so a slot listed twice has no value the second time.\<close>

fun collect_outputs :: "nat list \<Rightarrow> 'v store \<Rightarrow> 'v list option" where
  "collect_outputs [] slots = Some []"
| "collect_outputs (slot # outs) slots =
    (case slots slot of
       None \<Rightarrow> None
     | Some v \<Rightarrow> map_option (\<lambda>vs. v # vs) (collect_outputs outs (slots(slot := None))))"

definition program_result ::
  "(exec_op \<Rightarrow> 'v list \<Rightarrow> 'v list option) \<Rightarrow> exec_program \<Rightarrow> 'v list \<Rightarrow> 'v list option" where
  "program_result sem p inputs =
    (if length inputs \<noteq> length (ep_input_slots p) then None
     else Option.bind (run_instructions sem (ep_instructions p) (initial_store p inputs))
       (collect_outputs (ep_output_slots p)))"

text \<open>\<open>reclaim_last_use_inputs\<close>: after an instruction the slots it used last are taken.\<close>

definition reclaim_slots :: "exec_instruction \<Rightarrow> 'v store \<Rightarrow> 'v store" where
  "reclaim_slots instr slots =
    foldl (\<lambda>st (slot, is_last). if is_last then st(slot := None) else st) slots
      (zip (ei_input_slots instr) (ei_last_use instr))"

fun run_reclaiming ::
  "(exec_op \<Rightarrow> 'v list \<Rightarrow> 'v list option) \<Rightarrow> exec_instruction list \<Rightarrow> 'v store \<Rightarrow> 'v store option" where
  "run_reclaiming sem [] slots = Some slots"
| "run_reclaiming sem (instr # instrs) slots =
    Option.bind (exec_step sem instr slots) (\<lambda>slots'. run_reclaiming sem instrs (reclaim_slots instr slots'))"

definition reclaimed_result ::
  "(exec_op \<Rightarrow> 'v list \<Rightarrow> 'v list option) \<Rightarrow> exec_program \<Rightarrow> 'v list \<Rightarrow> 'v list option" where
  "reclaimed_result sem p inputs =
    (if validate_exec_program p \<noteq> Ok () \<or> length inputs \<noteq> length (ep_input_slots p) then None
     else Option.bind (run_reclaiming sem (ep_instructions p) (initial_store p inputs))
       (collect_outputs (ep_output_slots p)))"

section \<open>Well-formed programs\<close>

definition defs :: "exec_instruction list \<Rightarrow> nat set" where
  "defs instrs = set (concat (map ei_output_slots instrs))"

definition ordered :: "nat set \<Rightarrow> exec_instruction list \<Rightarrow> bool" where
  "ordered D instrs \<longleftrightarrow> (\<forall>k < length instrs. set (ei_input_slots (instrs ! k)) \<subseteq> D \<union> defs (take k instrs))"

definition well_formed :: "exec_program \<Rightarrow> bool" where
  "well_formed p \<longleftrightarrow> distinct (ep_input_slots p) \<and> distinct (concat (map ei_output_slots (ep_instructions p))) \<and>
    set (ep_input_slots p) \<inter> defs (ep_instructions p) = {} \<and> ordered (set (ep_input_slots p)) (ep_instructions p) \<and>
    set (ep_output_slots p) \<subseteq> set (ep_input_slots p) \<union> defs (ep_instructions p) \<and>
    set (ep_input_slots p) \<union> defs (ep_instructions p) \<subseteq> {..<ep_n_slots p}"

lemma defs_simps [simp]: "defs [] = {}" "defs (i # is) = set (ei_output_slots i) \<union> defs is"
  "defs (xs @ ys) = defs xs \<union> defs ys"
  by (auto simp: defs_def)

lemma defs_take: "defs (take k is) \<subseteq> defs is"
  by (metis append_take_drop_id defs_simps(3) Un_upper1)

lemma defs_conv: "s \<in> defs is \<longleftrightarrow> (\<exists>j < length is. s \<in> set (ei_output_slots (is ! j)))"
proof -
  have "s \<in> defs is \<longleftrightarrow> (\<exists>i \<in> set is. s \<in> set (ei_output_slots i))" by (simp add: defs_def)
  also have "\<dots> \<longleftrightarrow> (\<exists>j < length is. s \<in> set (ei_output_slots (is ! j)))" unfolding set_conv_nth [of "is"] by blast
  finally show ?thesis .
qed

lemma defs_take_conv: "s \<in> defs (take k is) \<longleftrightarrow> (\<exists>j < length is. j < k \<and> s \<in> set (ei_output_slots (is ! j)))"
  by (auto simp: defs_conv min_less_iff_conj)

lemma ordered_Nil [simp]: "ordered D []"
  by (simp add: ordered_def)

lemma ordered_append:
  "ordered D (xs @ [i]) \<longleftrightarrow> ordered D xs \<and> set (ei_input_slots i) \<subseteq> D \<union> defs xs"
  by (auto simp: ordered_def nth_append less_Suc_eq)

lemma ordered_Cons:
  "ordered D (i # is) \<longleftrightarrow> set (ei_input_slots i) \<subseteq> D \<and> ordered (D \<union> set (ei_output_slots i)) is"
proof
  assume o: "ordered D (i # is)"
  have "set (ei_input_slots i) \<subseteq> D" using o [unfolded ordered_def, rule_format, of 0] by simp
  moreover have "ordered (D \<union> set (ei_output_slots i)) is"
    unfolding ordered_def using o [unfolded ordered_def, rule_format, of "Suc k" for k] by (simp add: Un_assoc)
  ultimately show "set (ei_input_slots i) \<subseteq> D \<and> ordered (D \<union> set (ei_output_slots i)) is" by simp
next
  assume "set (ei_input_slots i) \<subseteq> D \<and> ordered (D \<union> set (ei_output_slots i)) is"
  then show "ordered D (i # is)"
    unfolding ordered_def by (auto simp: nth_Cons less_Suc_eq_0_disj split: nat.splits)
qed

lemma ordered_same_slots:
  assumes "map ei_input_slots is = map ei_input_slots js" and "map ei_output_slots is = map ei_output_slots js"
  shows "ordered D is = ordered D js"
proof -
  have len: "length is = length js" using assms(1) by (rule map_eq_imp_length_eq)
  have "ei_input_slots (is ! k) = ei_input_slots (js ! k)" if "k < length js" for k
    using arg_cong [OF assms(1), of "\<lambda>xs. xs ! k"] that len by simp
  moreover have "defs (take k is) = defs (take k js)" for k
    using arg_cong [OF assms(2), of "take k"] by (simp add: defs_def take_map)
  ultimately show ?thesis by (simp add: ordered_def len)
qed

section \<open>Values of slots\<close>

definition holds :: "(exec_op \<Rightarrow> 'v list \<Rightarrow> 'v list option) \<Rightarrow> 'v store \<Rightarrow> exec_instruction \<Rightarrow> bool" where
  "holds sem slots i \<longleftrightarrow> (\<exists>vs ws. map slots (ei_input_slots i) = map Some vs \<and> sem (ei_op i) vs = Some ws \<and>
    map slots (ei_output_slots i) = map Some ws)"

lemma those_Some_list [simp]: "those (map Some ys) = Some ys"
  by (induction ys) simp_all

lemma those_SomeD: "those xs = Some ys \<Longrightarrow> xs = map Some ys"
proof (induction xs arbitrary: ys)
  case (Cons x xs)
  then obtain y zs where "x = Some y" "those xs = Some zs" "ys = y # zs" by (auto split: option.splits)
  then show ?case using Cons.IH by simp
qed simp

lemma those_eq_Some: "those xs = Some ys \<longleftrightarrow> xs = map Some ys"
  using those_SomeD by auto

lemma exec_step_eq_Some:
  "exec_step sem i st = Some st' \<longleftrightarrow> (\<exists>vs ws. map st (ei_input_slots i) = map Some vs \<and> sem (ei_op i) vs = Some ws \<and>
    length ws = length (ei_output_slots i) \<and> st' = st(ei_output_slots i [\<mapsto>] ws))"
  by (auto simp: exec_step_def bind_eq_Some_conv those_eq_Some)

lemma map_upds_apply_zip: "distinct xs \<Longrightarrow> length xs = length ys \<Longrightarrow> map (m(xs [\<mapsto>] ys)) xs = map Some ys"
proof (induction xs arbitrary: m ys)
  case (Cons x xs)
  then obtain y zs where ys: "ys = y # zs" "length xs = length zs" by (cases ys) auto
  have "(m(x \<mapsto> y, xs [\<mapsto>] zs)) x = Some y" using Cons.prems(1) by (simp add: map_upds_apply_nontin)
  moreover have "map ((m(x \<mapsto> y))(xs [\<mapsto>] zs)) xs = map Some zs" using Cons.IH [OF _ ys(2)] Cons.prems(1) by simp
  ultimately show ?case unfolding ys(1) by (simp only: map_upds_Cons list.map)
qed simp

lemma map_upds_other: "x \<notin> set xs \<Longrightarrow> (m(xs [\<mapsto>] ys)) x = m x"
  by (simp add: map_upds_apply_nontin)

lemma run_holds:
  assumes "run_instructions sem is st = Some st'" and "ordered D is" and "distinct (concat (map ei_output_slots is))"
    and "D \<inter> defs is = {}"
  shows "(\<forall>i \<in> set is. holds sem st' i) \<and> (\<forall>s. s \<notin> defs is \<longrightarrow> st' s = st s)"
  using assms
proof (induction "is" arbitrary: st D)
  case (Cons i "is")
  from Cons.prems(1) obtain st1 where s: "exec_step sem i st = Some st1" and r: "run_instructions sem is st1 = Some st'"
    by (auto simp: bind_eq_Some_conv)
  from s obtain vs ws where v: "map st (ei_input_slots i) = map Some vs" "sem (ei_op i) vs = Some ws"
    "length ws = length (ei_output_slots i)" "st1 = st(ei_output_slots i [\<mapsto>] ws)" by (auto simp: exec_step_eq_Some)
  have o: "set (ei_input_slots i) \<subseteq> D" "ordered (D \<union> set (ei_output_slots i)) is" using Cons.prems(2) by (simp_all add: ordered_Cons)
  have d: "distinct (ei_output_slots i)" "set (ei_output_slots i) \<inter> defs is = {}" "distinct (concat (map ei_output_slots is))"
    using Cons.prems(3) by (auto simp: defs_def)
  have "(D \<union> set (ei_output_slots i)) \<inter> defs is = {}" using Cons.prems(4) d(2) by auto
  from Cons.IH [OF r o(2) d(3) this] have ih: "\<forall>i \<in> set is. holds sem st' i" "\<forall>s. s \<notin> defs is \<longrightarrow> st' s = st1 s" by auto
  have "st' s = st s" if "s \<in> set (ei_input_slots i)" for s
  proof -
    have "s \<notin> set (ei_output_slots i)" "s \<notin> defs is" using that o(1) Cons.prems(4) by auto
    then show ?thesis using ih(2) v(4) by (simp add: map_upds_other)
  qed
  then have "map st' (ei_input_slots i) = map Some vs" unfolding v(1) [symmetric] by simp
  moreover have "map st' (ei_output_slots i) = map st1 (ei_output_slots i)" using ih(2) d(2) by auto
  then have "map st' (ei_output_slots i) = map Some ws"
    by (rule trans) (simp only: v(4) map_upds_apply_zip [OF d(1) v(3) [symmetric]])
  ultimately have "holds sem st' i" using v(2) by (auto simp: holds_def)
  then show ?case using ih v(4) by (auto simp: map_upds_other)
qed simp

lemma holds_run:
  assumes "\<forall>i \<in> set is. holds sem m i" and "ordered D is" and "\<forall>s \<in> D. st s = m s"
  shows "\<exists>st'. run_instructions sem is st = Some st' \<and> (\<forall>s \<in> D \<union> defs is. st' s = m s)"
  using assms
proof (induction "is" arbitrary: st D)
  case (Cons i "is")
  have o: "set (ei_input_slots i) \<subseteq> D" "ordered (D \<union> set (ei_output_slots i)) is" using Cons.prems(2) by (simp_all add: ordered_Cons)
  from Cons.prems(1) obtain vs ws where v: "map m (ei_input_slots i) = map Some vs" "sem (ei_op i) vs = Some ws"
    "map m (ei_output_slots i) = map Some ws" by (auto simp: holds_def)
  have l: "length ws = length (ei_output_slots i)" using arg_cong [OF v(3), of length] by simp
  have "map st (ei_input_slots i) = map Some vs" unfolding v(1) [symmetric] using o(1) Cons.prems(3) by auto
  then have s: "exec_step sem i st = Some (st(ei_output_slots i [\<mapsto>] ws))" using v(2) l by (auto simp: exec_step_eq_Some)
  have "(st(ei_output_slots i [\<mapsto>] ws)) s = m s" if "s \<in> D \<union> set (ei_output_slots i)" for s
  proof (cases "s \<in> set (ei_output_slots i)")
    case False
    then show ?thesis using that Cons.prems(3) by (auto simp: map_upds_other)
  next
    case True
    have "\<lbrakk>map m xs = map Some ys; x \<in> set xs\<rbrakk> \<Longrightarrow> (t(xs [\<mapsto>] ys)) x = m x" for xs ys x and t :: "'a store"
    proof (induction xs arbitrary: ys t)
      case (Cons a xs)
      then obtain y zs where ys: "ys = y # zs" "m a = Some y" "map m xs = map Some zs" by (cases ys) auto
      show ?case
      proof (cases "x \<in> set xs")
        case True
        then show ?thesis using Cons.IH [OF ys(3)] ys(1) by simp
      next
        case False
        then show ?thesis using Cons.prems(2) ys by (simp add: map_upds_other)
      qed
    qed simp
    then show ?thesis using v(3) True .
  qed
  then have "\<forall>s \<in> D \<union> set (ei_output_slots i). (st(ei_output_slots i [\<mapsto>] ws)) s = m s" by blast
  from Cons.IH [OF _ o(2) this] Cons.prems(1) obtain st' where
    "run_instructions sem is (st(ei_output_slots i [\<mapsto>] ws)) = Some st'" "\<forall>s \<in> D \<union> set (ei_output_slots i) \<union> defs is. st' s = m s"
    by auto
  then show ?case using s by (auto simp: Un_assoc)
qed simp

text \<open>The values of the slots of a run, and back.\<close>

definition valuation :: "(exec_op \<Rightarrow> 'v list \<Rightarrow> 'v list option) \<Rightarrow> exec_program \<Rightarrow> 'v list \<Rightarrow> 'v store \<Rightarrow> bool" where
  "valuation sem p inputs m \<longleftrightarrow> map m (ep_input_slots p) = map Some inputs \<and> (\<forall>i \<in> set (ep_instructions p). holds sem m i)"

lemma initial_store_inputs:
  "distinct (ep_input_slots p) \<Longrightarrow> length inputs = length (ep_input_slots p) \<Longrightarrow>
    map (initial_store p inputs) (ep_input_slots p) = map Some inputs"
  unfolding initial_store_def by (rule map_upds_apply_zip) simp_all

lemma collect_outputs_eq_Some:
  "collect_outputs outs st = Some vs \<longleftrightarrow> distinct outs \<and> map st outs = map Some vs"
proof (induction outs arbitrary: st vs)
  case (Cons s outs)
  have cleared: "distinct outs \<and> map (st(s := None)) outs = map Some ws \<longleftrightarrow>
      distinct (s # outs) \<and> map st outs = map Some ws" for ws
  proof
    assume l: "distinct outs \<and> map (st(s := None)) outs = map Some ws"
    have "s \<notin> set outs"
    proof
      assume "s \<in> set outs"
      then have "None \<in> set (map (st(s := None)) outs)" by force
      with l show False by auto
    qed
    then show "distinct (s # outs) \<and> map st outs = map Some ws" using l by simp
  qed simp
  show ?case
  proof (cases "st s")
    case (Some v)
    have "collect_outputs (s # outs) st = Some vs \<longleftrightarrow> (\<exists>ws. collect_outputs outs (st(s := None)) = Some ws \<and> vs = v # ws)"
      using Some by (auto simp del: fun_upd_apply)
    also have "\<dots> \<longleftrightarrow> (\<exists>ws. distinct (s # outs) \<and> map st outs = map Some ws \<and> vs = v # ws)"
      unfolding Cons.IH by (simp only: cleared conj_assoc [symmetric])
    also have "\<dots> \<longleftrightarrow> distinct (s # outs) \<and> map st (s # outs) = map Some vs"
      using Some by (cases vs) auto
    finally show ?thesis .
  qed (cases vs; simp)
qed auto

lemma collect_outputs_cong:
  "\<forall>s \<in> set outs. st s = st' s \<Longrightarrow> collect_outputs outs st = collect_outputs outs st'"
proof (induction outs arbitrary: st st')
  case (Cons s outs)
  have "collect_outputs outs (st(s := None)) = collect_outputs outs (st'(s := None))"
    by (rule Cons.IH) (use Cons.prems in simp)
  then show ?case using Cons.prems by (simp split: option.split del: fun_upd_apply)
qed simp

lemma program_result_valuation:
  assumes "well_formed p" and "program_result sem p inputs = Some results"
  shows "\<exists>m. valuation sem p inputs m \<and> map m (ep_output_slots p) = map Some results \<and> distinct (ep_output_slots p)"
proof -
  from assms(2) obtain st where l: "length inputs = length (ep_input_slots p)"
    and r: "run_instructions sem (ep_instructions p) (initial_store p inputs) = Some st"
    and o: "map st (ep_output_slots p) = map Some results" "distinct (ep_output_slots p)"
    by (auto simp: program_result_def bind_eq_Some_conv collect_outputs_eq_Some split: if_splits)
  have wf: "ordered (set (ep_input_slots p)) (ep_instructions p)" "distinct (concat (map ei_output_slots (ep_instructions p)))"
    "set (ep_input_slots p) \<inter> defs (ep_instructions p) = {}" "distinct (ep_input_slots p)"
    using assms(1) by (simp_all add: well_formed_def)
  note h = run_holds [OF r wf(1-3)]
  have "map st (ep_input_slots p) = map (initial_store p inputs) (ep_input_slots p)" using h wf(3) by auto
  then show ?thesis using h o initial_store_inputs [OF wf(4) l] by (auto simp: valuation_def)
qed

lemma valuation_program_result:
  assumes "well_formed p" and v: "valuation sem p inputs m" and o: "map m (ep_output_slots p) = map Some results"
    and d: "distinct (ep_output_slots p)"
  shows "program_result sem p inputs = Some results"
proof -
  have l: "length inputs = length (ep_input_slots p)" using v by (auto simp: valuation_def dest: map_eq_imp_length_eq)
  have wf: "ordered (set (ep_input_slots p)) (ep_instructions p)" "distinct (ep_input_slots p)"
    "set (ep_output_slots p) \<subseteq> set (ep_input_slots p) \<union> defs (ep_instructions p)" using assms(1) by (simp_all add: well_formed_def)
  have "map (initial_store p inputs) (ep_input_slots p) = map m (ep_input_slots p)"
    using initial_store_inputs [OF wf(2) l] v by (simp add: valuation_def)
  then have "\<forall>s \<in> set (ep_input_slots p). initial_store p inputs s = m s" by simp
  moreover have "\<forall>i \<in> set (ep_instructions p). holds sem m i" using v by (simp add: valuation_def)
  ultimately obtain st where
    r: "run_instructions sem (ep_instructions p) (initial_store p inputs) = Some st"
    and st: "\<forall>s \<in> set (ep_input_slots p) \<union> defs (ep_instructions p). st s = m s"
    using holds_run [OF _ wf(1)] by metis
  have "map st (ep_output_slots p) = map Some results" unfolding o [symmetric] using wf(3) st by auto
  then show ?thesis using l r d by (simp add: program_result_def collect_outputs_eq_Some)
qed

end
