(* ===== verification/Exec_Liveness.thy ===== *)
theory Exec_Liveness
  imports Exec_Semantics "HOL-Library.Sublist"
begin

text \<open>
  Dead code elimination and last uses: the instructions kept compute the same outputs and are all needed, and
  a run that gives up every slot at its last use computes what a run that keeps all slots does.
\<close>

section \<open>Dead code\<close>

lemma is_live_mark [simp]: "is_live (mark_live live slot) s \<longleftrightarrow> s = slot \<or> is_live live s"
  by (auto simp: is_live_def mark_live_def nth_list_update nth_append)

lemma is_live_marks [simp]: "is_live (foldl mark_live live slots) s \<longleftrightarrow> s \<in> set slots \<or> is_live live s"
  by (induction slots arbitrary: live) auto

lemma is_live_none [simp]: "\<not> is_live (replicate n False) s"
  by (simp add: is_live_def)

lemma keep_live_append: "keep_live live xs (ks @ kept) = keep_live live xs ks @ kept"
  by (induction live xs ks rule: keep_live.induct) (simp_all flip: append_Cons)

lemma keep_live_kept: "keep_live live xs kept = keep_live live xs [] @ kept"
  using keep_live_append [of live xs "[]" kept] by simp

lemma keep_live_snoc:
  "keep_live live (rev (is @ [i])) [] =
    (if \<exists>s \<in> set (ei_output_slots i). is_live live s
     then keep_live (foldl mark_live live (ei_input_slots i)) (rev is) [] @ [i] else keep_live live (rev is) [])"
  using keep_live_kept [of "foldl mark_live live (ei_input_slots i)" "rev is" "[i]"] by (auto simp: list_ex_iff)

lemma keep_live_subseq: "subseq (keep_live live (rev is) []) is"
  by (induction "is" arbitrary: live rule: rev_induct) (auto simp: keep_live_snoc simp del: rev_append intro: subseq_order.order_trans)

lemma set_subseq: "subseq xs ys \<Longrightarrow> set xs \<subseteq> set ys"
  by (auto elim: list_emb_set)

lemma subseq_defs: "subseq xs ys \<Longrightarrow> defs xs \<subseteq> defs ys"
  by (auto simp: defs_def dest!: set_subseq)

lemma subseq_distinct_outputs:
  fixes xs ys :: "exec_instruction list"
  shows "subseq xs ys \<Longrightarrow> distinct (concat (map ei_output_slots ys)) \<Longrightarrow> distinct (concat (map ei_output_slots xs))"
proof (induction rule: list_emb.induct)
  case (list_emb_Cons2 x y xs ys)
  have "defs xs \<subseteq> defs ys" by (rule subseq_defs) (use list_emb_Cons2 in simp)
  then show ?case using list_emb_Cons2 by (auto simp: defs_def)
qed auto

lemma keep_live_ordered:
  "ordered D is \<Longrightarrow> ordered D (keep_live live (rev is) []) \<and>
    {s. is_live live s} \<inter> defs is \<subseteq> defs (keep_live live (rev is) [])"
proof (induction "is" arbitrary: live rule: rev_induct)
  case (snoc i "is")
  have o: "ordered D is" "set (ei_input_slots i) \<subseteq> D \<union> defs is" using snoc.prems by (simp_all add: ordered_append)
  show ?case
  proof (cases "\<exists>s \<in> set (ei_output_slots i). is_live live s")
    case True
    let ?live = "foldl mark_live live (ei_input_slots i)"
    have "ordered D (keep_live ?live (rev is) [])" "{s. is_live ?live s} \<inter> defs is \<subseteq> defs (keep_live ?live (rev is) [])"
      using snoc.IH [OF o(1), of ?live] by auto
    then show ?thesis using True o(2) by (auto simp: keep_live_snoc ordered_append simp del: rev_append)
  next
    case False
    then show ?thesis using snoc.IH [OF o(1), of live] by (auto simp: keep_live_snoc simp del: rev_append)
  qed
qed simp

lemma eliminate_dead_code_fields [simp]:
  "ep_input_slots (eliminate_dead_code p) = ep_input_slots p"
  "ep_output_slots (eliminate_dead_code p) = ep_output_slots p"
  "ep_n_slots (eliminate_dead_code p) = ep_n_slots p"
  by (simp_all add: eliminate_dead_code_def)

lemma eliminate_dead_code_subseq: "subseq (ep_instructions (eliminate_dead_code p)) (ep_instructions p)"
  by (simp add: eliminate_dead_code_def keep_live_subseq)

lemma eliminate_dead_code_well_formed:
  assumes "well_formed p"
  shows "well_formed (eliminate_dead_code p)"
proof -
  note wf = assms [unfolded well_formed_def]
  have "defs (ep_instructions (eliminate_dead_code p)) \<subseteq> defs (ep_instructions p)"
    by (rule subseq_defs [OF eliminate_dead_code_subseq])
  moreover have "ordered (set (ep_input_slots p)) (ep_instructions (eliminate_dead_code p))"
    and "set (ep_output_slots p) \<inter> defs (ep_instructions p) \<subseteq> defs (ep_instructions (eliminate_dead_code p))"
    using keep_live_ordered [of "set (ep_input_slots p)" "ep_instructions p"
        "foldl mark_live (replicate (ep_n_slots p) False) (ep_output_slots p)"] wf
    by (auto simp: eliminate_dead_code_def)
  moreover have "distinct (concat (map ei_output_slots (ep_instructions (eliminate_dead_code p))))"
    using subseq_distinct_outputs [OF eliminate_dead_code_subseq] wf by blast
  ultimately show ?thesis using wf unfolding well_formed_def eliminate_dead_code_fields by blast
qed

lemma eliminate_dead_code_valuation:
  "valuation sem p inputs m \<Longrightarrow> valuation sem (eliminate_dead_code p) inputs m"
  using set_subseq [OF eliminate_dead_code_subseq [of p]] by (auto simp: valuation_def)

text \<open>Every instruction kept has an output that is a result or that a later instruction kept reads.\<close>

definition needed :: "nat set \<Rightarrow> exec_instruction list \<Rightarrow> bool" where
  "needed live instrs \<longleftrightarrow> (\<forall>k < length instrs. \<exists>s \<in> set (ei_output_slots (instrs ! k)).
    s \<in> live \<or> (\<exists>j < length instrs. k < j \<and> s \<in> set (ei_input_slots (instrs ! j))))"

lemma needed_snoc:
  assumes "needed (set (ei_input_slots i) \<union> live) is" and "s \<in> set (ei_output_slots i)" "s \<in> live"
  shows "needed live (is @ [i])"
  unfolding needed_def
proof (intro allI impI)
  fix k assume k: "k < length (is @ [i])"
  show "\<exists>s \<in> set (ei_output_slots ((is @ [i]) ! k)).
    s \<in> live \<or> (\<exists>j < length (is @ [i]). k < j \<and> s \<in> set (ei_input_slots ((is @ [i]) ! j)))"
  proof (cases "k = length is")
    case True
    then show ?thesis using assms(2,3) by auto
  next
    case False
    then have k': "k < length is" using k by simp
    from assms(1) [unfolded needed_def, rule_format, OF this] obtain s where s: "s \<in> set (ei_output_slots (is ! k))"
      "s \<in> set (ei_input_slots i) \<or> s \<in> live \<or> (\<exists>j < length is. k < j \<and> s \<in> set (ei_input_slots (is ! j)))"
      by (meson UnE)
    consider "s \<in> set (ei_input_slots i)" | "s \<in> live" | j where "j < length is" "k < j" "s \<in> set (ei_input_slots (is ! j))"
      using s(2) by auto
    then have "s \<in> live \<or> (\<exists>j < length (is @ [i]). k < j \<and> s \<in> set (ei_input_slots ((is @ [i]) ! j)))"
    proof cases
      case 1
      then show ?thesis using k' by (intro disjI2 exI [of _ "length is"]) simp
    next
      case 3
      then show ?thesis by (intro disjI2 exI [of _ j]) (simp add: nth_append)
    qed simp
    then show ?thesis using s(1) k' by (intro bexI [of _ s]) (simp_all add: nth_append)
  qed
qed

lemma keep_live_needed: "needed {s. is_live live s} (keep_live live (rev is) [])"
proof (induction "is" arbitrary: live rule: rev_induct)
  case Nil
  then show ?case by (simp add: needed_def)
next
  case (snoc i "is")
  show ?case
  proof (cases "\<exists>s \<in> set (ei_output_slots i). is_live live s")
    case True
    then obtain s where "s \<in> set (ei_output_slots i)" "is_live live s" by auto
    moreover have "needed (set (ei_input_slots i) \<union> {s. is_live live s})
        (keep_live (foldl mark_live live (ei_input_slots i)) (rev is) [])"
      using snoc.IH [of "foldl mark_live live (ei_input_slots i)"] by (simp add: Collect_disj_eq)
    ultimately show ?thesis using True needed_snoc by (simp add: keep_live_snoc del: rev_append)
  qed (use snoc.IH in \<open>simp add: keep_live_snoc del: rev_append\<close>)
qed

lemma eliminate_dead_code_needed:
  "needed (set (ep_output_slots p)) (ep_instructions (eliminate_dead_code p))"
  using keep_live_needed [of "foldl mark_live (replicate (ep_n_slots p) False) (ep_output_slots p)" "ep_instructions p"]
  by (simp add: eliminate_dead_code_def)

section \<open>Last uses\<close>

lemma set_slot_Ok [simp]: "set_slot role table slot x = Ok t \<longleftrightarrow> slot < length table \<and> t = table[slot := x]"
  by (auto simp: set_slot_def)

lemma set_slots_fold:
  "try_fold (\<lambda>t slot. set_slot role t slot x) table slots = Ok t \<longleftrightarrow>
    (\<forall>s \<in> set slots. s < length table) \<and> t = foldl (\<lambda>t slot. t[slot := x]) table slots"
  by (induction slots arbitrary: table) auto

lemma length_list_updates [simp]: "length (foldl (\<lambda>t slot. t[slot := x]) table slots) = length table"
  by (induction slots arbitrary: table) simp_all

lemma nth_list_updates:
  "s < length table \<Longrightarrow> foldl (\<lambda>t slot. t[slot := x]) table slots ! s = (if s \<in> set slots then x else table ! s)"
  by (induction slots arbitrary: table) (auto simp: nth_list_update)

text \<open>The table of last users maps a slot to the last instruction that reads it.\<close>

definition last_reader :: "exec_instruction list \<Rightarrow> nat \<Rightarrow> nat option \<Rightarrow> bool" where
  "last_reader is s r \<longleftrightarrow> (case r of
     None \<Rightarrow> \<forall>k < length is. s \<notin> set (ei_input_slots (is ! k))
   | Some k \<Rightarrow> k < length is \<and> s \<in> set (ei_input_slots (is ! k)) \<and>
       (\<forall>j < length is. k < j \<longrightarrow> s \<notin> set (ei_input_slots (is ! j))))"

lemma last_users_fold:
  "try_fold record_users (replicate n None) (zip [0..<length is] is) = Ok users \<Longrightarrow>
    length users = n \<and> (\<forall>k < length is. \<forall>s \<in> set (ei_input_slots (is ! k)). s < n) \<and>
    (\<forall>s < n. last_reader is s (users ! s))"
proof (induction "is" arbitrary: users rule: rev_induct)
  case Nil
  then show ?case by (auto simp: last_reader_def)
next
  case (snoc i "is")
  have z: "zip [0..<length (is @ [i])] (is @ [i]) = zip [0..<length is] is @ [(length is, i)]" by simp
  from snoc.prems obtain users1 where u1: "try_fold record_users (replicate n None) (zip [0..<length is] is) = Ok users1"
    and step: "record_users users1 (length is, i) = Ok users"
    unfolding z try_fold_append by auto
  note ih = snoc.IH [OF u1]
  from step ih have r: "\<forall>s \<in> set (ei_input_slots i). s < n"
    and u: "users = foldl (\<lambda>t slot. t[slot := Some (length is)]) users1 (ei_input_slots i)"
    by (simp_all add: record_users_def set_slots_fold)
  have "last_reader (is @ [i]) s (users ! s)" if "s < n" for s
  proof (cases "s \<in> set (ei_input_slots i)")
    case True
    then show ?thesis using that ih by (simp add: u nth_list_updates last_reader_def)
  next
    case False
    then have "users ! s = users1 ! s" using that ih by (simp add: u nth_list_updates)
    moreover have "last_reader is s (users1 ! s)" using that ih by blast
    ultimately show ?thesis using False
      by (cases "users1 ! s") (simp_all add: last_reader_def nth_append All_less_Suc less_Suc_eq)
  qed
  moreover have "\<forall>k < length (is @ [i]). \<forall>s \<in> set (ei_input_slots ((is @ [i]) ! k)). s < n"
    using ih r by (auto simp: nth_append less_Suc_eq)
  ultimately show ?case using ih u by simp
qed

lemma populate_last_use_Ok:
  assumes "populate_last_use p = Ok p'"
  shows "\<exists>flags. ep_instructions p' = map (\<lambda>k. (ep_instructions p ! k)\<lparr>ei_last_use := flags k\<rparr>) [0..<length (ep_instructions p)] \<and>
      (\<forall>k < length (ep_instructions p). flags k = map (\<lambda>s. s \<notin> set (ep_output_slots p) \<and>
        (\<forall>j < length (ep_instructions p). k < j \<longrightarrow> s \<notin> set (ei_input_slots (ep_instructions p ! j))))
        (ei_input_slots (ep_instructions p ! k)))"
    and "ep_input_slots p' = ep_input_slots p" and "ep_output_slots p' = ep_output_slots p"
    and "ep_n_slots p' = ep_n_slots p"
proof -
  let ?is = "ep_instructions p" and ?n = "ep_n_slots p"
  from assms obtain out users where
    o: "try_fold (\<lambda>flags slot. set_slot ''last-use output slot'' flags slot True) (replicate ?n False) (ep_output_slots p) = Ok out"
    and u: "try_fold record_users (replicate ?n None) (zip [0..<length ?is] ?is) = Ok users"
    and p': "p' = p\<lparr>ep_instructions := map (\<lambda>(idx, instr). instr\<lparr>ei_last_use :=
          map (\<lambda>slot. \<not> out ! slot \<and> users ! slot = Some idx) (ei_input_slots instr)\<rparr>) (zip [0..<length ?is] ?is)\<rparr>"
    by (auto simp: populate_last_use_def)
  note U = last_users_fold [OF u]
  have out: "out ! s \<longleftrightarrow> s \<in> set (ep_output_slots p)" if "s < ?n" for s
    using o that by (simp add: set_slots_fold nth_list_updates)
  show "ep_input_slots p' = ep_input_slots p" "ep_output_slots p' = ep_output_slots p" "ep_n_slots p' = ep_n_slots p"
    by (simp_all add: p')
  have "map (\<lambda>slot. \<not> out ! slot \<and> users ! slot = Some k) (ei_input_slots (?is ! k)) =
      map (\<lambda>s. s \<notin> set (ep_output_slots p) \<and> (\<forall>j < length ?is. k < j \<longrightarrow> s \<notin> set (ei_input_slots (?is ! j))))
        (ei_input_slots (?is ! k))" if k: "k < length ?is" for k
  proof (rule map_cong [OF refl])
    fix s assume s: "s \<in> set (ei_input_slots (?is ! k))"
    then have sn: "s < ?n" and l: "last_reader ?is s (users ! s)" using U k by auto
    have "users ! s = Some k \<longleftrightarrow> (\<forall>j < length ?is. k < j \<longrightarrow> s \<notin> set (ei_input_slots (?is ! j)))"
    proof (cases "users ! s")
      case None
      then show ?thesis using l s k by (auto simp: last_reader_def)
    next
      case (Some m)
      then have m: "m < length ?is" "s \<in> set (ei_input_slots (?is ! m))"
        "\<forall>j < length ?is. m < j \<longrightarrow> s \<notin> set (ei_input_slots (?is ! j))" using l by (auto simp: last_reader_def)
      then have "k \<le> m" using s k by (metis not_le)
      then show ?thesis using m Some by (auto simp: le_less)
    qed
    then show "(\<not> out ! s \<and> users ! s = Some k) = (s \<notin> set (ep_output_slots p) \<and>
        (\<forall>j < length ?is. k < j \<longrightarrow> s \<notin> set (ei_input_slots (?is ! j))))" using out [OF sn] by simp
  qed
  then show "\<exists>flags. ep_instructions p' = map (\<lambda>k. (?is ! k)\<lparr>ei_last_use := flags k\<rparr>) [0..<length ?is] \<and>
      (\<forall>k < length ?is. flags k = map (\<lambda>s. s \<notin> set (ep_output_slots p) \<and>
        (\<forall>j < length ?is. k < j \<longrightarrow> s \<notin> set (ei_input_slots (?is ! j)))) (ei_input_slots (?is ! k)))"
    by (intro exI [of _ "\<lambda>k. map (\<lambda>slot. \<not> out ! slot \<and> users ! slot = Some k) (ei_input_slots (?is ! k))"])
      (auto simp: p' intro: nth_equalityI)
qed

section \<open>Giving slots up\<close>

lemma reclaim_fold:
  "foldl (\<lambda>st (slot, is_last). if is_last then st(slot := None) else st) st es s =
    (if (s, True) \<in> set es then None else st s)"
proof (induction es arbitrary: st)
  case (Cons e es)
  then show ?case by (cases e) auto
qed simp

lemma reclaim_slots_apply:
  "reclaim_slots i st s = (if (s, True) \<in> set (zip (ei_input_slots i) (ei_last_use i)) then None else st s)"
  by (simp add: reclaim_slots_def reclaim_fold)

fun flags_exact :: "nat set \<Rightarrow> exec_instruction list \<Rightarrow> bool" where
  "flags_exact outs [] \<longleftrightarrow> True"
| "flags_exact outs (i # is) \<longleftrightarrow>
    (\<forall>s. (s, True) \<in> set (zip (ei_input_slots i) (ei_last_use i)) \<longleftrightarrow>
      s \<in> set (ei_input_slots i) \<and> s \<notin> outs \<and> (\<forall>j \<in> set is. s \<notin> set (ei_input_slots j))) \<and> flags_exact outs is"

lemma flags_exact_nth:
  assumes "\<forall>k < length is. ei_last_use (is ! k) = map (\<lambda>s. s \<notin> outs \<and>
      (\<forall>j < length is. k < j \<longrightarrow> s \<notin> set (ei_input_slots (is ! j)))) (ei_input_slots (is ! k))"
  shows "flags_exact outs is"
  using assms
proof (induction "is")
  case (Cons i "is")
  let ?later = "\<lambda>is k s. \<forall>j < length is. k < j \<longrightarrow> s \<notin> set (ei_input_slots (is ! j))"
  have later: "?later (i # is) (Suc k) s \<longleftrightarrow> ?later is k s"
    "?later (i # is) 0 s \<longleftrightarrow> (\<forall>j \<in> set is. s \<notin> set (ei_input_slots j))" for k s
    by (simp_all add: All_less_Suc2 all_set_conv_all_nth del: nth_Cons')
  have "ei_last_use (is ! k) = map (\<lambda>s. s \<notin> outs \<and> ?later is k s) (ei_input_slots (is ! k))" if "k < length is" for k
    using Cons.prems [rule_format, of "Suc k", unfolded later nth_Cons_Suc] that by simp
  then have "flags_exact outs is" by (intro Cons.IH) blast
  moreover have "ei_last_use i = map (\<lambda>s. s \<notin> outs \<and> (\<forall>j \<in> set is. s \<notin> set (ei_input_slots j))) (ei_input_slots i)"
    using Cons.prems [rule_format, of 0, unfolded later nth_Cons_0] by simp
  then have "set (zip (ei_input_slots i) (ei_last_use i)) =
      (\<lambda>s. (s, s \<notin> outs \<and> (\<forall>j \<in> set is. s \<notin> set (ei_input_slots j)))) ` set (ei_input_slots i)"
    by (simp add: zip_map2 zip_same_conv_map)
  ultimately show ?case by auto
qed simp

definition same_code :: "exec_instruction \<Rightarrow> exec_instruction \<Rightarrow> bool" where
  "same_code i j \<longleftrightarrow> ei_op i = ei_op j \<and> ei_input_slots i = ei_input_slots j \<and> ei_output_slots i = ei_output_slots j"

lemma same_code_slots:
  "list_all2 same_code is js \<Longrightarrow>
    map ei_input_slots is = map ei_input_slots js \<and> map ei_output_slots is = map ei_output_slots js"
  by (induction rule: list_all2_induct) (simp_all add: same_code_def)

lemma map_upds_cong: "st s = st' s \<Longrightarrow> (st(xs [\<mapsto>] ys)) s = (st'(xs [\<mapsto>] ys)) s"
proof (induction xs arbitrary: st st' ys)
  case (Cons x xs)
  show ?case
  proof (cases ys)
    case y: (Cons y ys')
    have "(st(x \<mapsto> y)) s = (st'(x \<mapsto> y)) s" using Cons.prems by simp
    then have "((st(x \<mapsto> y))(xs [\<mapsto>] ys')) s = ((st'(x \<mapsto> y))(xs [\<mapsto>] ys')) s" by (rule Cons.IH)
    then show ?thesis by (simp add: y)
  qed (use Cons.prems in simp)
qed simp

lemma run_reclaiming_agrees:
  assumes "list_all2 same_code is js" and "flags_exact outs js"
    and "\<forall>s \<in> outs \<union> \<Union> (set ` ei_input_slots ` set js). st s = st' s"
  shows "rel_option (\<lambda>a b. \<forall>s \<in> outs. a s = b s) (run_instructions sem is st) (run_reclaiming sem js st')"
  using assms
proof (induction arbitrary: st st' rule: list_all2_induct)
  case (Cons i "is" j js)
  have c: "ei_op i = ei_op j" "ei_input_slots i = ei_input_slots j" "ei_output_slots i = ei_output_slots j"
    using Cons.hyps(1) by (simp_all add: same_code_def)
  have inp: "map st (ei_input_slots j) = map st' (ei_input_slots j)" using Cons.prems(2) by simp
  show ?case
  proof (cases "exec_step sem i st")
    case None
    have "exec_step sem j st' = None"
    proof (rule ccontr)
      assume "exec_step sem j st' \<noteq> None"
      then obtain st2 where "exec_step sem j st' = Some st2" by blast
      then obtain vs ws where "map st' (ei_input_slots j) = map Some vs" "sem (ei_op j) vs = Some ws"
        "length ws = length (ei_output_slots j)" by (auto simp: exec_step_eq_Some)
      then have "exec_step sem i st = Some (st(ei_output_slots i [\<mapsto>] ws))" using inp by (auto simp: exec_step_eq_Some c)
      with None show False by simp
    qed
    with None show ?thesis by simp
  next
    case (Some st1)
    then obtain vs ws where v: "map st (ei_input_slots i) = map Some vs" "sem (ei_op i) vs = Some ws"
      "length ws = length (ei_output_slots i)" "st1 = st(ei_output_slots i [\<mapsto>] ws)" by (auto simp: exec_step_eq_Some)
    let ?st1 = "st'(ei_output_slots j [\<mapsto>] ws)"
    have s': "exec_step sem j st' = Some ?st1" using v inp by (auto simp: exec_step_eq_Some c)
    have "\<forall>s \<in> outs \<union> \<Union> (set ` ei_input_slots ` set js). st1 s = reclaim_slots j ?st1 s"
    proof
      fix s assume s: "s \<in> outs \<union> \<Union> (set ` ei_input_slots ` set js)"
      then have "(s, True) \<notin> set (zip (ei_input_slots j) (ei_last_use j))" using Cons.prems(1) by auto
      moreover have "st s = st' s" using Cons.prems(2) s by auto
      ultimately show "st1 s = reclaim_slots j ?st1 s" using map_upds_cong by (simp add: reclaim_slots_apply v(4) c)
    qed
    with Cons.IH Cons.prems(1) show ?thesis using Some s' by simp
  qed
qed simp

lemma run_reclaiming_stays_None:
  "run_reclaiming sem js st = Some st' \<Longrightarrow> st s = None \<Longrightarrow> s \<notin> defs js \<Longrightarrow> st' s = None"
proof (induction js arbitrary: st)
  case (Cons j js)
  then obtain st1 where s: "exec_step sem j st = Some st1" "run_reclaiming sem js (reclaim_slots j st1) = Some st'"
    by (auto simp: bind_eq_Some_conv)
  have "st1 s = None" using s(1) Cons.prems(2,3) by (auto simp: exec_step_eq_Some map_upds_other)
  then show ?case using Cons.IH [OF s(2)] Cons.prems(3) by (simp add: reclaim_slots_apply)
qed simp

lemma run_reclaiming_releases:
  assumes "run_reclaiming sem js st = Some st'" and "flags_exact outs js" and "ordered D js"
    and "distinct (concat (map ei_output_slots js))" and "D \<inter> defs js = {}"
    and "s \<in> \<Union> (set ` ei_input_slots ` set js)" and "s \<notin> outs"
  shows "st' s = None"
  using assms
proof (induction js arbitrary: st D)
  case (Cons j js)
  from Cons.prems(1) obtain st1 where s: "exec_step sem j st = Some st1" "run_reclaiming sem js (reclaim_slots j st1) = Some st'"
    by (auto simp: bind_eq_Some_conv)
  have o: "set (ei_input_slots j) \<subseteq> D" "ordered (D \<union> set (ei_output_slots j)) js" using Cons.prems(3) by (simp_all add: ordered_Cons)
  have d: "set (ei_output_slots j) \<inter> defs js = {}" "distinct (concat (map ei_output_slots js))"
    using Cons.prems(4) by (auto simp: defs_def)
  show ?case
  proof (cases "\<exists>i \<in> set js. s \<in> set (ei_input_slots i)")
    case True
    have "(D \<union> set (ei_output_slots j)) \<inter> defs js = {}" using Cons.prems(5) d(1) by auto
    from Cons.IH [OF s(2) _ o(2) d(2) this] Cons.prems(2,7) True show ?thesis by auto
  next
    case False
    then have i: "s \<in> set (ei_input_slots j)" using Cons.prems(6) by auto
    then have "(s, True) \<in> set (zip (ei_input_slots j) (ei_last_use j))" using Cons.prems(2,7) False by auto
    then have "reclaim_slots j st1 s = None" by (simp add: reclaim_slots_apply)
    moreover have "s \<notin> defs js" using i o(1) Cons.prems(5) by auto
    ultimately show ?thesis by (rule run_reclaiming_stays_None [OF s(2)])
  qed
qed simp

lemma populate_last_use_flags:
  assumes "populate_last_use p = Ok p'"
  shows "list_all2 same_code (ep_instructions p) (ep_instructions p')"
    and "flags_exact (set (ep_output_slots p)) (ep_instructions p')"
proof -
  from populate_last_use_Ok(1) [OF assms] obtain flags where
    i: "ep_instructions p' = map (\<lambda>k. (ep_instructions p ! k)\<lparr>ei_last_use := flags k\<rparr>) [0..<length (ep_instructions p)]"
    and f: "\<forall>k < length (ep_instructions p). flags k = map (\<lambda>s. s \<notin> set (ep_output_slots p) \<and>
        (\<forall>j < length (ep_instructions p). k < j \<longrightarrow> s \<notin> set (ei_input_slots (ep_instructions p ! j))))
        (ei_input_slots (ep_instructions p ! k))" by blast
  show "list_all2 same_code (ep_instructions p) (ep_instructions p')"
    by (simp add: i list_all2_conv_all_nth same_code_def)
  show "flags_exact (set (ep_output_slots p)) (ep_instructions p')"
    by (rule flags_exact_nth) (use f in \<open>simp add: i\<close>)
qed

text \<open>The flags do not change what validation accepts.\<close>

lemma validate_instruction_flags:
  "validate_instruction n i = Ok () \<Longrightarrow> length flags = length (ei_input_slots i) \<Longrightarrow>
    validate_instruction n (i\<lparr>ei_last_use := flags\<rparr>) = Ok ()"
  by (auto simp: validate_instruction_def split: if_splits option.splits)

lemma validate_all_iff:
  "try_fold (\<lambda>_ i. validate_instruction n i) () is = Ok () \<longleftrightarrow> (\<forall>i \<in> set is. validate_instruction n i = Ok ())"
  by (induction "is") auto

lemma populate_last_use_validates:
  assumes "populate_last_use p = Ok p'" and "validate_exec_program p = Ok ()"
  shows "validate_exec_program p' = Ok ()"
proof -
  note P = populate_last_use_Ok [OF assms(1)]
  from P(1) obtain flags where
    i: "ep_instructions p' = map (\<lambda>k. (ep_instructions p ! k)\<lparr>ei_last_use := flags k\<rparr>) [0..<length (ep_instructions p)]"
    and f: "\<forall>k < length (ep_instructions p). flags k = map (\<lambda>s. s \<notin> set (ep_output_slots p) \<and>
        (\<forall>j < length (ep_instructions p). k < j \<longrightarrow> s \<notin> set (ei_input_slots (ep_instructions p ! j))))
        (ei_input_slots (ep_instructions p ! k))" by blast
  have "validate_instruction (ep_n_slots p) ((ep_instructions p ! k)\<lparr>ei_last_use := flags k\<rparr>) = Ok ()"
    if "k < length (ep_instructions p)" for k
    by (rule validate_instruction_flags) (use assms(2) f that in \<open>simp_all add: validate_exec_program_def validate_all_iff\<close>)
  then show ?thesis using assms(2) by (auto simp: validate_exec_program_def validate_all_iff P(2-4) i)
qed

lemma populate_last_use_result:
  assumes "populate_last_use p = Ok p'" and "validate_exec_program p = Ok ()"
  shows "reclaimed_result sem p' inputs = program_result sem p inputs"
proof -
  note P = populate_last_use_Ok(2,3) [OF assms(1)] and v = populate_last_use_validates [OF assms]
  have st: "initial_store p' inputs = initial_store p inputs" by (simp add: initial_store_def P)
  have "rel_option (\<lambda>a b. \<forall>s \<in> set (ep_output_slots p). a s = b s)
      (run_instructions sem (ep_instructions p) (initial_store p inputs))
      (run_reclaiming sem (ep_instructions p') (initial_store p inputs))"
    by (rule run_reclaiming_agrees [OF populate_last_use_flags [OF assms(1)]]) simp
  then show ?thesis
    by (cases rule: option.rel_cases) (auto simp: reclaimed_result_def program_result_def v P st intro!: collect_outputs_cong)
qed

text \<open>The pass fails only on slots outside the slot table.\<close>

lemma record_users_total:
  "(\<forall>e \<in> set es. \<forall>s \<in> set (ei_input_slots (snd e)). s < length users) \<Longrightarrow> \<exists>users'. try_fold record_users users es = Ok users'"
proof (induction es arbitrary: users)
  case (Cons e es)
  obtain k i where e: "e = (k, i)" by (cases e)
  have "record_users users e = Ok (foldl (\<lambda>t slot. t[slot := Some k]) users (ei_input_slots i))"
    using Cons.prems by (simp add: e record_users_def set_slots_fold)
  then show ?case using Cons.IH [of "foldl (\<lambda>t slot. t[slot := Some k]) users (ei_input_slots i)"] Cons.prems by simp
qed simp

lemma populate_last_use_total:
  assumes "\<forall>s \<in> set (ep_output_slots p). s < ep_n_slots p"
    and "\<forall>i \<in> set (ep_instructions p). \<forall>s \<in> set (ei_input_slots i). s < ep_n_slots p"
  shows "\<exists>p'. populate_last_use p = Ok p'"
proof -
  have "\<exists>out. try_fold (\<lambda>flags slot. set_slot ''last-use output slot'' flags slot True)
      (replicate (ep_n_slots p) False) (ep_output_slots p) = Ok out"
    using assms(1) by (simp add: set_slots_fold)
  moreover have "\<exists>users. try_fold record_users (replicate (ep_n_slots p) None)
      (zip [0..<length (ep_instructions p)] (ep_instructions p)) = Ok users"
    by (rule record_users_total) (use assms(2) in \<open>auto dest: set_zip_rightD\<close>)
  ultimately show ?thesis by (auto simp: populate_last_use_def)
qed

lemma check_slots_Ok: "check_slots n role slots = Ok u \<longleftrightarrow> (\<forall>s \<in> set slots. s < n)"
proof (cases "find (\<lambda>slot. n \<le> slot) slots")
  case None
  then have "\<forall>s \<in> set slots. s < n" by (auto simp: find_None_iff)
  with None show ?thesis by (simp add: check_slots_def)
next
  case (Some s)
  then have "s \<in> set slots" "n \<le> s" unfolding find_Some_iff by (metis nth_mem)+
  with Some show ?thesis by (auto simp: check_slots_def not_less [symmetric])
qed

lemma validate_exec_program_slots:
  assumes "validate_exec_program p = Ok u"
  shows "(\<forall>s \<in> set (ep_input_slots p) \<union> set (ep_output_slots p). s < ep_n_slots p) \<and>
    (\<forall>i \<in> set (ep_instructions p). \<forall>s \<in> set (ei_input_slots i) \<union> set (ei_output_slots i). s < ep_n_slots p)"
proof -
  have inst: "\<forall>s \<in> set (ei_input_slots i) \<union> set (ei_output_slots i). s < n" if "validate_instruction n i = Ok v" for n i v
    using that by (auto simp: validate_instruction_def check_slots_Ok split: if_splits)
  have all: "try_fold (\<lambda>_ i. validate_instruction n i) w is = Ok v \<Longrightarrow>
      \<forall>i \<in> set is. \<forall>s \<in> set (ei_input_slots i) \<union> set (ei_output_slots i). s < n" for n w v and "is" :: "exec_instruction list"
    by (induction "is" arbitrary: w) (auto dest: inst)
  show ?thesis
    using assms all by (auto simp: validate_exec_program_def check_slots_Ok)
qed

end
