(* ===== verification/Compiler_Theorems.thy ===== *)
theory Compiler_Theorems
  imports Exec_Liveness "HOL-Library.Code_Target_Numeral"
begin

text \<open>
  What the last passes of the compiler (\<open>crates/tenferro-runtime/src/compiler/mod.rs\<close>) promise the executor
  (\<open>exec.rs\<close>), for every meaning of the operations: dropping instructions and giving up slots early do not
  change the results of a program.
\<close>

text \<open>A sample program over integers: slot 2 is the sum of the inputs, slot 3 is never used, slot 4 is the result.\<close>

definition sample_instruction :: "exec_op \<Rightarrow> nat list \<Rightarrow> nat list \<Rightarrow> exec_instruction" where
  "sample_instruction op ins outs = \<lparr>ei_op = op, ei_semantic_index = None, ei_input_slots = ins, ei_output_slots = outs,
    ei_dtype = F64, ei_output_shapes = [[]], ei_output_extents = [[]], ei_last_use = []\<rparr>"

definition sample_program :: exec_program where
  "sample_program = \<lparr>ep_instructions = [sample_instruction Ex_Add [0, 1] [2], sample_instruction Ex_Negate [0] [3],
      sample_instruction Ex_Multiply [2, 1] [4]],
    ep_input_slots = [0, 1], ep_output_slots = [4], ep_n_slots = 5, ep_shape_guards = []\<rparr>"

definition sample_meaning :: "exec_op \<Rightarrow> int list \<Rightarrow> int list option" where
  "sample_meaning op vs = (case op of
     Ex_Add \<Rightarrow> Some [vs ! 0 + vs ! 1]
   | Ex_Multiply \<Rightarrow> Some [vs ! 0 * vs ! 1]
   | Ex_Negate \<Rightarrow> Some [- (vs ! 0)]
   | _ \<Rightarrow> None)"

lemma sample_well_formed: "well_formed sample_program"
  by (simp add: well_formed_def sample_program_def sample_instruction_def ordered_Cons)

lemma sample_run: "program_result sample_meaning sample_program [3, 4] = Some [28]"
  by (simp add: program_result_def sample_program_def sample_instruction_def exec_step_def initial_store_def sample_meaning_def)

text \<open>A program that lists a slot twice among its outputs fails in the end, whatever it computes: the first output
  takes the value.\<close>

lemma repeated_output_slot_fails:
  "\<not> distinct (ep_output_slots p) \<Longrightarrow> program_result sem p inputs = None"
  by (auto simp: program_result_def collect_outputs_eq_Some bind_eq_None_conv not_None_eq [symmetric] simp del: not_None_eq)

text \<open>C9: Dead code elimination preserves a program. For every meaning of the operations, when a well-formed
  program produces results, the program that is left produces the same results and is well formed; it is a
  subsequence of the instructions, and every instruction left is needed: one of its outputs is a result or is
  read by a later instruction that is left.\<close>

theorem dead_code_elimination_correct:
  assumes "well_formed p" and "program_result sem p inputs = Some results"
  shows "program_result sem (eliminate_dead_code p) inputs = Some results \<and> well_formed (eliminate_dead_code p) \<and>
    subseq (ep_instructions (eliminate_dead_code p)) (ep_instructions p) \<and>
    needed (set (ep_output_slots p)) (ep_instructions (eliminate_dead_code p))"
proof -
  from program_result_valuation [OF assms] obtain m where
    m: "valuation sem p inputs m" "map m (ep_output_slots p) = map Some results" "distinct (ep_output_slots p)" by blast
  have "map m (ep_output_slots (eliminate_dead_code p)) = map Some results" "distinct (ep_output_slots (eliminate_dead_code p))"
    using m(2,3) by simp_all
  from valuation_program_result [OF eliminate_dead_code_well_formed [OF assms(1)] eliminate_dead_code_valuation [OF m(1)] this]
  show ?thesis
    using eliminate_dead_code_well_formed [OF assms(1)] eliminate_dead_code_subseq eliminate_dead_code_needed by blast
qed

theorem dead_code_elimination_correct_witness:
  "program_result sample_meaning (eliminate_dead_code sample_program) [3, 4] = Some [28] \<and>
    map ei_output_slots (ep_instructions (eliminate_dead_code sample_program)) = [[2], [4]]"
proof -
  have "map ei_output_slots (ep_instructions (eliminate_dead_code sample_program)) = [[2], [4]]" by code_simp
  with dead_code_elimination_correct [OF sample_well_formed sample_run] show ?thesis by blast
qed

text \<open>C8: Giving slots up at their last use is safe and complete. For a validated program the last-use pass
  succeeds, and for every meaning of the operations a run that clears each slot when its last-use flag says so
  returns what a run that keeps all slots does, success or failure alike. And nothing is held on to: in a
  well-formed program every slot that some instruction reads and that is not a result is empty at the end.\<close>

theorem last_use_reclaim_correct:
  assumes "validate_exec_program p = Ok ()"
  shows "\<exists>p'. populate_last_use p = Ok p' \<and>
    (\<forall>inputs. reclaimed_result sem p' inputs = program_result sem p inputs) \<and>
    (well_formed p \<longrightarrow> (\<forall>st st' s. run_reclaiming sem (ep_instructions p') st = Some st' \<longrightarrow>
      (\<exists>i \<in> set (ep_instructions p). s \<in> set (ei_input_slots i)) \<longrightarrow> s \<notin> set (ep_output_slots p) \<longrightarrow> st' s = None))"
proof -
  note slots = validate_exec_program_slots [OF assms]
  obtain p' where p': "populate_last_use p = Ok p'"
    using populate_last_use_total [of p] slots by auto
  note P = populate_last_use_flags [OF p']
  have io: "map ei_input_slots (ep_instructions p') = map ei_input_slots (ep_instructions p)"
    "map ei_output_slots (ep_instructions p') = map ei_output_slots (ep_instructions p)"
    using same_code_slots [OF P(1)] by simp_all
  have released: "st' s = None"
    if wf: "well_formed p" and r: "run_reclaiming sem (ep_instructions p') st = Some st'"
      and s: "\<exists>i \<in> set (ep_instructions p). s \<in> set (ei_input_slots i)" "s \<notin> set (ep_output_slots p)" for st st' s
  proof (rule run_reclaiming_releases [OF r P(2)])
    show "ordered (set (ep_input_slots p)) (ep_instructions p')"
      unfolding ordered_same_slots [OF io] using wf by (simp add: well_formed_def)
    show "distinct (concat (map ei_output_slots (ep_instructions p')))" using wf io by (simp add: well_formed_def)
    show "set (ep_input_slots p) \<inter> defs (ep_instructions p') = {}" using wf io by (simp add: well_formed_def defs_def)
    have "set (map ei_input_slots (ep_instructions p')) = ei_input_slots ` set (ep_instructions p)" using io by simp
    then show "s \<in> \<Union> (set ` ei_input_slots ` set (ep_instructions p'))" using s(1) by auto
  qed (rule s(2))
  show ?thesis
  proof (intro exI [of _ p'] conjI allI impI)
    show "reclaimed_result sem p' inputs = program_result sem p inputs" for inputs
      by (rule populate_last_use_result [OF p' assms])
  qed (rule p', rule released)
qed

theorem last_use_reclaim_correct_witness:
  "\<exists>p'. populate_last_use sample_program = Ok p' \<and> reclaimed_result sample_meaning p' [3, 4] = Some [28] \<and>
    map ei_last_use (ep_instructions p') = [[False, False], [True], [True, True]]"
proof -
  have v: "validate_exec_program sample_program = Ok ()" by code_simp
  have "map_err (\<lambda>_. ()) (and_then (populate_last_use sample_program) (\<lambda>p'. Ok (map ei_last_use (ep_instructions p')))) =
      Ok [[False, False], [True], [True, True]]" by code_simp
  then have f: "map ei_last_use (ep_instructions p') = [[False, False], [True], [True, True]]"
    if "populate_last_use sample_program = Ok p'" for p' using that by simp
  from last_use_reclaim_correct [OF v, of sample_meaning] f sample_run show ?thesis by metis
qed

end
