(* ===== verification/Spec2Isabelle.thy ===== *)
theory Spec2Isabelle
  imports Layout_Theorems Tensor_Theorems Shape_Theorems Pool_Theorems Einsum_Theorems Infer_Theorems Lowering_Theorems Compiler_Theorems
begin

text \<open>
  A verification library for the shape, layout, memory and einsum-planning core of tenferro-rs.

  \<^bold>\<open>Parts of the program.\<close> tenferro-rs is a dense tensor library. Tensors are element buffers with
  a layout (\<open>crates/tenferro-tensor-core\<close>); operations infer their shapes from symbolic dimension
  expressions (\<open>crates/tenferro-internal-ops\<close>); a traced program records constraints on the
  shapes of its inputs, which the runtime solves once into guards
  (\<open>crates/tenferro-runtime/src/shape_constraint\<close>); CPU kernels take their buffers from a pool
  (\<open>crates/tenferro-cpu-basic/src/buffer_pool.rs\<close>); einsum expressions are parsed, planned as a
  sequence of pairwise contractions and lowered to tensor operations (\<open>crates/tenferro-einsum\<close>); and a
  traced program is compiled to an execution program over numbered slots, which an executor runs
  (\<open>crates/tenferro-runtime/src/compiler\<close>, \<open>exec.rs\<close>).

  \<^bold>\<open>Theories.\<close>
  \<^item> \<open>Prelude\<close>: results as sums with \<open>and_then\<close>, folds and traversals that stop at the first error,
    checked and saturating 64-bit arithmetic (\<open>usize\<close> is a natural number below \<open>2^64\<close>,
    \<open>isize\<close> an integer in \<open>[-2^63, 2^63)\<close>; every checked operation is a branch).
    \<open>Ordered_Map\<close>: the locale of an ordered map and sorted association lists, the model of \<open>BTreeMap\<close>.
  \<^item> \<open>Tensor_Core\<close>, \<open>Index_Space\<close>: \<open>error.rs\<close>, \<open>rank.rs\<close>, \<open>scalar.rs\<close>, \<open>scalar_set.rs\<close>, shape
    products, strides and column-major positions of \<open>lib.rs\<close>.
  \<^item> \<open>Layout\<close>, \<open>Layout_Views\<close>, \<open>Layout_Overlap\<close>: \<open>layout.rs\<close>, with the record \<open>layout\<close> (shape,
    strides, offset) for \<open>TensorLayout\<close>, its bounds check, its views and its overlap check.
    \<open>Host_View\<close>: \<open>HostTensor\<close> and \<open>HostTensorView\<close> of \<open>lib.rs\<close>. \<open>Erased\<close>: \<open>erased.rs\<close>.
  \<^item> \<open>Dim_Expr\<close>, \<open>Shape_Rules\<close>: \<open>dim_expr.rs\<close>, \<open>sym_dim.rs\<close>, \<open>broadcast.rs\<close>, \<open>axis.rs\<close>, \<open>reduction.rs\<close>,
    \<open>shape_extent.rs\<close>, \<open>input_key.rs\<close> and \<open>shape_constraint.rs\<close>.
  \<^item> \<open>Symbol_Sets\<close>, \<open>Expr_Order\<close>, \<open>Shape_Solver\<close>, \<open>Solver_Correct\<close>: \<open>shape_constraint/solver.rs\<close>, its
    union-find, the ordering of expressions, normalisation and \<open>discharge\<close>, and its correctness.
  \<^item> \<open>Buffer_Pool\<close>, \<open>Buffer_Pool_Correct\<close>: \<open>buffer_pool.rs\<close> as a state machine over \<open>pool_state\<close>.
  \<^item> \<open>Einsum_Syntax\<close> (\<open>syntax/notation.rs\<close>, \<open>syntax/subscripts.rs\<close>, \<open>subscripts.rs\<close>),
    \<open>Einsum_Nested\<close> (\<open>syntax/nested.rs\<close>), \<open>Einsum_Ellipsis\<close> (\<open>ellipsis.rs\<close>), \<open>Einsum_Util\<close>
    (\<open>util.rs\<close>), \<open>Einsum_Plan\<close> (\<open>planning/classify.rs\<close>, \<open>strict_binary.rs\<close>, \<open>plan.rs\<close>) with
    \<open>Einsum_Plan_Correct\<close>, \<open>Einsum_Tree\<close> (\<open>planning/tree.rs\<close>) and \<open>Einsum_Path\<close> (\<open>optimize.rs\<close>),
    with \<open>Einsum_Path_Correct\<close> and \<open>Einsum_Path_Sources\<close> on accepted paths.
    A notation is a list of Unicode scalar values, a \<open>HashMap\<close> from labels a map, a \<open>HashSet\<close> a set;
    the code never lets their iteration order reach a result.
  \<^item> \<open>Tensor_Op\<close>: the operations (\<open>catalog.rs\<close>, \<open>std_tensor_op.rs\<close>), their configurations
    (\<open>config.rs\<close>) and the backend's checks of axes and contractions. \<open>Shape_Infer\<close>,
    \<open>Shape_Infer_Correct\<close>: \<open>shape_infer.rs\<close>; an extension operation is a record of its callbacks.
  \<^item> \<open>Einsum_Builder\<close>: \<open>builder.rs\<close> and \<open>binary_dot.rs\<close>, the lowering of a contraction tree to a graph of
    operations. The graph builder of the \<open>computegraph\<close> crate is a parameter with the contract of the
    locale \<open>graph_values\<close>. \<open>Label_Sums\<close>, \<open>Tensor_Values\<close> give operations a reference meaning over
    any commutative semiring; \<open>Einsum_Lowering\<close>, \<open>Einsum_Contract\<close>, \<open>Einsum_Graph\<close> and
    \<open>Einsum_Direct\<close> relate the lowering to the sum of products an einsum denotes.
  \<^item> \<open>Exec_Program\<close>: execution programs and their validation (\<open>exec.rs\<close>, \<open>catalog.rs\<close>). \<open>Liveness_Passes\<close>: dead
    code elimination and last uses (\<open>compiler/mod.rs\<close>). \<open>Exec_Semantics\<close>: the executor that gives slots up at
    their last use, and the reference that keeps them, over any meaning of the operations; \<open>Exec_Liveness\<close>
    relates the two.
  \<^item> \<open>Layout_Theorems\<close>, \<open>Tensor_Theorems\<close>, \<open>Shape_Theorems\<close>, \<open>Pool_Theorems\<close>, \<open>Einsum_Theorems\<close>,
    \<open>Infer_Theorems\<close>, \<open>Lowering_Theorems\<close>, \<open>Compiler_Theorems\<close>: the properties of each part.

  \<^bold>\<open>Bounds and fuel.\<close> No definition has arbitrary fuel. The union-find walk is bounded by the number
  of entries of its map, which suffices because parents only descend; the overlap search stops at the
  4096 indices the code itself allows; the eviction loop terminates because every round removes a
  buffer (measure \<open>pool_count\<close>); the diagonal, fresh-label and greedy planning loops have measures.
  Panics of the code (indexing, arithmetic overflow in debug builds) are error values.

  \<^bold>\<open>Not modelled.\<close> Kernels over floating-point buffers, device backends, linear algebra and FFT call
  third-party libraries. The optimiser of the \<open>omeco\<close> crate is a parameter of the planner, the
  graph builder of \<open>computegraph\<close> a parameter of the lowering; the kernels an execution program calls are a
  parameter of its meaning, and the reference meaning of einsum operations is exact, without rounding. The
  compiler passes that rewrite operations (conjugation, contraction axes, layouts, transposes) are not
  modelled. \<open>PROJECT.json\<close> lists the parts.
\<close>

end
